(* ===== verification/VS_Prelude.thy ===== *)
theory VS_Prelude
  imports "HOL-Library.Word" "HOL-Library.Code_Target_Numeral"
begin

text \<open>
  Shared material of the development: the machine integer types of
  \<^verbatim>\<open>ue2common.h\<close>, the fact collections the component theories fill, and generic
  lemmas on lists, words and Moore machines that several components use.
\<close>

unbundle bit_operations_syntax

section \<open>Machine integers\<close>

type_synonym u8 = "8 word"
type_synonym u16 = "16 word"
type_synonym u32 = "32 word"
type_synonym u64a = "64 word"

text \<open>
  Where the source keeps an index in a \<^verbatim>\<open>u16\<close> (\<^verbatim>\<open>dstate_id_t\<close>,
  \<^verbatim>\<open>symbol_t\<close>) the model keeps a \<open>nat\<close> and writes the truncation out.
\<close>

definition u16_of_nat :: "nat \<Rightarrow> nat" where
  "u16_of_nat n = n mod 65536"

definition u8_of_nat :: "nat \<Rightarrow> nat" where
  "u8_of_nat n = n mod 256"

lemma u16_of_nat_small [simp]: "n < 65536 \<Longrightarrow> u16_of_nat n = n"
  by (simp add: u16_of_nat_def)

lemma u8_of_nat_small [simp]: "n < 256 \<Longrightarrow> u8_of_nat n = n"
  by (simp add: u8_of_nat_def)

section \<open>Words\<close>

lemma u32_unat_of_nat [simp]: "n < 2 ^ 32 \<Longrightarrow> unat (of_nat n :: u32) = n"
  by (simp add: unat_of_nat take_bit_nat_eq_self)

lemma u32_of_nat_inj: "m < 2 ^ 32 \<Longrightarrow> n < 2 ^ 32 \<Longrightarrow> (of_nat m :: u32) = of_nat n \<longleftrightarrow> m = n"
  by (metis u32_unat_of_nat)

lemma u32_of_nat_le: "m < 2 ^ 32 \<Longrightarrow> n < 2 ^ 32 \<Longrightarrow> (of_nat m :: u32) \<le> of_nat n \<longleftrightarrow> m \<le> n"
  by (simp add: word_le_nat_alt)

lemma u32_of_nat_less: "m < 2 ^ 32 \<Longrightarrow> n < 2 ^ 32 \<Longrightarrow> (of_nat m :: u32) < of_nat n \<longleftrightarrow> m < n"
  by (simp add: word_less_nat_alt)

lemma u32_of_nat_top_bit: "n < 2 ^ 31 \<Longrightarrow> (of_nat n :: u32) AND 0x80000000 = 0"
proof -
  assume "n < 2 ^ 31"
  then have "\<not> bit n 31" by (simp add: bit_iff_odd)
  then have "\<not> bit (of_nat n :: u32) 31" by (simp add: bit_of_nat_iff)
  then have "(of_nat n :: u32) AND 2 ^ 31 = 0"
    by (simp only: and_exp_eq_0_iff_not_bit not_False_eq_True)
  then show ?thesis by simp
qed

lemma unat_and_mask: "unat (b AND mask k) = unat b mod 2 ^ k" for b :: "'a::len word"
  by (simp add: take_bit_eq_mask [symmetric] unsigned_take_bit_eq) (simp add: take_bit_eq_mod)

lemma unat_disjoint_or:
  assumes "\<And>j. \<not> bit x j \<or> \<not> bit y j"
  shows "unat (x OR y) = unat x + unat y"
proof -
  have "int (unat (x OR y)) = int (unat x) OR int (unat y)" by (simp add: unsigned_or_eq of_nat_or_eq)
  also have "\<dots> = int (unat x) + int (unat y)"
    using assms by (intro disjunctive_add [symmetric]) (simp add: bit_uint_iff flip: uint_nat)
  finally show ?thesis by linarith
qed

lemma unat_and_not_mask: "unat (b AND NOT (mask k)) = unat b div 2 ^ k * 2 ^ k" for b :: "'a::len word"
proof -
  have "b = (b AND mask k) OR (b AND NOT (mask k))" by (rule bit_eqI) (auto simp: bit_simps)
  then have "unat b = unat (b AND mask k) + unat (b AND NOT (mask k))"
    using unat_disjoint_or [of "b AND mask k" "b AND NOT (mask k)"] by (auto simp: bit_simps)
  then have "unat (b AND NOT (mask k)) = unat b - unat b mod 2 ^ k" by (simp add: unat_and_mask)
  then show ?thesis by (simp add: minus_mod_eq_div_mult)
qed

lemma word_or_and_clear: fixes w b :: "'a::len word" shows "w AND b = 0 \<Longrightarrow> (b OR w) AND NOT b = w"
  by (intro bit_word_eqI) (metis bit_and_iff bit_not_iff bit_or_iff bit_0_eq bot_apply impossible_bit bot_bool_def)

lemma word_or_and_self: fixes w b :: "'a::len word" shows "(b OR w) AND b = b"
  by (intro bit_word_eqI) (auto simp: bit_simps)

section \<open>Lists\<close>

lemma nth_list_update_if:
  "i < length xs \<Longrightarrow> xs[i := x] ! j = (if i = j then x else xs ! j)"
  by simp

lemma foldl_preserves:
  assumes "\<And>a x. P a \<Longrightarrow> x \<in> set xs \<Longrightarrow> P (f a x)" and "P a"
  shows "P (foldl f a xs)"
  using assms by (induction xs arbitrary: a) auto

lemma sorted_filter_upt [simp]: "sorted (filter P [a..<b])"
  by (rule sorted_wrt_filter) simp

lemma distinct_filter_upt [simp]: "distinct (filter P [a..<b])"
  by simp

lemma sorted_hd_le: "sorted xs \<Longrightarrow> x \<in> set xs \<Longrightarrow> hd xs \<le> x"
  by (cases xs) auto

lemma sorted_le_last: "sorted xs \<Longrightarrow> x \<in> set xs \<Longrightarrow> x \<le> last xs"
  by (induction xs) auto

text \<open>\<^verbatim>\<open>std::lower_bound\<close> on a sorted range: the suffix from the first element not below the key.\<close>

definition lower_bound :: "'a::linorder list \<Rightarrow> 'a \<Rightarrow> 'a list" where
  "lower_bound xs x = dropWhile (\<lambda>y. y < x) xs"

lemma set_lower_bound:
  "sorted xs \<Longrightarrow> set (lower_bound xs x) = {y \<in> set xs. x \<le> y}"
  unfolding lower_bound_def by (induction xs) auto

lemma sorted_lower_bound: "sorted xs \<Longrightarrow> sorted (lower_bound xs x)"
  unfolding lower_bound_def by (simp add: sorted_dropWhile)

lemma hd_lower_bound:
  "sorted xs \<Longrightarrow> lower_bound xs x = y # ys \<Longrightarrow> x \<le> y \<and> (x \<in> set xs \<longleftrightarrow> x = y)"
  using set_lower_bound [of xs x] sorted_lower_bound [of xs x]
  by (auto simp: set_eq_iff) (metis order_antisym order_refl)+

lemma lower_bound_Nil_iff:
  "sorted xs \<Longrightarrow> lower_bound xs x = [] \<longleftrightarrow> (\<forall>y \<in> set xs. y < x)"
  unfolding lower_bound_def by (simp add: dropWhile_eq_Nil_conv)

lemma length_foldl_update [simp]: "length (foldl (\<lambda>m e. m[f e := g e]) m es) = length m"
  by (induction es arbitrary: m) auto

lemma nth_foldl_update_const:
  "j < length m \<Longrightarrow> foldl (\<lambda>m e. m[f e := v]) m es ! j = (if j \<in> f ` set es then v else m ! j)"
  by (induction es arbitrary: m) (auto simp: nth_list_update)

section \<open>Moore machines\<close>

text \<open>
  Every DFA of the code base is observed through the reports of the state it is in after a
  sequence of symbols. The interface below is what any transformation of such machines has to
  provide: a relation between states of the two machines that agrees on the observations and is
  kept by every symbol of the alphabet. Its conclusion, equal observations after every word, is
  proved once.
\<close>

locale moore_simulation =
  fixes step_c :: "'c \<Rightarrow> 'sym \<Rightarrow> 'c"
    and obs_c :: "'c \<Rightarrow> 'o"
    and step_a :: "'a \<Rightarrow> 'sym \<Rightarrow> 'a"
    and obs_a :: "'a \<Rightarrow> 'o"
    and valid :: "'c \<Rightarrow> 'sym \<Rightarrow> bool"
    and rel :: "'c \<Rightarrow> 'a \<Rightarrow> bool"
  assumes obs_rel: "rel c a \<Longrightarrow> obs_c c = obs_a a"
    and step_rel: "rel c a \<Longrightarrow> valid c x \<Longrightarrow> rel (step_c c x) (step_a a x)"
    and valid_step: "rel c a \<Longrightarrow> valid c x \<Longrightarrow> valid c y \<Longrightarrow> valid (step_c c x) y"
begin

lemma run_rel:
  "rel c a \<Longrightarrow> (\<And>x. x \<in> set w \<Longrightarrow> valid c x) \<Longrightarrow> rel (foldl step_c c w) (foldl step_a a w)"
proof (induction w arbitrary: c a)
  case Nil
  then show ?case by simp
next
  case (Cons x w)
  have "rel (step_c c x) (step_a a x)"
    using Cons.prems by (auto intro: step_rel)
  moreover have "valid (step_c c x) y" if "y \<in> set w" for y
    using Cons.prems that by (auto intro: valid_step)
  ultimately show ?case
    using Cons.IH by simp
qed

lemma run_obs:
  "rel c a \<Longrightarrow> (\<And>x. x \<in> set w \<Longrightarrow> valid c x) \<Longrightarrow> obs_c (foldl step_c c w) = obs_a (foldl step_a a w)"
  by (rule obs_rel) (rule run_rel)

end

end
