(* ===== verification/FlatContainers.thy ===== *)
theory FlatContainers
  imports VS_Prelude
begin

text \<open>
  The sorted-vector containers \<^verbatim>\<open>flat_set\<close> and \<^verbatim>\<open>flat_map\<close> of
  \<^verbatim>\<open>util/flat_containers.h\<close>. A container is its storage vector, a list; an iterator is a
  position in it and \<^verbatim>\<open>end()\<close> is the length. The locales state what clients rely
  on (a set, a map); the interpretations show that the binary-search code provides it. The same
  model serves for \<^verbatim>\<open>std::set\<close> and \<^verbatim>\<open>std::map\<close>, which have the
  same observable behaviour (iteration in key order).
\<close>

section \<open>Operations\<close>

definition flat_lower_bound :: "'a::linorder list \<Rightarrow> 'a \<Rightarrow> nat" where
  "flat_lower_bound xs v = length (takeWhile (\<lambda>y. y < v) xs)"

definition flat_set_insert :: "'a::linorder list \<Rightarrow> 'a \<Rightarrow> 'a list \<times> nat \<times> bool" where
  "flat_set_insert xs v =
     (let it = flat_lower_bound xs v
      in if it = length xs \<or> v < xs ! it then (take it xs @ v # drop it xs, it, True)
         else (xs, it, False))"

definition flat_set_insert_range :: "'a::linorder list \<Rightarrow> 'a list \<Rightarrow> 'a list" where
  "flat_set_insert_range xs vs = foldl (\<lambda>s v. fst (flat_set_insert s v)) xs vs"

definition flat_set_find :: "'a::linorder list \<Rightarrow> 'a \<Rightarrow> nat" where
  "flat_set_find xs v =
     (let it = flat_lower_bound xs v
      in if it \<noteq> length xs \<and> v < xs ! it then length xs else it)"

definition flat_set_count :: "'a::linorder list \<Rightarrow> 'a \<Rightarrow> nat" where
  "flat_set_count xs v = (if flat_set_find xs v \<noteq> length xs then 1 else 0)"

definition flat_set_erase :: "'a::linorder list \<Rightarrow> 'a \<Rightarrow> 'a list" where
  "flat_set_erase xs v =
     (let it = flat_set_find xs v
      in if it \<noteq> length xs then take it xs @ drop (Suc it) xs else xs)"

definition flat_map_lower_bound :: "('k::linorder \<times> 'v) list \<Rightarrow> 'k \<Rightarrow> nat" where
  "flat_map_lower_bound m k = length (takeWhile (\<lambda>e. fst e < k) m)"

definition flat_map_insert :: "('k::linorder \<times> 'v) list \<Rightarrow> 'k \<times> 'v \<Rightarrow> ('k \<times> 'v) list \<times> nat \<times> bool" where
  "flat_map_insert m e =
     (let it = flat_map_lower_bound m (fst e)
      in if it = length m \<or> fst e < fst (m ! it) then (take it m @ e # drop it m, it, True)
         else (m, it, False))"

definition flat_map_find :: "('k::linorder \<times> 'v) list \<Rightarrow> 'k \<Rightarrow> nat" where
  "flat_map_find m k =
     (let it = flat_map_lower_bound m k
      in if it \<noteq> length m \<and> k < fst (m ! it) then length m else it)"

datatype flat_error = OutOfRange

definition flat_map_at :: "('k::linorder \<times> 'v) list \<Rightarrow> 'k \<Rightarrow> flat_error + 'v" where
  "flat_map_at m k =
     (let it = flat_map_find m k
      in if it = length m then Inl OutOfRange else Inr (snd (m ! it)))"

definition flat_map_erase :: "('k::linorder \<times> 'v) list \<Rightarrow> 'k \<Rightarrow> ('k \<times> 'v) list" where
  "flat_map_erase m k =
     (let it = flat_map_find m k
      in if it \<noteq> length m then take it m @ drop (Suc it) m else m)"

text \<open>
  \<^verbatim>\<open>m[k] = v\<close>: \<^verbatim>\<open>operator[]\<close> inserts a default element when the key is
  absent and returns a reference to the mapped value, which the assignment writes.
\<close>

definition flat_map_assign :: "('k::linorder \<times> 'v) list \<Rightarrow> 'v \<Rightarrow> 'k \<Rightarrow> 'v \<Rightarrow> ('k \<times> 'v) list" where
  "flat_map_assign m dflt k v =
     (let (m', it, _) = flat_map_insert m (k, dflt) in m'[it := (fst (m' ! it), v)])"

section \<open>The invariant and the position of a key\<close>

definition flat_set_ok :: "'a::linorder list \<Rightarrow> bool" where
  "flat_set_ok xs \<longleftrightarrow> sorted_wrt (<) xs"

definition flat_map_ok :: "('k::linorder \<times> 'v) list \<Rightarrow> bool" where
  "flat_map_ok m \<longleftrightarrow> sorted_wrt (<) (map fst m)"

text \<open>
  A search position either splits the vector around an absent key or points at the key's only
  element. Sets are the case of elements that are their own keys.
\<close>

lemma flat_pos_cases:
  fixes m :: "'a list" and f :: "'a \<Rightarrow> 'k::linorder" and k :: 'k
  assumes srt: "sorted_wrt (<) (map f m)"
  obtains (absent) as bs where "m = as @ bs" "length (takeWhile (\<lambda>e. f e < k) m) = length as"
      "\<forall>e \<in> set as. f e < k" "\<forall>e \<in> set bs. k < f e"
  | (present) as e bs where "m = as @ e # bs" "length (takeWhile (\<lambda>e. f e < k) m) = length as"
      "f e = k" "\<forall>e \<in> set as. f e < k" "\<forall>e \<in> set bs. k < f e"
proof -
  define as where "as = takeWhile (\<lambda>e. f e < k) m"
  define cs where "cs = dropWhile (\<lambda>e. f e < k) m"
  have m: "m = as @ cs" by (simp add: as_def cs_def)
  have as: "\<forall>e \<in> set as. f e < k" by (auto simp: as_def dest: set_takeWhileD)
  have len: "length (takeWhile (\<lambda>e. f e < k) m) = length as" by (simp add: as_def)
  show thesis
  proof (cases cs)
    case Nil
    then show thesis using absent [of as cs] m as len by simp
  next
    case (Cons e bs)
    have "\<not> f e < k"
      using hd_dropWhile [of "\<lambda>e. f e < k" m] Cons unfolding cs_def by (metis list.sel(1) list.distinct(1))
    moreover have bs: "\<forall>x \<in> set bs. f e < f x" using srt m Cons by (simp add: sorted_wrt_append)
    ultimately consider "f e = k" | "k < f e" by fastforce
    then show thesis
    proof cases
      case 1
      then show thesis using present [of as e bs] m as len Cons bs by simp
    next
      case 2
      then show thesis using absent [of as cs] m as len Cons bs by force
    qed
  qed
qed

lemmas flat_set_pos_cases = flat_pos_cases [where f = "\<lambda>x. x", simplified, folded flat_set_ok_def, case_names absent present]
lemmas flat_map_pos_cases = flat_pos_cases [where f = fst, folded flat_map_ok_def, case_names absent present]
lemmas flat_set_defs = flat_set_insert_def flat_set_find_def flat_set_count_def flat_set_erase_def
  flat_lower_bound_def Let_def
lemmas flat_map_defs = flat_map_insert_def flat_map_find_def flat_map_at_def flat_map_erase_def
  flat_map_assign_def flat_map_lower_bound_def Let_def

section \<open>Interfaces\<close>

text \<open>What a client of a set container relies on: the abstraction to a set and the invariant.\<close>

locale set_container =
  fixes empty :: 's
    and ins :: "'s \<Rightarrow> 'a \<Rightarrow> 's"
    and del :: "'s \<Rightarrow> 'a \<Rightarrow> 's"
    and isin :: "'s \<Rightarrow> 'a \<Rightarrow> bool"
    and elems :: "'s \<Rightarrow> 'a set"
    and ok :: "'s \<Rightarrow> bool"
  assumes elems_empty: "elems empty = {}"
    and elems_ins: "ok s \<Longrightarrow> elems (ins s x) = insert x (elems s)"
    and elems_del: "ok s \<Longrightarrow> elems (del s x) = elems s - {x}"
    and isin_iff: "ok s \<Longrightarrow> isin s x \<longleftrightarrow> x \<in> elems s"
    and ok_empty: "ok empty"
    and ok_ins: "ok s \<Longrightarrow> ok (ins s x)"
    and ok_del: "ok s \<Longrightarrow> ok (del s x)"
begin

lemma ok_insert_all: "ok s \<Longrightarrow> ok (foldl ins s xs)"
  by (induction xs arbitrary: s) (auto simp: ok_ins)

lemma elems_insert_all: "ok s \<Longrightarrow> elems (foldl ins s xs) = elems s \<union> set xs"
  by (induction xs arbitrary: s) (auto simp: ok_ins elems_ins)

lemma ok_insert_lists: "ok s \<Longrightarrow> ok (foldl (\<lambda>s x. foldl ins s (f x)) s xs)"
  by (induction xs arbitrary: s) (auto simp: ok_insert_all)

lemma elems_insert_lists:
  "ok s \<Longrightarrow> elems (foldl (\<lambda>s x. foldl ins s (f x)) s xs) = elems s \<union> (\<Union>x\<in>set xs. set (f x))"
  by (induction xs arbitrary: s) (auto simp: ok_insert_all elems_insert_all)

lemma elems_erase_all: "ok s \<Longrightarrow> elems (foldl del s xs) = elems s - set xs"
  by (induction xs arbitrary: s) (auto simp: ok_del elems_del)

lemma ok_erase_all: "ok s \<Longrightarrow> ok (foldl del s xs)"
  by (induction xs arbitrary: s) (auto simp: ok_del)

end

locale map_container =
  fixes empty :: 'm
    and put :: "'m \<Rightarrow> 'k \<Rightarrow> 'v \<Rightarrow> 'm"
    and del :: "'m \<Rightarrow> 'k \<Rightarrow> 'm"
    and get :: "'m \<Rightarrow> 'k \<Rightarrow> 'v option"
    and entries :: "'m \<Rightarrow> 'k \<rightharpoonup> 'v"
    and ok :: "'m \<Rightarrow> bool"
  assumes entries_empty: "entries empty = Map.empty"
    and entries_put: "ok m \<Longrightarrow> entries (put m k v) = (entries m)(k \<mapsto> v)"
    and entries_del: "ok m \<Longrightarrow> entries (del m k) = (entries m)(k := None)"
    and get_entries: "ok m \<Longrightarrow> get m k = entries m k"
    and ok_empty: "ok empty"
    and ok_put: "ok m \<Longrightarrow> ok (put m k v)"
    and ok_del: "ok m \<Longrightarrow> ok (del m k)"
begin

lemma ok_put_all: "ok m \<Longrightarrow> ok (foldl (\<lambda>m x. put m (f x) (g x)) m xs)"
  by (induction xs arbitrary: m) (auto simp: ok_put)

lemma entries_put_all:
  "ok m \<Longrightarrow> inj_on f (set xs) \<Longrightarrow> distinct xs \<Longrightarrow>
   entries (foldl (\<lambda>m x. put m (f x) (g x)) m xs) k =
     (if k \<in> f ` set xs then Some (g (the_inv_into (set xs) f k)) else entries m k)"
proof (induction xs rule: rev_induct)
  case Nil
  then show ?case by simp
next
  case (snoc x xs)
  have inj: "inj_on f (set xs)" "inj_on f (insert x (set xs))" and x: "x \<notin> set xs" "distinct xs"
    using snoc.prems by (auto simp: inj_on_def)
  have old: "the_inv_into (insert x (set xs)) f k = the_inv_into (set xs) f k" if "k \<in> f ` set xs"
    using that inj by (auto simp: the_inv_into_f_f)
  have new: "the_inv_into (insert x (set xs)) f (f x) = x"
    by (rule the_inv_into_f_f [OF inj(2)]) simp
  have fresh: "f x \<notin> f ` set xs"
    using inj(2) x(1) by (auto simp: inj_on_def)
  show ?case
    using snoc.IH [OF snoc.prems(1) inj(1) x(2)] snoc.prems(1) old new fresh
    by (auto simp: entries_put ok_put_all)
qed

end

section \<open>The containers provide the interfaces\<close>

lemma flat_set_insert_spec:
  assumes "flat_set_ok xs"
  shows "set (fst (flat_set_insert xs v)) = insert v (set xs)"
    and "flat_set_ok (fst (flat_set_insert xs v))"
    and "snd (snd (flat_set_insert xs v)) \<longleftrightarrow> v \<notin> set xs"
    and "fst (flat_set_insert xs v) ! fst (snd (flat_set_insert xs v)) = v"
  using assms
  by (cases rule: flat_set_pos_cases [OF assms, of v];
      auto simp: flat_set_defs flat_set_ok_def sorted_wrt_append nth_append)+

lemma flat_set_find_spec:
  assumes "flat_set_ok xs"
  shows "flat_set_find xs v \<noteq> length xs \<longleftrightarrow> v \<in> set xs"
  by (cases rule: flat_set_pos_cases [OF assms, of v]; auto simp: flat_set_defs nth_append)

lemma flat_set_erase_spec:
  assumes "flat_set_ok xs"
  shows "set (flat_set_erase xs v) = set xs - {v}" and "flat_set_ok (flat_set_erase xs v)"
  using assms
  by (cases rule: flat_set_pos_cases [OF assms, of v];
      auto simp: flat_set_defs flat_set_ok_def sorted_wrt_append nth_append)+

lemma flat_set_ok_Nil [simp]: "flat_set_ok []"
  by (simp add: flat_set_ok_def)

interpretation fset: set_container "[]" "\<lambda>s x. fst (flat_set_insert s x)" flat_set_erase
  "\<lambda>s x. flat_set_count s x = 1" set flat_set_ok
  by unfold_locales
    (simp_all add: flat_set_insert_spec flat_set_erase_spec flat_set_count_def flat_set_find_spec
      flat_set_ok_Nil)

lemma map_of_insert_mid:
  "k \<notin> fst ` set as \<Longrightarrow> map_of (as @ (k, v) # bs) = (map_of (as @ bs))(k \<mapsto> v)"
  by (induction as) (auto simp: fun_upd_twist)

lemma map_of_remove_mid:
  "k \<notin> fst ` set as \<Longrightarrow> k \<notin> fst ` set bs \<Longrightarrow>
   map_of (as @ bs) = (map_of (as @ (k, v) # bs))(k := None)"
  by (auto simp: map_of_insert_mid map_of_eq_None_iff simp del: map_of_append intro!: ext)

lemma flat_keys_less:
  "\<forall>e \<in> set as. fst e < (k::'k::linorder) \<Longrightarrow> k \<notin> fst ` set as"
  "\<forall>e \<in> set as. k < fst e \<Longrightarrow> k \<notin> fst ` set as"
  by auto

lemma flat_map_insert_spec:
  assumes "flat_map_ok m"
  shows "flat_map_ok (fst (flat_map_insert m (k, v)))"
    and "snd (snd (flat_map_insert m (k, v))) \<longleftrightarrow> k \<notin> fst ` set m"
    and "map_of (fst (flat_map_insert m (k, v))) =
         (if k \<in> fst ` set m then map_of m else (map_of m)(k \<mapsto> v))"
proof (atomize (full), cases rule: flat_map_pos_cases [OF assms, of k, case_names absent present])
  case (absent as bs)
  then show "flat_map_ok (fst (flat_map_insert m (k, v))) \<and>
    (snd (snd (flat_map_insert m (k, v))) \<longleftrightarrow> k \<notin> fst ` set m) \<and>
    map_of (fst (flat_map_insert m (k, v))) =
      (if k \<in> fst ` set m then map_of m else (map_of m)(k \<mapsto> v))"
    using assms map_of_insert_mid [of k as v bs] flat_keys_less(1) [OF absent(3)] flat_keys_less(2) [OF absent(4)]
    by (auto simp: flat_map_defs flat_map_ok_def sorted_wrt_append nth_append simp del: map_of_append)
next
  case (present as e bs)
  then show "flat_map_ok (fst (flat_map_insert m (k, v))) \<and>
    (snd (snd (flat_map_insert m (k, v))) \<longleftrightarrow> k \<notin> fst ` set m) \<and>
    map_of (fst (flat_map_insert m (k, v))) =
      (if k \<in> fst ` set m then map_of m else (map_of m)(k \<mapsto> v))"
    using assms by (auto simp: flat_map_defs nth_append simp del: map_of_append)
qed

lemma flat_map_find_spec:
  assumes "flat_map_ok m"
  shows "(if flat_map_find m k = length m then None else Some (snd (m ! flat_map_find m k))) = map_of m k"
proof (cases rule: flat_map_pos_cases [OF assms, of k, case_names absent present])
  case (absent as bs)
  have "map_of m k = None"
    using flat_keys_less(1) [OF absent(3)] flat_keys_less(2) [OF absent(4)] absent(1)
    by (simp add: map_of_eq_None_iff image_Un del: map_of_append)
  then show ?thesis using absent by (cases bs) (auto simp: flat_map_defs nth_append simp del: map_of_append)
next
  case (present as e bs)
  have "map_of m k = Some (snd e)"
    using map_of_insert_mid [OF flat_keys_less(1) [OF present(4)], of "snd e" bs] present(1,3)
    by (cases e) (simp del: map_of_append)
  then show ?thesis using present by (auto simp: flat_map_defs nth_append simp del: map_of_append)
qed

lemma flat_map_assign_spec:
  assumes "flat_map_ok m"
  shows "flat_map_ok (flat_map_assign m d k v)" and "map_of (flat_map_assign m d k v) = (map_of m)(k \<mapsto> v)"
proof (atomize (full), cases rule: flat_map_pos_cases [OF assms, of k, case_names absent present])
  case (absent as bs)
  then show "flat_map_ok (flat_map_assign m d k v) \<and> map_of (flat_map_assign m d k v) = (map_of m)(k \<mapsto> v)"
    using assms map_of_insert_mid [OF flat_keys_less(1) [OF absent(3)], of v bs]
    by (auto simp: flat_map_defs flat_map_ok_def sorted_wrt_append nth_append list_update_append
        simp del: map_of_append)
next
  case (present as e bs)
  then show "flat_map_ok (flat_map_assign m d k v) \<and> map_of (flat_map_assign m d k v) = (map_of m)(k \<mapsto> v)"
    using assms map_of_insert_mid [OF flat_keys_less(1) [OF present(4)], of _ bs]
    by (cases e)
      (auto simp: flat_map_defs flat_map_ok_def sorted_wrt_append nth_append list_update_append
        simp del: map_of_append)
qed

lemma flat_map_erase_spec:
  assumes "flat_map_ok m"
  shows "flat_map_ok (flat_map_erase m k)" and "map_of (flat_map_erase m k) = (map_of m)(k := None)"
proof (atomize (full), cases rule: flat_map_pos_cases [OF assms, of k, case_names absent present])
  case (absent as bs)
  have "map_of m k = None"
    using flat_keys_less(1) [OF absent(3)] flat_keys_less(2) [OF absent(4)] absent(1)
    by (simp add: map_of_eq_None_iff image_Un del: map_of_append)
  then show "flat_map_ok (flat_map_erase m k) \<and> map_of (flat_map_erase m k) = (map_of m)(k := None)"
    using assms absent by (auto simp: flat_map_defs nth_append fun_upd_idem simp del: map_of_append)
next
  case (present as e bs)
  then show "flat_map_ok (flat_map_erase m k) \<and> map_of (flat_map_erase m k) = (map_of m)(k := None)"
    using assms map_of_remove_mid [OF flat_keys_less(1) [OF present(4)] flat_keys_less(2) [OF present(5)]]
    by (cases e)
      (auto simp: flat_map_defs flat_map_ok_def sorted_wrt_append nth_append simp del: map_of_append)
qed

definition flat_map_lookup :: "('k::linorder \<times> 'v) list \<Rightarrow> 'k \<Rightarrow> 'v option" where
  "flat_map_lookup m k = (case flat_map_at m k of Inl _ \<Rightarrow> None | Inr v \<Rightarrow> Some v)"

interpretation fmap: map_container "[]" "\<lambda>m k v. flat_map_assign m d k v" flat_map_erase
  flat_map_lookup map_of flat_map_ok for d
  by unfold_locales
    (simp_all add: flat_map_assign_spec flat_map_erase_spec flat_map_lookup_def flat_map_at_def
      flat_map_find_spec [symmetric] Let_def, simp_all add: flat_map_ok_def)

end
