(* ===== verification/Rdfa.thy ===== *)
theory Rdfa
  imports FlatContainers
begin

text \<open>
  The build-time DFA of \<^verbatim>\<open>nfa/rdfa.h\<close> and \<^verbatim>\<open>nfa/rdfa.cpp\<close>:
  its states, its alphabet and the operations on reports. State ids and symbols (\<^verbatim>\<open>u16\<close>
  in the code) are natural numbers; \<open>wf_rdfa\<close> bounds them.
\<close>

section \<open>Data\<close>

datatype nfa_kind = NFA_PREFIX | NFA_INFIX | NFA_SUFFIX | NFA_OUTFIX | NFA_OUTFIX_RAW
  | NFA_REV_PREFIX | NFA_EAGER_PREFIX

definition is_triggered :: "nfa_kind \<Rightarrow> bool" where
  "is_triggered k = (case k of NFA_INFIX \<Rightarrow> True | NFA_SUFFIX \<Rightarrow> True | NFA_REV_PREFIX \<Rightarrow> True
     | _ \<Rightarrow> False)"

definition generates_callbacks :: "nfa_kind \<Rightarrow> bool" where
  "generates_callbacks k = (case k of NFA_SUFFIX \<Rightarrow> True | NFA_OUTFIX \<Rightarrow> True
     | NFA_OUTFIX_RAW \<Rightarrow> True | NFA_REV_PREFIX \<Rightarrow> True | NFA_EAGER_PREFIX \<Rightarrow> True | _ \<Rightarrow> False)"

definition inspects_states_for_accepts :: "nfa_kind \<Rightarrow> bool" where
  "inspects_states_for_accepts k = (case k of NFA_PREFIX \<Rightarrow> True | NFA_INFIX \<Rightarrow> True
     | NFA_EAGER_PREFIX \<Rightarrow> True | _ \<Rightarrow> False)"

definition has_managed_reports :: "nfa_kind \<Rightarrow> bool" where
  "has_managed_reports k = (case k of NFA_SUFFIX \<Rightarrow> True | NFA_OUTFIX \<Rightarrow> True | _ \<Rightarrow> False)"

definition TOP :: nat where "TOP = 256"
definition N_CHARS :: nat where "N_CHARS = 256"
definition ALPHABET_SIZE :: nat where "ALPHABET_SIZE = 257"
definition N_SPECIAL_SYMBOL :: nat where "N_SPECIAL_SYMBOL = 1"
definition DEAD_STATE :: nat where "DEAD_STATE = 0"

record dstate =
  nexts :: "nat list"
  daddy :: nat
  impl_id :: nat
  reports :: "nat list"
  reports_eod :: "nat list"

definition new_dstate :: "nat \<Rightarrow> dstate" where
  "new_dstate alphabet_size =
     \<lparr>nexts = replicate alphabet_size 0, daddy = 0, impl_id = 0, reports = [], reports_eod = []\<rparr>"

record raw_dfa =
  kind :: nfa_kind
  states :: "dstate list"
  start_anchored :: nat
  start_floating :: nat
  alpha_size :: nat
  alpha_remap :: "nat list"

definition getImplAlphaSize :: "raw_dfa \<Rightarrow> nat" where
  "getImplAlphaSize d = alpha_size d - N_SPECIAL_SYMBOL"

section \<open>Operations\<close>

definition stripExtraEodReports :: "raw_dfa \<Rightarrow> raw_dfa" where
  "stripExtraEodReports d =
     d\<lparr>states := map (\<lambda>ds. ds\<lparr>reports_eod := foldl flat_set_erase (reports_eod ds) (reports ds)\<rparr>)
                    (states d)\<rparr>"

definition hasEodReports :: "raw_dfa \<Rightarrow> bool" where
  "hasEodReports d = list_ex (\<lambda>ds. reports_eod ds \<noteq> []) (states d)"

section \<open>Well-formedness and behaviour\<close>

definition wf_dstate :: "nat \<Rightarrow> nat \<Rightarrow> dstate \<Rightarrow> bool" where
  "wf_dstate n alpha ds \<longleftrightarrow> length (nexts ds) = alpha \<and> (\<forall>t \<in> set (nexts ds). t < n) \<and> daddy ds < n \<and>
     flat_set_ok (reports ds) \<and> flat_set_ok (reports_eod ds)"

definition wf_rdfa :: "raw_dfa \<Rightarrow> bool" where
  "wf_rdfa d \<longleftrightarrow>
     states d \<noteq> [] \<and> length (states d) \<le> 65536 \<and> 0 < alpha_size d \<and> alpha_size d \<le> ALPHABET_SIZE \<and>
     (\<forall>ds \<in> set (states d). wf_dstate (length (states d)) (alpha_size d) ds) \<and>
     start_anchored d < length (states d) \<and> start_floating d < length (states d) \<and>
     length (alpha_remap d) = ALPHABET_SIZE \<and> (\<forall>a \<in> set (alpha_remap d). a < alpha_size d)"

definition dfa_step :: "raw_dfa \<Rightarrow> nat \<Rightarrow> nat \<Rightarrow> nat" where
  "dfa_step d s a = nexts (states d ! s) ! a"

definition dfa_obs :: "raw_dfa \<Rightarrow> nat \<Rightarrow> nat list \<times> nat list" where
  "dfa_obs d s = (reports (states d ! s), reports_eod (states d ! s))"

definition dfa_run :: "raw_dfa \<Rightarrow> nat \<Rightarrow> nat list \<Rightarrow> nat" where
  "dfa_run d s w = foldl (dfa_step d) s w"

text \<open>Two states behave alike when every word of symbols leads to the same reports.\<close>

definition dfa_equiv :: "raw_dfa \<Rightarrow> nat \<Rightarrow> nat \<Rightarrow> bool" where
  "dfa_equiv d s t \<longleftrightarrow>
     (\<forall>w. (\<forall>a \<in> set w. a < alpha_size d) \<longrightarrow> dfa_obs d (dfa_run d s w) = dfa_obs d (dfa_run d t w))"

lemma dfa_run_simps [simp]:
  "dfa_run d s [] = s" "dfa_run d s (a # w) = dfa_run d (dfa_step d s a) w"
  "dfa_run d s (v @ w) = dfa_run d (dfa_run d s v) w"
  by (simp_all add: dfa_run_def)

lemma wf_rdfaD:
  assumes "wf_rdfa d" and "s < length (states d)"
  shows "length (nexts (states d ! s)) = alpha_size d"
    and "a < alpha_size d \<Longrightarrow> dfa_step d s a < length (states d)"
    and "daddy (states d ! s) < length (states d)"
    and "flat_set_ok (reports (states d ! s))" and "flat_set_ok (reports_eod (states d ! s))"
proof -
  have ds: "wf_dstate (length (states d)) (alpha_size d) (states d ! s)"
    using assms nth_mem [OF assms(2)] by (auto simp: wf_rdfa_def)
  show "length (nexts (states d ! s)) = alpha_size d" "daddy (states d ! s) < length (states d)"
    "flat_set_ok (reports (states d ! s))" "flat_set_ok (reports_eod (states d ! s))"
    using ds by (simp_all add: wf_dstate_def)
  show "dfa_step d s a < length (states d)" if "a < alpha_size d"
    using ds that by (simp add: wf_dstate_def dfa_step_def)
qed

lemma dfa_run_bound:
  "wf_rdfa d \<Longrightarrow> s < length (states d) \<Longrightarrow> (\<forall>a \<in> set w. a < alpha_size d) \<Longrightarrow>
   dfa_run d s w < length (states d)"
  by (induction w arbitrary: s) (auto simp: wf_rdfaD)

lemma dfa_equiv_refl: "dfa_equiv d s s"
  and dfa_equiv_sym: "dfa_equiv d s t \<Longrightarrow> dfa_equiv d t s"
  and dfa_equiv_trans: "dfa_equiv d s t \<Longrightarrow> dfa_equiv d t u \<Longrightarrow> dfa_equiv d s u"
  by (auto simp: dfa_equiv_def)

lemma dfa_equiv_obs: "dfa_equiv d s t \<Longrightarrow> dfa_obs d s = dfa_obs d t"
  unfolding dfa_equiv_def by (drule spec [of _ "[]"]) simp

lemma dfa_equiv_step: "dfa_equiv d s t \<Longrightarrow> a < alpha_size d \<Longrightarrow> dfa_equiv d (dfa_step d s a) (dfa_step d t a)"
  unfolding dfa_equiv_def
proof (intro allI impI)
  fix w
  assume eq: "\<forall>w. (\<forall>a\<in>set w. a < alpha_size d) \<longrightarrow> dfa_obs d (dfa_run d s w) = dfa_obs d (dfa_run d t w)"
    and "a < alpha_size d" and "\<forall>a\<in>set w. a < alpha_size d"
  then show "dfa_obs d (dfa_run d (dfa_step d s a) w) = dfa_obs d (dfa_run d (dfa_step d t a) w)"
    using spec [OF eq, of "a # w"] by simp
qed

end
