(* ===== verification/Determinise.thy ===== *)
theory Determinise
  imports Rdfa
begin

text \<open>
  The subset construction of \<^verbatim>\<open>util/determinise.h\<close>. The template parameter
  \<^verbatim>\<open>Auto\<close> is a record of the members the template uses, over a type of state sets; the
  map from state sets to ids (a hash map in the code) is an association list in order of insertion,
  the queue is a list. The locale \<open>determinisable\<close> states what the template needs of an
  automaton; its lemmas show that the worklist loop returns, that the result has one state per
  state set reached, and that it behaves as the automaton.
\<close>

section \<open>Model\<close>

text \<open>
  \<open>au_initial\<close> is the vector \<^verbatim>\<open>initial()\<close> returns; \<open>au_reports x r\<close> is what
  \<^verbatim>\<open>reports(x, r)\<close> leaves in \<open>r\<close>; \<open>au_transition x\<close> is the array
  \<^verbatim>\<open>transition(x, next)\<close> fills; \<open>au_default\<close> is a default-constructed state set.
\<close>

record 'a Auto =
  au_alphasize :: nat
  au_alpha :: "nat list"
  au_unalpha :: "nat list"
  au_dead :: 'a
  au_default :: 'a
  au_initial :: "'a list"
  au_reports :: "'a \<Rightarrow> nat list \<Rightarrow> nat list"
  au_reportsEod :: "'a \<Rightarrow> nat list \<Rightarrow> nat list"
  au_canPrune :: "nat list \<Rightarrow> bool"
  au_transition :: "'a \<Rightarrow> 'a list"

record 'a det_state =
  dstate_ids :: "('a \<times> nat) list"
  dstates :: "dstate list"
  det_q :: "('a \<times> nat) list"

definition upd_dstate :: "nat \<Rightarrow> (dstate \<Rightarrow> dstate) \<Rightarrow> 'a det_state \<Rightarrow> 'a det_state" where
  "upd_dstate i f st = st\<lparr>dstates := (dstates st)[i := f (dstates st ! i)]\<rparr>"

text \<open>The loop over the initial state sets; \<^verbatim>\<open>emplace\<close> keeps an entry that is there.\<close>

definition add_initial :: "'a Auto \<Rightarrow> 'a det_state \<Rightarrow> 'a \<Rightarrow> 'a det_state" where
  "add_initial n st x =
     (let i = u16_of_nat (length (dstates st))
      in \<lparr>dstate_ids = (if x \<in> fst ` set (dstate_ids st) then dstate_ids st else dstate_ids st @ [(x, i)]),
          dstates = dstates st @ [new_dstate (au_alphasize n)],
          det_q = det_q st @ [(x, i)]\<rparr>)"

definition det_start :: "'a Auto \<Rightarrow> 'a det_state" where
  "det_start n =
     foldl (add_initial n)
       \<lparr>dstate_ids = [(au_dead n, DEAD_STATE)],
        dstates = [(new_dstate (au_alphasize n))\<lparr>nexts := replicate (au_alphasize n) DEAD_STATE\<rparr>],
        det_q = [(au_dead n, DEAD_STATE)]\<rparr>
       (au_initial n)"

text \<open>One successor: its id, and the state with the id recorded; \<open>None\<close> when the limit is exceeded.\<close>

definition find_succ :: "'a Auto \<Rightarrow> nat \<Rightarrow> 'a list \<Rightarrow> 'a det_state \<Rightarrow> nat \<Rightarrow> nat \<times> 'a det_state" where
  "find_succ n curr_id succrs st s =
     (if s \<noteq> 0 \<and> succrs ! s = succrs ! (s - 1) then (nexts (dstates st ! curr_id) ! (s - 1), st)
      else case map_of (dstate_ids st) (succrs ! s) of
        Some succ_id \<Rightarrow>
          (succ_id,
           if curr_id < succ_id \<and> daddy (dstates st ! succ_id) = 0 \<and> au_unalpha n ! s < N_CHARS
           then upd_dstate succ_id (\<lambda>d. d\<lparr>daddy := curr_id\<rparr>) st else st)
      | None \<Rightarrow>
          let succ_id = u16_of_nat (length (dstate_ids st))
          in (succ_id,
              \<lparr>dstate_ids = dstate_ids st @ [(succrs ! s, succ_id)],
               dstates = dstates st @ [(new_dstate (au_alphasize n))
                 \<lparr>daddy := (if au_unalpha n ! s < N_CHARS then curr_id else 0)\<rparr>],
               det_q = det_q st @ [(succrs ! s, succ_id)]\<rparr>))"

definition add_succ ::
  "'a Auto \<Rightarrow> nat \<Rightarrow> nat \<Rightarrow> 'a list \<Rightarrow> 'a det_state option \<Rightarrow> nat \<Rightarrow> 'a det_state option" where
  "add_succ n state_limit curr_id succrs st s =
     Option.bind st (\<lambda>st.
       let (succ_id, st') = find_succ n curr_id succrs st s
       in if state_limit \<le> succ_id then None
          else Some (upd_dstate curr_id (\<lambda>d. d\<lparr>nexts := (nexts d)[s := succ_id]\<rparr>) st'))"

definition fill_accepts :: "'a Auto \<Rightarrow> 'a \<Rightarrow> nat \<Rightarrow> 'a det_state \<Rightarrow> 'a det_state" where
  "fill_accepts n cur curr_id =
     upd_dstate curr_id (\<lambda>d. d\<lparr>reports := au_reports n cur (reports d),
                               reports_eod := au_reportsEod n cur (reports_eod d)\<rparr>)"

definition det_body :: "'a Auto \<Rightarrow> nat \<Rightarrow> 'a \<Rightarrow> nat \<Rightarrow> 'a det_state \<Rightarrow> 'a det_state option" where
  "det_body n state_limit cur curr_id st =
     (let st = fill_accepts n cur curr_id st; rs = reports (dstates st ! curr_id)
      in if rs \<noteq> [] \<and> au_canPrune n rs
         then Some (upd_dstate curr_id
                (\<lambda>d. d\<lparr>nexts := (replicate (au_alphasize n) DEAD_STATE)[au_alpha n ! TOP := curr_id]\<rparr>) st)
         else foldl (add_succ n state_limit curr_id (au_transition n cur)) (Some st) [0..<au_alphasize n])"

partial_function (option) det_loop :: "'a Auto \<Rightarrow> nat \<Rightarrow> 'a det_state \<Rightarrow> (bool \<times> 'a det_state) option" where
  "det_loop n state_limit st =
     (case det_q st of
        [] \<Rightarrow> Some (True, st)
      | m # q \<Rightarrow>
          (case det_body n state_limit (fst m) (snd m) (st\<lparr>det_q := q\<rparr>) of
             None \<Rightarrow> Some (False, st\<lparr>dstates := []\<rparr>)
           | Some st' \<Rightarrow> det_loop n state_limit st'))"

declare det_loop.simps [code]

definition det_statesets :: "'a Auto \<Rightarrow> ('a \<times> nat) list \<Rightarrow> 'a list" where
  "det_statesets n ids = foldl (\<lambda>ss m. ss[snd m := fst m]) (replicate (length ids) (au_default n)) ids"

text \<open>
  The result: whether the construction succeeded, the states, and the contents of
  \<^verbatim>\<open>statesets_out\<close> (which a failed run leaves alone).
\<close>

definition determinise :: "'a Auto \<Rightarrow> nat \<Rightarrow> (bool \<times> dstate list \<times> 'a list option) option" where
  "determinise n state_limit =
     map_option (\<lambda>(ok, st). (ok, dstates st, if ok then Some (det_statesets n (dstate_ids st)) else None))
       (det_loop n state_limit (det_start n))"

section \<open>Specification\<close>

definition au_pruned :: "'a Auto \<Rightarrow> 'a \<Rightarrow> bool" where
  "au_pruned n x \<longleftrightarrow> au_reports n x [] \<noteq> [] \<and> au_canPrune n (au_reports n x [])"

text \<open>A state set whose reports can be pruned leads to the dead set, except on tops.\<close>

definition au_step :: "'a Auto \<Rightarrow> 'a \<Rightarrow> nat \<Rightarrow> 'a" where
  "au_step n x s =
     (if au_pruned n x then if s = au_alpha n ! TOP then x else au_dead n else au_transition n x ! s)"

definition au_obs :: "'a Auto \<Rightarrow> 'a \<Rightarrow> nat list \<times> nat list" where
  "au_obs n x = (au_reports n x [], au_reportsEod n x [])"

inductive au_reach :: "'a Auto \<Rightarrow> 'a \<Rightarrow> bool" for n where
  reach_dead: "au_reach n (au_dead n)"
| reach_initial: "x \<in> set (au_initial n) \<Longrightarrow> au_reach n x"
| reach_step: "au_reach n x \<Longrightarrow> s < au_alphasize n \<Longrightarrow> au_reach n (au_step n x s)"

definition au_ok :: "'a Auto \<Rightarrow> bool" where
  "au_ok n \<longleftrightarrow> 0 < au_alphasize n \<and> au_alpha n ! TOP < au_alphasize n \<and>
     distinct (au_dead n # au_initial n) \<and>
     (\<forall>x. au_reach n x \<longrightarrow> length (au_transition n x) = au_alphasize n)"

definition det_limit :: "'a Auto \<Rightarrow> nat \<Rightarrow> bool" where
  "det_limit n state_limit \<longleftrightarrow> length (au_initial n) < state_limit \<and> state_limit < 65536"

text \<open>A state with the successors below a symbol in place, a finished state, and one still to be processed.\<close>

definition dstate_upto :: "'a Auto \<Rightarrow> 'a list \<Rightarrow> nat \<Rightarrow> 'a \<Rightarrow> dstate \<Rightarrow> bool" where
  "dstate_upto n sets s x d \<longleftrightarrow> (reports d, reports_eod d) = au_obs n x \<and> length (nexts d) = au_alphasize n \<and>
     (\<forall>a < s. nexts d ! a < length sets \<and> sets ! (nexts d ! a) = au_step n x a)"

abbreviation dstate_done :: "'a Auto \<Rightarrow> 'a list \<Rightarrow> 'a \<Rightarrow> dstate \<Rightarrow> bool" where
  "dstate_done n sets \<equiv> dstate_upto n sets (au_alphasize n)"

definition dstate_fresh :: "'a Auto \<Rightarrow> dstate \<Rightarrow> bool" where
  "dstate_fresh n d \<longleftrightarrow> reports d = [] \<and> reports_eod d = [] \<and> nexts d = replicate (au_alphasize n) DEAD_STATE"

text \<open>
  The invariant: the ids count the state sets in the order they were found, all of them reached. After
  \<open>k\<close> turns of the loop the queue holds the sets from the \<open>k\<close>-th on; within the turn
  the successors on the symbols below \<open>s\<close> are in place.
\<close>

definition det_base :: "'a Auto \<Rightarrow> nat \<Rightarrow> 'a list \<Rightarrow> 'a det_state \<Rightarrow> bool" where
  "det_base n limit sets st \<longleftrightarrow>
     dstate_ids st = zip sets [0..<length sets] \<and> distinct sets \<and> length (dstates st) = length sets \<and>
     length sets \<le> limit \<and> (\<forall>x \<in> set sets. au_reach n x) \<and>
     take (Suc (length (au_initial n))) sets = au_dead n # au_initial n \<and>
     (\<forall>i < length sets. daddy (dstates st ! i) < length sets)"

definition det_rest :: "'a Auto \<Rightarrow> nat \<Rightarrow> nat set \<Rightarrow> 'a list \<Rightarrow> 'a det_state \<Rightarrow> bool" where
  "det_rest n k I sets st \<longleftrightarrow> (\<forall>i \<in> I.
     if i < k then dstate_done n sets (sets ! i) (dstates st ! i) else dstate_fresh n (dstates st ! i))"

definition det_inv :: "'a Auto \<Rightarrow> nat \<Rightarrow> nat \<Rightarrow> 'a list \<Rightarrow> 'a det_state \<Rightarrow> bool" where
  "det_inv n limit k sets st \<longleftrightarrow>
     det_base n limit sets st \<and> det_q st = drop k (dstate_ids st) \<and> k \<le> length sets \<and>
     det_rest n k {..<length sets} sets st"

definition det_cur :: "'a Auto \<Rightarrow> nat \<Rightarrow> nat \<Rightarrow> nat \<Rightarrow> 'a list \<Rightarrow> 'a det_state \<Rightarrow> bool" where
  "det_cur n limit k s sets st \<longleftrightarrow>
     det_base n limit sets st \<and> det_q st = drop (Suc k) (dstate_ids st) \<and> k < length sets \<and>
     det_rest n k ({..<length sets} - {k}) sets st \<and>
     dstate_upto n sets s (sets ! k) (dstates st ! k)"

section \<open>One turn of the loop\<close>

lemma map_of_zip_upt:
  "distinct sets \<Longrightarrow> map_of (zip sets [0..<length sets]) x = Some i \<longleftrightarrow> i < length sets \<and> sets ! i = x"
  by (auto simp: map_of_eq_Some_iff set_zip)

lemma map_of_zip_upt_None: "map_of (zip sets [0..<length sets]) x = None \<longleftrightarrow> x \<notin> set sets"
  by (simp only: map_of_eq_None_iff flip: set_map) simp

lemma zip_snoc_upt: "zip sets [0..<length sets] @ [(x, length sets)] = zip (sets @ [x]) [0..<length (sets @ [x])]"
  by simp

lemma dstate_upto_daddy [simp]:
  "dstate_upto n sets s x (d\<lparr>daddy := e\<rparr>) = dstate_upto n sets s x d"
  "dstate_fresh n (d\<lparr>daddy := e\<rparr>) = dstate_fresh n d"
  by (simp_all add: dstate_upto_def dstate_fresh_def)

lemma dstate_upto_grow: "dstate_upto n sets s x d \<Longrightarrow> dstate_upto n (sets @ ys) s x d"
  by (auto simp: dstate_upto_def nth_append)

lemma det_rest_grow:
  assumes "det_rest n k I sets st" "I \<subseteq> {..<length sets}" "length (dstates st) = length sets"
    and "\<And>i. i < length sets \<Longrightarrow> dstates st' ! i = dstates st ! i"
  shows "det_rest n k I (sets @ ys) st'"
  using assms dstate_upto_grow by (fastforce simp: det_rest_def nth_append)

lemma det_cur_Suc: "det_cur n limit k s sets st \<Longrightarrow> det_cur n (Suc limit) k s sets st"
  by (simp add: det_cur_def det_base_def)

lemma det_cur_daddy:
  assumes "det_cur n limit k s sets st" "e < length sets"
  shows "det_cur n (Suc limit) k s sets (upd_dstate i (\<lambda>d. d\<lparr>daddy := e\<rparr>) st)"
proof -
  let ?st = "upd_dstate i (\<lambda>d. d\<lparr>daddy := e\<rparr>) st"
  have nth: "dstates ?st ! j = (if i = j \<and> j < length (dstates st) then (dstates st ! j)\<lparr>daddy := e\<rparr> else dstates st ! j)" for j
    by (cases "i < length (dstates st)") (auto simp: upd_dstate_def nth_list_update not_less list_update_beyond)
  have other: "dstate_ids ?st = dstate_ids st" "det_q ?st = det_q st" "length (dstates ?st) = length (dstates st)"
    by (simp_all add: upd_dstate_def)
  show ?thesis
    using assms unfolding det_cur_def det_base_def det_rest_def nth other by auto
qed

lemma find_succ_inv:
  assumes cur: "det_cur n limit k s sets st" and s: "s < au_alphasize n" and lim: "limit < 65536"
    and x: "\<not> au_pruned n (sets ! k)" and succrs: "succrs = au_transition n (sets ! k)"
    and found: "find_succ n k succrs st s = (succ_id, st')"
  shows "\<exists>ys. det_cur n (Suc limit) k s (sets @ ys) st' \<and> succ_id < length (sets @ ys) \<and>
    (sets @ ys) ! succ_id = succrs ! s \<and> (succ_id < limit \<longrightarrow> length (sets @ ys) \<le> limit)"
proof -
  have base: "det_base n limit sets st" and k: "k < length sets"
    and upto: "dstate_upto n sets s (sets ! k) (dstates st ! k)"
    and rest: "det_rest n k ({..<length sets} - {k}) sets st"
    and q: "det_q st = drop (Suc k) (dstate_ids st)"
    using cur by (auto simp: det_cur_def)
  have ids: "dstate_ids st = zip sets [0..<length sets]" and dist: "distinct sets"
    and len: "length (dstates st) = length sets" "length sets \<le> limit"
    and reach: "\<forall>x \<in> set sets. au_reach n x"
    and pre: "take (Suc (length (au_initial n))) sets = au_dead n # au_initial n"
    using base by (auto simp: det_base_def)
  have "Suc (length (au_initial n)) \<le> length sets" using arg_cong [OF pre, of length] by simp
  note len = len this
  have step: "au_step n (sets ! k) j = succrs ! j" for j using x succrs by (simp add: au_step_def)
  consider (same) "s \<noteq> 0" "succrs ! s = succrs ! (s - 1)" "succ_id = nexts (dstates st ! k) ! (s - 1)" "st' = st"
    | (known) "map_of (dstate_ids st) (succrs ! s) = Some succ_id"
        "st' = (if k < succ_id \<and> daddy (dstates st ! succ_id) = 0 \<and> au_unalpha n ! s < N_CHARS
           then upd_dstate succ_id (\<lambda>d. d\<lparr>daddy := k\<rparr>) st else st)"
    | (new) "map_of (dstate_ids st) (succrs ! s) = None" "succ_id = u16_of_nat (length (dstate_ids st))"
        "st' = \<lparr>dstate_ids = dstate_ids st @ [(succrs ! s, succ_id)],
               dstates = dstates st @ [(new_dstate (au_alphasize n))
                 \<lparr>daddy := (if au_unalpha n ! s < N_CHARS then k else 0)\<rparr>],
               det_q = det_q st @ [(succrs ! s, succ_id)]\<rparr>"
  proof (cases "s \<noteq> 0 \<and> succrs ! s = succrs ! (s - 1)")
    case True
    note f = found [unfolded find_succ_def if_P [OF True]]
    show ?thesis by (rule same) (use f True in blast)+
  next
    case False
    note f = found [unfolded find_succ_def if_not_P [OF False] Let_def]
    show ?thesis
    proof (cases "map_of (dstate_ids st) (succrs ! s)")
      case None
      note f = f [unfolded None option.case prod.inject]
      show ?thesis by (rule new [OF None]) (use f in blast)+
    next
      case (Some i)
      note f = f [unfolded Some option.case prod.inject]
      show ?thesis by (rule known) (use f Some in blast)+
    qed
  qed
  then show ?thesis
  proof cases
    case same
    have "succ_id < length sets \<and> sets ! succ_id = succrs ! s"
      using upto same by (auto simp: dstate_upto_def step)
    then show ?thesis using cur same len by (intro exI [of _ "[]"]) (auto simp: det_cur_def det_base_def)
  next
    case known
    then have id: "succ_id < length sets" "sets ! succ_id = succrs ! s"
      using map_of_zip_upt [OF dist] by (auto simp: ids)
    have "det_cur n (Suc limit) k s sets st'"
      unfolding known(2) using det_cur_daddy [OF cur, of k succ_id] k det_cur_Suc [OF cur] by simp
    then show ?thesis using id len by (intro exI [of _ "[]"]) auto
  next
    case new
    have fresh: "succrs ! s \<notin> set sets" using new(1) by (simp add: ids map_of_zip_upt_None)
    have id: "succ_id = length sets" using new(2) len lim by (simp add: ids)
    have "au_reach n (succrs ! s)"
      using reach_step [of n "sets ! k" s] reach k s by (simp add: step)
    then have "det_base n (Suc limit) (sets @ [succrs ! s]) st'"
      using base fresh id k len(3) by (auto simp: det_base_def new(3) nth_append less_Suc_eq new_dstate_def)
    moreover have "det_rest n k ({..<length (sets @ [succrs ! s])} - {k}) (sets @ [succrs ! s]) st'"
    proof -
      have "det_rest n k ({..<length sets} - {k}) (sets @ [succrs ! s]) st'"
        by (rule det_rest_grow [OF rest _ len(1)]) (auto simp: new(3) nth_append len)
      moreover have "dstate_fresh n (dstates st' ! length sets)"
        by (simp add: new(3) nth_append len dstate_fresh_def new_dstate_def DEAD_STATE_def)
      ultimately show ?thesis using k by (auto simp: det_rest_def less_Suc_eq)
    qed
    moreover have "det_q st' = drop (Suc k) (dstate_ids st')"
      using q k by (simp add: new(3) ids)
    moreover have "dstate_upto n (sets @ [succrs ! s]) s ((sets @ [succrs ! s]) ! k) (dstates st' ! k)"
      using dstate_upto_grow [OF upto] k len by (simp add: new(3) nth_append)
    ultimately have "det_cur n (Suc limit) k s (sets @ [succrs ! s]) st'"
      using k by (simp add: det_cur_def)
    then show ?thesis using id by (intro exI [of _ "[succrs ! s]"]) auto
  qed
qed

lemma det_cur_update:
  assumes cur: "det_cur n L k s sets st" and keep: "\<And>d. daddy (f d) = daddy d"
    and upto: "dstate_upto n sets s' (sets ! k) (f (dstates st ! k))" and limit: "length sets \<le> limit"
  shows "det_cur n limit k s' sets (upd_dstate k f st)"
proof -
  have k: "k < length (dstates st)" using cur by (simp add: det_cur_def det_base_def)
  have nth: "dstates (upd_dstate k f st) ! j = (if k = j then f (dstates st ! j) else dstates st ! j)" for j
    using k by (simp add: upd_dstate_def nth_list_update)
  have other: "dstate_ids (upd_dstate k f st) = dstate_ids st" "det_q (upd_dstate k f st) = det_q st"
    "length (dstates (upd_dstate k f st)) = length (dstates st)"
    by (simp_all add: upd_dstate_def)
  show ?thesis
    using cur upto limit unfolding det_cur_def det_base_def det_rest_def nth other by (auto simp: keep)
qed

lemma dstate_upto_next:
  "dstate_upto n sets s x d \<Longrightarrow> s < au_alphasize n \<Longrightarrow> i < length sets \<Longrightarrow> sets ! i = au_step n x s \<Longrightarrow>
   dstate_upto n sets (Suc s) x (d\<lparr>nexts := (nexts d)[s := i]\<rparr>)"
  by (auto simp: dstate_upto_def nth_list_update less_Suc_eq)

definition too_many :: "'a Auto \<Rightarrow> nat \<Rightarrow> bool" where
  "too_many n limit \<longleftrightarrow> (\<exists>xs. distinct xs \<and> limit < length xs \<and> (\<forall>x \<in> set xs. au_reach n x))"

lemma add_succ_None [simp]: "add_succ n limit k succrs None s = None"
  by (simp add: add_succ_def)

lemma add_succ_inv:
  assumes cur: "det_cur n limit k s sets st" and s: "s < au_alphasize n" and lim: "limit < 65536"
    and x: "\<not> au_pruned n (sets ! k)"
  shows "case add_succ n limit k (au_transition n (sets ! k)) (Some st) s of
      None \<Rightarrow> too_many n limit
    | Some st' \<Rightarrow> \<exists>ys. det_cur n limit k (Suc s) (sets @ ys) st'"
proof -
  obtain id st' where f: "find_succ n k (au_transition n (sets ! k)) st s = (id, st')"
    by fastforce
  from find_succ_inv [OF cur s lim x refl f] obtain ys where
    cur': "det_cur n (Suc limit) k s (sets @ ys) st'" and id: "id < length (sets @ ys)"
    "(sets @ ys) ! id = au_transition n (sets ! k) ! s" "id < limit \<longrightarrow> length (sets @ ys) \<le> limit" by blast
  have k: "k < length sets" using cur by (simp add: det_cur_def)
  show ?thesis
  proof (cases "limit \<le> id")
    case True
    have "distinct (sets @ ys)" "\<forall>x \<in> set (sets @ ys). au_reach n x"
      using cur' unfolding det_cur_def det_base_def by blast+
    then have "too_many n limit" using True id(1) unfolding too_many_def by (meson le_less_trans)
    then show ?thesis using True f by (simp add: add_succ_def)
  next
    case False
    have st: "(sets @ ys) ! k = sets ! k" using k by (simp add: nth_append)
    have "det_cur n limit k (Suc s) (sets @ ys)
        (upd_dstate k (\<lambda>d. d\<lparr>nexts := (nexts d)[s := id]\<rparr>) st')"
    proof (rule det_cur_update [OF cur'])
      have "dstate_upto n (sets @ ys) s (sets ! k) (dstates st' ! k)"
        using cur' unfolding det_cur_def st by blast
      then show "dstate_upto n (sets @ ys) (Suc s) ((sets @ ys) ! k)
          ((dstates st' ! k)\<lparr>nexts := (nexts (dstates st' ! k))[s := id]\<rparr>)"
        unfolding st by (rule dstate_upto_next [OF _ s id(1)]) (use id(2) x in \<open>simp add: au_step_def\<close>)
    qed (use False id(3) in auto)
    then show ?thesis using False f by (auto simp: add_succ_def)
  qed
qed

lemma add_succ_fold:
  assumes cur: "det_cur n limit k 0 sets st" and lim: "limit < 65536"
    and x: "\<not> au_pruned n (sets ! k)"
  shows "s \<le> au_alphasize n \<Longrightarrow>
    (case foldl (add_succ n limit k (au_transition n (sets ! k))) (Some st) [0..<s] of
      None \<Rightarrow> too_many n limit
    | Some st' \<Rightarrow> \<exists>ys. det_cur n limit k s (sets @ ys) st')"
proof (induction s)
  case 0
  then show ?case using cur by (auto intro: exI [of _ "[]"])
next
  case (Suc s)
  let ?r = "foldl (add_succ n limit k (au_transition n (sets ! k))) (Some st) [0..<s]"
  have k: "k < length sets" using cur by (simp add: det_cur_def)
  show ?case
  proof (cases ?r)
    case None
    then show ?thesis using Suc by simp
  next
    case (Some st')
    then obtain ys where ys: "det_cur n limit k s (sets @ ys) st'" using Suc by auto
    have "(sets @ ys) ! k = sets ! k" using k by (simp add: nth_append)
    with add_succ_inv [OF ys _ lim] x Suc.prems
    have "case add_succ n limit k (au_transition n (sets ! k)) (Some st') s of
      None \<Rightarrow> too_many n limit | Some st' \<Rightarrow> \<exists>zs. det_cur n limit k (Suc s) ((sets @ ys) @ zs) st'" by simp
    then show ?thesis using Some by (auto split: option.splits)
  qed
qed

lemma det_cur_done:
  "det_cur n limit k (au_alphasize n) sets st \<Longrightarrow> det_inv n limit (Suc k) sets st"
  by (auto simp: det_cur_def det_inv_def det_rest_def less_Suc_eq)

lemma det_inv_pop:
  assumes inv: "det_inv n limit k sets st" and k: "k < length sets"
  shows "det_q st = (sets ! k, k) # drop (Suc k) (dstate_ids st)"
    and "det_cur n limit k 0 sets (fill_accepts n (sets ! k) k (st\<lparr>det_q := drop (Suc k) (dstate_ids st)\<rparr>))"
proof -
  have ids: "dstate_ids st = zip sets [0..<length sets]" using inv by (simp add: det_inv_def det_base_def)
  then show "det_q st = (sets ! k, k) # drop (Suc k) (dstate_ids st)"
    using inv k Cons_nth_drop_Suc [of k "dstate_ids st"] by (simp add: det_inv_def)
  let ?st = "st\<lparr>det_q := drop (Suc k) (dstate_ids st)\<rparr>"
  let ?f = "\<lambda>d. d\<lparr>reports := au_reports n (sets ! k) (reports d),
                 reports_eod := au_reportsEod n (sets ! k) (reports_eod d)\<rparr>"
  have len: "k < length (dstates st)" using inv k by (simp add: det_inv_def det_base_def)
  have fresh: "dstate_fresh n (dstates st ! k)" using inv k by (auto simp: det_inv_def det_rest_def)
  then have upto: "dstate_upto n sets 0 (sets ! k) (?f (dstates st ! k))"
    by (simp add: dstate_fresh_def dstate_upto_def au_obs_def)
  have nth: "dstates (upd_dstate k ?f ?st) ! j = (if k = j then ?f (dstates st ! j) else dstates st ! j)" for j
    using len by (simp add: upd_dstate_def nth_list_update)
  have other: "dstate_ids (upd_dstate k ?f ?st) = dstate_ids st"
    "det_q (upd_dstate k ?f ?st) = drop (Suc k) (dstate_ids st)"
    "length (dstates (upd_dstate k ?f ?st)) = length (dstates st)"
    by (simp_all add: upd_dstate_def)
  show "det_cur n limit k 0 sets (fill_accepts n (sets ! k) k ?st)"
    using inv upto k unfolding fill_accepts_def det_cur_def det_inv_def det_base_def det_rest_def nth other by auto
qed

lemma det_body_inv:
  assumes ok: "au_ok n" and inv: "det_inv n limit k sets st" and k: "k < length sets" and lim: "limit < 65536"
  shows "case det_body n limit (sets ! k) k (st\<lparr>det_q := drop (Suc k) (dstate_ids st)\<rparr>) of
      None \<Rightarrow> too_many n limit
    | Some st' \<Rightarrow> \<exists>sets'. det_inv n limit (Suc k) sets' st'"
proof -
  let ?st = "fill_accepts n (sets ! k) k (st\<lparr>det_q := drop (Suc k) (dstate_ids st)\<rparr>)"
  let ?nx = "(replicate (au_alphasize n) DEAD_STATE)[au_alpha n ! TOP := k]"
  note cur = det_inv_pop(2) [OF inv k]
  then have rs: "reports (dstates ?st ! k) = au_reports n (sets ! k) []"
    by (simp add: det_cur_def dstate_upto_def au_obs_def)
  show ?thesis
  proof (cases "au_pruned n (sets ! k)")
    case True
    have dead: "sets ! 0 = au_dead n" "0 < length sets"
      using cur by (auto simp: det_cur_def det_base_def) (metis nth_Cons_0 nth_take zero_less_Suc)
    have "dstate_upto n sets (au_alphasize n) (sets ! k) ((dstates ?st ! k)\<lparr>nexts := ?nx\<rparr>)"
      using cur True dead k ok
      by (auto simp: det_cur_def dstate_upto_def au_step_def nth_list_update DEAD_STATE_def au_ok_def)
    then have "det_cur n limit k (au_alphasize n) sets (upd_dstate k (\<lambda>d. d\<lparr>nexts := ?nx\<rparr>) ?st)"
      by (intro det_cur_update [OF cur]) (use cur in \<open>simp_all add: det_cur_def det_base_def\<close>)
    moreover have "det_body n limit (sets ! k) k (st\<lparr>det_q := drop (Suc k) (dstate_ids st)\<rparr>) =
        Some (upd_dstate k (\<lambda>d. d\<lparr>nexts := ?nx\<rparr>) ?st)"
      using True rs by (simp add: det_body_def Let_def au_pruned_def)
    ultimately show ?thesis by (simp only: option.case) (blast intro: det_cur_done)
  next
    case False
    have "det_body n limit (sets ! k) k (st\<lparr>det_q := drop (Suc k) (dstate_ids st)\<rparr>) =
        foldl (add_succ n limit k (au_transition n (sets ! k))) (Some ?st) [0..<au_alphasize n]"
      unfolding det_body_def Let_def rs by (rule if_not_P) (use False in \<open>simp add: au_pruned_def\<close>)
    then show ?thesis
      using add_succ_fold [OF cur lim False order_refl] by (auto split: option.splits dest: det_cur_done)
  qed
qed

section \<open>The loop\<close>

lemma det_loop_returns:
  assumes ok: "au_ok n" and lim: "limit < 65536"
  shows "det_inv n limit k sets st \<Longrightarrow> \<exists>ok st'. det_loop n limit st = Some (ok, st') \<and>
    (if ok then \<exists>sets'. det_inv n limit (length sets') sets' st' else too_many n limit \<and> dstates st' = [])"
proof (induction "limit - k" arbitrary: k sets st rule: less_induct)
  case less
  show ?case
  proof (cases "k < length sets")
    case False
    then have "k = length sets" "det_q st = []"
      using less.prems by (auto simp: det_inv_def det_base_def)
    then show ?thesis using less.prems by (auto simp: det_loop.simps [of n limit st])
  next
    case True
    let ?st = "st\<lparr>det_q := drop (Suc k) (dstate_ids st)\<rparr>"
    have loop: "det_loop n limit st = (case det_body n limit (sets ! k) k ?st of
        None \<Rightarrow> Some (False, st\<lparr>dstates := []\<rparr>) | Some st' \<Rightarrow> det_loop n limit st')"
      by (simp add: det_loop.simps [of n limit st] det_inv_pop(1) [OF less.prems True])
    note body = det_body_inv [OF ok less.prems True lim]
    show ?thesis
    proof (cases "det_body n limit (sets ! k) k ?st")
      case None
      then show ?thesis using loop body by (intro exI [of _ False] exI [of _ "st\<lparr>dstates := []\<rparr>"]) simp
    next
      case (Some st')
      then obtain sets' where inv': "det_inv n limit (Suc k) sets' st'" using body by auto
      then have "limit - Suc k < limit - k" by (auto simp: det_inv_def det_base_def)
      then show ?thesis using less.hyps [OF _ inv'] loop Some by simp
    qed
  qed
qed

lemma add_initial_fold:
  assumes "distinct (au_dead n # xs @ ys)" "length (xs @ ys) < 65535"
    and "st = \<lparr>dstate_ids = zip (au_dead n # xs) [0..<Suc (length xs)],
            dstates = replicate (Suc (length xs)) (new_dstate (au_alphasize n)),
            det_q = zip (au_dead n # xs) [0..<Suc (length xs)]\<rparr>"
  shows "foldl (add_initial n) st ys =
     \<lparr>dstate_ids = zip (au_dead n # xs @ ys) [0..<Suc (length (xs @ ys))],
      dstates = replicate (Suc (length (xs @ ys))) (new_dstate (au_alphasize n)),
      det_q = zip (au_dead n # xs @ ys) [0..<Suc (length (xs @ ys))]\<rparr>"
  using assms
proof (induction ys arbitrary: xs st)
  case Nil
  then show ?case by simp
next
  case (Cons y ys)
  have notin: "y \<notin> fst ` set (zip (au_dead n # xs) [0..<Suc (length xs)])"
    using Cons.prems(1) by (auto dest: set_zip_leftD)
  have snoc: "zip (au_dead n # xs) [0..<Suc (length xs)] @ [(y, Suc (length xs))] =
      zip (au_dead n # xs @ [y]) [0..<Suc (length (xs @ [y]))]"
    using zip_snoc_upt [of "au_dead n # xs" y] by (simp del: upt_Suc)
  have "add_initial n st y =
     \<lparr>dstate_ids = zip (au_dead n # xs @ [y]) [0..<Suc (length (xs @ [y]))],
      dstates = replicate (Suc (length (xs @ [y]))) (new_dstate (au_alphasize n)),
      det_q = zip (au_dead n # xs @ [y]) [0..<Suc (length (xs @ [y]))]\<rparr>"
    unfolding add_initial_def Cons.prems(3)
    using notin Cons.prems(2) snoc by (simp del: upt_Suc flip: replicate_append_same)
  from Cons.IH [OF _ _ this] Cons.prems show ?case by (simp del: upt_Suc)
qed

lemma det_start_inv:
  assumes ok: "au_ok n" and lim: "det_limit n limit"
  shows "det_inv n limit 0 (au_dead n # au_initial n) (det_start n)"
proof -
  let ?sets = "au_dead n # au_initial n"
  have "(new_dstate (au_alphasize n))\<lparr>nexts := replicate (au_alphasize n) DEAD_STATE\<rparr> = new_dstate (au_alphasize n)"
    by (simp add: new_dstate_def DEAD_STATE_def)
  moreover have "zip [au_dead n] [0..<Suc 0] = [(au_dead n, 0)]" by simp
  ultimately have start: "det_start n = \<lparr>dstate_ids = zip ?sets [0..<length ?sets],
      dstates = replicate (length ?sets) (new_dstate (au_alphasize n)), det_q = zip ?sets [0..<length ?sets]\<rparr>"
    using add_initial_fold [of n "[]" "au_initial n"] ok lim
    by (simp add: det_start_def au_ok_def det_limit_def DEAD_STATE_def del: upt_Suc)
  show ?thesis
    using ok lim unfolding start
    by (auto simp: det_inv_def det_base_def det_rest_def au_ok_def det_limit_def dstate_fresh_def new_dstate_def
        DEAD_STATE_def reach_dead reach_initial nth_Cons' simp del: upt_Suc replicate.simps)
qed

section \<open>The result\<close>

definition det_result :: "'a Auto \<Rightarrow> dstate list \<Rightarrow> 'a list \<Rightarrow> bool" where
  "det_result n ds sets \<longleftrightarrow> distinct sets \<and> set sets = {x. au_reach n x} \<and> length ds = length sets \<and>
     take (Suc (length (au_initial n))) sets = au_dead n # au_initial n \<and>
     (\<forall>i < length sets. dstate_done n sets (sets ! i) (ds ! i) \<and> daddy (ds ! i) < length sets)"

lemma det_resultD:
  assumes "det_result n ds sets"
  shows "length ds = length sets" "distinct sets" "x \<in> set sets \<longleftrightarrow> au_reach n x"
    and "sets ! 0 = au_dead n" "Suc (length (au_initial n)) \<le> length sets"
    and "i < length (au_initial n) \<Longrightarrow> sets ! Suc i = au_initial n ! i"
    and "i < length sets \<Longrightarrow> (reports (ds ! i), reports_eod (ds ! i)) = au_obs n (sets ! i)"
    and "i < length sets \<Longrightarrow> length (nexts (ds ! i)) = au_alphasize n"
    and "i < length sets \<Longrightarrow> s < au_alphasize n \<Longrightarrow> nexts (ds ! i) ! s < length sets"
    and "i < length sets \<Longrightarrow> s < au_alphasize n \<Longrightarrow> sets ! (nexts (ds ! i) ! s) = au_step n (sets ! i) s"
    and "i < length sets \<Longrightarrow> daddy (ds ! i) < length sets"
proof -
  have pre: "take (Suc (length (au_initial n))) sets = au_dead n # au_initial n"
    using assms by (simp add: det_result_def)
  have nth: "j < Suc (length (au_initial n)) \<Longrightarrow> sets ! j = (au_dead n # au_initial n) ! j" for j
    using nth_take [of j "Suc (length (au_initial n))" sets] pre by simp
  show "Suc (length (au_initial n)) \<le> length sets" using arg_cong [OF pre, of length] by simp
  show "sets ! 0 = au_dead n" "i < length (au_initial n) \<Longrightarrow> sets ! Suc i = au_initial n ! i"
    using nth by simp_all
qed (use assms in \<open>auto simp: det_result_def dstate_upto_def\<close>)

lemma det_inv_final:
  assumes "det_inv n limit (length sets) sets st"
  shows "det_result n (dstates st) sets" and "\<not> too_many n limit"
proof -
  have base: "det_base n limit sets st" and fin: "\<And>i. i < length sets \<Longrightarrow> dstate_done n sets (sets ! i) (dstates st ! i)"
    using assms by (auto simp: det_inv_def det_rest_def)
  have pre: "set sets \<supseteq> set (au_dead n # au_initial n)"
    using base set_take_subset [of "Suc (length (au_initial n))" sets] by (simp add: det_base_def)
  have "x \<in> set sets" if "au_reach n x" for x
    using that
  proof (induction rule: au_reach.induct)
    case (reach_step x s)
    then obtain i where "i < length sets" "sets ! i = x" by (auto simp: in_set_conv_nth)
    with fin [of i] reach_step(2) show ?case by (auto simp: dstate_upto_def in_set_conv_nth)
  qed (use pre in auto)
  then have all: "set sets = {x. au_reach n x}" using base by (auto simp: det_base_def)
  then show "det_result n (dstates st) sets" using base fin by (simp add: det_result_def det_base_def)
  show "\<not> too_many n limit"
  proof
    assume "too_many n limit"
    then obtain xs where xs: "distinct xs" "limit < length xs" "set xs \<subseteq> set sets"
      using all by (auto simp: too_many_def)
    then have "length xs \<le> card (set sets)" by (metis List.finite_set card_mono distinct_card)
    also have "\<dots> \<le> limit" using base card_length [of sets] by (simp add: det_base_def)
    finally show False using xs(2) by simp
  qed
qed

lemma foldl_set_ids:
  "length sets \<le> length ss \<Longrightarrow>
   foldl (\<lambda>ss m. ss[snd m := fst m]) ss (zip sets [0..<length sets]) = sets @ drop (length sets) ss"
proof (induction sets rule: rev_induct)
  case (snoc x sets)
  then show ?case
    by (simp add: zip_append1 list_update_append) (metis Cons_nth_drop_Suc Suc_le_eq list_update_code(2))
qed simp

lemma det_statesets_eq: "det_base n limit sets st \<Longrightarrow> det_statesets n (dstate_ids st) = sets"
  by (simp add: det_base_def det_statesets_def foldl_set_ids)

lemma determinise_cases:
  assumes ok: "au_ok n" and lim: "det_limit n limit"
  obtains (over) "too_many n limit" "determinise n limit = Some (False, [], None)"
  | (success) ds sets where "\<not> too_many n limit" "determinise n limit = Some (True, ds, Some sets)" "det_result n ds sets"
proof -
  from lim have "limit < 65536" by (simp add: det_limit_def)
  from det_loop_returns [OF ok this det_start_inv [OF ok lim]] obtain b st where
    loop: "det_loop n limit (det_start n) = Some (b, st)" and
    res: "if b then \<exists>sets. det_inv n limit (length sets) sets st else too_many n limit \<and> dstates st = []" by blast
  show thesis
  proof (cases b)
    case True
    with res obtain sets where inv: "det_inv n limit (length sets) sets st" by auto
    then have "det_base n limit sets st" by (simp add: det_inv_def)
    note det_statesets_eq [OF this]
    then show thesis using loop True det_inv_final [OF inv] by (intro success) (auto simp: determinise_def)
  next
    case False
    then show thesis using loop res by (intro over) (auto simp: determinise_def)
  qed
qed

lemma too_many_card: "\<not> too_many n limit \<longleftrightarrow> finite {x. au_reach n x} \<and> card {x. au_reach n x} \<le> limit"
proof
  assume few: "\<not> too_many n limit"
  have small: "card X \<le> limit" if "finite X" "X \<subseteq> {x. au_reach n x}" for X
  proof (rule ccontr)
    assume "\<not> card X \<le> limit"
    moreover from finite_distinct_list [OF that(1)] obtain xs where "set xs = X" "distinct xs" by auto
    ultimately have "too_many n limit"
      unfolding too_many_def using that(2) by (intro exI [of _ xs]) (auto simp: distinct_card)
    then show False using few by contradiction
  qed
  show "finite {x. au_reach n x} \<and> card {x. au_reach n x} \<le> limit"
  proof (cases "finite {x. au_reach n x}")
    case False
    from infinite_arbitrarily_large [OF this, of "Suc limit"] small show ?thesis by force
  qed (use small in auto)
next
  assume "finite {x. au_reach n x} \<and> card {x. au_reach n x} \<le> limit"
  then show "\<not> too_many n limit"
    unfolding too_many_def by (metis card_mono distinct_card le_trans linorder_not_le mem_Collect_eq subsetI)
qed

section \<open>Behaviour of the result\<close>

definition det_rel :: "raw_dfa \<times> nat \<Rightarrow> 'a Auto \<times> 'a \<Rightarrow> bool" where
  "det_rel = (\<lambda>(d, s) (n, x). \<exists>sets. det_result n (states d) sets \<and> alpha_size d = au_alphasize n \<and>
     s < length sets \<and> sets ! s = x)"

interpretation det_sim: moore_simulation
  "\<lambda>(d, s) a. (d, dfa_step d s a)" "\<lambda>(d, s). dfa_obs d s"
  "\<lambda>(n, x) a. (n, au_step n x a)" "\<lambda>(n, x). au_obs n x"
  "\<lambda>(d, s) a. a < alpha_size d" det_rel
  by unfold_locales (force simp: det_rel_def dfa_obs_def dfa_step_def det_resultD)+

lemma foldl_fst: "foldl (\<lambda>(d, s) a. (d, f d s a)) (d, s) w = (d, foldl (f d) s w)"
  by (induction w arbitrary: s) simp_all

lemma det_run_obs:
  assumes "det_result n (states d) sets" "alpha_size d = au_alphasize n" "s < length sets"
    and "\<forall>a \<in> set w. a < alpha_size d"
  shows "dfa_obs d (dfa_run d s w) = au_obs n (foldl (au_step n) (sets ! s) w)"
proof -
  have "det_rel (d, s) (n, sets ! s)" using assms(1-3) by (auto simp: det_rel_def)
  from det_sim.run_obs [OF this, of w] assms(4) show ?thesis
    by (simp add: foldl_fst dfa_run_def)
qed

text \<open>
  What the template needs of the automata of a family: a top symbol inside the alphabet, distinct
  initial sets other than the dead one, successors on every symbol; and what makes the result a
  well-formed DFA: reports as ordered sets and a total map of characters to symbols.
\<close>

locale determinisable =
  fixes autom :: "'p \<Rightarrow> 'a Auto"
    and ok :: "'p \<Rightarrow> bool"
  assumes autom_ok: "ok p \<Longrightarrow> au_ok (autom p)"
    and report_sets: "ok p \<Longrightarrow> au_reach (autom p) x \<Longrightarrow>
      flat_set_ok (fst (au_obs (autom p) x)) \<and> flat_set_ok (snd (au_obs (autom p) x))"
    and alphabet: "ok p \<Longrightarrow> au_alphasize (autom p) \<le> ALPHABET_SIZE \<and> length (au_alpha (autom p)) = ALPHABET_SIZE \<and>
      (\<forall>a \<in> set (au_alpha (autom p)). a < au_alphasize (autom p))"
begin

lemma determinise_wf:
  assumes "ok p" and "det_limit (autom p) limit" and "\<not> too_many (autom p) limit"
    and sa: "sa \<le> length (au_initial (autom p))" and sf: "sf \<le> length (au_initial (autom p))"
  shows "\<exists>ds sets. determinise (autom p) limit = Some (True, ds, Some sets) \<and> det_result (autom p) ds sets \<and>
    wf_rdfa \<lparr>kind = knd, states = ds, start_anchored = sa, start_floating = sf,
      alpha_size = au_alphasize (autom p), alpha_remap = au_alpha (autom p)\<rparr>"
proof (cases rule: determinise_cases [OF autom_ok [OF assms(1)] assms(2)])
  case (2 ds sets)
  note res = det_resultD [OF 2(3)]
  have small: "length sets \<le> 65536"
    using assms(2) 2(1) res(2) by (auto simp: det_limit_def too_many_def res(3) not_less)
  have "wf_dstate (length sets) (au_alphasize (autom p)) d" if "d \<in> set ds" for d
  proof -
    from that obtain i where i: "i < length sets" "d = ds ! i" using res(1) by (auto simp: in_set_conv_nth)
    have "au_reach (autom p) (sets ! i)" using res(3) [of "sets ! i"] nth_mem [OF i(1)] by simp
    note rs = report_sets [OF assms(1) this, folded res(7) [OF i(1)]]
    have "t < length sets" if "t \<in> set (nexts d)" for t
      using that res(8) [OF i(1)] res(9) [OF i(1)] i(2) by (auto simp: in_set_conv_nth)
    then show ?thesis
      using rs res(8,11) [OF i(1)] i(2) by (simp add: wf_dstate_def)
  qed
  moreover have "0 < au_alphasize (autom p)" using autom_ok [OF assms(1)] by (simp add: au_ok_def)
  ultimately show ?thesis
    using 2 res(1,5) small alphabet [OF assms(1)] sa sf by (auto simp: wf_rdfa_def)
qed (use assms(3) in simp)

end

section \<open>Properties\<close>

text \<open>
  C4. The subset construction of an automaton whose initial state sets are distinct and not dead
  always returns. It succeeds exactly when at most \<^verbatim>\<open>state_limit\<close> state sets can be reached; then it
  has one state for each of them, the dead set first and the initial ones next, with the reports of
  the set, and the successor of a state is the state of the successor set, except that a state whose
  reports can be pruned goes to the dead state on everything but a top. Otherwise it fails and gives
  no states.
\<close>

theorem determinise_correct:
  assumes ok: "au_ok n" and lim: "length (au_initial n) < state_limit" "state_limit < 65536"
  shows "if finite {x. au_reach n x} \<and> card {x. au_reach n x} \<le> state_limit
    then \<exists>ds sets. determinise n state_limit = Some (True, ds, Some sets) \<and> length ds = length sets \<and>
      distinct sets \<and> set sets = {x. au_reach n x} \<and> sets ! DEAD_STATE = au_dead n \<and>
      (\<forall>i < length (au_initial n). sets ! Suc i = au_initial n ! i) \<and>
      (\<forall>i < length sets. reports (ds ! i) = au_reports n (sets ! i) [] \<and>
        reports_eod (ds ! i) = au_reportsEod n (sets ! i) [] \<and>
        (\<forall>s < au_alphasize n. nexts (ds ! i) ! s < length ds \<and>
          sets ! (nexts (ds ! i) ! s) =
            (if au_reports n (sets ! i) [] \<noteq> [] \<and> au_canPrune n (au_reports n (sets ! i) [])
             then if s = au_alpha n ! TOP then sets ! i else au_dead n
             else au_transition n (sets ! i) ! s)))
    else determinise n state_limit = Some (False, [], None)"
proof -
  have l: "det_limit n state_limit" using lim by (simp add: det_limit_def)
  show ?thesis
  proof (cases rule: determinise_cases [OF ok l])
    case 1
    then have many: "\<not> (finite {x. au_reach n x} \<and> card {x. au_reach n x} \<le> state_limit)" using too_many_card by blast
    show ?thesis unfolding if_not_P [OF many] by (rule 1(2))
  next
    case (2 ds sets)
    then have few: "finite {x. au_reach n x} \<and> card {x. au_reach n x} \<le> state_limit" using too_many_card by blast
    note res = det_resultD [OF 2(3)]
    have "reports (ds ! i) = au_reports n (sets ! i) [] \<and> reports_eod (ds ! i) = au_reportsEod n (sets ! i) [] \<and>
        (\<forall>s < au_alphasize n. nexts (ds ! i) ! s < length ds \<and> sets ! (nexts (ds ! i) ! s) = au_step n (sets ! i) s)"
      if "i < length sets" for i
      using res(7) [OF that] res(9,10) [OF that] res(1) by (simp add: au_obs_def)
    moreover have "set sets = {x. au_reach n x}" using res(3) by blast
    ultimately show ?thesis
      unfolding if_P [OF few] using 2(2) res(1,2,4,6)
      by (intro exI [of _ ds] exI [of _ sets]) (simp add: au_step_def au_pruned_def DEAD_STATE_def)
  qed
qed

text \<open>A cycle of three states, restarted by nothing, that reports in its last state.\<close>

definition example_auto :: "nat Auto" where
  "example_auto = \<lparr>au_alphasize = 2, au_alpha = replicate 256 0 @ [1], au_unalpha = [0, 256], au_dead = 0,
     au_default = 0, au_initial = [1], au_reports = (\<lambda>x r. if x = 3 then [7] else r), au_reportsEod = (\<lambda>x r. r),
     au_canPrune = (\<lambda>_. False), au_transition = (\<lambda>x. if x = 0 then [0, 0] else [x mod 3 + 1, x])\<rparr>"

lemma example_auto_reach: "au_reach example_auto x \<Longrightarrow> x \<in> {0, 1, 2, 3}"
proof (induction rule: au_reach.induct)
  case (reach_step x s)
  then have "s = 0 \<or> s = 1" by (auto simp: example_auto_def)
  then show ?case using reach_step.IH by (auto simp: au_step_def au_pruned_def example_auto_def)
qed (auto simp: example_auto_def)

theorem determinise_correct_witness:
  "\<exists>ds sets. determinise example_auto 4 = Some (True, ds, Some sets) \<and> sets ! 1 = 1 \<and>
    sets ! (nexts (ds ! 1) ! 0) = 2 \<and> reports (ds ! 1) = []"
proof -
  have ok: "au_ok example_auto" by (auto simp: au_ok_def example_auto_def TOP_def nth_append)
  have sub: "{x. au_reach example_auto x} \<subseteq> {0, 1, 2, 3}" using example_auto_reach by blast
  have "card {x. au_reach example_auto x} \<le> card {0, 1, 2, 3 :: nat}" by (rule card_mono [OF _ sub]) simp
  then have few: "finite {x. au_reach example_auto x} \<and> card {x. au_reach example_auto x} \<le> 4"
    using finite_subset [OF sub] by simp
  have "length (au_initial example_auto) < 4" by (simp add: example_auto_def)
  from determinise_correct [OF ok this] few obtain ds sets where
    r: "determinise example_auto 4 = Some (True, ds, Some sets)" "set sets = {x. au_reach example_auto x}"
    "\<And>i. i < length (au_initial example_auto) \<Longrightarrow> sets ! Suc i = au_initial example_auto ! i" and
    st: "\<And>i. i < length sets \<Longrightarrow> reports (ds ! i) = au_reports example_auto (sets ! i) [] \<and>
      (\<forall>s < au_alphasize example_auto. sets ! (nexts (ds ! i) ! s) =
        (if au_reports example_auto (sets ! i) [] \<noteq> [] \<and> au_canPrune example_auto (au_reports example_auto (sets ! i) [])
         then if s = au_alpha example_auto ! TOP then sets ! i else au_dead example_auto
         else au_transition example_auto (sets ! i) ! s))"
    by auto
  have "{0, 1} \<subseteq> set sets"
    using reach_dead [of example_auto] reach_initial [of 1 example_auto] by (simp add: r(2) example_auto_def)
  then have "1 < length sets" by (cases sets rule: remdups_adj.cases) auto
  then show ?thesis using r(1) r(3) [of 0] st [of 1] by (simp add: example_auto_def)
qed

end
