(* ===== verification/Bitutils.thy ===== *)
theory Bitutils
  imports VS_Prelude
begin

text \<open>
  The bit tricks of \<^verbatim>\<open>util/bitutils.h\<close> in their portable form,
  \<^verbatim>\<open>util/arch/common/bitutils.h\<close>, and \<^verbatim>\<open>util/popcount.h\<close>. The compiler
  builtins for counting zeros and ones are defined from the bits of a word; the 32-bit and the
  64-bit variants of a function are one definition over words of any length. The theorems relate the
  loops to the ascending list of the positions of the set bits.
\<close>

section \<open>Model\<close>

definition ctz :: "'a::len word \<Rightarrow> nat" where
  "ctz x = length (takeWhile (\<lambda>i. \<not> bit x i) [0..<LENGTH('a)])"

definition clz :: "'a::len word \<Rightarrow> nat" where
  "clz x = length (takeWhile (\<lambda>i. \<not> bit x i) (rev [0..<LENGTH('a)]))"

definition popcount :: "'a::len word \<Rightarrow> nat" where
  "popcount x = length (filter (bit x) [0..<LENGTH('a)])"

definition lg2 :: "'a::len word \<Rightarrow> nat" where
  "lg2 x = (if x = 0 then 0 else LENGTH('a) - 1 - clz x)"

definition findAndClearLSB :: "'a::len word \<Rightarrow> nat \<times> 'a word" where
  "findAndClearLSB v = (ctz v, v AND (v - 1))"

definition findAndClearMSB :: "'a::len word \<Rightarrow> nat \<times> 'a word" where
  "findAndClearMSB v =
     (let offset = LENGTH('a) - 1 - clz v in (offset, v AND NOT (push_bit offset 1)))"

text \<open>The positions of the set bits, in ascending order.\<close>

definition bit_list :: "'a::len word \<Rightarrow> nat list" where
  "bit_list x = filter (bit x) [0..<LENGTH('a)]"

lemma bit_list_spec:
  fixes x :: "'a::len word"
  shows "set (bit_list x) = {i. bit x i}" "sorted (bit_list x)" "distinct (bit_list x)"
    "sorted_wrt (<) (bit_list x)"
  by (auto simp: bit_list_def bit_imp_le_length strict_sorted_iff sorted_wrt_filter)

lemma bit_listI: "sorted_wrt (<) xs \<Longrightarrow> set xs = {i. bit x i} \<Longrightarrow> xs = bit_list x"
  using bit_list_spec [of x] by (intro strict_sorted_equal) simp_all

lemma bit_list_Nil [simp]: "bit_list x = [] \<longleftrightarrow> x = 0" for x :: "'a::len word"
proof -
  have "bit_list x = [] \<longleftrightarrow> {i. bit x i} = {}" using bit_list_spec(1) [of x] by (metis set_empty)
  then show ?thesis by (metis (mono_tags, lifting) bit_0_eq bot_apply bot_bool_def bit_word_eqI empty_Collect_eq)
qed

lemma bit_list_0 [simp]: "bit_list 0 = []"
  by simp

lemma popcount_bit_list: "popcount x = length (bit_list x)"
  by (simp add: popcount_def bit_list_def)

lemma takeWhile_filter_hd:
  "filter P xs \<noteq> [] \<Longrightarrow>
   length (takeWhile (\<lambda>i. \<not> P i) xs) < length xs \<and> xs ! length (takeWhile (\<lambda>i. \<not> P i) xs) = hd (filter P xs)"
  by (induction xs) auto

lemma ctz_hd:
  fixes x :: "'a::len word"
  shows "x \<noteq> 0 \<Longrightarrow> ctz x = hd (bit_list x)"
  using takeWhile_filter_hd [of "bit x" "[0..<LENGTH('a)]"] bit_list_Nil [of x]
  by (auto simp: ctz_def bit_list_def simp del: bit_list_Nil)

lemma clz_last: "x \<noteq> 0 \<Longrightarrow> LENGTH('a) - 1 - clz x = last (bit_list x) \<and> clz x < LENGTH('a)"
  for x :: "'a::len word"
proof -
  assume "x \<noteq> 0"
  let ?xs = "rev [0..<LENGTH('a)]"
  have f: "filter (bit x) ?xs = rev (bit_list x)" by (simp add: bit_list_def rev_filter)
  then have "filter (bit x) ?xs \<noteq> []" using \<open>x \<noteq> 0\<close> by simp
  from takeWhile_filter_hd [OF this] have lt: "clz x < LENGTH('a)" and nth: "?xs ! clz x = last (bit_list x)"
    unfolding f by (simp_all add: clz_def hd_rev)
  then show ?thesis by (simp add: rev_nth)
qed

section \<open>Clearing the lowest and the highest bit\<close>

lemma lowest_bit:
  fixes x :: "'a::len word"
  assumes "x \<noteq> 0"
  defines "l \<equiv> ctz x"
  shows "bit x l" "\<And>i. bit x i \<Longrightarrow> l \<le> i" "x AND (x - 1) = x AND NOT (push_bit l 1)" "x AND - x = push_bit l 1"
proof -
  have ne: "bit_list x \<noteq> []" using assms(1) by simp
  have l: "l = hd (bit_list x)" using ctz_hd [OF assms(1)] by (simp add: l_def)
  then have "l \<in> set (bit_list x)" using ne by simp
  then show b: "bit x l" by (simp add: bit_list_spec)
  show least: "l \<le> i" if "bit x i" for i
    using that sorted_hd_le [OF bit_list_spec(2) [of x], of i] l bit_list_spec(1) [of x] by simp
  define a where "a = x AND NOT (push_bit l 1)"
  have len: "l < LENGTH('a)" using b bit_imp_le_length by blast
  have abit: "bit a i \<longleftrightarrow> bit x i \<and> l < i" for i
    using least [of i] b len by (auto simp: a_def bit_simps bit_imp_le_length)
  have x: "x = a + push_bit l 1"
  proof -
    have "a + push_bit l 1 = a OR push_bit l 1"
      by (rule disjunctive_add) (auto simp: abit bit_simps)
    moreover have "a OR push_bit l 1 = x"
      using b least len by (intro bit_word_eqI) (auto simp: abit bit_simps order_le_less)
    ultimately show ?thesis by simp
  qed
  have m: "x - 1 = a OR mask l"
  proof -
    have "x - 1 = a + mask l" using x by (simp add: mask_eq_exp_minus_1 push_bit_eq_mult)
    also have "\<dots> = a OR mask l" by (rule disjunctive_add) (auto simp: abit bit_simps)
    finally show ?thesis .
  qed
  show "x AND (x - 1) = x AND NOT (push_bit l 1)"
    unfolding m using least len by (intro bit_word_eqI) (auto simp: abit bit_simps bit_imp_le_length)
  have "- x = NOT (x - 1)" by (simp add: minus_eq_not_minus_1)
  then show "x AND - x = push_bit l 1"
    unfolding m using b least len by (intro bit_word_eqI) (auto simp: abit bit_simps order_le_less)
qed

lemma bit_list_clear_lsb:
  fixes x :: "'a::len word"
  assumes "x \<noteq> 0"
  shows "bit_list x = ctz x # bit_list (x AND (x - 1))"
proof (rule bit_listI [symmetric])
  have bits: "bit (x AND (x - 1)) i \<longleftrightarrow> bit x i \<and> i \<noteq> ctz x" for i
    using lowest_bit(3) [OF assms] bit_imp_le_length [of x i] by (auto simp: bit_simps)
  show "set (ctz x # bit_list (x AND (x - 1))) = {i. bit x i}"
    using lowest_bit(1) [OF assms] by (auto simp: bit_list_spec bits)
  show "sorted_wrt (<) (ctz x # bit_list (x AND (x - 1)))"
    using lowest_bit(2) [OF assms] by (fastforce simp: bit_list_spec bits)
qed

lemma highest_bit:
  fixes x :: "'a::len word"
  assumes "x \<noteq> 0"
  defines "h \<equiv> LENGTH('a) - 1 - clz x"
  shows "bit x h" "\<And>i. bit x i \<Longrightarrow> i \<le> h" "bit_list x = bit_list (x AND NOT (push_bit h 1)) @ [h]"
proof -
  have ne: "bit_list x \<noteq> []" using assms(1) by simp
  have h: "h = last (bit_list x)" using clz_last [OF assms(1)] by (simp add: h_def)
  then have "h \<in> set (bit_list x)" using ne by simp
  then show b: "bit x h" by (simp add: bit_list_spec)
  show greatest: "i \<le> h" if "bit x i" for i
    using that sorted_le_last [OF bit_list_spec(2) [of x], of i] h bit_list_spec(1) [of x] by simp
  have bits: "bit (x AND NOT (2 ^ h)) i \<longleftrightarrow> bit x i \<and> i \<noteq> h" for i
    using bit_imp_le_length [of x i] by (auto simp: bit_simps)
  show "bit_list x = bit_list (x AND NOT (push_bit h 1)) @ [h]"
  proof (rule bit_listI [symmetric])
    show "set (bit_list (x AND NOT (push_bit h 1)) @ [h]) = {i. bit x i}" using b by (auto simp: bit_list_spec bits)
    show "sorted_wrt (<) (bit_list (x AND NOT (push_bit h 1)) @ [h])"
      using greatest by (fastforce simp: bit_list_spec bits sorted_wrt_append)
  qed
qed

section \<open>Gathering and scattering bits\<close>

text \<open>The loops run as long as the mask has bits; each iteration clears one.\<close>

function compress_loop :: "'a::len word \<Rightarrow> 'a word \<Rightarrow> 'a word \<Rightarrow> 'a word \<Rightarrow> 'a word" where
  "compress_loop x m bb res =
     (if m = 0 then res
      else compress_loop x (m AND (m - 1)) (bb + bb) (if x AND m AND - m \<noteq> 0 then res OR bb else res))"
  by pat_completeness auto
termination
  by (relation "measure (\<lambda>(x, m, bb, res). popcount m)") (auto simp: popcount_bit_list bit_list_clear_lsb)

declare compress_loop.simps [simp del]

definition compress64 :: "'a::len word \<Rightarrow> 'a word \<Rightarrow> 'a word" where
  "compress64 x m = compress_loop x m 1 0"

function expand_loop :: "'a::len word \<Rightarrow> 'a word \<Rightarrow> 'a word \<Rightarrow> 'a word \<Rightarrow> 'a word" where
  "expand_loop x m bb res =
     (if m = 0 then res
      else expand_loop x (m AND (m - 1)) (bb + bb) (if x AND bb \<noteq> 0 then res OR (m AND - m) else res))"
  by pat_completeness auto
termination
  by (relation "measure (\<lambda>(x, m, bb, res). popcount m)") (auto simp: popcount_bit_list bit_list_clear_lsb)

declare expand_loop.simps [simp del]

definition expand64 :: "'a::len word \<Rightarrow> 'a word \<Rightarrow> 'a word" where
  "expand64 x m = expand_loop x m 1 0"

text \<open>\<^verbatim>\<open>pext64_impl_c\<close> gathers into 32-bit variables, whatever the width of the mask.\<close>

function pext_loop :: "'a::len word \<Rightarrow> 'a word \<Rightarrow> u32 \<Rightarrow> u32 \<Rightarrow> u32" where
  "pext_loop x m result num =
     (if m = 0 then result
      else let (b, m') = findAndClearLSB m
           in pext_loop x m' (if x AND push_bit b 1 \<noteq> 0 then result OR num else result) (push_bit 1 num))"
  by pat_completeness auto
termination
  by (relation "measure (\<lambda>(x, m, result, num). popcount m)")
    (auto simp: findAndClearLSB_def popcount_bit_list bit_list_clear_lsb)

declare pext_loop.simps [simp del]

definition pext32 :: "u32 \<Rightarrow> u32 \<Rightarrow> u32" where
  "pext32 x m = pext_loop x m 0 1"

definition pext64 :: "u64a \<Rightarrow> u64a \<Rightarrow> u64a" where
  "pext64 x m = ucast (pext_loop x m 0 1)"

lemma msb_mask:
  fixes m :: u64a
  assumes "m \<noteq> 0"
  shows "drop_bit (clz m) (0x8000000000000000 :: u64a) = 2 ^ (63 - clz m)"
    and "m XOR drop_bit (clz m) 0x8000000000000000 = m AND NOT (push_bit (63 - clz m) 1)"
proof -
  have c: "clz m < 64" using clz_last [OF assms] by simp
  have "drop_bit (clz m) (2 ^ n :: u64a) = 2 ^ (n - clz m)" if "clz m \<le> n" "n < 64" for n
    by (intro bit_word_eqI) (use that in \<open>auto simp: bit_drop_bit_eq bit_exp_iff\<close>)
  from this [of 63] have "drop_bit (clz m) (2 ^ 63 :: u64a) = 2 ^ (63 - clz m)" using c by linarith
  then show eq: "drop_bit (clz m) (0x8000000000000000 :: u64a) = 2 ^ (63 - clz m)" by simp
  have "bit m (63 - clz m)" using highest_bit(1) [OF assms] by simp
  then show "m XOR drop_bit (clz m) 0x8000000000000000 = m AND NOT (push_bit (63 - clz m) 1)"
    unfolding eq by (intro bit_word_eqI) (auto simp: bit_xor_iff bit_and_iff bit_not_iff bit_exp_iff)
qed

lemma clear_msb_less:
  "m \<noteq> 0 \<Longrightarrow> length (bit_list (m XOR drop_bit (clz m) (0x8000000000000000 :: u64a))) < length (bit_list m)"
  unfolding msb_mask(2) by (subst (2) highest_bit(3)) simp_all

function pdep_loop :: "u64a \<Rightarrow> u64a \<Rightarrow> nat \<Rightarrow> u64a \<Rightarrow> u64a" where
  "pdep_loop x m p result =
     (if m = 0 then result
      else let c = clz m; msb = drop_bit c 0x8000000000000000
           in pdep_loop x (m XOR msb) (p + 1) (result OR (push_bit (p - c) x AND msb)))"
  by pat_completeness auto
termination
  by (relation "measure (\<lambda>(x, m, p, result). popcount m)")
    (auto simp: popcount_bit_list clear_msb_less)

declare pdep_loop.simps [simp del]

definition pdep64 :: "u64a \<Rightarrow> u64a \<Rightarrow> u64a" where
  "pdep64 x m = pdep_loop x m (64 - popcount m) 0"

definition bf64_iterate :: "u64a \<Rightarrow> nat option \<Rightarrow> nat option" where
  "bf64_iterate bitfield from_pos =
     (let bf = (case from_pos of None \<Rightarrow> bitfield | Some b \<Rightarrow> bitfield AND NOT (push_bit b 2 - 1))
      in if bf = 0 then None else Some (ctz bf))"

definition bf64_set :: "u64a \<Rightarrow> nat \<Rightarrow> bool \<times> u64a" where
  "bf64_set bitfield i = (let m = push_bit i 1 in (bitfield AND m \<noteq> 0, bitfield OR m))"

definition bf64_unset :: "u64a \<Rightarrow> nat \<Rightarrow> u64a" where
  "bf64_unset bitfield i = bitfield AND NOT (push_bit i 1)"

definition rank_in_mask :: "'a::len word \<Rightarrow> nat \<Rightarrow> nat" where
  "rank_in_mask msk b = popcount (msk AND (push_bit b 1 - 1))"

section \<open>What the loops compute\<close>

lemma bit_nonzero: "x AND 2 ^ k \<noteq> 0 \<longleftrightarrow> bit x k" for x :: "'a::len word"
  by (simp add: and_exp_eq_0_iff_not_bit)

lemma compress_loop_bit:
  fixes x m :: "'a::len word"
  shows "bit (compress_loop x m (2 ^ k) res) j \<longleftrightarrow>
    bit res j \<or> j < LENGTH('a) \<and> k \<le> j \<and> j < k + length (bit_list m) \<and> bit x (bit_list m ! (j - k))"
proof (induction "length (bit_list m)" arbitrary: m k res)
  case 0
  then show ?case by (auto simp: compress_loop.simps)
next
  case (Suc n)
  then have m: "m \<noteq> 0" by auto
  let ?m = "m AND (m - 1)"
  note bl = bit_list_clear_lsb [OF m]
  have t: "x AND m AND - m \<noteq> 0 \<longleftrightarrow> bit x (ctz m)"
    using lowest_bit(4) [OF m] by (simp add: bit_nonzero)
  have d: "(2 :: 'a word) ^ k + 2 ^ k = 2 ^ Suc k" by simp
  have "bit (compress_loop x m (2 ^ k) res) j \<longleftrightarrow>
      bit (compress_loop x ?m (2 ^ Suc k) (if bit x (ctz m) then res OR 2 ^ k else res)) j"
    by (subst compress_loop.simps) (simp only: m t d if_False)
  also have "\<dots> \<longleftrightarrow> bit (if bit x (ctz m) then res OR 2 ^ k else res) j \<or>
      j < LENGTH('a) \<and> Suc k \<le> j \<and> j < Suc k + length (bit_list ?m) \<and> bit x (bit_list ?m ! (j - Suc k))"
    by (rule Suc.hyps(1)) (use Suc.hyps(2) bl in simp)
  also have "\<dots> \<longleftrightarrow> bit res j \<or> j < LENGTH('a) \<and> k \<le> j \<and> j < k + length (bit_list m) \<and> bit x (bit_list m ! (j - k))"
    by (cases "j = k") (auto simp: bl nth_Cons' bit_or_iff bit_exp_iff)
  finally show ?case .
qed

lemma compress64_bit:
  fixes x m :: "'a::len word"
  shows "bit (compress64 x m) j \<longleftrightarrow> j < length (bit_list m) \<and> bit x (bit_list m ! j)"
proof -
  have "length (bit_list m) \<le> LENGTH('a)" by (simp add: bit_list_def) (metis length_filter_le length_upt diff_zero)
  then show ?thesis
    using compress_loop_bit [of x m 0 0 j] by (auto simp: compress64_def)
qed

lemma pext_loop_bit:
  fixes x m :: "'a::len word"
  shows "bit (pext_loop x m res (2 ^ k)) j \<longleftrightarrow>
    bit res j \<or> j < 32 \<and> k \<le> j \<and> j < k + length (bit_list m) \<and> bit x (bit_list m ! (j - k))"
proof (induction "length (bit_list m)" arbitrary: m k res)
  case 0
  then show ?case by (auto simp: pext_loop.simps)
next
  case (Suc n)
  then have m: "m \<noteq> 0" by auto
  let ?m = "m AND (m - 1)"
  note bl = bit_list_clear_lsb [OF m]
  have t: "x AND push_bit (ctz m) 1 \<noteq> 0 \<longleftrightarrow> bit x (ctz m)" by (simp add: bit_nonzero)
  have d: "push_bit 1 (2 ^ k) = (2 :: u32) ^ Suc k" by (simp add: push_bit_eq_mult)
  have "bit (pext_loop x m res (2 ^ k)) j \<longleftrightarrow>
      bit (pext_loop x ?m (if bit x (ctz m) then res OR 2 ^ k else res) (2 ^ Suc k)) j"
    by (subst pext_loop.simps) (simp only: m t d if_False findAndClearLSB_def Let_def split_conv)
  also have "\<dots> \<longleftrightarrow> bit (if bit x (ctz m) then res OR 2 ^ k else res) j \<or>
      j < 32 \<and> Suc k \<le> j \<and> j < Suc k + length (bit_list ?m) \<and> bit x (bit_list ?m ! (j - Suc k))"
    by (rule Suc.hyps(1)) (use Suc.hyps(2) bl in simp)
  also have "\<dots> \<longleftrightarrow> bit res j \<or> j < 32 \<and> k \<le> j \<and> j < k + length (bit_list m) \<and> bit x (bit_list m ! (j - k))"
    by (cases "j = k") (auto simp: bl nth_Cons' bit_or_iff bit_exp_iff)
  finally show ?case .
qed

lemma expand_loop_bit:
  fixes x m :: "'a::len word"
  shows "bit (expand_loop x m (2 ^ k) res) i \<longleftrightarrow>
    bit res i \<or> (\<exists>j < length (bit_list m). i = bit_list m ! j \<and> bit x (k + j))"
proof (induction "length (bit_list m)" arbitrary: m k res)
  case 0
  then show ?case by (simp add: expand_loop.simps)
next
  case (Suc n)
  then have m: "m \<noteq> 0" by auto
  let ?m = "m AND (m - 1)"
  note bl = bit_list_clear_lsb [OF m]
  have d: "(2 :: 'a word) ^ k + 2 ^ k = 2 ^ Suc k" by simp
  have l: "m AND - m = 2 ^ ctz m" "ctz m < LENGTH('a)"
    using lowest_bit(1,4) [OF m] bit_imp_le_length by auto
  have "bit (expand_loop x m (2 ^ k) res) i \<longleftrightarrow>
      bit (expand_loop x ?m (2 ^ Suc k) (if bit x k then res OR 2 ^ ctz m else res)) i"
    by (subst expand_loop.simps) (simp only: m bit_nonzero d l if_False)
  also have "\<dots> \<longleftrightarrow> bit (if bit x k then res OR 2 ^ ctz m else res) i \<or>
      (\<exists>j < length (bit_list ?m). i = bit_list ?m ! j \<and> bit x (Suc k + j))"
    by (rule Suc.hyps(1)) (use Suc.hyps(2) bl in simp)
  also have "\<dots> \<longleftrightarrow> bit res i \<or> (\<exists>j < length (bit_list m). i = bit_list m ! j \<and> bit x (k + j))"
    using l(2) by (auto simp: bl bit_or_iff bit_exp_iff less_Suc_eq_0_disj)
  finally show ?case .
qed

lemma expand64_bit:
  "bit (expand64 x m) i \<longleftrightarrow> (\<exists>j < length (bit_list m). i = bit_list m ! j \<and> bit x j)"
  using expand_loop_bit [of x m 0 0 i] by (simp add: expand64_def)

lemma clz_popcount: "m \<noteq> 0 \<Longrightarrow> clz m + length (bit_list m) \<le> LENGTH('a)" for m :: "'a::len word"
proof -
  assume m: "m \<noteq> 0"
  have "set (bit_list m) \<subseteq> {..<LENGTH('a) - clz m}"
    using highest_bit(2) [OF m] clz_last [OF m] by (fastforce simp: bit_list_spec)
  then have "card (set (bit_list m)) \<le> LENGTH('a) - clz m" using card_mono [of "{..<LENGTH('a) - clz m}"] by simp
  then show ?thesis using clz_last [OF m] distinct_card [OF bit_list_spec(3) [of m]] by linarith
qed

lemma ex_nth_snoc:
  "(\<exists>j < length (xs @ [h]). i = (xs @ [h]) ! j \<and> P j) \<longleftrightarrow> i = h \<and> P (length xs) \<or> (\<exists>j < length xs. i = xs ! j \<and> P j)"
proof -
  have "i = (xs @ [h]) ! j \<longleftrightarrow> i = xs ! j" if "j < length xs" for j using that by (simp add: nth_append)
  then show ?thesis by (simp add: Ex_less_Suc) (metis (no_types, lifting))
qed

lemma pdep_loop_bit:
  "bit (pdep_loop x m (64 - length (bit_list m)) res) i \<longleftrightarrow>
    bit res i \<or> (\<exists>j < length (bit_list m). i = bit_list m ! j \<and> bit x j)"
proof (induction "length (bit_list m)" arbitrary: m res)
  case 0
  then show ?case by (simp add: pdep_loop.simps)
next
  case (Suc n)
  then have m: "m \<noteq> 0" by auto
  let ?h = "63 - clz m" and ?p = "64 - length (bit_list m)"
  let ?m = "m AND NOT (push_bit ?h 1)"
  have bl: "bit_list m = bit_list ?m @ [?h]" using highest_bit(3) [OF m] by simp
  have c: "clz m < 64" "clz m + length (bit_list m) \<le> 64" using clz_last [OF m] clz_popcount [OF m] by simp_all
  have p: "?p + 1 = 64 - length (bit_list ?m)" using bl c(2) by simp
  let ?r = "res OR (push_bit (?p - clz m) x AND 2 ^ ?h)"
  have "bit (pdep_loop x m ?p res) i \<longleftrightarrow> bit (pdep_loop x ?m (?p + 1) ?r) i"
    by (subst pdep_loop.simps) (simp only: m if_False Let_def msb_mask(1) [OF m]
        msb_mask(2) [OF m, unfolded msb_mask(1) [OF m]])
  also have "\<dots> \<longleftrightarrow> bit ?r i \<or> (\<exists>j < length (bit_list ?m). i = bit_list ?m ! j \<and> bit x j)"
    unfolding p by (rule Suc.hyps(1)) (use Suc.hyps(2) bl in simp)
  also have "bit ?r i \<longleftrightarrow> bit res i \<or> i = ?h \<and> bit x (length (bit_list ?m))"
  proof -
    have "?p - clz m \<le> ?h" "?h - (?p - clz m) = length (bit_list ?m)" using c bl by simp_all
    then show ?thesis using c(1) by (auto simp: bit_or_iff bit_and_iff bit_push_bit_iff bit_exp_iff)
  qed
  also have "(bit res i \<or> i = ?h \<and> bit x (length (bit_list ?m))) \<or>
      (\<exists>j < length (bit_list ?m). i = bit_list ?m ! j \<and> bit x j) \<longleftrightarrow>
      bit res i \<or> (\<exists>j < length (bit_list m). i = bit_list m ! j \<and> bit x j)"
    unfolding bl ex_nth_snoc by blast
  finally show ?case .
qed

section \<open>Results\<close>

text \<open>
  C18. Scattering gathered bits gives back the masked word, and gathering scattered bits gives back as
  many low bits as the mask has.
\<close>

theorem compress_expand_roundtrip:
  fixes x m :: u64a
  shows "expand64 (compress64 x m) m = x AND m \<and> compress64 (expand64 x m) m = take_bit (popcount m) x"
proof
  show "expand64 (compress64 x m) m = x AND m"
  proof (rule bit_word_eqI)
    fix i assume "i < LENGTH(64)"
    have "bit m i \<longleftrightarrow> (\<exists>j < length (bit_list m). i = bit_list m ! j)"
      using bit_list_spec(1) [of m] by (metis in_set_conv_nth mem_Collect_eq)
    then show "bit (expand64 (compress64 x m) m) i \<longleftrightarrow> bit (x AND m) i"
      by (auto simp: expand64_bit compress64_bit bit_and_iff)
  qed
  show "compress64 (expand64 x m) m = take_bit (popcount m) x"
  proof (rule bit_word_eqI)
    fix i assume "i < LENGTH(64)"
    have "bit_list m ! i = bit_list m ! j \<longleftrightarrow> i = j" if "i < length (bit_list m)" "j < length (bit_list m)" for j
      using nth_eq_iff_index_eq [OF bit_list_spec(3)] that by blast
    then show "bit (compress64 (expand64 x m) m) i \<longleftrightarrow> bit (take_bit (popcount m) x) i"
      by (auto simp: expand64_bit compress64_bit bit_take_bit_iff popcount_bit_list)
  qed
qed

text \<open>
  C19. The portable \<^verbatim>\<open>pdep64\<close>, which works from the highest mask bit down with shifts by
  a running distance, computes the same scatter as \<^verbatim>\<open>expand64\<close>.
\<close>

theorem pdep64_expand64: "pdep64 x m = expand64 x m"
  by (rule bit_word_eqI) (simp add: pdep64_def popcount_bit_list pdep_loop_bit expand64_bit)

text \<open>
  The portable \<^verbatim>\<open>pext64\<close> gathers like \<^verbatim>\<open>compress64\<close>, but only the
  low 32 bits of the result survive; the two agree for every operand exactly when the mask has at
  most 32 bits.
\<close>

lemma pext64_truncates:
  "pext64 x m = take_bit 32 (compress64 x m) \<and>
   ((\<forall>y. pext64 y m = compress64 y m) \<longleftrightarrow> popcount m \<le> 32)"
proof
  have eq: "pext64 y m = take_bit 32 (compress64 y m)" for y
    by (rule bit_word_eqI)
      (use pext_loop_bit [of y m 0 0] in \<open>auto simp: pext64_def compress64_bit bit_ucast_iff bit_take_bit_iff\<close>)
  then show "pext64 x m = take_bit 32 (compress64 x m)" .
  have "bit (compress64 m m) j \<longleftrightarrow> j < popcount m" for j
    using bit_list_spec(1) [of m] nth_mem [of j "bit_list m"] by (auto simp: compress64_bit popcount_bit_list)
  then have "popcount m \<le> 32" if "pext64 m m = compress64 m m"
    using that eq [of m] bit_take_bit_iff [of 32 "compress64 m m" 32] by (metis leI nat_less_le)
  moreover have "pext64 y m = compress64 y m" if "popcount m \<le> 32" for y
    unfolding eq using that
    by (intro bit_word_eqI) (auto simp: bit_take_bit_iff compress64_bit popcount_bit_list)
  ultimately show "(\<forall>y. pext64 y m = compress64 y m) \<longleftrightarrow> popcount m \<le> 32" by blast
qed

lemma pext32_compress: "pext32 x m = compress64 x m"
  using pext_loop_bit [of x m 0 0] compress64_bit [of x m]
  by (intro bit_word_eqI) (auto simp: pext32_def compress64_bit)

end
