(* ===== verification/BitField.thy ===== *)
theory BitField
  imports Bitutils
begin

text \<open>
  The fixed-size bitset \<^verbatim>\<open>bitfield<N>\<close> of \<^verbatim>\<open>util/bitfield.h\<close>: an array of
  64-bit blocks. The template argument is the first parameter of the operations that read it. The
  abstraction is the set of bits that are on; the invariant says that there are enough blocks and that
  the trailer behind bit \<open>N\<close> is clear. Where the source asserts that a position is below \<open>N\<close>,
  the lemmas assume it.
\<close>

section \<open>Model\<close>

type_synonym bitfield = "u64a list"

definition num_blocks :: "nat \<Rightarrow> nat" where
  "num_blocks N = (N + 64 - 1) div 64"

definition all_ones :: u64a where
  "all_ones = NOT 0"

definition getword :: "nat \<Rightarrow> nat" where
  "getword n = n div 64"

definition maskbit :: "nat \<Rightarrow> u64a" where
  "maskbit n = push_bit (n mod 64) 1"

definition bf_new :: "nat \<Rightarrow> bitfield" where
  "bf_new N = replicate (num_blocks N) 0"

definition clear_trailer :: "nat \<Rightarrow> bitfield \<Rightarrow> bitfield" where
  "clear_trailer N bits =
     (let final_bits = N mod 64
      in if final_bits \<noteq> 0
         then bits[length bits - 1 := last bits AND (push_bit final_bits 1 - 1)] else bits)"

definition bf_setall :: "nat \<Rightarrow> bitfield \<Rightarrow> bitfield" where
  "bf_setall N bits = clear_trailer N (map (\<lambda>_. all_ones) bits)"

definition bf_clear_all :: "bitfield \<Rightarrow> bitfield" where
  "bf_clear_all bits = map (\<lambda>_. 0) bits"

definition bf_clear :: "bitfield \<Rightarrow> nat \<Rightarrow> bitfield" where
  "bf_clear bits n = bits[getword n := bits ! getword n AND NOT (maskbit n)]"

definition bf_set :: "bitfield \<Rightarrow> nat \<Rightarrow> bitfield" where
  "bf_set bits n = bits[getword n := bits ! getword n OR maskbit n]"

definition bf_test :: "bitfield \<Rightarrow> nat \<Rightarrow> bool" where
  "bf_test bits n \<longleftrightarrow> bits ! getword n AND maskbit n \<noteq> 0"

definition bf_flip :: "bitfield \<Rightarrow> nat \<Rightarrow> bitfield" where
  "bf_flip bits n = bits[getword n := bits ! getword n XOR maskbit n]"

definition bf_flip_all :: "nat \<Rightarrow> bitfield \<Rightarrow> bitfield" where
  "bf_flip_all N bits = clear_trailer N (foldl bf_flip bits [0..<N])"

text \<open>The middle loop of \<^verbatim>\<open>set_range\<close> writes whole blocks while one fits.\<close>

function fill_blocks :: "nat \<Rightarrow> nat \<Rightarrow> bitfield \<Rightarrow> bitfield \<times> nat" where
  "fill_blocks i to bits =
     (if i + 64 \<le> to + 1 then fill_blocks (i + 64) to (bits[i div 64 := all_ones]) else (bits, i))"
  by pat_completeness auto
termination by (relation "measure (\<lambda>(i, to, bits). Suc to - i)") auto

declare fill_blocks.simps [simp del]

definition bf_set_range :: "bitfield \<Rightarrow> nat \<Rightarrow> nat \<Rightarrow> bitfield" where
  "bf_set_range bits from to =
     (if from div 64 = to div 64
      then let block = push_bit (from mod 64) all_ones;
               block' = (if to mod 64 \<noteq> 64 - 1 then block AND (maskbit (to + 1) - 1) else block)
           in bits[from div 64 := bits ! (from div 64) OR block']
      else let (bits1, i) =
                 (if from mod 64 \<noteq> 0
                  then (bits[from div 64 := bits ! (from div 64) OR push_bit (from mod 64) all_ones],
                        (from + 63) div 64 * 64)
                  else (bits, from));
               (bits2, i2) = fill_blocks i to bits1
           in if i2 \<le> to then bits2[i2 div 64 := bits2 ! (i2 div 64) OR (maskbit (to + 1) - 1)] else bits2)"

fun count_blocks :: "bitfield \<Rightarrow> nat" where
  "count_blocks (a # b # c # d # bits) =
     (popcount a + popcount b + popcount c + popcount d) + count_blocks bits"
| "count_blocks [] = 0"
| "count_blocks (a # bits) = popcount a + count_blocks bits"

definition bf_count :: "bitfield \<Rightarrow> nat" where
  "bf_count bits = count_blocks bits"

definition bf_none :: "bitfield \<Rightarrow> bool" where
  "bf_none bits = list_all (\<lambda>e. e = 0) bits"

definition bf_any :: "bitfield \<Rightarrow> bool" where
  "bf_any bits = (\<not> bf_none bits)"

definition bf_all :: "nat \<Rightarrow> bitfield \<Rightarrow> bool" where
  "bf_all N bits =
     (list_all (\<lambda>i. bits ! i = all_ones) [0..<length bits - 1] \<and>
      (let rem = N mod 64 in last bits = (if rem \<noteq> 0 then push_bit rem 1 - 1 else all_ones)))"

fun first_block :: "bitfield \<Rightarrow> nat list \<Rightarrow> nat option" where
  "first_block bits [] = None"
| "first_block bits (i # is) = (if bits ! i \<noteq> 0 then Some i else first_block bits is)"

definition bf_find_first :: "nat \<Rightarrow> bitfield \<Rightarrow> nat" where
  "bf_find_first N bits = (case first_block bits [0..<length bits] of
     None \<Rightarrow> N | Some i \<Rightarrow> i * 64 + ctz (bits ! i))"

definition bf_find_last :: "nat \<Rightarrow> bitfield \<Rightarrow> nat" where
  "bf_find_last N bits = (case first_block bits (rev [0..<length bits]) of
     None \<Rightarrow> N | Some i \<Rightarrow> i * 64 + 64 - 1 - clz (bits ! i))"

definition bf_find_next :: "nat \<Rightarrow> bitfield \<Rightarrow> nat \<Rightarrow> nat" where
  "bf_find_next N bits prv =
     (if prv \<ge> N then N
      else let i = getword prv;
               lastword = bits ! i AND push_bit (prv mod 64 + 1) all_ones
           in if prv mod 64 \<noteq> 64 - 1 \<and> lastword \<noteq> 0 then i * 64 + ctz lastword
              else case first_block bits [Suc i..<length bits] of
                     None \<Rightarrow> N | Some j \<Rightarrow> j * 64 + ctz (bits ! j))"

fun clear_lowest :: "nat \<Rightarrow> u64a \<Rightarrow> u64a" where
  "clear_lowest 0 block = block"
| "clear_lowest (Suc k) block = clear_lowest k (block AND (block - 1))"

fun find_nth_loop :: "nat \<Rightarrow> bitfield \<Rightarrow> nat \<Rightarrow> nat list \<Rightarrow> nat \<Rightarrow> nat" where
  "find_nth_loop N bits n [] acc = N"
| "find_nth_loop N bits n (i # is) acc =
     (let block = bits ! i; aftersum = acc + popcount block
      in if aftersum > n then i * 64 + ctz (clear_lowest (n - acc) block)
         else find_nth_loop N bits n is aftersum)"

definition bf_find_nth :: "nat \<Rightarrow> bitfield \<Rightarrow> nat \<Rightarrow> nat" where
  "bf_find_nth N bits n = find_nth_loop N bits n [0..<length bits] 0"

text \<open>The compound assignments work on four blocks at a time.\<close>

fun blockwise :: "(u64a \<Rightarrow> u64a \<Rightarrow> u64a) \<Rightarrow> bitfield \<Rightarrow> bitfield \<Rightarrow> bitfield" where
  "blockwise f (a # b # c # d # bits) (a' # b' # c' # d' # bits') =
     f a a' # f b b' # f c c' # f d d' # blockwise f bits bits'"
| "blockwise f (a # bits) (a' # bits') = f a a' # blockwise f bits bits'"
| "blockwise f bits _ = bits"

definition bf_or :: "bitfield \<Rightarrow> bitfield \<Rightarrow> bitfield" where
  "bf_or bits a = blockwise (OR) bits a"

definition bf_and :: "bitfield \<Rightarrow> bitfield \<Rightarrow> bitfield" where
  "bf_and bits a = blockwise (AND) bits a"

definition bf_xor :: "bitfield \<Rightarrow> bitfield \<Rightarrow> bitfield" where
  "bf_xor bits a = blockwise (XOR) bits a"

definition bf_not :: "nat \<Rightarrow> bitfield \<Rightarrow> bitfield" where
  "bf_not N bits = bf_flip_all N bits"

section \<open>Abstraction and invariant\<close>

definition bf_bit :: "bitfield \<Rightarrow> nat \<Rightarrow> bool" where
  "bf_bit bits n \<longleftrightarrow> n div 64 < length bits \<and> bit (bits ! (n div 64)) (n mod 64)"

definition bf_elems :: "bitfield \<Rightarrow> nat set" where
  "bf_elems bits = {n. bf_bit bits n}"

definition bf_ok :: "nat \<Rightarrow> bitfield \<Rightarrow> bool" where
  "bf_ok N bits \<longleftrightarrow> length bits = num_blocks N \<and> (\<forall>n. bf_bit bits n \<longrightarrow> n < N)"

lemma num_blocks_less: "n < N \<Longrightarrow> n div 64 < num_blocks N"
  by (simp add: num_blocks_def)

lemma block_pos: "n div 64 = m div 64 \<and> n mod 64 = m mod 64 \<longleftrightarrow> n = (m :: nat)"
  by (metis div_mult_mod_eq)

lemma block_pos_less: "n div 64 = m div 64 \<Longrightarrow> n < m \<Longrightarrow> n mod 64 < m mod (64 :: nat)"
  by (metis div_mult_mod_eq nat_add_left_cancel_less)

lemma block_pos_le:
  assumes "i \<le> m div 64" "m div 64 = i \<Longrightarrow> c \<le> m mod 64" "c < 64"
  shows "i * 64 + c \<le> (m :: nat)"
  using assms div_mult_mod_eq [of m 64] by (cases "m div 64 = i") linarith+

lemma block_pos_ge:
  assumes "m div 64 \<le> i" "m div 64 = i \<Longrightarrow> m mod 64 \<le> h"
  shows "m \<le> i * 64 + (h :: nat)"
proof -
  have "m div 64 * 64 + m mod 64 = m" "m mod 64 < 64" by simp_all
  then show ?thesis using assms by (cases "m div 64 = i") linarith+
qed

lemma bit_maskbit [simp]: "bit (maskbit n) j \<longleftrightarrow> j = n mod 64"
  by (auto simp: maskbit_def bit_simps)

lemma and_maskbit: "x AND maskbit n \<noteq> 0 \<longleftrightarrow> bit x (n mod 64)"
  by (simp add: maskbit_def bit_nonzero)

lemma bit_all_ones [simp]: "bit all_ones j \<longleftrightarrow> j < 64"
  by (simp add: all_ones_def bit_not_iff)

lemma bit_push_ones: "bit (push_bit k all_ones) j \<longleftrightarrow> k \<le> j \<and> j < 64"
  by (auto simp: bit_push_bit_iff)

lemma bf_bit_update:
  "w < length bits \<Longrightarrow>
   bf_bit (bits[w := v]) n \<longleftrightarrow> (if n div 64 = w then bit v (n mod 64) else bf_bit bits n)"
  by (auto simp: bf_bit_def nth_list_update)

lemma bf_okD:
  assumes "bf_ok N bits"
  shows "length bits = num_blocks N" "bf_bit bits n \<Longrightarrow> n < N" "n < N \<Longrightarrow> n div 64 < length bits"
    "finite (bf_elems bits)" "bf_elems bits \<subseteq> {..<N}"
  using assms num_blocks_less by (auto simp: bf_ok_def bf_elems_def intro: finite_subset [of _ "{..<N}"])

lemma bf_elems_eqI: "(\<And>n. bf_bit bits n \<longleftrightarrow> n \<in> S) \<Longrightarrow> bf_elems bits = S"
  by (auto simp: bf_elems_def)

text \<open>An operation that changes one bit.\<close>

lemma bf_single:
  assumes ok: "bf_ok N bits" and n: "n < N"
  shows "bf_elems (bf_set bits n) = insert n (bf_elems bits)" "bf_ok N (bf_set bits n)"
    and "bf_elems (bf_clear bits n) = bf_elems bits - {n}" "bf_ok N (bf_clear bits n)"
    and "bf_elems (bf_flip bits n) = (if n \<in> bf_elems bits then bf_elems bits - {n} else insert n (bf_elems bits))"
    and "bf_ok N (bf_flip bits n)" "bf_test bits n \<longleftrightarrow> n \<in> bf_elems bits"
proof -
  note w = bf_okD(3) [OF ok n]
  have b: "bf_bit bits m \<longleftrightarrow> bit (bits ! (n div 64)) (m mod 64)" if "m div 64 = n div 64" for m
    using that w by (simp add: bf_bit_def)
  have s: "bf_bit (bf_set bits n) m \<longleftrightarrow> m = n \<or> bf_bit bits m"
    and c: "bf_bit (bf_clear bits n) m \<longleftrightarrow> m \<noteq> n \<and> bf_bit bits m"
    and f: "bf_bit (bf_flip bits n) m \<longleftrightarrow> (if m = n then \<not> bf_bit bits n else bf_bit bits m)" for m
    using block_pos [of m n] b [of m]
    by (auto simp: bf_set_def bf_clear_def bf_flip_def getword_def bf_bit_update [OF w] bit_or_iff bit_and_iff
        bit_xor_iff bit_not_iff)
  show "bf_elems (bf_set bits n) = insert n (bf_elems bits)" "bf_elems (bf_clear bits n) = bf_elems bits - {n}"
    "bf_elems (bf_flip bits n) = (if n \<in> bf_elems bits then bf_elems bits - {n} else insert n (bf_elems bits))"
    using s c f by (auto simp: bf_elems_def)
  show "bf_ok N (bf_set bits n)" "bf_ok N (bf_clear bits n)" "bf_ok N (bf_flip bits n)"
    using ok n by (auto simp: bf_ok_def s c f split: if_splits) (simp_all add: bf_set_def bf_clear_def bf_flip_def)
  show "bf_test bits n \<longleftrightarrow> n \<in> bf_elems bits"
    using b [of n] by (simp add: bf_test_def getword_def and_maskbit bf_elems_def)
qed

lemma blockwise_bits:
  assumes f: "\<And>x y j. j < 64 \<Longrightarrow> bit (f x y) j \<longleftrightarrow> g (bit x j) (bit y j)"
  shows "length bits = length bits' \<Longrightarrow>
    length (blockwise f bits bits') = length bits \<and>
    (\<forall>i < length bits. blockwise f bits bits' ! i = f (bits ! i) (bits' ! i))"
proof (induction f bits bits' rule: blockwise.induct)
  case (1 f a b c d bits a' b' c' d' bits')
  then show ?case by (auto simp: nth_Cons split: nat.split)
qed (auto simp: nth_Cons split: nat.split)

lemma bf_binary:
  assumes f: "\<And>x y j. j < 64 \<Longrightarrow> bit (f x y) j \<longleftrightarrow> g (bit x j) (bit y j)" and g: "\<not> g False False"
    and ok: "bf_ok N bits" "bf_ok N bits'"
  shows "bf_elems (blockwise f bits bits') = {n. g (n \<in> bf_elems bits) (n \<in> bf_elems bits')}"
    and "bf_ok N (blockwise f bits bits')"
proof -
  have len: "length bits = length bits'" using ok by (simp add: bf_ok_def)
  note bw = blockwise_bits [of f g bits bits', OF f len]
  have b: "bf_bit (blockwise f bits bits') n \<longleftrightarrow> g (bf_bit bits n) (bf_bit bits' n)" for n
    using bw g len f by (cases "n div 64 < length bits'") (auto simp: bf_bit_def)
  then show "bf_elems (blockwise f bits bits') = {n. g (n \<in> bf_elems bits) (n \<in> bf_elems bits')}"
    by (auto simp: bf_elems_def)
  have "n < N" if "g (bf_bit bits n) (bf_bit bits' n)" for n
    using that g bf_okD(2) ok by (cases "bf_bit bits n"; cases "bf_bit bits' n") auto
  then show "bf_ok N (blockwise f bits bits')" using bw ok b by (auto simp: bf_ok_def)
qed

lemma bf_or_spec:
  "bf_ok N bits \<Longrightarrow> bf_ok N bits' \<Longrightarrow> bf_elems (bf_or bits bits') = bf_elems bits \<union> bf_elems bits'"
  "bf_ok N bits \<Longrightarrow> bf_ok N bits' \<Longrightarrow> bf_ok N (bf_or bits bits')"
  unfolding bf_or_def using bf_binary [of "(OR)" "(\<or>)"] by (auto simp: bit_or_iff)

lemma bf_and_spec:
  "bf_ok N bits \<Longrightarrow> bf_ok N bits' \<Longrightarrow> bf_elems (bf_and bits bits') = bf_elems bits \<inter> bf_elems bits'"
  "bf_ok N bits \<Longrightarrow> bf_ok N bits' \<Longrightarrow> bf_ok N (bf_and bits bits')"
  unfolding bf_and_def using bf_binary [of "(AND)" "(\<and>)"] by (auto simp: bit_and_iff)

lemma bf_xor_spec:
  "bf_ok N bits \<Longrightarrow> bf_ok N bits' \<Longrightarrow>
    bf_elems (bf_xor bits bits') = (bf_elems bits - bf_elems bits') \<union> (bf_elems bits' - bf_elems bits)"
  "bf_ok N bits \<Longrightarrow> bf_ok N bits' \<Longrightarrow> bf_ok N (bf_xor bits bits')"
  unfolding bf_xor_def using bf_binary [of "(XOR)" "(\<noteq>)"] by (auto simp: bit_xor_iff)

lemma num_blocks_split: "num_blocks N = N div 64 + (if N mod 64 = 0 then 0 else 1)"
proof -
  have "N + 64 - 1 = (N mod 64 + 63) + N div 64 * 64" using div_mult_mod_eq [of N 64] by linarith
  then have "num_blocks N = N div 64 + (N mod 64 + 63) div 64"
    by (simp only: num_blocks_def div_mult_self1)
  moreover have "(N mod 64 + 63) div 64 = (if N mod 64 = 0 then 0 else 1)"
    using mod_less_divisor [of 64 N] by (auto intro!: div_nat_eqI)
  ultimately show ?thesis by simp
qed

lemma bit_low_mask: "r < 64 \<Longrightarrow> bit (2 ^ r - 1 :: u64a) j \<longleftrightarrow> j < r"
  by (simp add: mask_eq_exp_minus_1 [symmetric] bit_mask_iff) linarith

lemma clear_trailer_spec:
  assumes len: "length bits = num_blocks N"
  shows "bf_bit (clear_trailer N bits) n \<longleftrightarrow> bf_bit bits n \<and> n < N"
    and "length (clear_trailer N bits) = length bits"
proof -
  let ?r = "N mod 64"
  show "length (clear_trailer N bits) = length bits" by (simp add: clear_trailer_def Let_def)
  show "bf_bit (clear_trailer N bits) n \<longleftrightarrow> bf_bit bits n \<and> n < N"
  proof (cases "?r = 0")
    case True
    have "n < N" if "bf_bit bits n"
    proof -
      have "n div 64 < N div 64" using that len True by (simp add: bf_bit_def num_blocks_split)
      then show ?thesis by (metis div_le_mono not_less)
    qed
    then show ?thesis using True by (auto simp: clear_trailer_def)
  next
    case False
    have last: "length bits - 1 = N div 64" "N div 64 < length bits" using len False by (simp_all add: num_blocks_split)
    then have "last bits = bits ! (N div 64)" by (subst last_conv_nth) auto
    then have "bf_bit (clear_trailer N bits) n \<longleftrightarrow>
        (if n div 64 = N div 64 then bit (bits ! (N div 64)) (n mod 64) \<and> n mod 64 < ?r else bf_bit bits n)"
      using False last by (simp add: clear_trailer_def bf_bit_update bit_and_iff bit_low_mask)
    moreover have "n < N \<longleftrightarrow> n mod 64 < ?r" if "n div 64 = N div 64"
      using that div_mult_mod_eq [of n 64] div_mult_mod_eq [of N 64] by linarith
    moreover have "n < N" if "bf_bit bits n" "n div 64 \<noteq> N div 64"
    proof -
      have "n div 64 < N div 64" using that last by (auto simp: bf_bit_def)
      then show ?thesis by (metis div_le_mono not_less)
    qed
    ultimately show ?thesis using last(2) by (auto simp: bf_bit_def)
  qed
qed

lemma bf_new_spec: "bf_elems (bf_new N) = {}" "bf_ok N (bf_new N)"
  by (auto simp: bf_new_def bf_elems_def bf_ok_def bf_bit_def)

lemma bf_clear_all_spec: "bf_ok N bits \<Longrightarrow> bf_elems (bf_clear_all bits) = {} \<and> bf_ok N (bf_clear_all bits)"
  by (auto simp: bf_clear_all_def bf_elems_def bf_ok_def bf_bit_def)

lemma bf_setall_spec:
  assumes "bf_ok N bits"
  shows "bf_elems (bf_setall N bits) = {..<N}" "bf_ok N (bf_setall N bits)"
proof -
  let ?b = "map (\<lambda>_. all_ones) bits"
  have len: "length ?b = num_blocks N" using assms by (simp add: bf_ok_def)
  have "bf_bit ?b n" if "n < N" for n using bf_okD(3) [OF assms that] by (simp add: bf_bit_def)
  then show "bf_elems (bf_setall N bits) = {..<N}" "bf_ok N (bf_setall N bits)"
    using clear_trailer_spec [OF len] len by (auto simp: bf_setall_def bf_elems_def bf_ok_def)
qed

lemma bf_flips:
  "bf_ok N bits \<Longrightarrow> k \<le> N \<Longrightarrow> bf_ok N (foldl bf_flip bits [0..<k]) \<and>
    bf_elems (foldl bf_flip bits [0..<k]) = (bf_elems bits - {..<k}) \<union> ({..<k} - bf_elems bits)"
proof (induction k)
  case (Suc k)
  then show ?case
    using bf_single(5,6) [of N "foldl bf_flip bits [0..<k]" k] by (auto simp: less_Suc_eq)
qed simp

lemma bf_not_spec:
  assumes "bf_ok N bits"
  shows "bf_elems (bf_not N bits) = {..<N} - bf_elems bits" "bf_ok N (bf_not N bits)"
proof -
  have ok: "bf_ok N (foldl bf_flip bits [0..<N])"
    and el: "bf_elems (foldl bf_flip bits [0..<N]) = {..<N} - bf_elems bits"
    using bf_flips [OF assms order_refl] bf_okD(5) [OF assms] by auto
  note ct = clear_trailer_spec [OF bf_okD(1) [OF ok]]
  show "bf_elems (bf_not N bits) = {..<N} - bf_elems bits"
    using ct(1) el by (auto simp: bf_not_def bf_flip_all_def bf_elems_def)
  show "bf_ok N (bf_not N bits)"
    using ct bf_okD(1) [OF ok] by (auto simp: bf_not_def bf_flip_all_def bf_ok_def)
qed

text \<open>The trailer makes the representation canonical, so \<^verbatim>\<open>operator==\<close> compares sets.\<close>

lemma bf_eqI:
  assumes "bf_ok N bits" "bf_ok N bits'" "bf_elems bits = bf_elems bits'"
  shows "bits = bits'"
proof (rule nth_equalityI)
  show len: "length bits = length bits'" using assms by (simp add: bf_ok_def)
  fix i assume i: "i < length bits"
  show "bits ! i = bits' ! i"
  proof (rule bit_word_eqI)
    fix j assume "j < LENGTH(64)"
    moreover have "bf_bit bits (i * 64 + j) \<longleftrightarrow> bf_bit bits' (i * 64 + j)" using assms(3) by (auto simp: bf_elems_def)
    ultimately show "bit (bits ! i) j \<longleftrightarrow> bit (bits' ! i) j" using i len by (simp add: bf_bit_def)
  qed
qed

section \<open>Searching and counting\<close>

text \<open>The bits that are on, in ascending order, block by block.\<close>

fun list_from :: "nat \<Rightarrow> bitfield \<Rightarrow> nat list" where
  "list_from k [] = []"
| "list_from k (b # bits) = map (\<lambda>j. k * 64 + j) (bit_list b) @ list_from (Suc k) bits"

abbreviation bf_list :: "bitfield \<Rightarrow> nat list" where
  "bf_list bits \<equiv> list_from 0 bits"

lemma set_bit_list: "j \<in> set (bit_list b) \<longleftrightarrow> bit b j" "j \<in> set (bit_list (b :: u64a)) \<Longrightarrow> j < 64"
  using bit_imp_le_length [of b j] by (simp_all add: bit_list_spec)

lemma set_list_from:
  "n \<in> set (list_from k bits) \<longleftrightarrow> k \<le> n div 64 \<and> n div 64 < k + length bits \<and> bit (bits ! (n div 64 - k)) (n mod 64)"
proof (induction k bits rule: list_from.induct)
  case (2 k b bits)
  have "n \<in> (\<lambda>j. k * 64 + j) ` set (bit_list b) \<longleftrightarrow> n div 64 = k \<and> bit b (n mod 64)"
  proof
    assume "n \<in> (\<lambda>j. k * 64 + j) ` set (bit_list b)"
    then show "n div 64 = k \<and> bit b (n mod 64)" using set_bit_list by auto
  next
    assume "n div 64 = k \<and> bit b (n mod 64)"
    then show "n \<in> (\<lambda>j. k * 64 + j) ` set (bit_list b)"
      using div_mult_mod_eq [of n 64] by (intro image_eqI [of _ _ "n mod 64"]) (auto simp: set_bit_list)
  qed
  moreover have "n div 64 - k = Suc (n div 64 - Suc k)" if "Suc k \<le> n div 64" using that by simp
  ultimately show ?case
    using 2 by (cases "n div 64 = k") (auto simp: nth_Cons')
qed simp

lemma set_bf_list: "set (bf_list bits) = bf_elems bits"
  by (auto simp: bf_elems_def bf_bit_def set_list_from)

lemma sorted_list_from: "sorted_wrt (<) (list_from k bits)"
proof (induction k bits rule: list_from.induct)
  case (2 k b bits)
  have "sorted_wrt (<) (map (\<lambda>j. k * 64 + j) (bit_list b))"
    using bit_list_spec(4) [of b] by (simp add: sorted_wrt_map)
  moreover have "x < y" if "x \<in> (\<lambda>j. k * 64 + j) ` set (bit_list b)" "y \<in> set (list_from (Suc k) bits)" for x y
  proof -
    have "x < Suc k * 64" using that(1) set_bit_list(2) [of _ b] by auto
    moreover have "Suc k \<le> y div 64" using that(2) by (simp only: set_list_from)
    then have "Suc k * 64 \<le> y div 64 * 64" by (rule mult_le_mono1)
    then have "Suc k * 64 \<le> y" using div_mult_mod_eq [of y 64] by linarith
    ultimately show ?thesis by simp
  qed
  ultimately show ?case using 2 by (auto simp: sorted_wrt_append)
qed simp

lemma count_blocks_sum: "count_blocks bits = length (list_from k bits)"
  by (induction bits arbitrary: k rule: count_blocks.induct) (simp_all add: popcount_bit_list)

lemma bf_count_card: "bf_count bits = card (bf_elems bits)"
  using count_blocks_sum [of bits 0] sorted_list_from [of 0 bits]
  by (metis bf_count_def distinct_card set_bf_list strict_sorted_iff)

lemma bf_none_spec: "bf_none bits \<longleftrightarrow> bf_elems bits = {}"
proof -
  have "list_all (\<lambda>e. e = 0) bits \<longleftrightarrow> list_from k bits = []" for k
    by (induction bits arbitrary: k) auto
  then show ?thesis using set_bf_list [of bits] by (simp add: bf_none_def) (metis set_empty)
qed

lemma first_block_None: "first_block bits is = None \<longleftrightarrow> (\<forall>i \<in> set is. bits ! i = 0)"
  by (induction "is") auto

lemma first_block_upt:
  "first_block bits [k..<length bits] = Some i \<Longrightarrow>
    k \<le> i \<and> i < length bits \<and> bits ! i \<noteq> 0 \<and> (\<forall>j. k \<le> j \<and> j < i \<longrightarrow> bits ! j = 0)"
proof (induction "length bits - k" arbitrary: k)
  case (Suc n)
  then have "[k..<length bits] = k # [Suc k..<length bits]" by (simp add: upt_conv_Cons)
  then have "bits ! k \<noteq> 0 \<and> i = k \<or> bits ! k = 0 \<and> first_block bits [Suc k..<length bits] = Some i"
    using Suc.prems by (auto split: if_splits)
  then show ?case
  proof
    assume k: "bits ! k = 0 \<and> first_block bits [Suc k..<length bits] = Some i"
    have "n = length bits - Suc k" using Suc.hyps(2) by simp
    then have "Suc k \<le> i \<and> i < length bits \<and> bits ! i \<noteq> 0 \<and> (\<forall>j. Suc k \<le> j \<and> j < i \<longrightarrow> bits ! j = 0)"
      using Suc.hyps(1) k by blast
    then show ?thesis using k by (metis Suc_leD Suc_leI le_neq_implies_less)
  qed (use Suc.hyps(2) in auto)
qed simp

lemma first_block_rev:
  "first_block bits (rev [0..<k]) = Some i \<Longrightarrow> i < k \<and> bits ! i \<noteq> 0 \<and> (\<forall>j. i < j \<and> j < k \<longrightarrow> bits ! j = 0)"
  by (induction k) (auto split: if_splits simp: less_Suc_eq)

text \<open>The least element of a set of positions, or \<open>N\<close> when there is none.\<close>

definition least_or :: "nat \<Rightarrow> nat set \<Rightarrow> nat" where
  "least_or N S = (if S = {} then N else Min S)"

lemma least_orI: "finite S \<Longrightarrow> x \<in> S \<Longrightarrow> (\<And>y. y \<in> S \<Longrightarrow> x \<le> y) \<Longrightarrow> least_or N S = x"
  by (auto simp: least_or_def intro: Min_eqI)

lemma block_elem: "i < length bits \<Longrightarrow> bit (bits ! i) j \<Longrightarrow> i * 64 + j \<in> bf_elems bits"
  using bit_imp_le_length [of "bits ! i" j] by (simp add: bf_elems_def bf_bit_def)

lemma block_least:
  assumes "finite S" "w \<noteq> 0" and "i * 64 + ctz w \<in> S"
    and "\<And>m. m \<in> S \<Longrightarrow> i \<le> m div 64 \<and> (m div 64 = i \<longrightarrow> bit w (m mod 64))"
  shows "least_or N S = i * 64 + ctz (w :: u64a)"
proof (rule least_orI [OF assms(1,3)])
  fix m assume "m \<in> S"
  then show "i * 64 + ctz w \<le> m"
    using assms(4) lowest_bit(1,2) [OF assms(2)] bit_imp_le_length [of w "ctz w"] by (intro block_pos_le) auto
qed

lemma bf_find_first_spec:
  assumes "bf_ok N bits"
  shows "bf_find_first N bits = least_or N (bf_elems bits)"
proof (cases "first_block bits [0..<length bits]")
  case None
  then have "bf_elems bits = {}" by (auto simp: first_block_None bf_elems_def bf_bit_def)
  then show ?thesis using None by (simp add: bf_find_first_def least_or_def)
next
  case (Some i)
  note i = first_block_upt [OF Some]
  have "least_or N (bf_elems bits) = i * 64 + ctz (bits ! i)"
  proof (rule block_least [OF bf_okD(4) [OF assms]])
    show "i * 64 + ctz (bits ! i) \<in> bf_elems bits" using i lowest_bit(1) by (intro block_elem) auto
    show "i \<le> m div 64 \<and> (m div 64 = i \<longrightarrow> bit (bits ! i) (m mod 64))" if "m \<in> bf_elems bits" for m
      using that i by (auto simp: bf_elems_def bf_bit_def) (metis bit_0_eq bot_apply bot_bool_def not_le)
  qed (use i in simp)
  then show ?thesis using Some by (simp add: bf_find_first_def)
qed

lemma bf_find_last_spec:
  assumes "bf_ok N bits"
  shows "bf_find_last N bits = (if bf_elems bits = {} then N else Max (bf_elems bits))"
proof (cases "first_block bits (rev [0..<length bits])")
  case None
  then have "bf_elems bits = {}" by (auto simp: first_block_None bf_elems_def bf_bit_def)
  then show ?thesis using None by (simp add: bf_find_last_def)
next
  case (Some i)
  note i = first_block_rev [OF Some]
  let ?h = "63 - clz (bits ! i)"
  have ne: "bits ! i \<noteq> 0" using i by blast
  have h: "bit (bits ! i) ?h" "\<And>j. bit (bits ! i) j \<Longrightarrow> j \<le> ?h" "clz (bits ! i) < 64"
    using highest_bit [OF ne] clz_last [OF ne] by auto
  have "Max (bf_elems bits) = i * 64 + ?h"
  proof (rule Max_eqI [OF bf_okD(4) [OF assms]])
    show "i * 64 + ?h \<in> bf_elems bits" using i h(1) by (intro block_elem) auto
    fix m assume m: "m \<in> bf_elems bits"
    then have "m div 64 \<le> i" using i by (auto simp: bf_elems_def bf_bit_def) (metis bit_0_eq bot_apply bot_bool_def not_le)
    moreover have "m mod 64 \<le> ?h" if "m div 64 = i" using m h(2) that by (auto simp: bf_elems_def bf_bit_def)
    ultimately show "m \<le> i * 64 + ?h" by (rule block_pos_ge)
  qed
  moreover have "bf_elems bits \<noteq> {}" using block_elem [of i bits ?h] i h(1) by auto
  ultimately show ?thesis using Some h(3) by (simp add: bf_find_last_def)
qed

lemma bf_find_next_spec:
  assumes ok: "bf_ok N bits" and prv: "prv < N"
  shows "bf_find_next N bits prv = least_or N {m \<in> bf_elems bits. prv < m}"
proof -
  let ?i = "prv div 64" and ?S = "{m \<in> bf_elems bits. prv < m}"
  define w where "w = bits ! ?i AND push_bit (prv mod 64 + 1) all_ones"
  have step: "bf_find_next N bits prv = (if prv mod 64 \<noteq> 64 - 1 \<and> w \<noteq> 0 then ?i * 64 + ctz w
      else case first_block bits [Suc ?i..<length bits] of None \<Rightarrow> N | Some j \<Rightarrow> j * 64 + ctz (bits ! j))"
    unfolding bf_find_next_def getword_def Let_def w_def by (rule if_not_P) (use prv in simp)
  have fin: "finite ?S" using bf_okD(4) [OF ok] by simp
  have wbit: "bit w j \<longleftrightarrow> bit (bits ! ?i) j \<and> prv mod 64 < j" for j
    using bit_imp_le_length [of "bits ! ?i" j] by (simp only: w_def bit_and_iff bit_push_ones) auto
  have Sge: "?i \<le> m div 64 \<and> (m div 64 = ?i \<longrightarrow> bit w (m mod 64))" if "m \<in> ?S" for m
  proof
    show "?i \<le> m div 64" using that by (simp add: div_le_mono)
    show "m div 64 = ?i \<longrightarrow> bit w (m mod 64)"
    proof
      assume m: "m div 64 = ?i"
      then have "prv mod 64 < m mod 64" using that by (intro block_pos_less) simp_all
      then show "bit w (m mod 64)" using that m by (simp add: wbit bf_elems_def bf_bit_def)
    qed
  qed
  show ?thesis
  proof (cases "prv mod 64 \<noteq> 63 \<and> w \<noteq> 0")
    case True
    then have w0: "w \<noteq> 0" by simp
    have "bit (bits ! ?i) (ctz w)" "prv mod 64 < ctz w" using lowest_bit(1) [OF w0] wbit by auto
    moreover have "prv < ?i * 64 + ctz w" using calculation(2) div_mult_mod_eq [of prv 64] by linarith
    ultimately have "?i * 64 + ctz w \<in> ?S" using block_elem [OF bf_okD(3) [OF ok prv]] by simp
    from block_least [OF fin w0 this Sge] show ?thesis
      using True by (simp add: step)
  next
    case False
    have w0: "\<not> bit w j" for j
    proof (cases "prv mod 64 = 63")
      case True
      then show ?thesis using bit_imp_le_length [of "bits ! ?i" j] by (auto simp: wbit)
    next
      case 2: False
      then have "w = 0" using False by blast
      then show ?thesis by simp
    qed
    then have Sgt: "?i < m div 64" if "m \<in> ?S" for m using Sge [OF that] le_neq_implies_less by metis
    have eq: "bf_find_next N bits prv = (case first_block bits [Suc ?i..<length bits] of
        None \<Rightarrow> N | Some j \<Rightarrow> j * 64 + ctz (bits ! j))"
      using False by (auto simp: step)
    show ?thesis
    proof (cases "first_block bits [Suc ?i..<length bits]")
      case None
      have "?S = {}" using None Sgt by (fastforce simp: first_block_None bf_elems_def bf_bit_def)
      then show ?thesis using eq None by (simp add: least_or_def)
    next
      case (Some j)
      note j = first_block_upt [OF Some]
      have "least_or N ?S = j * 64 + ctz (bits ! j)"
      proof (rule block_least [OF fin])
        have "?i * 64 + 64 \<le> j * 64" using j by linarith
        then have "prv < j * 64" using div_mult_mod_eq [of prv 64] mod_less_divisor [of 64 prv] by linarith
        then show "j * 64 + ctz (bits ! j) \<in> ?S" using j lowest_bit(1) block_elem [of j bits] by auto
        show "j \<le> m div 64 \<and> (m div 64 = j \<longrightarrow> bit (bits ! j) (m mod 64))" if "m \<in> ?S" for m
          using that j Sgt [OF that] by (auto simp: bf_elems_def bf_bit_def) (metis Suc_leI bit_0_eq bot_apply bot_bool_def not_le)
      qed (use j in simp)
      then show ?thesis using eq Some by simp
    qed
  qed
qed

lemma bit_list_clear_lowest: "bit_list (clear_lowest k b) = drop k (bit_list b)"
proof (induction k arbitrary: b)
  case (Suc k)
  show ?case
  proof (cases "b = 0")
    case True
    then have "clear_lowest n 0 = 0" for n by (induction n) simp_all
    then show ?thesis using True by simp
  next
    case False
    then show ?thesis using Suc bit_list_clear_lsb [OF False] by simp
  qed
qed simp

lemma find_nth_loop_spec:
  "acc \<le> n \<Longrightarrow> find_nth_loop N bits n [k..<length bits] acc =
    (let xs = list_from k (drop k bits) in if n - acc < length xs then xs ! (n - acc) else N)"
proof (induction "length bits - k" arbitrary: k acc)
  case 0
  then show ?case by simp
next
  case (Suc m)
  then have k: "[k..<length bits] = k # [Suc k..<length bits]" "drop k bits = bits ! k # drop (Suc k) bits"
    by (simp_all add: upt_conv_Cons Cons_nth_drop_Suc)
  let ?b = "bits ! k" and ?rest = "list_from (Suc k) (drop (Suc k) bits)"
  show ?case
  proof (cases "n < acc + popcount ?b")
    case True
    have d: "drop (n - acc) (bit_list ?b) \<noteq> []" using True Suc.prems by (simp add: popcount_bit_list)
    then have "clear_lowest (n - acc) ?b \<noteq> 0" using bit_list_clear_lowest [of "n - acc" ?b] by (metis bit_list_0)
    from ctz_hd [OF this] have "ctz (clear_lowest (n - acc) ?b) = bit_list ?b ! (n - acc)"
      using d by (simp add: bit_list_clear_lowest hd_drop_conv_nth)
    moreover have "n - acc < length (bit_list ?b)" using True Suc.prems by (simp add: popcount_bit_list)
    ultimately show ?thesis using True by (simp add: k nth_append Let_def)
  next
    case False
    have "find_nth_loop N bits n [k..<length bits] acc = find_nth_loop N bits n [Suc k..<length bits] (acc + popcount ?b)"
      using False by (simp add: k Let_def)
    also have "\<dots> = (let xs = ?rest in if n - (acc + popcount ?b) < length xs then xs ! (n - (acc + popcount ?b)) else N)"
      using Suc.hyps False by simp
    finally show ?thesis using False by (simp add: k nth_append popcount_bit_list Let_def) linarith
  qed
qed

lemma bf_find_nth_spec:
  "bf_find_nth N bits n = (if n < card (bf_elems bits) then sorted_list_of_set (bf_elems bits) ! n else N)"
proof -
  have "sorted_list_of_set (bf_elems bits) = bf_list bits"
    using sorted_list_from [of 0 bits] set_bf_list [of bits] unfolding strict_sorted_iff
    by (metis sorted_list_of_set.idem_if_sorted_distinct)
  moreover have "length (bf_list bits) = card (bf_elems bits)"
    using bf_count_card [of bits] count_blocks_sum [of bits 0] by (simp add: bf_count_def)
  ultimately show ?thesis using find_nth_loop_spec [of 0 n N bits 0] by (simp add: bf_find_nth_def Let_def)
qed

lemma bf_all_spec:
  assumes ok: "bf_ok N bits" and N: "0 < N"
  shows "bf_all N bits \<longleftrightarrow> bf_elems bits = {..<N}"
proof -
  let ?F = "bf_setall N bits"
  have len: "0 < length bits" "length ?F = length bits"
    using bf_okD(3) [OF ok N] bf_okD(1) [OF bf_setall_spec(2) [OF ok]] bf_okD(1) [OF ok] by simp_all
  have low: "?F ! i = all_ones" if "i < length bits - 1" for i
    using that by (simp add: bf_setall_def clear_trailer_def Let_def)
  have lst: "last ?F = (if N mod 64 \<noteq> 0 then push_bit (N mod 64) 1 - 1 else all_ones)"
    using len(1) by (auto simp: bf_setall_def clear_trailer_def Let_def last_conv_nth all_ones_def nth_list_update)
  have "bf_all N bits \<longleftrightarrow> bits = ?F"
  proof
    assume all: "bf_all N bits"
    have "bits ! i = ?F ! i" if "i < length bits" for i
    proof (cases "i < length bits - 1")
      case True
      then show ?thesis using all low by (simp add: bf_all_def list_all_iff)
    next
      case False
      then have "i = length bits - 1" using that by simp
      moreover have "bits \<noteq> []" "?F \<noteq> []" using len by auto
      ultimately have "bits ! i = last bits" "?F ! i = last ?F" using len(2) by (simp_all add: last_conv_nth)
      moreover have "last bits = (if N mod 64 \<noteq> 0 then push_bit (N mod 64) 1 - 1 else all_ones)"
        using all by (simp only: bf_all_def Let_def)
      ultimately show ?thesis using lst by metis
    qed
    then show "bits = ?F" using len by (intro nth_equalityI) auto
  next
    assume "bits = ?F"
    then have "bits ! i = all_ones" if "i < length bits - 1" for i using low [OF that] by metis
    moreover have "last bits = (if N mod 64 \<noteq> 0 then push_bit (N mod 64) 1 - 1 else all_ones)"
      using lst \<open>bits = ?F\<close> by metis
    ultimately show "bf_all N bits" by (simp add: bf_all_def list_all_iff Let_def del: push_bit_of_1)
  qed
  then show ?thesis
    using bf_eqI [OF ok bf_setall_spec(2) [OF ok]] bf_setall_spec(1) [OF ok] by metis
qed

section \<open>Ranges\<close>

lemma fill_blocks_spec:
  "64 dvd i \<Longrightarrow> to div 64 < length bits \<Longrightarrow> fill_blocks i to bits = (bits', i') \<Longrightarrow> i \<le> to + 1 \<Longrightarrow>
    length bits' = length bits \<and> 64 dvd i' \<and> i \<le> i' \<and> i' \<le> to + 1 \<and> to + 1 < i' + 64 \<and>
    (\<forall>n. bf_bit bits' n \<longleftrightarrow> bf_bit bits n \<or> i \<le> n \<and> n < i')"
proof (induction i to bits arbitrary: bits' i' rule: fill_blocks.induct)
  case (1 i to bits)
  show ?case
  proof (cases "i + 64 \<le> to + 1")
    case False
    then show ?thesis using "1.prems" by (auto simp: fill_blocks.simps)
  next
    case True
    have w: "i div 64 < length bits" using "1.prems"(2) True div_le_mono [of i to 64] by linarith
    have "fill_blocks (i + 64) to (bits[i div 64 := all_ones]) = (bits', i')"
      using "1.prems"(3) True by (simp add: fill_blocks.simps)
    then have IH: "length bits' = length bits" "64 dvd i'" "i + 64 \<le> i'" "i' \<le> to + 1" "to + 1 < i' + 64"
      "\<forall>n. bf_bit bits' n \<longleftrightarrow> bf_bit (bits[i div 64 := all_ones]) n \<or> i + 64 \<le> n \<and> n < i'"
      using "1.IH" [OF True] "1.prems"(1,2) True by auto
    have "n div 64 = i div 64 \<longleftrightarrow> i \<le> n \<and> n < i + 64" for n
      using "1.prems"(1) by (auto elim!: dvdE)
    then show ?thesis using IH w by (auto simp: bf_bit_update)
  qed
qed

lemma bit_maskbit_minus_1: "bit (maskbit k - 1) j \<longleftrightarrow> j < k mod 64"
  by (simp add: maskbit_def bit_low_mask)

lemma set_range_small:
  assumes "from div 64 = to div 64" "to div 64 < length bits" "from \<le> to"
  shows "bf_bit (bf_set_range bits from to) n \<longleftrightarrow> bf_bit bits n \<or> from \<le> n \<and> n \<le> to"
proof -
  let ?q = "to div 64"
  define block where "block = (if to mod 64 \<noteq> 64 - 1 then push_bit (from mod 64) all_ones AND (maskbit (to + 1) - 1)
    else push_bit (from mod 64) all_ones)"
  have suc: "(to + 1) mod 64 = to mod 64 + 1" if "to mod 64 \<noteq> 63" using that by (simp add: mod_Suc)
  have blk: "bit block j \<longleftrightarrow> from mod 64 \<le> j \<and> j \<le> to mod 64" for j
  proof (cases "to mod 64 = 63")
    case True
    then show ?thesis by (auto simp: block_def bit_push_ones)
  next
    case False
    then show ?thesis using suc mod_less_divisor [of 64 to] by (simp add: block_def bit_and_iff bit_push_ones bit_maskbit_minus_1) linarith
  qed
  have "bf_set_range bits from to = bits[?q := bits ! ?q OR block]"
    unfolding bf_set_range_def Let_def assms(1) block_def by (rule if_P) (rule refl)
  then have "bf_bit (bf_set_range bits from to) n \<longleftrightarrow>
      (if n div 64 = ?q then bit (bits ! ?q OR block) (n mod 64) else bf_bit bits n)"
    using assms(2) by (simp only: bf_bit_update)
  also have "\<dots> \<longleftrightarrow> bf_bit bits n \<or> n div 64 = ?q \<and> from mod 64 \<le> n mod 64 \<and> n mod 64 \<le> to mod 64"
    using assms(2) by (auto simp: bit_or_iff blk bf_bit_def)
  also have "n div 64 = ?q \<and> from mod 64 \<le> n mod 64 \<and> n mod 64 \<le> to mod 64 \<longleftrightarrow> from \<le> n \<and> n \<le> to"
  proof -
    have "from \<le> n \<longleftrightarrow> from mod 64 \<le> n mod 64" "n \<le> to \<longleftrightarrow> n mod 64 \<le> to mod 64" if "n div 64 = ?q"
      using that assms(1) by (metis div_mult_mod_eq nat_add_left_cancel_le)+
    moreover have "n div 64 = ?q" if "from \<le> n" "n \<le> to"
      using div_le_mono [OF that(1), of 64] div_le_mono [OF that(2), of 64] assms(1) by linarith
    ultimately show ?thesis by blast
  qed
  finally show ?thesis .
qed

lemma set_range_head:
  assumes "from div 64 < length bits" "from mod 64 \<noteq> 0"
  shows "bf_bit (bits[from div 64 := bits ! (from div 64) OR push_bit (from mod 64) all_ones]) n \<longleftrightarrow>
    bf_bit bits n \<or> from \<le> n \<and> n < (from + 63) div 64 * 64"
proof -
  have up: "(from + 63) div 64 * 64 = from div 64 * 64 + 64"
    using num_blocks_split [of "from"] assms(2) by (simp add: num_blocks_def add.commute)
  have r: "from \<le> n \<and> n < from div 64 * 64 + 64 \<longleftrightarrow> n div 64 = from div 64 \<and> from mod 64 \<le> n mod 64"
  proof
    assume n: "from \<le> n \<and> n < from div 64 * 64 + 64"
    then have "from div 64 \<le> n div 64" by (simp add: div_le_mono)
    moreover have "n div 64 < from div 64 + 1" using n by (simp add: less_mult_imp_div_less)
    ultimately have eq: "n div 64 = from div 64" by simp
    then show "n div 64 = from div 64 \<and> from mod 64 \<le> n mod 64"
      using n by (metis div_mult_mod_eq nat_add_left_cancel_le)
  next
    assume "n div 64 = from div 64 \<and> from mod 64 \<le> n mod 64"
    then show "from \<le> n \<and> n < from div 64 * 64 + 64"
      using div_mult_mod_eq [of n 64] div_mult_mod_eq [of "from" 64] mod_less_divisor [of 64 n] by linarith
  qed
  show ?thesis
    unfolding up bf_bit_update [OF assms(1)] bit_or_iff bit_push_ones r
    using assms(1) by (auto simp: bf_bit_def)
qed

lemma set_range_tail:
  assumes "64 dvd i" "i \<le> to" "to + 1 < i + 64" "i div 64 < length bits"
  shows "bf_bit (bits[i div 64 := bits ! (i div 64) OR (maskbit (to + 1) - 1)]) n \<longleftrightarrow>
    bf_bit bits n \<or> i \<le> n \<and> n \<le> to"
proof -
  obtain q where q: "i = q * 64" using assms(1) by (auto simp: dvd_def mult.commute)
  define d where "d = to + 1 - i"
  have d: "to + 1 = d + q * 64" "d < 64" using assms(2,3) q by (simp_all add: d_def)
  then have m: "(to + 1) mod 64 = d" by simp
  have r: "i \<le> n \<and> n \<le> to \<longleftrightarrow> n div 64 = i div 64 \<and> n mod 64 < d"
  proof
    assume n: "i \<le> n \<and> n \<le> to"
    then have "n div 64 = q" using d q by (intro div_nat_eqI) simp_all
    then show "n div 64 = i div 64 \<and> n mod 64 < d" using div_mult_mod_eq [of n 64] n d q by simp
  next
    assume "n div 64 = i div 64 \<and> n mod 64 < d"
    then show "i \<le> n \<and> n \<le> to" using div_mult_mod_eq [of n 64] d q by simp
  qed
  show ?thesis
    unfolding bf_bit_update [OF assms(4)] bit_or_iff bit_maskbit_minus_1 m r
    using assms(4) by (auto simp: bf_bit_def)
qed

lemma bf_set_range_bit:
  assumes ok: "bf_ok N bits" and ft: "from \<le> to" "to < N"
  shows "bf_bit (bf_set_range bits from to) n \<longleftrightarrow> bf_bit bits n \<or> from \<le> n \<and> n \<le> to"
    and "length (bf_set_range bits from to) = length bits"
proof -
  have lt: "to div 64 < length bits" "from div 64 < length bits"
    using bf_okD(3) [OF ok] ft by simp_all
  have "(bf_bit (bf_set_range bits from to) n \<longleftrightarrow> bf_bit bits n \<or> from \<le> n \<and> n \<le> to) \<and>
      length (bf_set_range bits from to) = length bits"
  proof (cases "from div 64 = to div 64")
    case True
    then show ?thesis
      using set_range_small [OF True lt(1) ft(1)] by (simp add: bf_set_range_def Let_def)
  next
    case False
    let ?up = "(from + 63) div 64 * 64"
    let ?b1 = "if from mod 64 \<noteq> 0 then bits[from div 64 := bits ! (from div 64) OR push_bit (from mod 64) all_ones] else bits"
    let ?i = "if from mod 64 \<noteq> 0 then ?up else from"
    have dv: "64 dvd ?i" by (auto simp: dvd_eq_mod_eq_0)
    have b1: "bf_bit ?b1 n \<longleftrightarrow> bf_bit bits n \<or> from \<le> n \<and> n < ?i" "length ?b1 = length bits" for n
      using set_range_head [OF lt(2), of n] by auto
    have up: "?up = from div 64 * 64 + 64" if "from mod 64 \<noteq> 0"
      using num_blocks_split [of "from"] that by (simp add: num_blocks_def add.commute)
    have "Suc (from div 64) \<le> to div 64" using False div_le_mono [OF ft(1), of 64] by simp
    then have "Suc (from div 64) * 64 \<le> to div 64 * 64" by (rule mult_le_mono1)
    then have it: "?i \<le> to + 1" "from \<le> ?i"
      using up div_mult_mod_eq [of to 64] div_mult_mod_eq [of "from" 64] mod_less_divisor [of 64 "from"] ft(1) by auto
    obtain b2 i2 where b2: "fill_blocks ?i to ?b1 = (b2, i2)" by fastforce
    have f: "length b2 = length bits" "64 dvd i2" "?i \<le> i2" "i2 \<le> to + 1" "to + 1 < i2 + 64"
      "\<And>n. bf_bit b2 n \<longleftrightarrow> bf_bit ?b1 n \<or> ?i \<le> n \<and> n < i2"
      using fill_blocks_spec [OF dv _ b2 it(1)] lt(1) b1(2) by auto
    have r: "bf_set_range bits from to = (if i2 \<le> to then b2[i2 div 64 := b2 ! (i2 div 64) OR (maskbit (to + 1) - 1)] else b2)"
      using False b2 by (auto simp: bf_set_range_def)
    have b2n: "bf_bit b2 n \<longleftrightarrow> bf_bit bits n \<or> from \<le> n \<and> n < i2"
      using f(3,6) b1(1) it(2) by auto
    show ?thesis
    proof (cases "i2 \<le> to")
      case True
      then have "i2 div 64 < length b2" using lt(1) f(1) div_le_mono [OF True, of 64] by simp
      from set_range_tail [OF f(2) True f(5) this, of n] show ?thesis
        using r True b2n f(1,3) it(2) by auto
    next
      case False
      then show ?thesis using r b2n f(1,4) by auto
    qed
  qed
  then show "bf_bit (bf_set_range bits from to) n \<longleftrightarrow> bf_bit bits n \<or> from \<le> n \<and> n \<le> to"
    "length (bf_set_range bits from to) = length bits" by auto
qed

lemma bf_set_range_spec:
  assumes "bf_ok N bits" "from \<le> to" "to < N"
  shows "bf_elems (bf_set_range bits from to) = bf_elems bits \<union> {from..to}" "bf_ok N (bf_set_range bits from to)"
  using bf_set_range_bit [OF assms] assms by (auto simp: bf_elems_def bf_ok_def)

section \<open>Iteration\<close>

text \<open>
  The loop \<^verbatim>\<open>for (i = find_first(); i != npos; i = find_next(i))\<close>, as the list of the
  positions it visits; \<open>None\<close> when it does not end.
\<close>

partial_function (option) visit :: "('s \<Rightarrow> nat \<Rightarrow> nat) \<Rightarrow> nat \<Rightarrow> 's \<Rightarrow> nat \<Rightarrow> nat list option" where
  "visit nxt stop s i =
     (if i = stop then Some [] else Option.bind (visit nxt stop s (nxt s i)) (\<lambda>is. Some (i # is)))"

declare visit.simps [code]

locale bit_iteration =
  fixes first :: "'s \<Rightarrow> nat"
    and nxt :: "'s \<Rightarrow> nat \<Rightarrow> nat"
    and stop :: nat
    and elems :: "'s \<Rightarrow> nat set"
    and ok :: "'s \<Rightarrow> bool"
  assumes elems_bound: "ok s \<Longrightarrow> elems s \<subseteq> {..<stop}"
    and first_least: "ok s \<Longrightarrow> first s = least_or stop (elems s)"
    and next_least: "ok s \<Longrightarrow> i \<in> elems s \<Longrightarrow> nxt s i = least_or stop {m \<in> elems s. i < m}"
begin

lemma visit_from:
  assumes "ok s"
  shows "visit nxt stop s (least_or stop {m \<in> elems s. k \<le> m}) = Some (sorted_list_of_set {m \<in> elems s. k \<le> m})"
proof (induction "card {m \<in> elems s. k \<le> m}" arbitrary: k)
  case 0
  have "finite (elems s)" using elems_bound [OF assms] finite_subset by blast
  then have emp: "{m \<in> elems s. k \<le> m} = {}" using 0 by simp
  show ?case unfolding emp by (simp add: least_or_def visit.simps)
next
  case (Suc n)
  let ?S = "{m \<in> elems s. k \<le> m}"
  have fin: "finite ?S" using elems_bound [OF assms] finite_subset by fastforce
  have ne: "?S \<noteq> {}" using Suc.hyps(2) by (metis card.empty nat.distinct(1))
  define i where "i = Min ?S"
  have i: "i \<in> ?S" "\<And>y. y \<in> ?S \<Longrightarrow> i \<le> y" using Min_in [OF fin ne] fin by (auto simp: i_def)
  have lt: "i < stop" and mem: "i \<in> elems s" using i(1) elems_bound [OF assms] by auto
  have rest: "?S - {i} = {m \<in> elems s. Suc i \<le> m}" 
  proof (intro equalityI subsetI)
    fix x assume "x \<in> ?S - {i}"
    then have "x \<in> elems s" "i \<le> x" "x \<noteq> i" using i(2) [of x] by auto
    then show "x \<in> {m \<in> elems s. Suc i \<le> m}" by simp
  qed (use i(1) in auto)
  have "nxt s i = least_or stop {m \<in> elems s. Suc i \<le> m}" using next_least [OF assms mem] by (simp add: Suc_le_eq)
  moreover have "n = card {m \<in> elems s. Suc i \<le> m}"
    using Suc.hyps(2) card_Diff_singleton [OF i(1)] unfolding rest by simp
  ultimately have "visit nxt stop s (nxt s i) = Some (sorted_list_of_set (?S - {i}))"
    using Suc.hyps(1) [of "Suc i"] rest by simp
  moreover have "least_or stop ?S = i" unfolding least_or_def if_not_P [OF ne] i_def ..
  ultimately show ?case
    using lt sorted_list_of_set_nonempty [OF fin ne, folded i_def] by (simp add: visit.simps [of nxt stop s i])
qed

lemma visit_all: "ok s \<Longrightarrow> visit nxt stop s (first s) = Some (sorted_list_of_set (elems s))"
  using visit_from [of s 0] by (simp add: first_least)

end

interpretation bf_iter: bit_iteration "bf_find_first N" "bf_find_next N" N bf_elems "bf_ok N" for N
proof unfold_locales
  show "bf_find_next N s i = least_or N {m \<in> bf_elems s. i < m}" if "bf_ok N s" "i \<in> bf_elems s" for s i
    using bf_find_next_spec [OF that(1)] bf_okD(5) [OF that(1)] that(2) by auto
qed (simp_all add: bf_okD(5) bf_find_first_spec)

section \<open>Properties\<close>

text \<open>
  C20. The searches of a bitfield: first, last, next and \<open>n\<close>-th bit are the minimum, the maximum,
  the minimum above a position and the \<open>n\<close>-th element in ascending order of the set of bits that
  are on, and \<^verbatim>\<open>npos\<close> when there is no such bit.
\<close>

theorem bitfield_searches:
  assumes "bf_ok N bits" "prv < N"
  shows "bf_find_first N bits = (if bf_elems bits = {} then N else Min (bf_elems bits)) \<and>
    bf_find_last N bits = (if bf_elems bits = {} then N else Max (bf_elems bits)) \<and>
    bf_find_next N bits prv =
      (if {m \<in> bf_elems bits. prv < m} = {} then N else Min {m \<in> bf_elems bits. prv < m}) \<and>
    bf_find_nth N bits n = (if n < card (bf_elems bits) then sorted_list_of_set (bf_elems bits) ! n else N)"
  unfolding bf_find_first_spec [OF assms(1)] bf_find_last_spec [OF assms(1)] bf_find_next_spec [OF assms]
    bf_find_nth_spec least_or_def by (intro conjI refl)

theorem bitfield_searches_witness:
  "bf_find_next 100 (bf_set (bf_new 100) 70) 3 = 70"
proof -
  have ok: "bf_ok 100 (bf_set (bf_new 100) 70)" "bf_elems (bf_set (bf_new 100) 70) = {70}"
    using bf_single [OF bf_new_spec(2), of 70 100] bf_new_spec [of 100] by simp_all
  have "{m \<in> {70}. (3 :: nat) < m} = {70}" by auto
  then show ?thesis using bitfield_searches [OF ok(1), of 3] unfolding ok(2) by simp
qed

text \<open>
  \<^verbatim>\<open>set_range\<close>, which writes a partial block, whole blocks and a partial block,
  switches on exactly the bits of the range and keeps the trailer clear.
\<close>

lemma bitfield_set_range:
  assumes "bf_ok N bits" "from \<le> to" "to < N"
  shows "bf_elems (bf_set_range bits from to) = bf_elems bits \<union> {from..to} \<and> bf_ok N (bf_set_range bits from to)"
  using bf_set_range_spec [OF assms] by simp

lemma bitfield_set_range_witness: "bf_elems (bf_set_range (bf_new 300) 5 290) = {5..290}"
  using bitfield_set_range [of 300 "bf_new 300" 5 290] by (simp add: bf_new_spec)

end
