(* ===== verification/CharReach.thy ===== *)
theory CharReach
  imports BitField FlatContainers
begin

text \<open>
  Character classes, \<^verbatim>\<open>util/charreach.h\<close>, \<^verbatim>\<open>util/charreach.cpp\<close> and the
  case functions of \<^verbatim>\<open>util/compare.h\<close>: a bitfield of 256 bits indexed by a byte. A
  \<^verbatim>\<open>char\<close> is an unsigned byte here: the comparisons of the case functions give the
  same answer for a signed one. A class refines a set of bytes.
\<close>

section \<open>Model\<close>

type_synonym charreach = bitfield

abbreviation npos :: nat where
  "npos \<equiv> 256"

definition cr_flip_bit :: "charreach \<Rightarrow> u8 \<Rightarrow> charreach" where "cr_flip_bit cr c = bf_flip cr (unat c)"
definition cr_clear_all :: "charreach \<Rightarrow> charreach" where "cr_clear_all cr = bf_clear_all cr"
definition cr_find_last :: "charreach \<Rightarrow> nat" where "cr_find_last cr = bf_find_last npos cr"
definition cr_find_nth :: "charreach \<Rightarrow> nat \<Rightarrow> nat" where "cr_find_nth cr n = bf_find_nth npos cr n"
definition cr_new :: charreach where "cr_new = bf_new npos"
definition cr_setall :: "charreach \<Rightarrow> charreach" where "cr_setall cr = bf_setall npos cr"
definition cr_clear :: "charreach \<Rightarrow> u8 \<Rightarrow> charreach" where "cr_clear cr c = bf_clear cr (unat c)"
definition cr_set :: "charreach \<Rightarrow> u8 \<Rightarrow> charreach" where "cr_set cr c = bf_set cr (unat c)"
definition cr_test :: "charreach \<Rightarrow> u8 \<Rightarrow> bool" where "cr_test cr c = bf_test cr (unat c)"
definition cr_flip :: "charreach \<Rightarrow> charreach" where "cr_flip cr = bf_flip_all npos cr"
definition cr_setRange :: "charreach \<Rightarrow> u8 \<Rightarrow> u8 \<Rightarrow> charreach" where
  "cr_setRange cr from to = bf_set_range cr (unat from) (unat to)"
definition cr_range :: "u8 \<Rightarrow> u8 \<Rightarrow> charreach" where "cr_range from to = cr_setRange cr_new from to"
definition cr_dot :: charreach where "cr_dot = cr_range 0 255"
definition cr_count :: "charreach \<Rightarrow> nat" where "cr_count cr = bf_count cr"
definition cr_none :: "charreach \<Rightarrow> bool" where "cr_none cr = bf_none cr"
definition cr_any :: "charreach \<Rightarrow> bool" where "cr_any cr = bf_any cr"
definition cr_all :: "charreach \<Rightarrow> bool" where "cr_all cr = bf_all npos cr"
definition cr_find_first :: "charreach \<Rightarrow> nat" where "cr_find_first cr = bf_find_first npos cr"
definition cr_find_next :: "charreach \<Rightarrow> nat \<Rightarrow> nat" where "cr_find_next cr prv = bf_find_next npos cr prv"
definition cr_or :: "charreach \<Rightarrow> charreach \<Rightarrow> charreach" where "cr_or a b = bf_or a b"
definition cr_and :: "charreach \<Rightarrow> charreach \<Rightarrow> charreach" where "cr_and a b = bf_and a b"
definition cr_xor :: "charreach \<Rightarrow> charreach \<Rightarrow> charreach" where "cr_xor a b = bf_xor a b"
definition cr_not :: "charreach \<Rightarrow> charreach" where "cr_not a = cr_flip a"

definition cr_set_string :: "charreach \<Rightarrow> u8 list \<Rightarrow> charreach" where
  "cr_set_string cr s = foldl cr_set cr s"

text \<open>The bytes a loop over the class visits.\<close>

definition cr_chars :: "charreach \<Rightarrow> u8 list option" where
  "cr_chars cr = map_option (map of_nat) (visit cr_find_next npos cr (cr_find_first cr))"

definition myisupper :: "u8 \<Rightarrow> bool" where "myisupper c \<longleftrightarrow> 0x41 \<le> c \<and> c \<le> 0x5a"
definition myislower :: "u8 \<Rightarrow> bool" where "myislower c \<longleftrightarrow> 0x61 \<le> c \<and> c \<le> 0x7a"
definition mytolower :: "u8 \<Rightarrow> u8" where "mytolower c = (if myisupper c then c + 0x20 else c)"
definition mytoupper :: "u8 \<Rightarrow> u8" where "mytoupper c = (if myislower c then c - 0x20 else c)"
definition ourisalpha :: "u8 \<Rightarrow> bool" where "ourisalpha c \<longleftrightarrow> mytolower c \<noteq> mytoupper c"

definition isAlpha :: "charreach \<Rightarrow> bool option" where
  "isAlpha cr = (if cr_none cr then Some False else map_option (list_all ourisalpha) (cr_chars cr))"

definition isCaselessChar :: "charreach \<Rightarrow> bool" where
  "isCaselessChar cr =
     (if cr_count cr \<noteq> 2 then False
      else let first = cr_find_first cr; second = cr_find_next cr first
           in (of_nat first :: u8) = mytoupper (of_nat second))"

definition isBit5Insensitive :: "charreach \<Rightarrow> bool option" where
  "isBit5Insensitive cr = map_option (list_all (\<lambda>c. cr_test cr (c XOR 0x20))) (cr_chars cr)"

definition cr_to_string :: "charreach \<Rightarrow> u8 list option" where
  "cr_to_string cr = map_option (foldl (\<lambda>s c. s @ [c]) []) (cr_chars cr)"

definition overlaps :: "charreach \<Rightarrow> charreach \<Rightarrow> bool" where
  "overlaps a b = cr_any (cr_and a b)"

definition isSubsetOf :: "charreach \<Rightarrow> charreach \<Rightarrow> bool" where
  "isSubsetOf small big = (cr_and small big = small)"

definition upper_chars :: "u8 list" where
  "upper_chars = map of_nat [0x41..<0x5b]"

definition caseless_step :: "charreach \<Rightarrow> u8 \<Rightarrow> charreach" where
  "caseless_step cr c =
     (if cr_test cr c \<or> cr_test cr (mytolower c) then cr_set (cr_set cr c) (mytolower c) else cr)"

definition make_caseless :: "charreach \<Rightarrow> charreach" where
  "make_caseless cr = foldl caseless_step cr upper_chars"

definition isutf8ascii :: "charreach \<Rightarrow> bool" where
  "isutf8ascii cr = cr_none (cr_and cr (cr_not (cr_range 0 0x7f)))"

definition isutf8start :: "charreach \<Rightarrow> bool" where
  "isutf8start cr = cr_none (cr_and cr (cr_range 0 0xbf))"

definition fill_step :: "u8 list \<Rightarrow> u8 \<Rightarrow> u8 list" where
  "fill_step bits c = bits[unat c div 8 := bits ! (unat c div 8) OR push_bit (unat c mod 8) 1]"

definition fill_bitvector :: "charreach \<Rightarrow> u8 list option" where
  "fill_bitvector cr = map_option (foldl fill_step (replicate 32 0)) (cr_chars cr)"

definition make_and_cmp_mask :: "charreach \<Rightarrow> (u8 \<times> u8) option" where
  "make_and_cmp_mask cr =
     map_option (\<lambda>cs. let (lo, hi) = foldl (\<lambda>(lo, hi) c. (lo AND c, hi OR c)) (0xff, 0) cs
                      in (NOT (lo XOR hi), lo)) (cr_chars cr)"

section \<open>Refinement to sets of bytes\<close>

definition cr_ok :: "charreach \<Rightarrow> bool" where
  "cr_ok cr \<longleftrightarrow> bf_ok npos cr"

definition cr_elems :: "charreach \<Rightarrow> u8 set" where
  "cr_elems cr = {c. unat c \<in> bf_elems cr}"

lemma unat_u8 [simp]: "unat (c :: u8) < 256"
  using unsigned_less [of c] by simp

lemma u8_of_nat_unat [simp]: "n < 256 \<Longrightarrow> unat (of_nat n :: u8) = n"
  by (simp add: unat_of_nat take_bit_nat_eq_self)

lemma bf_elems_cr: "cr_ok cr \<Longrightarrow> bf_elems cr = unat ` cr_elems cr"
  using bf_okD(5) [of npos cr] by (auto simp: cr_ok_def cr_elems_def image_iff) (metis lessThan_iff subsetD u8_of_nat_unat)

lemma cr_single:
  assumes "cr_ok cr"
  shows "cr_elems (cr_set cr c) = insert c (cr_elems cr)" "cr_ok (cr_set cr c)"
    and "cr_elems (cr_clear cr c) = cr_elems cr - {c}" "cr_ok (cr_clear cr c)"
    and "cr_test cr c \<longleftrightarrow> c \<in> cr_elems cr"
  using bf_single [of npos cr "unat c"] assms
  by (auto simp: cr_elems_def cr_ok_def cr_set_def cr_clear_def cr_test_def word_unat_eq_iff)

lemma cr_new_spec: "cr_elems cr_new = {}" "cr_ok cr_new"
  using bf_new_spec [of npos] by (simp_all add: cr_elems_def cr_ok_def cr_new_def)

interpretation cr: set_container cr_new cr_set cr_clear cr_test cr_elems cr_ok
  by unfold_locales (simp_all add: cr_single cr_new_spec)

lemma cr_range_spec:
  assumes "cr_ok cr" "from \<le> to"
  shows "cr_elems (cr_setRange cr from to) = cr_elems cr \<union> {from..to}" "cr_ok (cr_setRange cr from to)"
  using bf_set_range_spec [of npos cr "unat from" "unat to"] assms
  by (auto simp: cr_elems_def cr_ok_def cr_setRange_def word_le_nat_alt)

lemma cr_not_spec:
  assumes "cr_ok cr"
  shows "cr_elems (cr_not cr) = - cr_elems cr" "cr_ok (cr_not cr)"
  using bf_not_spec [of npos cr] assms
  by (auto simp: cr_elems_def cr_ok_def cr_not_def cr_flip_def bf_not_def)

lemma cr_binary:
  assumes "cr_ok a" "cr_ok b"
  shows "cr_elems (cr_or a b) = cr_elems a \<union> cr_elems b" "cr_ok (cr_or a b)"
    and "cr_elems (cr_and a b) = cr_elems a \<inter> cr_elems b" "cr_ok (cr_and a b)"
    and "cr_elems (cr_xor a b) = (cr_elems a - cr_elems b) \<union> (cr_elems b - cr_elems a)" "cr_ok (cr_xor a b)"
  using bf_or_spec [of npos a b] bf_and_spec [of npos a b] bf_xor_spec [of npos a b] assms
  by (auto simp: cr_elems_def cr_ok_def cr_or_def cr_and_def cr_xor_def)

lemma cr_eq_iff: "cr_ok a \<Longrightarrow> cr_ok b \<Longrightarrow> a = b \<longleftrightarrow> cr_elems a = cr_elems b"
  using bf_eqI [of npos a b] bf_elems_cr [of a] bf_elems_cr [of b] by (auto simp: cr_ok_def)

lemma cr_none_spec: "cr_ok cr \<Longrightarrow> cr_none cr \<longleftrightarrow> cr_elems cr = {}"
  using bf_elems_cr [of cr] by (simp add: cr_none_def bf_none_spec)

lemma cr_count_spec: "cr_ok cr \<Longrightarrow> cr_count cr = card (cr_elems cr)"
  using bf_elems_cr [of cr] by (simp add: cr_count_def bf_count_card card_image inj_on_def word_unat_eq_iff)

lemma cr_chars_spec:
  assumes "cr_ok cr"
  shows "cr_chars cr = Some (sorted_list_of_set (cr_elems cr))"
proof -
  have "cr_chars cr = Some (map of_nat (sorted_list_of_set (unat ` cr_elems cr)))"
    using bf_iter.visit_all [of npos cr] assms bf_elems_cr [OF assms]
    by (simp add: cr_chars_def cr_find_first_def cr_find_next_def [abs_def] cr_ok_def)
  also have "map of_nat (sorted_list_of_set (unat ` cr_elems cr)) = sorted_list_of_set (cr_elems cr)"
  proof -
    have "sorted_list_of_set (unat ` cr_elems cr) = map unat (sorted_list_of_set (cr_elems cr))"
    proof (rule sorted_distinct_set_unique)
      show "sorted (map unat (sorted_list_of_set (cr_elems cr)))"
        unfolding sorted_map
        by (rule sorted_wrt_mono_rel [OF _ sorted_sorted_list_of_set]) (simp add: word_le_nat_alt)
    qed (auto simp: distinct_map inj_on_def word_unat_eq_iff)
    then show ?thesis by (simp add: comp_def)
  qed
  finally show ?thesis .
qed

lemmas cr_specs = cr_single cr_new_spec cr_range_spec cr_not_spec cr_binary cr_none_spec cr_count_spec cr_chars_spec

lemma cr_any_spec: "cr_ok cr \<Longrightarrow> cr_any cr \<longleftrightarrow> cr_elems cr \<noteq> {}"
  using cr_none_spec [of cr] by (simp add: cr_any_def cr_none_def bf_any_def)

lemma isSubsetOf_spec: "cr_ok a \<Longrightarrow> cr_ok b \<Longrightarrow> isSubsetOf a b \<longleftrightarrow> cr_elems a \<subseteq> cr_elems b"
  by (auto simp: isSubsetOf_def cr_eq_iff cr_binary)

lemma overlaps_spec: "cr_ok a \<Longrightarrow> cr_ok b \<Longrightarrow> overlaps a b \<longleftrightarrow> cr_elems a \<inter> cr_elems b \<noteq> {}"
  by (simp add: overlaps_def cr_any_spec cr_binary)

lemma foldl_snoc: "foldl (\<lambda>s c. s @ [c]) acc xs = acc @ xs"
  by (induction xs arbitrary: acc) simp_all

text \<open>
  C21. Character classes refine sets of bytes: the binary operators and the complement keep the
  invariant and are union, intersection, symmetric difference and complement; \<open>==\<close>, subset,
  overlap and count agree with the sets, and so do \<open>none\<close> and \<open>any\<close>.
\<close>

theorem charreach_refines_sets:
  assumes "cr_ok a" "cr_ok b"
  shows "(cr_elems (cr_or a b) = cr_elems a \<union> cr_elems b \<and> cr_ok (cr_or a b)) \<and>
    (cr_elems (cr_and a b) = cr_elems a \<inter> cr_elems b \<and> cr_ok (cr_and a b)) \<and>
    (cr_elems (cr_xor a b) = (cr_elems a - cr_elems b) \<union> (cr_elems b - cr_elems a) \<and> cr_ok (cr_xor a b)) \<and>
    (cr_elems (cr_not a) = - cr_elems a \<and> cr_ok (cr_not a)) \<and>
    (a = b \<longleftrightarrow> cr_elems a = cr_elems b) \<and>
    (isSubsetOf a b \<longleftrightarrow> cr_elems a \<subseteq> cr_elems b) \<and>
    (overlaps a b \<longleftrightarrow> cr_elems a \<inter> cr_elems b \<noteq> {}) \<and>
    (cr_count a = card (cr_elems a)) \<and>
    (cr_none a \<longleftrightarrow> cr_elems a = {}) \<and>
    (cr_any a \<longleftrightarrow> cr_elems a \<noteq> {})"
  using assms
  by (simp_all only: cr_binary cr_not_spec cr_eq_iff isSubsetOf_spec overlaps_spec cr_count_spec cr_none_spec
      cr_any_spec simp_thms)

theorem charreach_refines_sets_witness:
  "cr_elems (cr_or (cr_set cr_new 65) (cr_set cr_new 200)) = cr_elems (cr_set cr_new 65) \<union> cr_elems (cr_set cr_new 200) \<and>
   isSubsetOf (cr_set cr_new 65) (cr_set cr_new 200) = (cr_elems (cr_set cr_new 65) \<subseteq> cr_elems (cr_set cr_new 200)) \<and>
   cr_count (cr_set cr_new 65) = 1"
  using charreach_refines_sets [of "cr_set cr_new 65" "cr_set cr_new 200"]
  by (simp add: cr_single cr_new_spec)

lemma cr_set_string_spec:
  "cr_ok cr \<Longrightarrow> cr_elems (cr_set_string cr s) = cr_elems cr \<union> set s \<and> cr_ok (cr_set_string cr s)"
proof (induction s arbitrary: cr)
  case (Cons c s)
  then show ?case using Cons.IH [of "cr_set cr c"] by (simp add: cr_set_string_def cr_single)
qed (simp add: cr_set_string_def)

text \<open>
  C22. The loop over a class always ends and visits its bytes in ascending order, each once;
  \<^verbatim>\<open>to_string\<close> therefore prints exactly the class, and setting the characters of the
  printed string gives the class back.
\<close>

theorem charreach_iteration:
  assumes "cr_ok cr"
  shows "cr_chars cr = Some (sorted_list_of_set (cr_elems cr)) \<and>
    cr_to_string cr = Some (sorted_list_of_set (cr_elems cr)) \<and>
    map_option (cr_set_string cr_new) (cr_to_string cr) = Some cr"
proof -
  have eq: "cr_to_string cr = Some (sorted_list_of_set (cr_elems cr))"
    using assms by (simp add: cr_to_string_def cr_chars_spec foldl_snoc)
  have "cr_set_string cr_new (sorted_list_of_set (cr_elems cr)) = cr"
    using assms cr_set_string_spec [OF cr_new_spec(2), of "sorted_list_of_set (cr_elems cr)"]
    by (simp add: cr_eq_iff cr_new_spec)
  with eq show ?thesis using assms by (simp add: cr_chars_spec)
qed

theorem charreach_iteration_witness:
  "cr_to_string (cr_set (cr_set cr_new 200) 65) = Some [65, 200]"
  using charreach_iteration [of "cr_set (cr_set cr_new 200) 65"] by (simp add: cr_single cr_new_spec)

section \<open>Case\<close>

lemma upper_plus: "myisupper c \<Longrightarrow> unat (c + 0x20) = unat c + 32"
  unfolding myisupper_def word_le_nat_alt by (subst unat_add_lem [THEN iffD1]) simp_all

lemma upper_plus_inj: "c + 0x20 = d + 0x20 \<longleftrightarrow> c = (d :: u8)"
  by simp

lemma upper_not_plus: "myisupper c \<Longrightarrow> \<not> myisupper (c + 0x20)"
  using upper_plus [of c] by (simp add: myisupper_def word_le_nat_alt)

lemma mytolower_eq:
  "mytolower c = mytolower d \<longleftrightarrow> c = d \<or> (myisupper c \<and> d = c + 0x20) \<or> (myisupper d \<and> c = d + 0x20)"
  using upper_not_plus [of c] upper_not_plus [of d] by (auto simp: mytolower_def)

lemma set_upper_chars: "set upper_chars = {c. myisupper c}"
proof (intro equalityI subsetI CollectI)
  fix c :: u8 assume "c \<in> set upper_chars"
  then obtain n where "c = of_nat n" "0x41 \<le> n" "n < 0x5b" unfolding upper_chars_def set_map set_upt by auto
  then show "myisupper c" by (simp add: myisupper_def word_le_nat_alt)
next
  fix c :: u8 assume "c \<in> {c. myisupper c}"
  then have "unat c \<in> {0x41..<0x5b}" by (simp add: myisupper_def word_le_nat_alt)
  then show "c \<in> set upper_chars"
    unfolding upper_chars_def set_map set_upt by (rule rev_image_eqI) simp
qed

definition case_pair :: "u8 set \<Rightarrow> u8 \<Rightarrow> u8 set" where
  "case_pair S c = (if c \<in> S \<or> c + 0x20 \<in> S then {c, c + 0x20} else {})"

lemma caseless_step_spec:
  assumes "cr_ok cr" "myisupper c"
  shows "cr_ok (caseless_step cr c)" "cr_elems (caseless_step cr c) = cr_elems cr \<union> case_pair (cr_elems cr) c"
  using assms by (auto simp: caseless_step_def case_pair_def cr_single mytolower_def)

lemma case_pair_other:
  assumes "myisupper c" "myisupper d"
  shows "case_pair (S \<union> case_pair S c) d = case_pair S d"
proof -
  have "d \<noteq> c + 0x20" "c \<noteq> d + 0x20" using assms upper_not_plus by blast+
  then show ?thesis by (auto simp: case_pair_def)
qed

lemma make_caseless_fold:
  assumes "cr_ok cr" "set cs \<subseteq> {c. myisupper c}"
  shows "cr_ok (foldl caseless_step cr cs) \<and>
    cr_elems (foldl caseless_step cr cs) = cr_elems cr \<union> (\<Union>c \<in> set cs. case_pair (cr_elems cr) c)"
  using assms
proof (induction cs arbitrary: cr)
  case (Cons c cs)
  have c: "myisupper c" and cs: "set cs \<subseteq> {c. myisupper c}" using Cons.prems(2) by auto
  note step = caseless_step_spec [OF Cons.prems(1) c]
  have "(\<Union>d \<in> set cs. case_pair (cr_elems (caseless_step cr c)) d) = (\<Union>d \<in> set cs. case_pair (cr_elems cr) d)"
    unfolding step(2) using case_pair_other [OF c] cs by auto
  then show ?case using Cons.IH [OF step(1) cs] step(2) by auto
qed simp

text \<open>
  \<^verbatim>\<open>make_caseless\<close> closes a class under case: afterwards it holds exactly the bytes
  that agree, up to ASCII case, with a byte of the class before.
\<close>

lemma make_caseless_closure:
  assumes "cr_ok cr"
  shows "cr_elems (make_caseless cr) = {c. \<exists>d \<in> cr_elems cr. mytolower c = mytolower d} \<and> cr_ok (make_caseless cr)"
proof -
  have "cr_elems (make_caseless cr) = cr_elems cr \<union> (\<Union>c \<in> {c. myisupper c}. case_pair (cr_elems cr) c)"
    and ok: "cr_ok (make_caseless cr)"
    using make_caseless_fold [OF assms, of upper_chars] by (simp_all add: make_caseless_def set_upper_chars)
  then have "c \<in> cr_elems (make_caseless cr) \<longleftrightarrow> (\<exists>d \<in> cr_elems cr. mytolower c = mytolower d)" for c
    unfolding mytolower_eq by (auto simp: case_pair_def split: if_splits)
  with ok show ?thesis by auto
qed

lemma make_caseless_closure_witness:
  "(65 :: u8) \<in> cr_elems (make_caseless (cr_set cr_new 0x61))"
proof -
  have "mytolower 65 = mytolower 0x61" by code_simp
  then show ?thesis using make_caseless_closure [of "cr_set cr_new 0x61"] by (simp add: cr_single cr_new_spec)
qed

lemma cr_find_pair:
  assumes "cr_ok cr" "cr_elems cr = {a, b}" "a < b"
  shows "cr_find_first cr = unat a" "cr_find_next cr (unat a) = unat b"
proof -
  have el: "bf_elems cr = {unat a, unat b}" using bf_elems_cr [OF assms(1)] assms(2) by simp
  have lt: "unat a < unat b" using assms(3) by (simp add: word_less_nat_alt)
  have ok: "bf_ok npos cr" using assms(1) by (simp add: cr_ok_def)
  show "cr_find_first cr = unat a"
    using lt by (simp add: cr_find_first_def bf_find_first_spec [OF ok] el least_or_def)
  have "{m \<in> {unat a, unat b}. unat a < m} = {unat b}" using lt by auto
  then show "cr_find_next cr (unat a) = unat b"
    using bf_find_next_spec [OF ok, of "unat a"] by (simp add: cr_find_next_def el least_or_def)
qed

text \<open>
  \<^verbatim>\<open>isCaselessChar\<close> holds exactly of the classes that consist of an upper-case ASCII
  letter and its lower-case form.
\<close>

lemma isCaselessChar_iff:
  assumes "cr_ok cr"
  shows "isCaselessChar cr \<longleftrightarrow> (\<exists>c. myisupper c \<and> cr_elems cr = {c, c + 0x20})"
proof (cases "card (cr_elems cr) = 2")
  case True
  then obtain x y where xy: "cr_elems cr = {x, y}" "x \<noteq> y" by (auto simp: card_2_iff)
  obtain a b where ab: "cr_elems cr = {a, b}" "a < b"
    using xy by (cases "x < y") (auto simp: not_less insert_commute order.order_iff_strict)
  have lower: "myislower b \<longleftrightarrow> myisupper (b - 0x20)"
    by (simp add: myislower_def myisupper_def word_le_nat_alt unat_sub_if_size word_size) arith
  have "isCaselessChar cr \<longleftrightarrow> a = mytoupper b"
    using True cr_find_pair [OF assms ab] assms by (simp add: isCaselessChar_def cr_count_spec)
  also have "\<dots> \<longleftrightarrow> myisupper a \<and> b = a + 0x20"
    using ab(2) lower by (auto simp: mytoupper_def)
  also have "\<dots> \<longleftrightarrow> (\<exists>c. myisupper c \<and> {a, b} = {c, c + 0x20})"
    using ab(2) upper_plus [of b] by (auto simp: doubleton_eq_iff word_less_nat_alt)
  finally show ?thesis using ab(1) by simp
next
  case False
  then have "\<not> isCaselessChar cr" using assms by (simp add: isCaselessChar_def cr_count_spec)
  moreover have "card {c, c + 0x20 :: u8} = 2" for c by simp
  ultimately show ?thesis using False by metis
qed

lemma isCaselessChar_iff_witness: "isCaselessChar (cr_set (cr_set cr_new 0x41) 0x61)"
proof -
  have "myisupper 0x41" by code_simp
  then show ?thesis
    by (subst isCaselessChar_iff) (simp_all add: cr_single cr_new_spec, intro exI [where x = "0x41"], auto)
qed

section \<open>Masks\<close>

lemma foldl_two: "foldl (\<lambda>(x, y) c. (f x c, g y c)) (a, b) cs = (foldl f a cs, foldl g b cs)"
  by (induction cs arbitrary: a b) simp_all

lemma foldl_and_bit: "bit (foldl (AND) a cs) j \<longleftrightarrow> bit a j \<and> (\<forall>c \<in> set cs. bit c j)" for a :: u8
  by (induction cs arbitrary: a) (auto simp: bit_and_iff)

lemma foldl_or_bit: "bit (foldl (OR) a cs) j \<longleftrightarrow> bit a j \<or> (\<exists>c \<in> set cs. bit c j)" for a :: u8
  by (induction cs arbitrary: a) (auto simp: bit_or_iff)

lemma make_and_cmp_mask_bits:
  assumes "cr_ok cr"
  obtains am cm where "make_and_cmp_mask cr = Some (am, cm)"
    "\<And>j. bit cm j \<longleftrightarrow> j < 8 \<and> (\<forall>c \<in> cr_elems cr. bit c j)"
    "\<And>j. bit am j \<longleftrightarrow> j < 8 \<and> ((\<forall>c \<in> cr_elems cr. bit c j) \<longleftrightarrow> (\<exists>c \<in> cr_elems cr. bit c j))"
proof -
  let ?cs = "sorted_list_of_set (cr_elems cr)"
  let ?lo = "foldl (AND) 0xff ?cs" and ?hi = "foldl (OR) 0 ?cs"
  have ff: "bit (0xff :: u8) j \<longleftrightarrow> j < 8" for j
  proof -
    have "(0xff :: u8) = - 1" by simp
    then show ?thesis by (simp only: bit_minus_1_iff possible_bit_word) simp
  qed
  have lo: "bit ?lo j \<longleftrightarrow> j < 8 \<and> (\<forall>c \<in> cr_elems cr. bit c j)" for j unfolding foldl_and_bit ff by simp
  show ?thesis
  proof (rule that)
    show "make_and_cmp_mask cr = Some (NOT (?lo XOR ?hi), ?lo)"
      using assms by (simp add: make_and_cmp_mask_def cr_chars_spec foldl_two)
    show "bit ?lo j \<longleftrightarrow> j < 8 \<and> (\<forall>c \<in> cr_elems cr. bit c j)" for j by (rule lo)
    show "bit (NOT (?lo XOR ?hi)) j \<longleftrightarrow> j < 8 \<and> ((\<forall>c \<in> cr_elems cr. bit c j) \<longleftrightarrow> (\<exists>c \<in> cr_elems cr. bit c j))" for j
      unfolding bit_not_iff bit_xor_iff lo foldl_or_bit by auto
  qed
qed

text \<open>
  C23. The masks of \<^verbatim>\<open>make_and_cmp_mask\<close> accept every byte of the class, and the and-mask is
  the most selective one: any pair of masks that accepts the class tests only bits that it tests. For the
  empty class the masks accept nothing.
\<close>

theorem make_and_cmp_mask_tight:
  assumes "cr_ok cr"
  shows "\<exists>am cm. make_and_cmp_mask cr = Some (am, cm) \<and> (\<forall>c \<in> cr_elems cr. c AND am = cm) \<and>
    (\<forall>am' cm'. cr_elems cr \<noteq> {} \<and> (\<forall>c \<in> cr_elems cr. c AND am' = cm') \<longrightarrow> am' AND am = am') \<and>
    (cr_elems cr = {} \<longrightarrow> (\<forall>c. c AND am \<noteq> cm))"
proof -
  obtain am cm where r: "make_and_cmp_mask cr = Some (am, cm)"
    and cm: "\<And>j. bit cm j \<longleftrightarrow> j < 8 \<and> (\<forall>c \<in> cr_elems cr. bit c j)"
    and am: "\<And>j. bit am j \<longleftrightarrow> j < 8 \<and> ((\<forall>c \<in> cr_elems cr. bit c j) \<longleftrightarrow> (\<exists>c \<in> cr_elems cr. bit c j))"
    using make_and_cmp_mask_bits [OF assms] by blast
  have len: "bit c j \<Longrightarrow> j < 8" for c :: u8 and j using bit_imp_le_length [of c j] by simp
  have acc: "c AND am = cm" if "c \<in> cr_elems cr" for c
    using that len by (intro bit_eqI) (auto simp: bit_and_iff am cm)
  have tight: "am' AND am = am'" if ne: "cr_elems cr \<noteq> {}" and all: "\<forall>c \<in> cr_elems cr. c AND am' = cm'" for am' cm'
  proof (rule bit_eqI)
    fix j
    have "bit am' j \<Longrightarrow> c \<in> cr_elems cr \<Longrightarrow> bit c j = bit cm' j" for c
      using all by (metis bit_and_iff)
    then show "bit (am' AND am) j = bit am' j" using ne len [of am' j] by (auto simp: bit_and_iff am)
  qed
  have none: "c AND am \<noteq> cm" if "cr_elems cr = {}" for c
  proof
    assume "c AND am = cm"
    then have "bit (c AND am) 0 = bit cm 0" by simp
    then show False using that by (simp add: bit_and_iff am cm)
  qed
  show ?thesis using r acc tight none by blast
qed

theorem make_and_cmp_mask_tight_witness:
  "\<exists>am cm. make_and_cmp_mask (cr_set (cr_set cr_new 0x41) 0x61) = Some (am, cm) \<and> 0x41 AND am = cm \<and> 0x61 AND am = cm \<and> am AND 0xdf = 0xdf"
proof -
  have ok: "cr_ok (cr_set (cr_set cr_new 0x41) 0x61)" "cr_elems (cr_set (cr_set cr_new 0x41) 0x61) = {0x41, 0x61}"
    by (auto simp: cr_single cr_new_spec)
  have acc: "0x41 AND (0xdf :: u8) = 0x41" "0x61 AND (0xdf :: u8) = 0x41" by simp_all
  from make_and_cmp_mask_tight [OF ok(1)] show ?thesis
    unfolding ok(2) using acc by (auto simp: and.commute [of _ "0xdf"])
qed

definition vector_bit :: "u8 list \<Rightarrow> nat \<Rightarrow> bool" where
  "vector_bit bits n \<longleftrightarrow> bit (bits ! (n div 8)) (n mod 8)"

lemma u8_div: "unat (c :: u8) div 8 < 32"
  by (rule less_mult_imp_div_less) simp

lemma fill_step_bit:
  assumes "length bits = 32"
  shows "vector_bit (fill_step bits d) (unat c) \<longleftrightarrow> c = d \<or> vector_bit bits (unat c)"
proof (cases "unat c div 8 = unat d div 8")
  case True
  then have "c = d \<longleftrightarrow> unat c mod 8 = unat d mod 8" by (metis div_mult_mod_eq word_unat_eq_iff)
  then show ?thesis using True assms u8_div [of d] by (auto simp: vector_bit_def fill_step_def bit_simps)
qed (auto simp: vector_bit_def fill_step_def)

lemma fill_fold:
  "length bits = 32 \<Longrightarrow> length (foldl fill_step bits cs) = 32 \<and>
     (\<forall>c. vector_bit (foldl fill_step bits cs) (unat c) \<longleftrightarrow> c \<in> set cs \<or> vector_bit bits (unat c))"
proof (induction cs arbitrary: bits)
  case (Cons d cs)
  have "length (fill_step bits d) = 32" using Cons.prems by (simp add: fill_step_def)
  then show ?case using Cons.IH [of "fill_step bits d"] fill_step_bit [OF Cons.prems] by auto
qed simp

text \<open>\<^verbatim>\<open>fill_bitvector\<close> writes a 32-byte vector whose bit for a byte says whether the class holds it.\<close>

lemma fill_bitvector_spec:
  assumes "cr_ok cr"
  shows "\<exists>bits. fill_bitvector cr = Some bits \<and> length bits = 32 \<and> (\<forall>c. vector_bit bits (unat c) \<longleftrightarrow> c \<in> cr_elems cr)"
  using assms fill_fold [of "replicate 32 0" "sorted_list_of_set (cr_elems cr)"]
  by (simp add: fill_bitvector_def cr_chars_spec vector_bit_def u8_div)

lemma fill_bitvector_spec_witness:
  "\<exists>bits. fill_bitvector (cr_set cr_new 0x41) = Some bits \<and> vector_bit bits (unat (0x41 :: u8))"
proof -
  have "cr_ok (cr_set cr_new 0x41)" "(0x41 :: u8) \<in> cr_elems (cr_set cr_new 0x41)" by (simp_all add: cr_single cr_new_spec)
  then show ?thesis using fill_bitvector_spec [of "cr_set cr_new 0x41"] by blast
qed

end
