(* ===== verification/Alphabet.thy ===== *)
theory Alphabet
  imports CharReach Rdfa "HOL-Library.List_Lexorder"
begin

text \<open>
  Compressed alphabets: the equivalence classes of characters that
  \<^verbatim>\<open>calculateAlphabet\<close> of \<^verbatim>\<open>nfagraph/ng_mcclellan.cpp\<close> (from the reaches of
  the vertices of a graph) and \<^verbatim>\<open>calculateAlphabet\<close> of \<^verbatim>\<open>nfa/rdfa_merge.cpp\<close>
  (from the alphabets of several DFAs) compute, and the translation tables that
  \<^verbatim>\<open>buildAlphabetFromEquivSets\<close> makes of them. Both computations refine a vector of classes
  that grows while it is traversed; the locale \<open>eset_split\<close> states what one step of splitting has
  to provide, and the refinement is proved exact once for both.
\<close>

section \<open>Model\<close>

text \<open>
  The inner loop of the two functions. \<open>split\<close> computes the part \<^verbatim>\<open>t\<close> of a class;
  \<open>None\<close> means that a loop does not end.
\<close>

partial_function (option) refine_esets ::
  "(charreach \<Rightarrow> charreach option) \<Rightarrow> nat \<Rightarrow> charreach list \<Rightarrow> charreach list option" where
  "refine_esets split i esets =
     (if \<not> i < length esets then Some esets
      else if cr_count (esets ! i) = 1 then refine_esets split (Suc i) esets
      else (case split (esets ! i) of
          None \<Rightarrow> None
        | Some t \<Rightarrow>
            if cr_any t \<and> t \<noteq> esets ! i
            then refine_esets split (Suc i) (esets[i := cr_and (esets ! i) (cr_not t)] @ [t])
            else refine_esets split (Suc i) esets))"

declare refine_esets.simps [code]

definition refine_all :: "('p \<Rightarrow> charreach \<Rightarrow> charreach option) \<Rightarrow> 'p list \<Rightarrow> charreach list \<Rightarrow> charreach list option" where
  "refine_all split ps esets = foldl (\<lambda>r p. Option.bind r (refine_esets (split p) 0)) (Some esets) ps"

definition split_remap :: "nat list \<Rightarrow> charreach \<Rightarrow> charreach option" where
  "split_remap remap e =
     (let leader_s = u8_of_nat (remap ! cr_find_first e)
      in map_option (foldl (\<lambda>t s. if remap ! unat s \<noteq> leader_s then cr_set t s else t) cr_new) (cr_chars e))"

definition split_reach :: "charreach \<Rightarrow> charreach \<Rightarrow> charreach option" where
  "split_reach cr e = Some (cr_and cr e)"

text \<open>One class of \<^verbatim>\<open>buildAlphabetFromEquivSets\<close>, then the special symbols.\<close>

definition alphabet_class ::
  "(nat \<times> nat list \<times> nat list) option \<Rightarrow> charreach \<Rightarrow> (nat \<times> nat list \<times> nat list) option" where
  "alphabet_class r cr = Option.bind r (\<lambda>(i, alpha, unalpha).
     map_option (\<lambda>cs. (Suc i, foldl (\<lambda>a s. a[unat s := i]) alpha cs, unalpha[i := u16_of_nat (cr_find_first cr)]))
       (cr_chars cr))"

definition special_symbol :: "nat \<times> nat list \<times> nat list \<Rightarrow> nat \<Rightarrow> nat \<times> nat list \<times> nat list" where
  "special_symbol = (\<lambda>(i, alpha, unalpha) j. (Suc i, alpha[j := i], unalpha[i := j]))"

definition buildAlphabetFromEquivSets ::
  "charreach list \<Rightarrow> nat list \<Rightarrow> nat list \<Rightarrow> (nat \<times> nat list \<times> nat list) option" where
  "buildAlphabetFromEquivSets esets alpha unalpha =
     map_option (\<lambda>r. foldl special_symbol r [N_CHARS..<ALPHABET_SIZE])
       (foldl alphabet_class (Some (0, alpha, unalpha)) esets)"

text \<open>
  The tables are members that the code leaves uninitialised; every entry that is read later is
  written, the initial zeros stand for any contents.
\<close>

definition blank_table :: "nat list" where
  "blank_table = replicate ALPHABET_SIZE 0"

definition calculateAlphabet_reaches :: "charreach list \<Rightarrow> (nat \<times> nat list \<times> nat list) option" where
  "calculateAlphabet_reaches crs =
     Option.bind (refine_all split_reach crs [cr_dot])
       (\<lambda>esets. buildAlphabetFromEquivSets (sort esets) blank_table blank_table)"

definition calculateAlphabet_remaps :: "nat list list \<Rightarrow> (nat \<times> nat list \<times> nat list) option" where
  "calculateAlphabet_remaps remaps =
     Option.bind (refine_all split_remap remaps [cr_dot])
       (\<lambda>esets. buildAlphabetFromEquivSets (sort esets) blank_table blank_table)"

definition successor :: "dstate list \<Rightarrow> nat \<Rightarrow> nat list \<Rightarrow> nat \<Rightarrow> nat" where
  "successor ds c alpha s = nexts (ds ! c) ! (alpha ! s)"

definition getFullTransitionFromState :: "raw_dfa \<Rightarrow> nat \<Rightarrow> nat list" where
  "getFullTransitionFromState n state =
     map (\<lambda>i. successor (states n) state (alpha_remap n) i) [0..<ALPHABET_SIZE]"

section \<open>Partitions of the characters\<close>

definition esets_ok :: "charreach list \<Rightarrow> bool" where
  "esets_ok esets \<longleftrightarrow> (\<forall>e \<in> set esets. cr_ok e \<and> cr_elems e \<noteq> {}) \<and>
     (\<forall>c. \<exists>e \<in> set esets. c \<in> cr_elems e) \<and>
     (\<forall>i < length esets. \<forall>j < length esets. i \<noteq> j \<longrightarrow> cr_elems (esets ! i) \<inter> cr_elems (esets ! j) = {})"

definition same_class :: "charreach list \<Rightarrow> u8 \<Rightarrow> u8 \<Rightarrow> bool" where
  "same_class esets c d \<longleftrightarrow> (\<exists>e \<in> set esets. c \<in> cr_elems e \<and> d \<in> cr_elems e)"

lemma esets_okD:
  assumes "esets_ok esets" "i < length esets"
  shows "cr_ok (esets ! i)" "cr_elems (esets ! i) \<noteq> {}"
    and "j < length esets \<Longrightarrow> c \<in> cr_elems (esets ! i) \<Longrightarrow> c \<in> cr_elems (esets ! j) \<Longrightarrow> i = j"
  using assms nth_mem [OF assms(2)] unfolding esets_ok_def disjoint_iff by blast+

lemma esets_length:
  assumes "esets_ok esets"
  shows "length esets \<le> 256"
proof -
  define f where "f i = (SOME c. c \<in> cr_elems (esets ! i))" for i
  have f: "f i \<in> cr_elems (esets ! i)" if "i < length esets" for i
    unfolding f_def using esets_okD(2) [OF assms that] by (simp add: some_in_eq)
  have "inj_on f {..<length esets}"
    by (rule inj_onI) (metis assms esets_okD(3) f lessThan_iff)
  then have "card {..<length esets} \<le> card (UNIV :: u8 set)" by (rule card_inj_on_le) auto
  then show ?thesis by (simp add: card_word)
qed

lemma esets_dot: "esets_ok [cr_dot]" "same_class [cr_dot] c d"
proof -
  have "{0..255} = (UNIV :: u8 set)" 
  proof (rule UNIV_eq_I [symmetric])
    show "c \<in> {0..255}" for c :: u8 by (simp add: word_le_nat_alt) (use unat_u8 [of c] in linarith)
  qed
  then have "cr_elems cr_dot = UNIV" "cr_ok cr_dot"
    using cr_range_spec [OF cr_new_spec(2), of 0 255] cr_new_spec(1) by (simp_all add: cr_dot_def cr_range_def)
  then show "esets_ok [cr_dot]" "same_class [cr_dot] c d" by (auto simp: esets_ok_def same_class_def)
qed

definition key_const :: "(u8 \<Rightarrow> 'k) \<Rightarrow> u8 set \<Rightarrow> bool" where
  "key_const \<kappa> C \<longleftrightarrow> (\<forall>c \<in> C. \<forall>d \<in> C. \<kappa> c = \<kappa> d)"

definition split_by :: "(u8 \<Rightarrow> 'k) \<Rightarrow> u8 set \<Rightarrow> u8 set \<Rightarrow> bool" where
  "split_by \<kappa> C T \<longleftrightarrow> T \<subseteq> C \<and> (\<forall>c \<in> T. \<forall>d \<in> C - T. \<kappa> c \<noteq> \<kappa> d) \<and> key_const \<kappa> (C - T) \<and>
     (T = C \<longrightarrow> key_const \<kappa> C)"

text \<open>Replacing a class by two keeps the partition and separates only characters of different keys.\<close>

lemma split_class:
  assumes ok: "esets_ok esets" and i: "i < length esets"
    and a: "cr_ok a" "cr_elems a \<noteq> {}" and t: "cr_ok t" "cr_elems t \<noteq> {}"
    and parts: "cr_elems (esets ! i) = cr_elems a \<union> cr_elems t" "cr_elems a \<inter> cr_elems t = {}"
  shows "esets_ok (esets[i := a] @ [t])"
    and "same_class (esets[i := a] @ [t]) c d \<longleftrightarrow> same_class esets c d \<and> (c \<in> cr_elems t \<longleftrightarrow> d \<in> cr_elems t)"
proof -
  let ?new = "esets[i := a] @ [t]"
  have nth: "?new ! j = (if j = i then a else if j < length esets then esets ! j else t)" if "j < Suc (length esets)" for j
    using that i by (auto simp: nth_append nth_list_update)
  have set_new: "set ?new = insert a (insert t {esets ! j |j. j < length esets \<and> j \<noteq> i})"
    using i by (auto simp: set_update_distinct in_set_conv_nth nth_list_update) (metis length_list_update nth_list_update_eq nth_list_update_neq)+
  have old: "set esets = insert (esets ! i) {esets ! j |j. j < length esets \<and> j \<noteq> i}"
    using i by (auto simp: in_set_conv_nth)
  have dis: "cr_elems (esets ! j) \<inter> cr_elems (esets ! i) = {}" if "j < length esets" "j \<noteq> i" for j
    using ok i that by (auto simp: esets_ok_def)
  show "esets_ok ?new"
    unfolding esets_ok_def
  proof (intro conjI)
    show "\<forall>e \<in> set ?new. cr_ok e \<and> cr_elems e \<noteq> {}"
      unfolding set_new using ok a t by (auto simp: esets_ok_def)
    show "\<forall>c. \<exists>e \<in> set ?new. c \<in> cr_elems e"
      unfolding set_new using ok parts(1) unfolding esets_ok_def old by auto
    show "\<forall>k < length ?new. \<forall>j < length ?new. k \<noteq> j \<longrightarrow> cr_elems (?new ! k) \<inter> cr_elems (?new ! j) = {}"
    proof (intro allI impI)
      fix k j assume "k < length ?new" "j < length ?new" "k \<noteq> j"
      then have "k < Suc (length esets)" "j < Suc (length esets)" by simp_all
      then show "cr_elems (?new ! k) \<inter> cr_elems (?new ! j) = {}"
        using \<open>k \<noteq> j\<close> dis [of k] dis [of j] parts ok unfolding nth [OF \<open>k < Suc _\<close>] nth [OF \<open>j < Suc _\<close>]
        by (auto simp: esets_ok_def less_Suc_eq)
    qed
  qed
  show "same_class ?new c d \<longleftrightarrow> same_class esets c d \<and> (c \<in> cr_elems t \<longleftrightarrow> d \<in> cr_elems t)"
    unfolding same_class_def set_new old using parts dis by blast
qed

text \<open>What a way of splitting classes, one per element of a family, has to provide.\<close>

locale eset_split =
  fixes split :: "'p \<Rightarrow> charreach \<Rightarrow> charreach option"
    and key :: "'p \<Rightarrow> u8 \<Rightarrow> 'k"
    and ok :: "'p \<Rightarrow> bool"
  assumes split_spec: "ok p \<Longrightarrow> cr_ok e \<Longrightarrow> cr_elems e \<noteq> {} \<Longrightarrow>
    \<exists>t. split p e = Some t \<and> cr_ok t \<and> split_by (key p) (cr_elems e) (cr_elems t)"
begin

lemma refine_from:
  assumes ok: "ok p"
  shows "esets_ok esets \<Longrightarrow> (\<forall>j < i. j < length esets \<longrightarrow> key_const (key p) (cr_elems (esets ! j))) \<Longrightarrow>
    \<exists>esets'. refine_esets (split p) i esets = Some esets' \<and> esets_ok esets' \<and>
      (\<forall>e \<in> set esets'. key_const (key p) (cr_elems e)) \<and>
      (\<forall>c d. same_class esets' c d \<longrightarrow> same_class esets c d) \<and>
      (\<forall>c d. same_class esets c d \<longrightarrow> key p c = key p d \<longrightarrow> same_class esets' c d)"
proof (induction "256 - i" arbitrary: i esets rule: less_induct)
  case less
  show ?case
  proof (cases "i < length esets")
    case False
    then have "refine_esets (split p) i esets = Some esets" by (simp add: refine_esets.simps)
    then show ?thesis using less.prems False by (auto simp: in_set_conv_nth)
  next
    case i: True
    let ?e = "esets ! i"
    note e = esets_okD(1,2) [OF less.prems(1) i]
    have dec: "256 - Suc i < 256 - i" using esets_length [OF less.prems(1)] i by simp
    obtain t where t: "split p ?e = Some t" "cr_ok t" and by_key: "split_by (key p) (cr_elems ?e) (cr_elems t)"
      using split_spec [OF ok e] by blast
    show ?thesis
    proof (cases "cr_count ?e \<noteq> 1 \<and> cr_any t \<and> t \<noteq> ?e")
      case False
      have step: "refine_esets (split p) i esets = refine_esets (split p) (Suc i) esets"
        using False i t(1) by (subst refine_esets.simps) auto
      have "key_const (key p) (cr_elems ?e)"
      proof (cases "cr_count ?e = 1")
        case True
        then show ?thesis
          using e by (auto simp: cr_count_spec card_1_singleton_iff key_const_def)
      next
        case c: False
        then have "cr_elems t = {} \<or> cr_elems t = cr_elems ?e" using False t(2) by (auto simp: cr_any_spec)
        then show ?thesis using by_key by (auto simp: split_by_def)
      qed
      then have "\<forall>j < Suc i. j < length esets \<longrightarrow> key_const (key p) (cr_elems (esets ! j))"
        using less.prems(2) by (auto simp: less_Suc_eq)
      from less.hyps [OF dec less.prems(1) this] show ?thesis unfolding step .
    next
      case True
      let ?a = "cr_and ?e (cr_not t)"
      let ?new = "esets[i := ?a] @ [t]"
      have step: "refine_esets (split p) i esets = refine_esets (split p) (Suc i) ?new"
        using True i t(1) by (subst refine_esets.simps) simp
      have a: "cr_elems ?a = cr_elems ?e - cr_elems t" "cr_ok ?a"
        using e t(2) by (auto simp: cr_binary cr_not_spec)
      have tne: "cr_elems t \<noteq> {}" "cr_elems t \<noteq> cr_elems ?e"
        using True e t(2) by (auto simp: cr_any_spec cr_eq_iff)
      have sub: "cr_elems t \<subseteq> cr_elems ?e" using by_key by (simp add: split_by_def)
      have ane: "cr_elems ?a \<noteq> {}" using sub tne(2) by (auto simp: a(1))
      have parts: "cr_elems ?e = cr_elems ?a \<union> cr_elems t" "cr_elems ?a \<inter> cr_elems t = {}"
        using sub by (auto simp: a(1))
      note new = split_class [OF less.prems(1) i a(2) ane t(2) tne(1) parts]
      have "\<forall>j < Suc i. j < length ?new \<longrightarrow> key_const (key p) (cr_elems (?new ! j))"
      proof (intro allI impI)
        fix j assume j: "j < Suc i"
        then have "?new ! j = (if j = i then ?a else esets ! j)" using i by (auto simp: nth_append nth_list_update)
        then show "key_const (key p) (cr_elems (?new ! j))"
          using j less.prems(2) by_key i by (auto simp: a(1) split_by_def)
      qed
      from less.hyps [OF dec new(1) this] obtain esets' where r: "refine_esets (split p) (Suc i) ?new = Some esets'"
        "esets_ok esets'" "\<forall>e \<in> set esets'. key_const (key p) (cr_elems e)"
        "\<And>c d. same_class esets' c d \<Longrightarrow> same_class ?new c d"
        "\<And>c d. same_class ?new c d \<Longrightarrow> key p c = key p d \<Longrightarrow> same_class esets' c d" by blast
      have "same_class ?new c d" if sc: "same_class esets c d" and kk: "key p c = key p d" for c d
      proof -
        obtain j where j: "j < length esets" "c \<in> cr_elems (esets ! j)" "d \<in> cr_elems (esets ! j)"
          using sc by (auto simp: same_class_def in_set_conv_nth)
        have "j = i" if "x \<in> cr_elems t" "x \<in> cr_elems (esets ! j)" for x
          using esets_okD(3) [OF less.prems(1) j(1) i] that sub by blast
        then have "c \<in> cr_elems t \<longleftrightarrow> d \<in> cr_elems t"
          using j kk by_key unfolding split_by_def by (metis DiffI)
        then show ?thesis using sc unfolding new(2) by simp
      qed
      then show ?thesis using r new(2) unfolding step by (intro exI [of _ esets']) blast
    qed
  qed
qed

lemma refine_step:
  assumes "ok p" "esets_ok esets"
  shows "\<exists>esets'. refine_esets (split p) 0 esets = Some esets' \<and> esets_ok esets' \<and>
    (\<forall>c d. same_class esets' c d \<longleftrightarrow> same_class esets c d \<and> key p c = key p d)"
proof -
  obtain esets' where r: "refine_esets (split p) 0 esets = Some esets'" "esets_ok esets'"
    "\<forall>e \<in> set esets'. key_const (key p) (cr_elems e)"
    "\<And>c d. same_class esets' c d \<Longrightarrow> same_class esets c d"
    "\<And>c d. same_class esets c d \<Longrightarrow> key p c = key p d \<Longrightarrow> same_class esets' c d"
    using refine_from [OF assms(1,2), of 0] by auto
  moreover have "key p c = key p d" if "same_class esets' c d" for c d
    using that r(3) unfolding same_class_def key_const_def by blast
  ultimately show ?thesis by blast
qed

lemma refine_all_exact:
  "\<forall>p \<in> set ps. ok p \<Longrightarrow> esets_ok esets \<Longrightarrow> \<exists>esets'. refine_all split ps esets = Some esets' \<and> esets_ok esets' \<and>
    (\<forall>c d. same_class esets' c d \<longleftrightarrow> same_class esets c d \<and> (\<forall>p \<in> set ps. key p c = key p d))"
proof (induction ps rule: rev_induct)
  case (snoc p ps)
  then obtain esets1 where "refine_all split ps esets = Some esets1" "esets_ok esets1"
    "\<forall>c d. same_class esets1 c d \<longleftrightarrow> same_class esets c d \<and> (\<forall>p \<in> set ps. key p c = key p d)" by auto
  with refine_step [of p esets1] snoc.prems(1) show ?case by (auto simp: refine_all_def)
qed (simp add: refine_all_def)

end

section \<open>The two ways of splitting\<close>

definition remap_ok :: "nat list \<Rightarrow> bool" where
  "remap_ok remap \<longleftrightarrow> (\<forall>c :: u8. remap ! unat c < 256)"

lemma cr_filter_fold:
  "cr_ok t \<Longrightarrow> cr_elems (foldl (\<lambda>t s. if P s then cr_set t s else t) t cs) = cr_elems t \<union> {s \<in> set cs. P s} \<and>
   cr_ok (foldl (\<lambda>t s. if P s then cr_set t s else t) t cs)"
  by (induction cs arbitrary: t) (auto simp: cr_single)

lemma cr_find_first_spec:
  assumes "cr_ok e" "cr_elems e \<noteq> {}"
  shows "\<exists>c \<in> cr_elems e. cr_find_first e = unat c"
proof -
  have "cr_find_first e = least_or npos (unat ` cr_elems e)"
    using assms(1) by (simp add: cr_find_first_def bf_find_first_spec cr_ok_def flip: bf_elems_cr)
  also have "\<dots> \<in> unat ` cr_elems e" using assms(2) by (simp add: least_or_def)
  finally show ?thesis by blast
qed

interpretation remap_split: eset_split split_remap "\<lambda>remap c. remap ! unat c" remap_ok
proof
  fix remap e assume ok: "remap_ok remap" and e: "cr_ok e" "cr_elems e \<noteq> {}"
  obtain l where l: "l \<in> cr_elems e" "cr_find_first e = unat l" using cr_find_first_spec [OF e] by blast
  have "u8_of_nat (remap ! unat l) = remap ! unat l" using ok by (simp add: remap_ok_def)
  then show "\<exists>t. split_remap remap e = Some t \<and> cr_ok t \<and>
      split_by (\<lambda>c. remap ! unat c) (cr_elems e) (cr_elems t)"
    using l cr_filter_fold [OF cr_new_spec(2), of "\<lambda>s. remap ! unat s \<noteq> remap ! unat l" "sorted_list_of_set (cr_elems e)"] e
    by (auto simp: split_remap_def Let_def cr_chars_spec cr_new_spec split_by_def key_const_def)
qed

interpretation reach_split: eset_split split_reach "\<lambda>cr c. c \<in> cr_elems cr" cr_ok
  by unfold_locales (auto simp: split_reach_def cr_binary split_by_def key_const_def)

section \<open>The translation tables\<close>

definition tables_upto :: "charreach list \<Rightarrow> nat \<Rightarrow> nat list \<Rightarrow> nat list \<Rightarrow> bool" where
  "tables_upto esets k alpha unalpha \<longleftrightarrow> length alpha = 257 \<and> length unalpha = 257 \<and>
     (\<forall>j < k. (\<forall>c \<in> cr_elems (esets ! j). alpha ! unat c = j) \<and> (\<exists>c \<in> cr_elems (esets ! j). unalpha ! j = unat c))"

lemma alphabet_classes:
  assumes ok: "esets_ok esets" and len: "length alpha = 257" "length unalpha = 257"
  shows "k \<le> length esets \<Longrightarrow> \<exists>alpha' unalpha'.
    foldl alphabet_class (Some (0, alpha, unalpha)) (take k esets) = Some (k, alpha', unalpha') \<and>
    tables_upto esets k alpha' unalpha'"
proof (induction k)
  case 0
  then show ?case using len by (simp add: tables_upto_def)
next
  case (Suc k)
  then obtain alpha1 unalpha1 where IH:
    "foldl alphabet_class (Some (0, alpha, unalpha)) (take k esets) = Some (k, alpha1, unalpha1)"
    "tables_upto esets k alpha1 unalpha1" by auto
  let ?e = "esets ! k" and ?cs = "sorted_list_of_set (cr_elems (esets ! k))"
  have k: "k < length esets" using Suc.prems by simp
  note e = esets_okD(1,2) [OF ok k]
  obtain l where l: "l \<in> cr_elems ?e" "cr_find_first ?e = unat l" using cr_find_first_spec [OF e] by blast
  let ?alpha = "foldl (\<lambda>a s. a[unat s := k]) alpha1 ?cs" and ?unalpha = "unalpha1[k := unat l]"
  have "unat l < 65536" using unat_u8 [of l] by linarith
  then have step: "alphabet_class (Some (k, alpha1, unalpha1)) ?e = Some (Suc k, ?alpha, ?unalpha)"
    using e l by (simp add: alphabet_class_def cr_chars_spec)
  have len1: "length alpha1 = 257" "length unalpha1 = 257" using IH(2) by (simp_all add: tables_upto_def)
  have alpha: "?alpha ! unat c = (if c \<in> cr_elems ?e then k else alpha1 ! unat c)" for c
    using nth_foldl_update_const [of "unat c" alpha1 unat k ?cs] unat_u8 [of c] len1
    by (auto simp: image_iff simp flip: word_unat_eq_iff simp del: unat_u8)
  have "tables_upto esets (Suc k) ?alpha ?unalpha"
    unfolding tables_upto_def
  proof (intro conjI allI impI)
    fix j assume j: "j < Suc k"
    show "\<forall>c \<in> cr_elems (esets ! j). ?alpha ! unat c = j"
    proof
      fix c assume c: "c \<in> cr_elems (esets ! j)"
      then show "?alpha ! unat c = j"
        using esets_okD(3) [OF ok _ k, of j c] IH(2) j k unfolding alpha by (auto simp: tables_upto_def less_Suc_eq)
    qed
    show "\<exists>c \<in> cr_elems (esets ! j). ?unalpha ! j = unat c"
      using IH(2) j l len1 esets_length [OF ok] k by (auto simp: tables_upto_def less_Suc_eq nth_list_update)
  qed (use len1 in simp_all)
  then show ?case using IH(1) step k by (simp add: take_Suc_conv_app_nth)
qed

text \<open>
  A compressed alphabet for an equivalence of characters: two characters share a symbol exactly when
  they are equivalent, the top is the last symbol, and \<open>unalpha\<close> picks a character for every symbol.
\<close>

definition alphabet_for :: "(nat \<Rightarrow> nat \<Rightarrow> bool) \<Rightarrow> nat \<Rightarrow> nat list \<Rightarrow> nat list \<Rightarrow> bool" where
  "alphabet_for eqv n alpha unalpha \<longleftrightarrow>
     2 \<le> n \<and> n \<le> 257 \<and> length alpha = 257 \<and> length unalpha = 257 \<and>
     (\<forall>c < 256. alpha ! c < n - 1) \<and> alpha ! 256 = n - 1 \<and>
     (\<forall>c < 256. \<forall>d < 256. alpha ! c = alpha ! d \<longleftrightarrow> eqv c d) \<and>
     (\<forall>s < n - 1. unalpha ! s < 256 \<and> alpha ! (unalpha ! s) = s) \<and> unalpha ! (n - 1) = 256"

lemma buildAlphabet_spec:
  assumes ok: "esets_ok esets" and len: "length alpha = 257" "length unalpha = 257"
  shows "\<exists>n alpha' unalpha'. buildAlphabetFromEquivSets esets alpha unalpha = Some (n, alpha', unalpha') \<and>
    alphabet_for (\<lambda>c d. same_class esets (of_nat c) (of_nat d)) n alpha' unalpha'"
proof -
  obtain alpha1 unalpha1 where f:
    "foldl alphabet_class (Some (0, alpha, unalpha)) esets = Some (length esets, alpha1, unalpha1)"
    and t: "tables_upto esets (length esets) alpha1 unalpha1"
    using alphabet_classes [OF ok len order_refl] by auto
  let ?k = "length esets"
  let ?alpha = "alpha1[256 := ?k]" and ?unalpha = "unalpha1[?k := 256]"
  have b: "buildAlphabetFromEquivSets esets alpha unalpha = Some (Suc ?k, ?alpha, ?unalpha)"
    by (simp add: buildAlphabetFromEquivSets_def f special_symbol_def N_CHARS_def ALPHABET_SIZE_def)
  have k: "?k \<le> 256" by (rule esets_length [OF ok])
  have tl: "length alpha1 = 257" "length unalpha1 = 257" using t by (simp_all add: tables_upto_def)
  have cls: "\<exists>j < ?k. of_nat c \<in> cr_elems (esets ! j) \<and> ?alpha ! c = j" if c: "c < 256" for c
  proof -
    obtain j where j: "j < ?k" "of_nat c \<in> cr_elems (esets ! j)"
      using ok unfolding esets_ok_def by (metis in_set_conv_nth)
    then have "alpha1 ! unat (of_nat c :: u8) = j" using t by (simp add: tables_upto_def)
    then show ?thesis using j c by auto
  qed
  have same: "?alpha ! c = ?alpha ! d \<longleftrightarrow> same_class esets (of_nat c) (of_nat d)" if "c < 256" "d < 256" for c d
    using cls [OF that(1)] cls [OF that(2)] esets_okD(3) [OF ok]
    unfolding same_class_def by (metis in_set_conv_nth)
  have un: "?unalpha ! s < 256 \<and> ?alpha ! (?unalpha ! s) = s" if s: "s < ?k" for s
  proof -
    obtain c where c: "c \<in> cr_elems (esets ! s)" "unalpha1 ! s = unat c" using t s by (auto simp: tables_upto_def)
    then have "alpha1 ! unat c = s" using t s by (auto simp: tables_upto_def)
    moreover have "unat c \<noteq> 256" using unat_u8 [of c] by linarith
    ultimately show ?thesis using c(2) s by simp
  qed
  have "Suc 0 \<le> ?k" using ok by (cases esets) (auto simp: esets_ok_def)
  then have "alphabet_for (\<lambda>c d. same_class esets (of_nat c) (of_nat d)) (Suc ?k) ?alpha ?unalpha"
    using k tl cls same un by (auto simp: alphabet_for_def)
  then show ?thesis using b by blast
qed

lemma esets_ok_distinct:
  "esets_ok esets \<longleftrightarrow> (\<forall>e \<in> set esets. cr_ok e \<and> cr_elems e \<noteq> {}) \<and> (\<forall>c. \<exists>e \<in> set esets. c \<in> cr_elems e) \<and>
     distinct esets \<and> (\<forall>e \<in> set esets. \<forall>e' \<in> set esets. e \<noteq> e' \<longrightarrow> cr_elems e \<inter> cr_elems e' = {})"
proof
  assume ok: "esets_ok esets"
  moreover have "distinct esets"
    unfolding distinct_conv_nth using ok nth_mem [of _ esets] by (force simp: esets_ok_def)
  moreover have "\<forall>e \<in> set esets. \<forall>e' \<in> set esets. e \<noteq> e' \<longrightarrow> cr_elems e \<inter> cr_elems e' = {}"
  proof (intro ballI impI)
    fix e e' assume "e \<in> set esets" "e' \<in> set esets" "e \<noteq> e'"
    then show "cr_elems e \<inter> cr_elems e' = {}"
      using ok unfolding esets_ok_def in_set_conv_nth by blast
  qed
  ultimately show "(\<forall>e \<in> set esets. cr_ok e \<and> cr_elems e \<noteq> {}) \<and> (\<forall>c. \<exists>e \<in> set esets. c \<in> cr_elems e) \<and>
     distinct esets \<and> (\<forall>e \<in> set esets. \<forall>e' \<in> set esets. e \<noteq> e' \<longrightarrow> cr_elems e \<inter> cr_elems e' = {})"
    by (simp add: esets_ok_def)
qed (auto simp: esets_ok_def nth_eq_iff_index_eq)

lemma esets_sort: "esets_ok (sort esets) = esets_ok esets" "same_class (sort esets) = same_class esets"
  by (simp_all add: esets_ok_distinct same_class_def fun_eq_iff)

lemma blank_table_length: "length blank_table = 257"
  by (simp add: blank_table_def ALPHABET_SIZE_def)

lemma calculateAlphabet_remaps_spec:
  assumes "\<forall>remap \<in> set remaps. remap_ok remap"
  shows "\<exists>n alpha unalpha. calculateAlphabet_remaps remaps = Some (n, alpha, unalpha) \<and>
    alphabet_for (\<lambda>c d. \<forall>remap \<in> set remaps. remap ! c = remap ! d) n alpha unalpha"
proof -
  obtain esets where e: "refine_all split_remap remaps [cr_dot] = Some esets" "esets_ok esets"
    "\<And>c d. same_class esets c d \<longleftrightarrow> (\<forall>remap \<in> set remaps. remap ! unat c = remap ! unat d)"
    using remap_split.refine_all_exact [OF assms esets_dot(1)] esets_dot(2) by auto
  from buildAlphabet_spec [of "sort esets" blank_table blank_table] e(2) blank_table_length obtain n alpha unalpha where
    b: "buildAlphabetFromEquivSets (sort esets) blank_table blank_table = Some (n, alpha, unalpha)"
    "alphabet_for (\<lambda>c d. same_class esets (of_nat c) (of_nat d)) n alpha unalpha" by (auto simp: esets_sort)
  then have "alphabet_for (\<lambda>c d. \<forall>remap \<in> set remaps. remap ! c = remap ! d) n alpha unalpha"
    by (auto simp: alphabet_for_def e(3))
  with b(1) e(1) show ?thesis by (simp add: calculateAlphabet_remaps_def)
qed

text \<open>
  C13. The alphabet of a graph: for any reaches of its vertices the computation ends with at most 257
  symbols, two characters share a symbol exactly when every reach holds both or neither, every symbol
  has a representative character that maps to it, and the top symbol is the last one and shared with
  no character.
\<close>

theorem calculateAlphabet_exact:
  assumes "\<forall>cr \<in> set crs. cr_ok cr"
  shows "\<exists>n alpha unalpha. calculateAlphabet_reaches crs = Some (n, alpha, unalpha) \<and>
    n \<le> ALPHABET_SIZE \<and> length alpha = ALPHABET_SIZE \<and>
    (\<forall>c d :: u8. alpha ! unat c = alpha ! unat d \<longleftrightarrow> (\<forall>cr \<in> set crs. c \<in> cr_elems cr \<longleftrightarrow> d \<in> cr_elems cr)) \<and>
    (\<forall>c :: u8. alpha ! unat c < alpha ! TOP) \<and> alpha ! TOP = n - 1 \<and>
    (\<forall>s < n. unalpha ! s < ALPHABET_SIZE \<and> alpha ! (unalpha ! s) = s)"
proof -
  obtain esets where e: "refine_all split_reach crs [cr_dot] = Some esets" "esets_ok esets"
    "\<And>c d. same_class esets c d \<longleftrightarrow> (\<forall>cr \<in> set crs. c \<in> cr_elems cr \<longleftrightarrow> d \<in> cr_elems cr)"
    using reach_split.refine_all_exact [OF assms esets_dot(1)] esets_dot(2) by auto
  from buildAlphabet_spec [of "sort esets" blank_table blank_table] e(2) blank_table_length obtain n alpha unalpha where
    b: "buildAlphabetFromEquivSets (sort esets) blank_table blank_table = Some (n, alpha, unalpha)"
    and a: "alphabet_for (\<lambda>c d. same_class esets (of_nat c) (of_nat d)) n alpha unalpha" by (auto simp: esets_sort)
  have "unalpha ! s < ALPHABET_SIZE \<and> alpha ! (unalpha ! s) = s" if "s < n" for s
  proof (cases "s = n - 1")
    case False
    then have "unalpha ! s < 256 \<and> alpha ! (unalpha ! s) = s" using a that by (simp add: alphabet_for_def)
    then show ?thesis by (simp add: ALPHABET_SIZE_def)
  qed (use a in \<open>simp add: alphabet_for_def ALPHABET_SIZE_def\<close>)
  moreover have "alpha ! unat c = alpha ! unat d \<longleftrightarrow> (\<forall>cr \<in> set crs. c \<in> cr_elems cr \<longleftrightarrow> d \<in> cr_elems cr)" for c d :: u8
    using a by (simp add: alphabet_for_def e(3))
  ultimately show ?thesis
    using b e(1) a by (auto simp: calculateAlphabet_reaches_def alphabet_for_def ALPHABET_SIZE_def TOP_def)
qed

theorem calculateAlphabet_exact_witness:
  "\<exists>n alpha unalpha. calculateAlphabet_reaches [cr_set cr_new 65, cr_range 48 65] = Some (n, alpha, unalpha) \<and>
    alpha ! 48 = alpha ! 50 \<and> alpha ! 48 \<noteq> alpha ! 65 \<and> alpha ! 48 \<noteq> alpha ! 100"
proof -
  have ok: "\<forall>cr \<in> set [cr_set cr_new 65, cr_range 48 65]. cr_ok cr"
    by (simp add: cr_specs cr_range_def)
  from calculateAlphabet_exact [OF ok] obtain n alpha unalpha where
    r: "calculateAlphabet_reaches [cr_set cr_new 65, cr_range 48 65] = Some (n, alpha, unalpha)" and
    eq: "\<And>c d :: u8. alpha ! unat c = alpha ! unat d \<longleftrightarrow>
      (\<forall>cr \<in> set [cr_set cr_new 65, cr_range 48 65]. c \<in> cr_elems cr \<longleftrightarrow> d \<in> cr_elems cr)" by blast
  show ?thesis
    using r eq [of 48 50] eq [of 48 65] eq [of 48 100] by (simp add: cr_specs cr_range_def)
qed

end
