(* ===== verification/McClellanUtil.thy ===== *)
theory McClellanUtil
  imports Rdfa
begin

text \<open>
  Utilities on raw DFAs, \<^verbatim>\<open>nfa/mcclellancompile_util.cpp\<close>: the reports of a DFA, removal of
  leading dots, removal of the reports that lie too deep, and the test whether a DFA can die early.
  Distances are natural numbers, with \<^verbatim>\<open>~0U\<close> for a state not reached.
\<close>

section \<open>Model\<close>

definition INIT_STATE :: nat where "INIT_STATE = 1"

definition state_has_reports :: "raw_dfa \<Rightarrow> nat \<Rightarrow> bool" where
  "state_has_reports raw s \<longleftrightarrow> reports (states raw ! s) \<noteq> [] \<or> reports_eod (states raw ! s) \<noteq> []"

function dots_from :: "raw_dfa \<Rightarrow> nat \<Rightarrow> nat" where
  "dots_from raw i =
     (if i < length (states raw) \<and> i \<noteq> start_floating raw
      then if \<exists>s < getImplAlphaSize raw. nexts (states raw ! i) ! s \<noteq> i + 1 then i
           else if state_has_reports raw (nexts (states raw ! i) ! 0) then i
           else dots_from raw (i + 1)
      else i)"
  by pat_completeness auto
termination by (relation "measure (\<lambda>(raw, i). length (states raw) - i)") auto

declare dots_from.simps [simp del]

definition count_dots :: "raw_dfa \<Rightarrow> nat" where
  "count_dots raw =
     (let i = dots_from raw INIT_STATE;
          dot_count = i - INIT_STATE
      in if list_ex (\<lambda>j. list_ex (\<lambda>s. let n = nexts (states raw ! j) ! s in n \<noteq> DEAD_STATE \<and> n \<le> dot_count)
                            [0..<getImplAlphaSize raw]) [i..<length (states raw)]
         then 0 else dot_count)"

definition u16_minus :: "nat \<Rightarrow> nat \<Rightarrow> nat" where
  "u16_minus x count = nat ((int x - int count) mod 65536)"

definition prune_state :: "nat \<Rightarrow> nat \<Rightarrow> dstate \<Rightarrow> dstate" where
  "prune_state alpha count ds =
     ds\<lparr>daddy := (if daddy ds > count then u16_minus (daddy ds) count else DEAD_STATE),
        nexts := foldl (\<lambda>nx j. if nx ! j \<noteq> DEAD_STATE then nx[j := u16_minus (nx ! j) count] else nx)
                   (nexts ds) [0..<alpha]\<rparr>"

definition prune_leading_states :: "raw_dfa \<Rightarrow> nat \<Rightarrow> raw_dfa" where
  "prune_leading_states raw count =
     (if count = 0 then raw
      else let n = length (states raw);
               ss = foldl (\<lambda>ss i. ss[i - count := prune_state (alpha_size raw) count (ss ! i)]) (states raw)
                      [INIT_STATE + count..<n]
           in raw\<lparr>states := take (n - count) ss\<rparr>)"

definition remove_leading_dots :: "raw_dfa \<Rightarrow> nat \<times> raw_dfa" where
  "remove_leading_dots raw = (let count = count_dots raw in (count, prune_leading_states raw count))"

definition NO_DIST :: nat where "NO_DIST = 4294967295"

definition visit_succ :: "nat \<Rightarrow> nat list \<times> nat list \<Rightarrow> nat \<Rightarrow> nat list \<times> nat list" where
  "visit_succ d = (\<lambda>(dist, to_visit) t.
     if t = DEAD_STATE then (dist, to_visit)
     else if dist ! t = NO_DIST then (dist[t := (d + 1) mod 2 ^ 32], to_visit @ [t])
     else (dist, to_visit))"

partial_function (option) min_dist_loop :: "raw_dfa \<Rightarrow> nat list \<Rightarrow> nat list \<Rightarrow> nat \<Rightarrow> (nat \<times> nat list) option" where
  "min_dist_loop raw dist to_visit last_d =
     (if to_visit = [] then Some (last_d, dist)
      else let s = hd to_visit;
               d = dist ! s;
               (dist', to_visit') = foldl (visit_succ d) (dist, tl to_visit) (nexts (states raw ! s))
           in min_dist_loop raw dist' to_visit' d)"

declare min_dist_loop.simps [code]

definition calc_min_dist_from_bob :: "raw_dfa \<Rightarrow> (nat \<times> nat list) option" where
  "calc_min_dist_from_bob raw =
     min_dist_loop raw ((replicate (length (states raw)) NO_DIST)[start_anchored raw := 0]) [start_anchored raw] 0"

definition clear_reports :: "nat list \<Rightarrow> nat \<Rightarrow> bool \<times> raw_dfa \<Rightarrow> nat \<Rightarrow> bool \<times> raw_dfa" where
  "clear_reports bob_dist max_offset = (\<lambda>(changed, raw) s.
     if bob_dist ! s > max_offset \<and> state_has_reports raw s
     then (True, raw\<lparr>states := (states raw)[s := (states raw ! s)\<lparr>reports := [], reports_eod := []\<rparr>]\<rparr>)
     else (changed, raw))"

definition clear_deeper_reports :: "raw_dfa \<Rightarrow> nat \<Rightarrow> (bool \<times> raw_dfa) option" where
  "clear_deeper_reports raw max_offset =
     (case calc_min_dist_from_bob raw of
        None \<Rightarrow> None
      | Some (max_min_dist_bob, bob_dist) \<Rightarrow>
          if max_min_dist_bob \<le> max_offset then Some (False, raw)
          else let (changed, raw') = foldl (clear_reports bob_dist max_offset) (False, raw)
                                       [DEAD_STATE + 1..<length (states raw)]
               in if \<not> changed then Some (False, raw')
                  else if list_all (\<lambda>ds. reports ds = [] \<and> reports_eod ds = []) (states raw')
                  then Some (True, raw'\<lparr>start_anchored := DEAD_STATE, start_floating := DEAD_STATE\<rparr>)
                  else Some (True, raw'))"

definition all_reports :: "raw_dfa \<Rightarrow> nat list" where
  "all_reports d =
     foldl (\<lambda>al ds. flat_set_insert_range (flat_set_insert_range al (reports ds)) (reports_eod ds)) [] (states d)"

definition has_eod_accepts :: "raw_dfa \<Rightarrow> bool" where
  "has_eod_accepts d = list_ex (\<lambda>ds. reports_eod ds \<noteq> []) (states d)"

definition has_non_eod_accepts :: "raw_dfa \<Rightarrow> bool" where
  "has_non_eod_accepts d = list_ex (\<lambda>ds. reports ds \<noteq> []) (states d)"

text \<open>The recursion of \<^verbatim>\<open>can_die_early\<close>; the map of visited states is threaded through the calls.\<close>

fun die_scan :: "(nat \<Rightarrow> 'v \<Rightarrow> bool \<times> 'v) \<Rightarrow> nat list \<Rightarrow> 'v \<Rightarrow> bool \<times> 'v" where
  "die_scan f [] visited = (False, visited)"
| "die_scan f (t # ts) visited =
     (let (found, visited') = f t visited in if found then (True, visited') else die_scan f ts visited')"

definition looser_visit :: "(nat \<rightharpoonup> nat) \<Rightarrow> nat \<Rightarrow> nat \<Rightarrow> bool" where
  "looser_visit visited s age_limit = (case visited s of None \<Rightarrow> False | Some b \<Rightarrow> b \<ge> age_limit)"

primrec can_die_early_from :: "raw_dfa \<Rightarrow> nat \<Rightarrow> nat \<Rightarrow> (nat \<rightharpoonup> nat) \<Rightarrow> bool \<times> (nat \<rightharpoonup> nat)" where
  "can_die_early_from raw 0 = (\<lambda>s visited.
     if looser_visit visited s 0 then (False, visited) else (s = DEAD_STATE, visited(s \<mapsto> 0)))"
| "can_die_early_from raw (Suc age) = (\<lambda>s visited.
     if looser_visit visited s (Suc age) then (False, visited)
     else let visited' = visited(s \<mapsto> Suc age)
          in if s = DEAD_STATE then (True, visited')
             else die_scan (can_die_early_from raw age) (nexts (states raw ! s)) visited')"

definition can_die_early :: "raw_dfa \<Rightarrow> nat \<Rightarrow> bool" where
  "can_die_early raw age_limit = fst (can_die_early_from raw age_limit (start_anchored raw) Map.empty)"

definition is_dead :: "raw_dfa \<Rightarrow> bool" where
  "is_dead d \<longleftrightarrow> start_anchored d = DEAD_STATE \<and> start_floating d = DEAD_STATE"

section \<open>Reports\<close>

lemma flat_set_insert_range_spec:
  "flat_set_ok xs \<Longrightarrow> flat_set_ok (flat_set_insert_range xs ys) \<and> set (flat_set_insert_range xs ys) = set xs \<union> set ys"
  unfolding flat_set_insert_range_def by (simp add: fset.ok_insert_all fset.elems_insert_all)

lemma all_reports_spec:
  "flat_set_ok (all_reports d)" "set (all_reports d) = (\<Union>ds \<in> set (states d). set (reports ds) \<union> set (reports_eod ds))"
proof -
  have "flat_set_ok (foldl (\<lambda>al ds. flat_set_insert_range (flat_set_insert_range al (reports ds)) (reports_eod ds)) xs dss) \<and>
      set (foldl (\<lambda>al ds. flat_set_insert_range (flat_set_insert_range al (reports ds)) (reports_eod ds)) xs dss) =
        set xs \<union> (\<Union>ds \<in> set dss. set (reports ds) \<union> set (reports_eod ds))"
    if "flat_set_ok xs" for xs :: "nat list" and dss
    using that by (induction dss arbitrary: xs) (auto simp: flat_set_insert_range_spec)
  from this [of "[]" "states d"] show "flat_set_ok (all_reports d)"
    "set (all_reports d) = (\<Union>ds \<in> set (states d). set (reports ds) \<union> set (reports_eod ds))"
    by (simp_all add: all_reports_def)
qed

section \<open>Dying early\<close>

lemma set_nexts: "wf_rdfa d \<Longrightarrow> s < length (states d) \<Longrightarrow> set (nexts (states d ! s)) = dfa_step d s ` {..<alpha_size d}"
  by (auto simp: wf_rdfaD in_set_conv_nth dfa_step_def image_iff Bex_def)

definition word_ok :: "raw_dfa \<Rightarrow> nat list \<Rightarrow> bool" where
  "word_ok d w \<longleftrightarrow> (\<forall>a \<in> set w. a < alpha_size d)"

lemma word_ok_simps [simp]:
  "word_ok d []" "word_ok d (a # w) \<longleftrightarrow> a < alpha_size d \<and> word_ok d w"
  "word_ok d (v @ w) \<longleftrightarrow> word_ok d v \<and> word_ok d w"
  by (auto simp: word_ok_def)

lemma die_scan_True:
  "die_scan f ts v = (True, v') \<Longrightarrow> \<exists>t \<in> set ts. \<exists>u u'. f t u = (True, u')"
  by (induction ts arbitrary: v) (auto split: prod.splits if_splits)

lemma can_die_early_from_True:
  assumes wf: "wf_rdfa d"
  shows "s < length (states d) \<Longrightarrow> can_die_early_from d age s v = (True, v') \<Longrightarrow>
    \<exists>w. word_ok d w \<and> length w \<le> age \<and> dfa_run d s w = DEAD_STATE"
proof (induction age arbitrary: s v v')
  case 0
  then show ?case by (auto split: if_splits intro!: exI [of _ "[]"])
next
  case (Suc age)
  show ?case
  proof (cases "s = DEAD_STATE")
    case True
    then show ?thesis by (auto intro!: exI [of _ "[]"])
  next
    case False
    with Suc.prems obtain t u u' where t: "t \<in> set (nexts (states d ! s))" "can_die_early_from d age t u = (True, u')"
      by (auto split: if_splits dest!: die_scan_True)
    from t(1) obtain a where a: "a < alpha_size d" "t = dfa_step d s a"
      by (auto simp: set_nexts wf Suc.prems)
    with Suc.prems(1) wf have "t < length (states d)" by (simp add: wf_rdfaD)
    from Suc.IH [OF this t(2)] obtain w where "word_ok d w" "length w \<le> age" "dfa_run d t w = DEAD_STATE" by auto
    with a show ?thesis by (intro exI [of _ "a # w"]) simp
  qed
qed

text \<open>A map of visited states is closed, up to the states still being visited, when the successors of
  every state have been visited with a limit that is at most one tighter.\<close>

definition at_least :: "(nat \<rightharpoonup> nat) \<Rightarrow> nat \<Rightarrow> nat \<Rightarrow> bool" where
  "at_least v s b \<longleftrightarrow> (\<exists>c \<ge> b. v s = Some c)"

definition visits_closed :: "raw_dfa \<Rightarrow> nat set \<Rightarrow> (nat \<rightharpoonup> nat) \<Rightarrow> bool" where
  "visits_closed d P v \<longleftrightarrow>
     (\<forall>s b. v s = Some b \<longrightarrow> s \<notin> P \<longrightarrow>
        s \<noteq> DEAD_STATE \<and> (\<forall>a. b = Suc a \<longrightarrow> (\<forall>t \<in> set (nexts (states d ! s)). at_least v t a)))"

definition visits_grow :: "nat \<Rightarrow> (nat \<rightharpoonup> nat) \<Rightarrow> (nat \<rightharpoonup> nat) \<Rightarrow> bool" where
  "visits_grow age v v' \<longleftrightarrow> (\<forall>s b. v s = Some b \<longrightarrow> at_least v' s b \<and> (age \<le> b \<longrightarrow> v' s = Some b))"

lemma looser_visit_iff: "looser_visit v s b \<longleftrightarrow> at_least v s b"
  by (auto simp: looser_visit_def at_least_def split: option.splits)

lemma visits_grow_refl: "visits_grow age v v"
  by (auto simp: visits_grow_def at_least_def)

lemma visits_grow_at_least: "visits_grow age v v' \<Longrightarrow> at_least v s b \<Longrightarrow> at_least v' s b"
  by (fastforce simp: visits_grow_def at_least_def)

lemma visits_grow_trans: "visits_grow age u v \<Longrightarrow> visits_grow age v w \<Longrightarrow> visits_grow age u w"
  unfolding visits_grow_def at_least_def by (metis order_trans)

lemma visits_grow_upd: "\<not> at_least v s age \<Longrightarrow> visits_grow age v (v(s \<mapsto> age))"
  by (auto simp: visits_grow_def at_least_def) (meson nle_le)

lemma visits_grow_mono: "visits_grow age v v' \<Longrightarrow> age \<le> age' \<Longrightarrow> visits_grow age' v v'"
  by (auto simp: visits_grow_def)

lemma visits_closed_upd:
  "visits_closed d P v \<Longrightarrow> \<not> at_least v s age \<Longrightarrow> visits_closed d (insert s P) (v(s \<mapsto> age))"
  unfolding visits_closed_def
  using visits_grow_at_least [OF visits_grow_upd] by auto

lemma visits_closed_insert:
  assumes "visits_closed d (insert s P) v" and "v s = Some b" and "s \<noteq> DEAD_STATE"
    and "\<And>a t. b = Suc a \<Longrightarrow> t \<in> set (nexts (states d ! s)) \<Longrightarrow> at_least v t a"
  shows "visits_closed d P v"
  unfolding visits_closed_def
proof (intro allI impI)
  fix u c assume u: "v u = Some c" "u \<notin> P"
  show "u \<noteq> DEAD_STATE \<and> (\<forall>a. c = Suc a \<longrightarrow> (\<forall>t \<in> set (nexts (states d ! u)). at_least v t a))"
  proof (cases "u = s")
    case True
    with u assms show ?thesis by auto
  next
    case False
    with u assms(1) show ?thesis unfolding visits_closed_def by blast
  qed
qed

lemma die_scan_False:
  assumes "\<And>t v v' P. f t v = (False, v') \<Longrightarrow> visits_closed d P v \<Longrightarrow>
      visits_grow age v v' \<and> at_least v' t age \<and> visits_closed d P v'"
  shows "die_scan f ts v = (False, v') \<Longrightarrow> visits_closed d P v \<Longrightarrow>
    visits_grow age v v' \<and> (\<forall>t \<in> set ts. at_least v' t age) \<and> visits_closed d P v'"
proof (induction ts arbitrary: v)
  case Nil
  then show ?case by (simp add: visits_grow_refl)
next
  case (Cons t ts)
  obtain found u where f: "f t v = (found, u)" by fastforce
  with Cons.prems have nf: "\<not> found" and rest: "die_scan f ts u = (False, v')" by (auto split: if_splits)
  from assms [OF _ Cons.prems(2), of t u] have 1: "visits_grow age v u \<and> at_least u t age \<and> visits_closed d P u"
    by (simp add: f nf)
  with Cons.IH [OF rest] show ?case
    using visits_grow_trans visits_grow_at_least by auto
qed

lemma can_die_early_from_False:
  "can_die_early_from d age s v = (False, v') \<Longrightarrow> visits_closed d P v \<Longrightarrow>
   visits_grow age v v' \<and> at_least v' s age \<and> visits_closed d P v'"
proof (induction age arbitrary: s v v' P)
  case 0
  show ?case
  proof (cases "looser_visit v s 0")
    case True
    with 0 show ?thesis by (auto simp: looser_visit_iff visits_grow_refl)
  next
    case False
    with 0 have v': "v' = v(s \<mapsto> 0)" "s \<noteq> DEAD_STATE" by auto
    have g: "visits_grow 0 v v'" using False by (simp add: v' looser_visit_iff visits_grow_upd)
    have "visits_closed d (insert s P) v'"
      unfolding v'(1) by (rule visits_closed_upd) (use 0 False in \<open>simp_all add: looser_visit_iff\<close>)
    then have "visits_closed d P v'" by (rule visits_closed_insert [where b = 0]) (simp_all add: v')
    moreover have "at_least v' s 0" by (simp add: v' at_least_def)
    ultimately show ?thesis using g by simp
  qed
next
  case (Suc age)
  show ?case
  proof (cases "looser_visit v s (Suc age)")
    case True
    with Suc.prems show ?thesis by (auto simp: looser_visit_iff visits_grow_refl)
  next
    case False
    let ?u = "v(s \<mapsto> Suc age)"
    have ns: "s \<noteq> DEAD_STATE" and scan: "die_scan (can_die_early_from d age) (nexts (states d ! s)) ?u = (False, v')"
      using Suc.prems(1) False by (auto simp: Let_def split: if_splits)
    have g1: "visits_grow (Suc age) v ?u" and c1: "visits_closed d (insert s P) ?u"
      using False Suc.prems(2) by (simp_all add: looser_visit_iff visits_grow_upd visits_closed_upd)
    from die_scan_False [OF Suc.IH scan c1]
    have g2: "visits_grow age ?u v'" and t: "\<forall>t \<in> set (nexts (states d ! s)). at_least v' t age"
      and c2: "visits_closed d (insert s P) v'" by simp_all
    have s: "v' s = Some (Suc age)" using g2 unfolding visits_grow_def by simp
    have "visits_closed d P v'" by (rule visits_closed_insert [OF c2 s ns]) (use t in simp)
    then show ?thesis
      using visits_grow_trans [OF g1 visits_grow_mono [OF g2]] s by (simp add: at_least_def)
  qed
qed

lemma visits_closed_not_dead:
  "visits_closed d {} v \<Longrightarrow> wf_rdfa d \<Longrightarrow> s < length (states d) \<Longrightarrow> word_ok d w \<Longrightarrow> at_least v s (length w) \<Longrightarrow>
   dfa_run d s w \<noteq> DEAD_STATE"
proof (induction w arbitrary: s)
  case Nil
  then show ?case by (auto simp: visits_closed_def at_least_def)
next
  case (Cons a w)
  from Cons.prems obtain b where b: "v s = Some (Suc b)" "length w \<le> b"
    unfolding at_least_def by (metis Suc_le_D Suc_le_mono length_Cons)
  have "dfa_step d s a \<in> set (nexts (states d ! s))" using Cons.prems by (simp add: set_nexts)
  with b Cons.prems(1) have "at_least v (dfa_step d s a) b" by (auto simp: visits_closed_def)
  with b have "at_least v (dfa_step d s a) (length w)" by (auto simp: at_least_def)
  with Cons show ?case by (simp add: wf_rdfaD)
qed

text \<open>
  C10. \<open>can_die_early\<close> answers whether the DFA can be dead within the given number of symbols: although a
  state already visited with a looser limit is not visited again, it finds a word of at most that length that leads
  to the dead state exactly when there is one.
\<close>

theorem can_die_early_iff:
  assumes wf: "wf_rdfa d"
  shows "can_die_early d age_limit \<longleftrightarrow>
    (\<exists>w. word_ok d w \<and> length w \<le> age_limit \<and> dfa_run d (start_anchored d) w = DEAD_STATE)"
proof -
  have s: "start_anchored d < length (states d)" using wf by (simp add: wf_rdfa_def)
  obtain r v where r: "can_die_early_from d age_limit (start_anchored d) Map.empty = (r, v)" by fastforce
  show ?thesis
  proof (cases r)
    case True
    with r can_die_early_from_True [OF wf s] show ?thesis by (simp add: can_die_early_def)
  next
    case False
    have "visits_closed d {} Map.empty" by (simp add: visits_closed_def)
    from can_die_early_from_False [OF _ this, of age_limit "start_anchored d" v] r False
    have c: "visits_closed d {} v" "at_least v (start_anchored d) age_limit" by simp_all
    have "dfa_run d (start_anchored d) w \<noteq> DEAD_STATE" if "word_ok d w" "length w \<le> age_limit" for w
      by (rule visits_closed_not_dead [OF c(1) wf s that(1)]) (use c(2) that(2) in \<open>auto simp: at_least_def\<close>)
    with r False show ?thesis by (auto simp: can_die_early_def)
  qed
qed

section \<open>Distances\<close>

definition dead_ok :: "raw_dfa \<Rightarrow> bool" where
  "dead_ok d \<longleftrightarrow> dfa_obs d DEAD_STATE = ([], []) \<and> (\<forall>a < alpha_size d. dfa_step d DEAD_STATE a = DEAD_STATE)"

definition unseen :: "nat list \<Rightarrow> nat set" where
  "unseen dist = {s. s < length dist \<and> dist ! s = NO_DIST}"

lemma finite_unseen [simp]: "finite (unseen dist)"
  by (simp add: unseen_def)

lemma unseen_update:
  "t \<in> unseen dist \<Longrightarrow> v \<noteq> NO_DIST \<Longrightarrow> unseen (dist[t := v]) = unseen dist - {t}"
  by (auto simp: unseen_def nth_list_update)

definition marked :: "nat list \<Rightarrow> nat set \<Rightarrow> nat \<Rightarrow> nat list \<Rightarrow> bool" where
  "marked dist N v dist' \<longleftrightarrow> length dist' = length dist \<and> (\<forall>t < length dist. dist' ! t = (if t \<in> N then v else dist ! t))"

lemma visit_succs:
  assumes "d + 1 < NO_DIST"
  shows "(\<forall>t \<in> set ts. t < length dist) \<Longrightarrow>
    \<exists>dist' new. foldl (visit_succ d) (dist, q) ts = (dist', q @ new) \<and> distinct new \<and>
      set new = {t \<in> set ts. t \<noteq> DEAD_STATE \<and> dist ! t = NO_DIST} \<and> marked dist (set new) (d + 1) dist'"
proof (induction ts arbitrary: dist q)
  case Nil
  then show ?case by (simp add: marked_def)
next
  case (Cons t ts)
  show ?case
  proof (cases "t \<noteq> DEAD_STATE \<and> dist ! t = NO_DIST")
    case False
    then have "{t' \<in> set (t # ts). t' \<noteq> DEAD_STATE \<and> dist ! t' = NO_DIST} =
      {t' \<in> set ts. t' \<noteq> DEAD_STATE \<and> dist ! t' = NO_DIST}" by auto
    moreover have "visit_succ d (dist, q) t = (dist, q)" using False by (auto simp: visit_succ_def)
    ultimately show ?thesis using Cons.IH [of dist q] Cons.prems by simp
  next
    case True
    let ?u = "dist[t := d + 1]"
    have t: "t < length dist" using Cons.prems by simp
    have "(d + 1) mod 2 ^ 32 = d + 1" using assms by (simp add: NO_DIST_def)
    then have step: "foldl (visit_succ d) (dist, q) (t # ts) = foldl (visit_succ d) (?u, q @ [t]) ts"
      using True by (simp add: visit_succ_def)
    from Cons.IH [of ?u "q @ [t]"] Cons.prems obtain dist' new
      where F: "foldl (visit_succ d) (?u, q @ [t]) ts = (dist', (q @ [t]) @ new)" and dn: "distinct new"
        and new: "set new = {t' \<in> set ts. t' \<noteq> DEAD_STATE \<and> ?u ! t' = NO_DIST}" and m: "marked ?u (set new) (d + 1) dist'"
      by auto
    have tn: "t \<notin> set new" using new t assms by auto
    have "set (t # new) = {t' \<in> set (t # ts). t' \<noteq> DEAD_STATE \<and> dist ! t' = NO_DIST}"
      using new True t assms by (auto simp: nth_list_update split: if_splits)
    moreover have "marked dist (set (t # new)) (d + 1) dist'"
      using m t by (auto simp: marked_def nth_list_update)
    ultimately show ?thesis using F dn tn step by (intro exI [of _ dist'] exI [of _ "t # new"]) simp
  qed
qed

definition walk :: "raw_dfa \<Rightarrow> nat \<Rightarrow> nat \<Rightarrow> bool" where
  "walk d n s \<longleftrightarrow> (\<exists>w. word_ok d w \<and> length w = n \<and> dfa_run d (start_anchored d) w = s)"

lemma walk_next:
  "walk d n s \<Longrightarrow> wf_rdfa d \<Longrightarrow> s < length (states d) \<Longrightarrow> t \<in> set (nexts (states d ! s)) \<Longrightarrow> walk d (n + 1) t"
proof -
  assume "walk d n s" and "wf_rdfa d" "s < length (states d)" "t \<in> set (nexts (states d ! s))"
  then obtain w a where "word_ok d w" "length w = n" "dfa_run d (start_anchored d) w = s"
    "a < alpha_size d" "t = dfa_step d s a" by (auto simp: walk_def set_nexts)
  then show ?thesis unfolding walk_def by (intro exI [of _ "w @ [a]"]) simp
qed

text \<open>The invariant of the breadth-first search: distances are lengths of walks, the queue is ordered by
  distance and spans at most two levels, and the successors of a finished state are at most one level deeper.\<close>

definition state_seen :: "nat list \<Rightarrow> nat \<Rightarrow> bool" where
  "state_seen dist s \<longleftrightarrow> s < length dist \<and> dist ! s \<noteq> NO_DIST"

definition dist_sound :: "raw_dfa \<Rightarrow> nat list \<Rightarrow> bool" where
  "dist_sound d dist \<longleftrightarrow> length dist = length (states d) \<and>
     (\<forall>s. state_seen dist s \<longrightarrow> s \<noteq> DEAD_STATE \<and> walk d (dist ! s) s \<and> dist ! s + card (unseen dist) < length dist)"

definition queue_ok :: "nat list \<Rightarrow> nat list \<Rightarrow> nat \<Rightarrow> bool" where
  "queue_ok dist q last_d \<longleftrightarrow> (\<forall>s \<in> set q. state_seen dist s \<and> last_d \<le> dist ! s) \<and> sorted (map ((!) dist) q) \<and>
     (\<forall>s. state_seen dist s \<longrightarrow> s \<notin> set q \<longrightarrow> dist ! s \<le> last_d) \<and> (\<forall>s \<in> set q. dist ! s \<le> last_d + 1)"

definition succs_closed :: "raw_dfa \<Rightarrow> nat list \<Rightarrow> nat list \<Rightarrow> bool" where
  "succs_closed d dist q \<longleftrightarrow> (\<forall>s. state_seen dist s \<longrightarrow> s \<notin> set q \<longrightarrow>
     (\<forall>t \<in> set (nexts (states d ! s)). t \<noteq> DEAD_STATE \<longrightarrow> state_seen dist t \<and> dist ! t \<le> dist ! s + 1))"

definition bfs_inv :: "raw_dfa \<Rightarrow> nat list \<Rightarrow> nat list \<Rightarrow> nat \<Rightarrow> bool" where
  "bfs_inv d dist q last_d \<longleftrightarrow> dist_sound d dist \<and> state_seen dist (start_anchored d) \<and> dist ! start_anchored d = 0 \<and>
     queue_ok dist q last_d \<and> succs_closed d dist q"

lemma marked_seen:
  "marked dist N v dist' \<Longrightarrow> v \<noteq> NO_DIST \<Longrightarrow> N \<subseteq> unseen dist \<Longrightarrow> state_seen dist' t \<longleftrightarrow> state_seen dist t \<or> t \<in> N"
  by (auto simp: marked_def state_seen_def unseen_def split: if_splits)

lemma marked_nth:
  "marked dist N v dist' \<Longrightarrow> N \<subseteq> unseen dist \<Longrightarrow> state_seen dist t \<Longrightarrow> dist' ! t = dist ! t"
  "marked dist N v dist' \<Longrightarrow> N \<subseteq> unseen dist \<Longrightarrow> t \<in> N \<Longrightarrow> dist' ! t = v"
  by (auto simp: marked_def state_seen_def unseen_def)

lemma marked_unseen:
  "marked dist N v dist' \<Longrightarrow> v \<noteq> NO_DIST \<Longrightarrow> N \<subseteq> unseen dist \<Longrightarrow> unseen dist' = unseen dist - N"
  by (auto simp: marked_def unseen_def split: if_splits)

lemma dist_sound_marked:
  assumes ok: "dist_sound d dist" and wf: "wf_rdfa d" and s: "state_seen dist s"
    and m: "marked dist N (dist ! s + 1) dist'" and v: "dist ! s + 1 \<noteq> NO_DIST"
    and N: "N \<subseteq> unseen dist" "N \<subseteq> set (nexts (states d ! s))" "DEAD_STATE \<notin> N"
  shows "dist_sound d dist'"
  unfolding dist_sound_def
proof (intro conjI allI impI)
  have len: "length dist = length (states d)" using ok by (simp add: dist_sound_def)
  show "length dist' = length (states d)" using m len by (simp add: marked_def)
  fix t assume t: "state_seen dist' t"
  have un: "unseen dist' = unseen dist - N" using marked_unseen [OF m v N(1)] .
  then have le: "card (unseen dist') \<le> card (unseen dist)" by (simp add: card_mono)
  have n': "length dist' = length dist" using m by (simp add: marked_def)
  have sd: "dist ! s + card (unseen dist) < length dist" "walk d (dist ! s) s" "s < length (states d)"
    using ok s len by (simp_all add: dist_sound_def state_seen_def)
  consider "state_seen dist t" | "t \<in> N" using t marked_seen [OF m v N(1)] by blast
  then have "t \<noteq> DEAD_STATE \<and> walk d (dist' ! t) t \<and> dist' ! t + card (unseen dist') < length dist'"
  proof cases
    case 1
    then have "t \<noteq> DEAD_STATE \<and> walk d (dist ! t) t \<and> dist ! t + card (unseen dist) < length dist"
      using ok unfolding dist_sound_def by blast
    then show ?thesis using le marked_nth(1) [OF m N(1) 1] n' by auto
  next
    case 2
    have "card (unseen dist') < card (unseen dist)"
      unfolding un by (rule psubset_card_mono) (use 2 N(1) in auto)
    then show ?thesis
      using 2 N(2,3) marked_nth(2) [OF m N(1) 2] sd walk_next [OF sd(2) wf sd(3)] n' by auto
  qed
  then show "t \<noteq> DEAD_STATE" "walk d (dist' ! t) t" "dist' ! t + card (unseen dist') < length dist'" by simp_all
qed

lemma queue_ok_marked:
  assumes ok: "queue_ok dist (s # q) last_d" and m: "marked dist (set new) (dist ! s + 1) dist'"
    and v: "dist ! s + 1 \<noteq> NO_DIST" and N: "set new \<subseteq> unseen dist"
  shows "queue_ok dist' (q @ new) (dist ! s)"
proof -
  note sn = marked_seen [OF m v N] and old = marked_nth(1) [OF m N] and nw = marked_nth(2) [OF m N]
  have q: "state_seen dist t" "dist ! s \<le> dist ! t" "dist ! t \<le> dist ! s + 1" if "t \<in> set q" for t
    using ok that by (auto simp: queue_ok_def)
  have ml: "map ((!) dist') (q @ new) = map ((!) dist) q @ replicate (length new) (dist ! s + 1)"
    using q(1) old nw by (auto intro: replicate_eqI [symmetric] simp: map_replicate_const [symmetric])
  have "sorted (map ((!) dist') (q @ new))"
    unfolding ml using ok q(3) by (auto simp: queue_ok_def sorted_append)
  moreover have "dist' ! t \<le> dist ! s" if "state_seen dist' t" "t \<notin> set (q @ new)" for t
  proof -
    have t: "state_seen dist t" using that sn by auto
    show ?thesis
    proof (cases "t = s")
      case False
      then have "dist ! t \<le> last_d" "last_d \<le> dist ! s" using ok t that by (auto simp: queue_ok_def)
      then show ?thesis using old [OF t] by simp
    qed (use old t in simp)
  qed
  ultimately show ?thesis
    using q old nw sn by (auto simp: queue_ok_def)
qed

lemma succs_closed_marked:
  assumes ok: "succs_closed d dist (s # q)" and s: "state_seen dist s"
    and le: "\<And>t. state_seen dist t \<Longrightarrow> dist ! t \<le> dist ! s + 1"
    and m: "marked dist (set new) (dist ! s + 1) dist'" and v: "dist ! s + 1 \<noteq> NO_DIST"
    and new: "set new = {t \<in> set (nexts (states d ! s)). t \<noteq> DEAD_STATE \<and> dist ! t = NO_DIST}"
    and N: "set new \<subseteq> unseen dist" and bound: "\<forall>t \<in> set (nexts (states d ! s)). t < length dist"
  shows "succs_closed d dist' (q @ new)"
  unfolding succs_closed_def
proof (intro allI impI ballI)
  note sn = marked_seen [OF m v N] and old = marked_nth(1) [OF m N] and nw = marked_nth(2) [OF m N]
  fix u t assume u: "state_seen dist' u" "u \<notin> set (q @ new)" and t: "t \<in> set (nexts (states d ! u))" "t \<noteq> DEAD_STATE"
  have u': "state_seen dist u" using u sn by auto
  show "state_seen dist' t \<and> dist' ! t \<le> dist' ! u + 1"
  proof (cases "u = s")
    case True
    show ?thesis
    proof (cases "state_seen dist t")
      case True
      then show ?thesis using old [OF True] old [OF s] le [OF True] sn \<open>u = s\<close> by simp
    next
      case False
      then have "t \<in> set new" using new t bound \<open>u = s\<close> by (auto simp: state_seen_def)
      then show ?thesis using nw old [OF s] sn \<open>u = s\<close> by simp
    qed
  next
    case False
    then have "state_seen dist t \<and> dist ! t \<le> dist ! u + 1" using ok u u' t by (simp add: succs_closed_def)
    then show ?thesis using old u' sn by simp
  qed
qed

lemma bfs_step:
  assumes wf: "wf_rdfa d" and inv: "bfs_inv d dist (s # q) last_d"
    and F: "foldl (visit_succ (dist ! s)) (dist, q) (nexts (states d ! s)) = (dist', q')"
  shows "bfs_inv d dist' q' (dist ! s) \<and> card (unseen dist') + length q' < card (unseen dist) + length (s # q)"
proof -
  have snd: "dist_sound d dist" and qo: "queue_ok dist (s # q) last_d" and cl: "succs_closed d dist (s # q)"
    and st: "state_seen dist (start_anchored d)" "dist ! start_anchored d = 0"
    using inv by (simp_all add: bfs_inv_def)
  have len: "length dist = length (states d)" and s: "state_seen dist s" and sl: "s < length (states d)"
    using snd qo by (simp_all add: dist_sound_def queue_ok_def state_seen_def)
  have "dist ! s < length (states d)" using snd s len by (fastforce simp: dist_sound_def)
  then have v: "dist ! s + 1 < NO_DIST" using wf by (simp add: wf_rdfa_def NO_DIST_def)
  have bound: "\<forall>t \<in> set (nexts (states d ! s)). t < length dist"
    using wf sl by (auto simp: set_nexts len wf_rdfaD)
  from visit_succs [OF v bound, of q] F obtain new where q': "q' = q @ new" and dn: "distinct new"
    and new: "set new = {t \<in> set (nexts (states d ! s)). t \<noteq> DEAD_STATE \<and> dist ! t = NO_DIST}"
    and m: "marked dist (set new) (dist ! s + 1) dist'" by auto
  have N: "set new \<subseteq> unseen dist" using new bound by (auto simp: unseen_def)
  have vn: "dist ! s + 1 \<noteq> NO_DIST" using v by simp
  have le: "dist ! t \<le> dist ! s + 1" if "state_seen dist t" for t
    using qo that by (fastforce simp: queue_ok_def)
  have "dist_sound d dist'" using dist_sound_marked [OF snd wf s m vn N] new by auto
  moreover have "queue_ok dist' q' (dist ! s)" unfolding q' by (rule queue_ok_marked [OF qo m vn N])
  moreover have "succs_closed d dist' q'" unfolding q' by (rule succs_closed_marked [OF cl s le m vn new N bound])
  moreover have "state_seen dist' (start_anchored d)" "dist' ! start_anchored d = 0"
    using st marked_seen [OF m vn N] marked_nth(1) [OF m N] by simp_all
  moreover have "card (unseen dist') + length q' = card (unseen dist) + length q"
    using card_Diff_subset [of "set new" "unseen dist"] card_mono [OF _ N] N distinct_card [OF dn]
    by (simp add: marked_unseen [OF m vn N] q')
  ultimately show ?thesis by (simp add: bfs_inv_def)
qed

lemma min_dist_loop_returns:
  "wf_rdfa d \<Longrightarrow> bfs_inv d dist q last_d \<Longrightarrow>
   \<exists>last_d' dist'. min_dist_loop d dist q last_d = Some (last_d', dist') \<and> bfs_inv d dist' [] last_d'"
proof (induction "card (unseen dist) + length q" arbitrary: dist q last_d rule: less_induct)
  case less
  show ?case
  proof (cases q)
    case Nil
    with less.prems show ?thesis by (simp add: min_dist_loop.simps)
  next
    case (Cons s qs)
    obtain dist' q' where F: "foldl (visit_succ (dist ! s)) (dist, qs) (nexts (states d ! s)) = (dist', q')"
      by fastforce
    have "min_dist_loop d dist q last_d = min_dist_loop d dist' q' (dist ! s)"
      using F by (subst min_dist_loop.simps) (simp add: Cons)
    with bfs_step [OF less.prems(1) less.prems(2) [unfolded Cons] F] less.hyps less.prems(1) show ?thesis
      by (simp add: Cons)
  qed
qed

lemma bfs_start:
  assumes wf: "wf_rdfa d" and st: "start_anchored d \<noteq> DEAD_STATE"
  shows "bfs_inv d ((replicate (length (states d)) NO_DIST)[start_anchored d := 0]) [start_anchored d] 0"
proof -
  let ?dist = "(replicate (length (states d)) NO_DIST)[start_anchored d := 0]"
  have s: "start_anchored d < length (states d)" using wf by (simp add: wf_rdfa_def)
  have sn: "state_seen ?dist t \<longleftrightarrow> t = start_anchored d" for t
    using s by (auto simp: state_seen_def nth_list_update NO_DIST_def)
  have "unseen ?dist = {..<length (states d)} - {start_anchored d}"
    using s by (auto simp: unseen_def nth_list_update NO_DIST_def)
  then have "card (unseen ?dist) < length (states d)" using s by simp
  moreover have "walk d 0 (start_anchored d)" by (auto simp: walk_def)
  ultimately show ?thesis
    using s st by (simp add: bfs_inv_def dist_sound_def queue_ok_def succs_closed_def sn)
qed

lemma dead_run: "dead_ok d \<Longrightarrow> word_ok d w \<Longrightarrow> dfa_run d DEAD_STATE w = DEAD_STATE"
  by (induction w) (simp_all add: dead_ok_def)

text \<open>Distances are exact: a state that can be reached without dying has the length of a shortest word.\<close>

lemma bfs_final:
  assumes wf: "wf_rdfa d" and dead: "dead_ok d" and inv: "bfs_inv d dist [] last_d"
    and w: "word_ok d w" and live: "dfa_run d (start_anchored d) w \<noteq> DEAD_STATE"
  shows "state_seen dist (dfa_run d (start_anchored d) w) \<and> dist ! dfa_run d (start_anchored d) w \<le> length w"
  using w live
proof (induction w rule: rev_induct)
  case Nil
  then show ?case using inv by (simp add: bfs_inv_def)
next
  case (snoc a w)
  let ?s = "dfa_run d (start_anchored d) w"
  have "?s \<noteq> DEAD_STATE" using snoc.prems dead by (auto simp: dead_ok_def)
  with snoc have IH: "state_seen dist ?s" "dist ! ?s \<le> length w" by simp_all
  have sl: "?s < length (states d)" using IH(1) inv by (simp add: state_seen_def bfs_inv_def dist_sound_def)
  have "dfa_step d ?s a \<in> set (nexts (states d ! ?s))" using sl wf snoc.prems by (simp add: set_nexts)
  then have "state_seen dist (dfa_step d ?s a) \<and> dist ! dfa_step d ?s a \<le> dist ! ?s + 1"
    using inv IH(1) snoc.prems by (simp add: bfs_inv_def succs_closed_def)
  with IH(2) show ?case by simp
qed

lemma calc_min_dist_from_bob_exact:
  assumes wf: "wf_rdfa d" and dead: "dead_ok d" and st: "start_anchored d \<noteq> DEAD_STATE"
  obtains last_d dist where "calc_min_dist_from_bob d = Some (last_d, dist)"
    and "length dist = length (states d)" and "\<And>s. state_seen dist s \<Longrightarrow> dist ! s \<le> last_d \<and> walk d (dist ! s) s \<and> s \<noteq> DEAD_STATE"
    and "\<And>n s. walk d n s \<Longrightarrow> s \<noteq> DEAD_STATE \<Longrightarrow> state_seen dist s \<and> dist ! s \<le> n"
proof -
  from min_dist_loop_returns [OF wf bfs_start [OF wf st]] obtain last_d dist
    where r: "calc_min_dist_from_bob d = Some (last_d, dist)" and inv: "bfs_inv d dist [] last_d"
    by (auto simp: calc_min_dist_from_bob_def)
  show ?thesis
  proof (rule that [OF r])
    show "length dist = length (states d)" using inv by (simp add: bfs_inv_def dist_sound_def)
    show "dist ! s \<le> last_d \<and> walk d (dist ! s) s \<and> s \<noteq> DEAD_STATE" if "state_seen dist s" for s
      using inv that by (simp add: bfs_inv_def dist_sound_def queue_ok_def)
    show "state_seen dist s \<and> dist ! s \<le> n" if "walk d n s" "s \<noteq> DEAD_STATE" for n s
      using that bfs_final [OF wf dead inv] by (auto simp: walk_def)
  qed
qed

section \<open>Clearing deep reports\<close>

definition clear_from :: "raw_dfa \<Rightarrow> nat list \<Rightarrow> nat \<Rightarrow> nat \<Rightarrow> raw_dfa" where
  "clear_from raw dist k m =
     raw\<lparr>states := map (\<lambda>i. if 1 \<le> i \<and> i < m \<and> k < dist ! i then (states raw ! i)\<lparr>reports := [], reports_eod := []\<rparr>
                           else states raw ! i) [0..<length (states raw)]\<rparr>"

lemma clear_from_simps [simp]:
  "length (states (clear_from raw dist k m)) = length (states raw)"
  "alpha_size (clear_from raw dist k m) = alpha_size raw"
  "start_anchored (clear_from raw dist k m) = start_anchored raw"
  "s < length (states raw) \<Longrightarrow> dfa_step (clear_from raw dist k m) s a = dfa_step raw s a"
  "s < length (states raw) \<Longrightarrow> dfa_obs (clear_from raw dist k m) s =
     (if 1 \<le> s \<and> s < m \<and> k < dist ! s then ([], []) else dfa_obs raw s)"
  by (simp_all add: clear_from_def dfa_step_def dfa_obs_def)

lemma has_reports_obs: "state_has_reports d s \<longleftrightarrow> dfa_obs d s \<noteq> ([], [])"
  by (auto simp: state_has_reports_def dfa_obs_def)

lemma clear_from_run:
  "wf_rdfa raw \<Longrightarrow> word_ok raw w \<Longrightarrow> s < length (states raw) \<Longrightarrow>
   dfa_run (clear_from raw dist k m) s w = dfa_run raw s w"
  by (induction w arbitrary: s) (simp_all add: wf_rdfaD)

lemma clear_from_Suc:
  assumes "1 \<le> m" "m < length (states raw)"
  shows "clear_reports dist k (ch, clear_from raw dist k m) m =
    (ch \<or> (k < dist ! m \<and> state_has_reports raw m), clear_from raw dist k (Suc m))"
proof -
  have hr: "state_has_reports (clear_from raw dist k m) m = state_has_reports raw m"
    using assms by (simp add: has_reports_obs)
  show ?thesis
  proof (cases "k < dist ! m \<and> state_has_reports raw m")
    case True
    then have "clear_from raw dist k (Suc m) = (clear_from raw dist k m)\<lparr>states := (states (clear_from raw dist k m))
        [m := (states (clear_from raw dist k m) ! m)\<lparr>reports := [], reports_eod := []\<rparr>]\<rparr>"
      using assms by (auto simp: clear_from_def nth_list_update less_Suc_eq intro!: raw_dfa.equality nth_equalityI)
    with True hr show ?thesis by (simp add: clear_reports_def)
  next
    case False
    then have "k < dist ! m \<Longrightarrow> (states raw ! m)\<lparr>reports := [], reports_eod := []\<rparr> = states raw ! m"
      by (simp add: state_has_reports_def)
    then have "clear_from raw dist k (Suc m) = clear_from raw dist k m"
      using assms by (auto simp: clear_from_def less_Suc_eq intro!: raw_dfa.equality)
    with False hr show ?thesis by (auto simp: clear_reports_def)
  qed
qed

lemma clear_reports_loop:
  "1 \<le> m \<Longrightarrow> m \<le> length (states raw) \<Longrightarrow> foldl (clear_reports dist k) (False, raw) [DEAD_STATE + 1..<m] =
     ((\<exists>s. 1 \<le> s \<and> s < m \<and> k < dist ! s \<and> state_has_reports raw s), clear_from raw dist k m)"
proof (induction m rule: nat_induct_at_least)
  case base
  have "clear_from raw dist k 1 = raw"
    by (auto simp: clear_from_def intro!: raw_dfa.equality nth_equalityI)
  then show ?case by (simp add: DEAD_STATE_def)
next
  case (Suc m)
  then show ?case by (simp add: clear_from_Suc DEAD_STATE_def) (auto simp: less_Suc_eq)
qed

lemma clear_from_id:
  assumes "\<nexists>s. 1 \<le> s \<and> s < m \<and> k < dist ! s \<and> state_has_reports raw s"
  shows "clear_from raw dist k m = raw"
proof -
  have "(states raw ! i)\<lparr>reports := [], reports_eod := []\<rparr> = states raw ! i" if "1 \<le> i" "i < m" "k < dist ! i" for i
    using assms that by (auto simp: state_has_reports_def)
  then show ?thesis
    by (auto simp: clear_from_def intro!: raw_dfa.equality nth_equalityI)
qed

lemma clear_from_changed:
  assumes "\<exists>s. 1 \<le> s \<and> s < length (states raw) \<and> k < dist ! s \<and> state_has_reports raw s"
  shows "clear_from raw dist k (length (states raw)) \<noteq> raw"
proof -
  obtain s where s: "1 \<le> s" "s < length (states raw)" "k < dist ! s" "state_has_reports raw s" using assms by blast
  have "states (clear_from raw dist k (length (states raw))) ! s = (states raw ! s)\<lparr>reports := [], reports_eod := []\<rparr>"
    using s by (simp add: clear_from_def)
  then have "\<not> state_has_reports (clear_from raw dist k (length (states raw))) s" by (simp add: state_has_reports_def)
  with s(4) show ?thesis by metis
qed

lemma all_reports_empty: "all_reports d = [] \<longleftrightarrow> list_all (\<lambda>ds. reports ds = [] \<and> reports_eod ds = []) (states d)"
  using all_reports_spec(2) [of d] by (auto simp: list_all_iff simp flip: set_empty)

text \<open>The distances decide which reports a word of bounded length can reach.\<close>

definition shallow_only :: "raw_dfa \<Rightarrow> nat \<Rightarrow> raw_dfa \<Rightarrow> bool" where
  "shallow_only raw k raw' \<longleftrightarrow>
     (\<forall>w. word_ok raw w \<and> length w \<le> k \<longrightarrow>
        dfa_obs raw' (dfa_run raw' (start_anchored raw') w) = dfa_obs raw (dfa_run raw (start_anchored raw) w)) \<and>
     (\<forall>w. word_ok raw w \<and> dfa_obs raw' (dfa_run raw' (start_anchored raw') w) \<noteq> ([], []) \<longrightarrow>
        (\<exists>v. word_ok raw v \<and> length v \<le> k \<and>
           dfa_run raw' (start_anchored raw') v = dfa_run raw' (start_anchored raw') w))"

lemma walk_near:
  assumes "walk d n s" and "n \<le> k"
  shows "\<exists>v. word_ok d v \<and> length v \<le> k \<and> dfa_run d (start_anchored d) v = s"
  using assms by (auto simp: walk_def)

lemma live_obs: "dead_ok d \<Longrightarrow> dfa_obs d s \<noteq> ([], []) \<Longrightarrow> s \<noteq> DEAD_STATE"
  by (auto simp: dead_ok_def)

lemma shallow_only_self:
  assumes dead: "dead_ok raw"
    and near: "\<And>n s. walk raw n s \<Longrightarrow> s \<noteq> DEAD_STATE \<Longrightarrow> \<exists>m \<le> k. walk raw m s"
  shows "shallow_only raw k raw"
  unfolding shallow_only_def
proof (intro conjI allI impI)
  fix w assume w: "word_ok raw w \<and> dfa_obs raw (dfa_run raw (start_anchored raw) w) \<noteq> ([], [])"
  then have "walk raw (length w) (dfa_run raw (start_anchored raw) w)" by (auto simp: walk_def)
  from near [OF this] live_obs [OF dead] w
  show "\<exists>v. word_ok raw v \<and> length v \<le> k \<and> dfa_run raw (start_anchored raw) v = dfa_run raw (start_anchored raw) w"
    using walk_near by blast
qed simp

lemma shallow_only_clear:
  assumes wf: "wf_rdfa raw" and dead: "dead_ok raw"
    and sound: "\<And>s. state_seen dist s \<Longrightarrow> walk raw (dist ! s) s"
    and exact: "\<And>n s. walk raw n s \<Longrightarrow> s \<noteq> DEAD_STATE \<Longrightarrow> state_seen dist s \<and> dist ! s \<le> n"
  shows "shallow_only raw k (clear_from raw dist k (length (states raw)))"
proof -
  let ?run = "dfa_run raw (start_anchored raw)" and ?C = "clear_from raw dist k (length (states raw))"
  have run: "dfa_run ?C (start_anchored raw) w = ?run w" if "word_ok raw w" for w
    using clear_from_run [OF wf that] wf by (simp add: wf_rdfa_def)
  have short: "state_seen dist (?run w) \<and> dist ! ?run w \<le> length w" if "word_ok raw w" "?run w \<noteq> DEAD_STATE" for w
    by (rule exact) (use that in \<open>auto simp: walk_def\<close>)
  have obs: "dfa_obs ?C (?run w) = (if ?run w \<noteq> DEAD_STATE \<and> k < dist ! ?run w then ([], []) else dfa_obs raw (?run w))"
    if "word_ok raw w" for w
    using dfa_run_bound [OF wf, of "start_anchored raw" w] wf that
    by (simp add: wf_rdfa_def word_ok_def DEAD_STATE_def)
  have "dfa_obs ?C (?run w) = dfa_obs raw (?run w)" if "word_ok raw w" "length w \<le> k" for w
    using obs [OF that(1)] short [OF that(1)] that(2) by auto
  moreover have "\<exists>v. word_ok raw v \<and> length v \<le> k \<and> ?run v = ?run w"
    if w: "word_ok raw w" "dfa_obs ?C (?run w) \<noteq> ([], [])" for w
  proof -
    have live: "?run w \<noteq> DEAD_STATE" and "dist ! ?run w \<le> k"
      using obs [OF w(1)] w(2) live_obs [OF dead, of "?run w"] by (auto split: if_splits)
    then show ?thesis using walk_near [OF sound] short [OF w(1) live] by blast
  qed
  ultimately show ?thesis unfolding shallow_only_def clear_from_simps by (metis run)
qed

lemma shallow_only_dead:
  assumes so: "shallow_only raw k C" and none: "all_reports C = []" and wf: "wf_rdfa raw" and dead: "dead_ok raw"
    and C: "C = clear_from raw dist k (length (states raw))"
  shows "shallow_only raw k (C\<lparr>start_anchored := DEAD_STATE, start_floating := DEAD_STATE\<rparr>)"
proof -
  let ?D = "C\<lparr>start_anchored := DEAD_STATE, start_floating := DEAD_STATE\<rparr>"
  have n: "0 < length (states raw)" using wf by (simp add: wf_rdfa_def)
  have empty: "dfa_obs C s = ([], [])" if "s < length (states raw)" for s
    using none that by (simp add: all_reports_empty list_all_length dfa_obs_def C)
  have D: "dfa_obs ?D s = dfa_obs C s" "dfa_step ?D s a = dfa_step C s a" "alpha_size ?D = alpha_size raw" for s a
    by (simp_all add: dfa_obs_def dfa_step_def C)
  have "dead_ok ?D" using dead n by (simp add: dead_ok_def D empty) (simp add: C DEAD_STATE_def)
  then have "dfa_run ?D DEAD_STATE w = DEAD_STATE" if "word_ok raw w" for w
    using dead_run that by (simp add: word_ok_def D)
  moreover have "dfa_obs raw (dfa_run raw (start_anchored raw) w) = ([], [])" if w: "word_ok raw w" "length w \<le> k" for w
  proof -
    have "dfa_run C (start_anchored C) w < length (states raw)"
      using dfa_run_bound [OF wf, of "start_anchored raw" w] clear_from_run [OF wf w(1)] wf w(1)
      by (simp add: C wf_rdfa_def word_ok_def)
    with so w empty show ?thesis unfolding shallow_only_def by metis
  qed
  moreover have "dfa_obs ?D DEAD_STATE = ([], [])" using \<open>dead_ok ?D\<close> by (simp add: dead_ok_def)
  ultimately show ?thesis by (auto simp: shallow_only_def)
qed

text \<open>
  C9. \<open>clear_deeper_reports\<close> on a DFA whose anchored start state is not dead. It returns, and from the
  start of stream (the anchored start state) the DFA raises the same reports for every word of at most
  \<open>max_offset\<close> symbols; afterwards a state that a word from there reaches and that raises a report is
  one that a word of at most \<open>max_offset\<close> symbols reaches. It returns true exactly when it changes the
  DFA, and then the DFA is marked dead exactly when no report is left. A DFA that it does not
  change keeps its start states, even when it has no report at all.
\<close>

theorem clear_deeper_reports_correct:
  assumes wf: "wf_rdfa raw" and dead: "dead_ok raw" and st: "start_anchored raw \<noteq> DEAD_STATE"
  shows "\<exists>changed raw'. clear_deeper_reports raw max_offset = Some (changed, raw') \<and>
    (changed \<longleftrightarrow> raw' \<noteq> raw) \<and>
    (\<forall>w. word_ok raw w \<and> length w \<le> max_offset \<longrightarrow>
       dfa_obs raw' (dfa_run raw' (start_anchored raw') w) = dfa_obs raw (dfa_run raw (start_anchored raw) w)) \<and>
    (\<forall>w. word_ok raw w \<and> dfa_obs raw' (dfa_run raw' (start_anchored raw') w) \<noteq> ([], []) \<longrightarrow>
       (\<exists>v. word_ok raw v \<and> length v \<le> max_offset \<and>
          dfa_run raw' (start_anchored raw') v = dfa_run raw' (start_anchored raw') w)) \<and>
    (changed \<longrightarrow> (is_dead raw' \<longleftrightarrow> all_reports raw' = []))"
proof -
  obtain last_d dist where r: "calc_min_dist_from_bob raw = Some (last_d, dist)"
    and upper: "\<And>s. state_seen dist s \<Longrightarrow> dist ! s \<le> last_d \<and> walk raw (dist ! s) s \<and> s \<noteq> DEAD_STATE"
    and exact: "\<And>n s. walk raw n s \<Longrightarrow> s \<noteq> DEAD_STATE \<Longrightarrow> state_seen dist s \<and> dist ! s \<le> n"
    by (rule calc_min_dist_from_bob_exact [OF wf dead st]) (rule that)
  let ?n = "length (states raw)" and ?fin = "\<lambda>ch raw'. clear_deeper_reports raw max_offset = Some (ch, raw') \<and>
    (ch \<longleftrightarrow> raw' \<noteq> raw) \<and> shallow_only raw max_offset raw' \<and> (ch \<longrightarrow> (is_dead raw' \<longleftrightarrow> all_reports raw' = []))"
  let ?C = "clear_from raw dist max_offset ?n"
  let ?ch = "\<exists>s. 1 \<le> s \<and> s < ?n \<and> max_offset < dist ! s \<and> state_has_reports raw s"
  have so: "shallow_only raw max_offset ?C" by (rule shallow_only_clear [OF wf dead _ exact]) (use upper in blast)+
  have loop: "foldl (clear_reports dist max_offset) (False, raw) [DEAD_STATE + 1..<?n] = (?ch, ?C)"
    by (rule clear_reports_loop) (use wf in \<open>simp_all add: wf_rdfa_def Suc_le_eq\<close>)
  consider "last_d \<le> max_offset" | "\<not> last_d \<le> max_offset" "\<not> ?ch"
    | "\<not> last_d \<le> max_offset" "?ch" "all_reports ?C = []" | "\<not> last_d \<le> max_offset" "?ch" "all_reports ?C \<noteq> []" by blast
  then have "\<exists>ch raw'. ?fin ch raw'"
  proof cases
    case 1
    then have "shallow_only raw max_offset raw"
      by (intro shallow_only_self [OF dead]) (metis upper exact order_trans)
    then have "?fin False raw" using 1 r by (simp add: clear_deeper_reports_def)
    then show ?thesis by blast
  next
    case 2
    then have "?fin False ?C" using r loop so clear_from_id [OF 2(2)] by (simp add: clear_deeper_reports_def)
    then show ?thesis by blast
  next
    case 3
    have "start_anchored (?C\<lparr>start_anchored := DEAD_STATE, start_floating := DEAD_STATE\<rparr>) \<noteq> start_anchored raw"
      using st by simp
    then have "?C\<lparr>start_anchored := DEAD_STATE, start_floating := DEAD_STATE\<rparr> \<noteq> raw" by metis
    then have "?fin True (?C\<lparr>start_anchored := DEAD_STATE, start_floating := DEAD_STATE\<rparr>)"
      using 3 r loop shallow_only_dead [OF so 3(3) wf dead refl] all_reports_empty [of ?C]
      by (simp add: clear_deeper_reports_def is_dead_def all_reports_def)
    then show ?thesis by blast
  next
    case 4
    have "?fin True ?C"
      using 4 r loop so clear_from_changed [OF 4(2)] st all_reports_empty [of ?C] by (simp add: clear_deeper_reports_def is_dead_def)
    then show ?thesis by blast
  qed
  then show ?thesis by (simp add: shallow_only_def)
qed

section \<open>Leading dots\<close>

text \<open>The states from \<open>INIT_STATE\<close> up to the result of the scan are dots: every character leads from one to the
  next, and none but the first raises a report.\<close>

definition dot_state :: "raw_dfa \<Rightarrow> nat \<Rightarrow> bool" where
  "dot_state raw i \<longleftrightarrow> i < length (states raw) \<and> (\<forall>s < getImplAlphaSize raw. dfa_step raw i s = i + 1) \<and>
     dfa_obs raw (i + 1) = ([], [])"

lemma dots_from_spec:
  "0 < getImplAlphaSize raw \<Longrightarrow> i \<le> dots_from raw i \<and> (\<forall>j. i \<le> j \<and> j < dots_from raw i \<longrightarrow> dot_state raw j)"
proof (induction raw i rule: dots_from.induct)
  case (1 raw i)
  show ?case
  proof (cases "i < length (states raw) \<and> i \<noteq> start_floating raw \<and>
      (\<forall>s < getImplAlphaSize raw. nexts (states raw ! i) ! s = i + 1) \<and> \<not> state_has_reports raw (nexts (states raw ! i) ! 0)")
    case True
    then have n0: "nexts (states raw ! i) ! 0 = i + 1" using 1(2) by blast
    with True have "dot_state raw i" by (simp add: dot_state_def dfa_step_def has_reports_obs)
    moreover have "dots_from raw i = dots_from raw (i + 1)" using True by (subst dots_from.simps) auto
    moreover have "i + 1 \<le> dots_from raw (i + 1) \<and> (\<forall>j. i + 1 \<le> j \<and> j < dots_from raw (i + 1) \<longrightarrow> dot_state raw j)"
      using 1 True n0 by simp
    ultimately show ?thesis by (metis Suc_eq_plus1 Suc_leD le_neq_implies_less less_eq_Suc_le)
  next
    case False
    then have "dots_from raw i = i" by (subst dots_from.simps) auto
    then show ?thesis by auto
  qed
qed

definition leading_dots :: "raw_dfa \<Rightarrow> nat \<Rightarrow> bool" where
  "leading_dots raw c \<longleftrightarrow> (\<forall>j. 1 \<le> j \<and> j \<le> c \<longrightarrow> dot_state raw j) \<and>
     (\<forall>j s. c < j \<and> j < length (states raw) \<and> s < getImplAlphaSize raw \<longrightarrow> dfa_step raw j s = DEAD_STATE \<or> c < dfa_step raw j s)"

lemma count_dots_spec: "0 < getImplAlphaSize raw \<Longrightarrow> leading_dots raw (count_dots raw)"
  using dots_from_spec [of raw INIT_STATE]
  by (auto simp: count_dots_def leading_dots_def Let_def list_ex_iff INIT_STATE_def DEAD_STATE_def dfa_step_def not_le
      Bex_def)

lemma leading_dots_bound:
  assumes "wf_rdfa raw" and "leading_dots raw c" and "0 < getImplAlphaSize raw" and "1 < length (states raw)"
  shows "c + 1 < length (states raw)"
proof (cases c)
  case (Suc b)
  then have "dot_state raw c" using assms(2) by (simp add: leading_dots_def)
  with wf_rdfaD(2) [OF assms(1), of c 0] assms(3) show ?thesis by (simp add: dot_state_def getImplAlphaSize_def)
qed (use assms in simp)

lemma dots_run:
  "leading_dots raw c \<Longrightarrow> (\<forall>a \<in> set w. a < getImplAlphaSize raw) \<Longrightarrow> 1 \<le> i \<Longrightarrow> i + length w \<le> c + 1 \<Longrightarrow>
   dfa_run raw i w = i + length w"
  by (induction w arbitrary: i) (auto simp: leading_dots_def dot_state_def)

subsection \<open>Pruning\<close>

lemma u16_minus_exact: "c \<le> x \<Longrightarrow> x < 65536 \<Longrightarrow> u16_minus x c = x - c"
  by (simp add: u16_minus_def nat_eq_iff of_nat_diff)

lemma foldl_shift_nexts:
  "m \<le> length nx \<Longrightarrow> foldl (\<lambda>nx j. if nx ! j \<noteq> DEAD_STATE then nx[j := f (nx ! j)] else nx) nx [0..<m] =
     map (\<lambda>x. if x \<noteq> DEAD_STATE then f x else x) (take m nx) @ drop m nx"
proof (induction m)
  case (Suc m)
  then have "foldl (\<lambda>nx j. if nx ! j \<noteq> DEAD_STATE then nx[j := f (nx ! j)] else nx) nx [0..<m] =
     map (\<lambda>x. if x \<noteq> DEAD_STATE then f x else x) (take m nx) @ (nx ! m) # drop (Suc m) nx"
    by (simp add: Cons_nth_drop_Suc)
  with Suc.prems show ?case by (simp add: nth_append list_update_append take_Suc_conv_app_nth)
qed simp

lemma prune_state_simps:
  assumes "length (nexts ds) = alpha"
  shows "nexts (prune_state alpha c ds) = map (\<lambda>x. if x \<noteq> DEAD_STATE then u16_minus x c else x) (nexts ds)"
    and "reports (prune_state alpha c ds) = reports ds" and "reports_eod (prune_state alpha c ds) = reports_eod ds"
    and "daddy (prune_state alpha c ds) = (if daddy ds > c then u16_minus (daddy ds) c else DEAD_STATE)"
  using foldl_shift_nexts [where f = "\<lambda>x. u16_minus x c" and nx = "nexts ds" and m = alpha] assms
  by (simp_all add: prune_state_def)

lemma prune_loop:
  assumes c: "0 < c"
  shows "c + 1 \<le> m \<Longrightarrow> m \<le> length ss \<Longrightarrow>
    foldl (\<lambda>ss i. ss[i - c := f (ss ! i)]) ss [1 + c..<m] =
      map (\<lambda>k. if 1 \<le> k \<and> k + c < m then f (ss ! (k + c)) else ss ! k) [0..<length ss]"
proof (induction m rule: nat_induct_at_least)
  case base
  show ?case by (auto intro!: nth_equalityI)
next
  case (Suc m)
  then show ?case using c by (auto intro!: nth_equalityI simp: nth_list_update)
qed

lemma prune_leading_states_nth:
  assumes "c + 1 < length (states raw)" and "i < length (states raw) - c"
  shows "length (states (prune_leading_states raw c)) = length (states raw) - c"
    and "states (prune_leading_states raw c) ! i =
      (if 1 \<le> i \<and> 0 < c then prune_state (alpha_size raw) c (states raw ! (i + c)) else states raw ! i)"
  using assms prune_loop [where f = "prune_state (alpha_size raw) c" and ss = "states raw" and m = "length (states raw)" and c = c] by (auto simp: prune_leading_states_def INIT_STATE_def Let_def less_diff_conv)

definition shifted :: "nat \<Rightarrow> nat \<Rightarrow> nat" where
  "shifted c t = (if t = DEAD_STATE then DEAD_STATE else t + c)"

lemma prune_sim:
  assumes wf: "wf_rdfa raw" and dead: "dead_ok raw" and ld: "leading_dots raw c" and c: "c + 1 < length (states raw)"
    and t: "t < length (states raw) - c" and raw': "raw' = prune_leading_states raw c"
  shows "dfa_obs raw' t = dfa_obs raw (shifted c t)"
    and "a < getImplAlphaSize raw \<Longrightarrow> dfa_step raw' t a < length (states raw) - c \<and>
      shifted c (dfa_step raw' t a) = dfa_step raw (shifted c t) a"
proof -
  have st: "states raw' ! t = (if 1 \<le> t \<and> 0 < c then prune_state (alpha_size raw) c (states raw ! (t + c)) else states raw ! t)"
    unfolding raw' by (rule prune_leading_states_nth [OF c t])
  have tc: "t + c < length (states raw)" using t by simp
  have len: "length (nexts (states raw ! (t + c))) = alpha_size raw" using wf tc by (simp add: wf_rdfaD)
  note ps = prune_state_simps [OF len, of c]
  show "dfa_obs raw' t = dfa_obs raw (shifted c t)"
    using ps by (auto simp: dfa_obs_def st shifted_def DEAD_STATE_def)
  assume a: "a < getImplAlphaSize raw"
  then have al: "a < alpha_size raw" by (simp add: getImplAlphaSize_def)
  show "dfa_step raw' t a < length (states raw) - c \<and> shifted c (dfa_step raw' t a) = dfa_step raw (shifted c t) a"
  proof (cases "t = DEAD_STATE")
    case True
    then have "dfa_step raw' t a = DEAD_STATE"
      using dead al st by (simp add: dfa_step_def dead_ok_def DEAD_STATE_def)
    then show ?thesis using True dead al c by (simp add: dead_ok_def shifted_def) (simp add: DEAD_STATE_def)
  next
    case False
    let ?x = "dfa_step raw (t + c) a"
    have x: "?x < length (states raw)" "?x = DEAD_STATE \<or> c < ?x" "length (states raw) \<le> 65536"
      using wf_rdfaD(2) [OF wf tc al] ld tc a False wf by (auto simp: leading_dots_def DEAD_STATE_def wf_rdfa_def)
    have "dfa_step raw' t a = (if ?x \<noteq> DEAD_STATE then ?x - c else DEAD_STATE)"
    proof (cases "0 < c")
      case True
      then show ?thesis using False ps(1) len al x
        by (auto simp: dfa_step_def st DEAD_STATE_def u16_minus_exact)
    next
      case False
      then show ?thesis by (simp add: dfa_step_def st)
    qed
    then show ?thesis using x c False by (auto simp: shifted_def DEAD_STATE_def)
  qed
qed

lemma prune_run:
  assumes "wf_rdfa raw" "dead_ok raw" "leading_dots raw c" "c + 1 < length (states raw)" "raw' = prune_leading_states raw c"
  shows "t < length (states raw) - c \<Longrightarrow> (\<forall>a \<in> set w. a < getImplAlphaSize raw) \<Longrightarrow>
    dfa_obs raw' (dfa_run raw' t w) = dfa_obs raw (dfa_run raw (shifted c t) w)"
proof (induction w arbitrary: t)
  case Nil
  then show ?case using prune_sim(1) [OF assms(1-4) _ assms(5)] by simp
next
  case (Cons a w)
  then show ?case using prune_sim(2) [OF assms(1-4) Cons.prems(1) assms(5), of a] by auto
qed

lemma prune_wf:
  assumes wf: "wf_rdfa raw" and c: "c + 1 < length (states raw)"
    and st: "start_anchored raw = INIT_STATE" "start_floating raw = DEAD_STATE" and dead: "dead_ok raw"
    and tr: "\<And>s a. c < s \<Longrightarrow> s < length (states raw) \<Longrightarrow> a < alpha_size raw \<Longrightarrow> dfa_step raw s a = DEAD_STATE \<or> c < dfa_step raw s a"
    and d0: "daddy (states raw ! DEAD_STATE) = DEAD_STATE"
  shows "wf_rdfa (prune_leading_states raw c)"
proof (cases "c = 0")
  case False
  let ?r = "prune_leading_states raw c" and ?n = "length (states raw)"
  have le: "?n \<le> 65536" and n0: "0 < ?n" using wf by (simp_all add: wf_rdfa_def)
  have "wf_dstate (?n - c) (alpha_size raw) (states ?r ! t)" if t: "t < ?n - c" for t
  proof (cases "t = 0")
    case True
    have "wf_dstate ?n (alpha_size raw) (states raw ! 0)" using wf c by (simp add: wf_rdfa_def)
    moreover have "x < ?n - c" if "x \<in> set (nexts (states raw ! 0))" for x
      using that dead c set_nexts [OF wf n0] by (auto simp: dead_ok_def DEAD_STATE_def)
    ultimately show ?thesis
      using prune_leading_states_nth(2) [OF c t] True d0 c by (auto simp: wf_dstate_def DEAD_STATE_def)
  next
    case False
    let ?ds = "states raw ! (t + c)"
    have tc: "t + c < ?n" using t by simp
    have ds: "wf_dstate ?n (alpha_size raw) ?ds" using wf tc by (simp add: wf_rdfa_def)
    then have len: "length (nexts ?ds) = alpha_size raw" by (simp add: wf_dstate_def)
    have "x < ?n \<and> (x = DEAD_STATE \<or> c < x)" if "x \<in> set (nexts ?ds)" for x
      using that tr [of "t + c"] tc False set_nexts [OF wf tc] ds by (auto simp: wf_dstate_def)
    then have "\<forall>x \<in> set (nexts (prune_state (alpha_size raw) c ?ds)). x < ?n - c"
      using c le by (fastforce simp: prune_state_simps [OF len] u16_minus_exact DEAD_STATE_def)
    then show ?thesis
      using prune_leading_states_nth(2) [OF c t] False \<open>c \<noteq> 0\<close> ds c le
      by (simp add: wf_dstate_def prune_state_simps [OF len] u16_minus_exact DEAD_STATE_def diff_less_mono)
  qed
  moreover have n: "length (states ?r) = ?n - c" using prune_leading_states_nth(1) [OF c, of 0] c by simp
  ultimately have "\<forall>ds \<in> set (states ?r). wf_dstate (?n - c) (alpha_size raw) ds" by (auto simp: in_set_conv_nth)
  then show ?thesis
    using wf c st n by (auto simp: wf_rdfa_def prune_leading_states_def INIT_STATE_def DEAD_STATE_def Let_def)
qed (use wf in \<open>simp add: prune_leading_states_def\<close>)

text \<open>The pruned DFA is well formed, provided that the transitions on a top do not lead into the dots
  either (an assertion of the code that only characters were checked for), and that there is no floating
  start, whose number pruning does not adjust.\<close>

lemma remove_leading_dots_wf:
  assumes wf: "wf_rdfa raw" and dead: "dead_ok raw" and st: "start_anchored raw = INIT_STATE" "start_floating raw = DEAD_STATE"
    and alpha: "0 < getImplAlphaSize raw" and d0: "daddy (states raw ! DEAD_STATE) = DEAD_STATE"
    and top: "\<And>s. count_dots raw < s \<Longrightarrow> s < length (states raw) \<Longrightarrow>
      dfa_step raw s (getImplAlphaSize raw) = DEAD_STATE \<or> count_dots raw < dfa_step raw s (getImplAlphaSize raw)"
  shows "wf_rdfa (snd (remove_leading_dots raw))"
proof -
  have ld: "leading_dots raw (count_dots raw)" by (rule count_dots_spec [OF alpha])
  have "1 < length (states raw)" using wf st by (simp add: wf_rdfa_def INIT_STATE_def)
  from leading_dots_bound [OF wf ld alpha this] have c: "count_dots raw + 1 < length (states raw)" .
  have "a < getImplAlphaSize raw \<or> a = getImplAlphaSize raw" if "a < alpha_size raw" for a
    using that by (auto simp: getImplAlphaSize_def N_SPECIAL_SYMBOL_def)
  then have "dfa_step raw s a = DEAD_STATE \<or> count_dots raw < dfa_step raw s a"
    if "count_dots raw < s" "s < length (states raw)" "a < alpha_size raw" for s a
    using top ld that unfolding leading_dots_def by blast
  then show ?thesis
    unfolding remove_leading_dots_def Let_def snd_conv by (intro prune_wf [OF wf c st dead _ d0])
qed

text \<open>
  C8. \<open>remove_leading_dots\<close> drops as many states as it reports. A word of characters no longer than that raises
  nothing in the original DFA, except that the empty word keeps the reports of the start state; and after
  any so many characters the original DFA behaves from then on as the pruned one does from its start.
\<close>

theorem remove_leading_dots_correct:
  assumes wf: "wf_rdfa raw" and dead: "dead_ok raw" and st: "start_anchored raw = INIT_STATE"
    and alpha: "0 < getImplAlphaSize raw" and r: "remove_leading_dots raw = (count, raw')"
  shows "start_anchored raw' = INIT_STATE \<and> length (states raw') + count = length (states raw) \<and>
    (\<forall>u. (\<forall>a \<in> set u. a < getImplAlphaSize raw) \<and> u \<noteq> [] \<and> length u \<le> count \<longrightarrow>
       dfa_obs raw (dfa_run raw INIT_STATE u) = ([], [])) \<and>
    (\<forall>u w. (\<forall>a \<in> set (u @ w). a < getImplAlphaSize raw) \<and> length u = count \<longrightarrow>
       dfa_obs raw' (dfa_run raw' INIT_STATE w) = dfa_obs raw (dfa_run raw INIT_STATE (u @ w)))"
proof -
  have raw': "raw' = prune_leading_states raw count" and cnt: "count = count_dots raw"
    using r by (auto simp: remove_leading_dots_def Let_def)
  have ld: "leading_dots raw count" unfolding cnt by (rule count_dots_spec [OF alpha])
  have "1 < length (states raw)" using wf st by (simp add: wf_rdfa_def INIT_STATE_def)
  from leading_dots_bound [OF wf ld alpha this] have c: "count + 1 < length (states raw)" .
  have n: "length (states raw') = length (states raw) - count"
    unfolding raw' by (rule prune_leading_states_nth(1) [OF c, of 0]) (use c in simp)
  have "start_anchored raw' = INIT_STATE" using st by (simp add: raw' prune_leading_states_def Let_def)
  moreover have "dfa_obs raw (dfa_run raw INIT_STATE u) = ([], [])"
    if "\<forall>a \<in> set u. a < getImplAlphaSize raw" "u \<noteq> []" "length u \<le> count" for u
  proof -
    have "dot_state raw (length u)" using ld that by (simp add: leading_dots_def Suc_le_eq)
    then show ?thesis using dots_run [OF ld that(1), of 1] that(3) by (simp add: dot_state_def INIT_STATE_def)
  qed
  moreover have "dfa_obs raw' (dfa_run raw' INIT_STATE w) = dfa_obs raw (dfa_run raw INIT_STATE (u @ w))"
    if "\<forall>a \<in> set (u @ w). a < getImplAlphaSize raw" "length u = count" for u w
    using prune_run [OF wf dead ld c raw', of INIT_STATE w] dots_run [OF ld, of u 1] c that
    by (simp add: shifted_def INIT_STATE_def DEAD_STATE_def)
  ultimately show ?thesis using n c by simp
qed

section \<open>Examples\<close>

text \<open>A DFA for two arbitrary characters followed by the character class 0, then any number of characters of class
  1, reporting after each; the alphabet has two classes of characters and the top.\<close>

definition example_dotted :: raw_dfa where
  "example_dotted =
     \<lparr>kind = NFA_OUTFIX,
      states = [new_dstate 3,
                (new_dstate 3)\<lparr>nexts := [2, 2, 0]\<rparr>, (new_dstate 3)\<lparr>nexts := [3, 3, 0]\<rparr>,
                (new_dstate 3)\<lparr>nexts := [4, 0, 0]\<rparr>,
                (new_dstate 3)\<lparr>nexts := [0, 5, 0], reports := [7]\<rparr>,
                (new_dstate 3)\<lparr>nexts := [0, 5, 0], reports := [8]\<rparr>],
      start_anchored = 1, start_floating = 0, alpha_size = 3, alpha_remap = replicate 256 1 @ [2]\<rparr>"

lemma example_dotted_ok: "wf_rdfa example_dotted" "dead_ok example_dotted" "0 < getImplAlphaSize example_dotted"
  "start_anchored example_dotted = INIT_STATE" "start_anchored example_dotted \<noteq> DEAD_STATE"
  by (simp_all add: example_dotted_def wf_rdfa_def wf_dstate_def dead_ok_def dfa_obs_def dfa_step_def new_dstate_def
      ALPHABET_SIZE_def DEAD_STATE_def INIT_STATE_def getImplAlphaSize_def N_SPECIAL_SYMBOL_def flat_set_ok_def
      less_Suc_eq numeral_3_eq_3)

lemma example_dotted_count: "fst (remove_leading_dots example_dotted) = 2"
  by code_simp

theorem remove_leading_dots_correct_witness:
  "fst (remove_leading_dots example_dotted) = 2 \<and>
   dfa_obs (snd (remove_leading_dots example_dotted)) (dfa_run (snd (remove_leading_dots example_dotted)) INIT_STATE [0]) = ([7], [])"
proof -
  have r: "remove_leading_dots example_dotted = (2, snd (remove_leading_dots example_dotted))"
    using example_dotted_count by (metis prod.collapse)
  have "dfa_obs example_dotted (dfa_run example_dotted INIT_STATE ([1, 0] @ [0])) = ([7], [])" by code_simp
  moreover have "getImplAlphaSize example_dotted = 2" by code_simp
  moreover note remove_leading_dots_correct [OF example_dotted_ok(1,2,4,3) r,
    THEN conjunct2, THEN conjunct2, THEN conjunct2, THEN spec, THEN spec, of "[1, 0]" "[0]"]
  ultimately show ?thesis using example_dotted_count by simp
qed

theorem clear_deeper_reports_correct_witness:
  "\<exists>raw'. clear_deeper_reports example_dotted 3 = Some (True, raw') \<and> \<not> is_dead raw' \<and>
     dfa_obs raw' (dfa_run raw' (start_anchored raw') [1, 0, 0]) = ([7], [])"
proof -
  have w: "word_ok example_dotted [1, 0, 0]" by code_simp
  have "map_option fst (clear_deeper_reports example_dotted 3) = Some True" by code_simp
  moreover have "map_option (\<lambda>r. all_reports (snd r) = []) (clear_deeper_reports example_dotted 3) = Some False" by code_simp
  moreover have "dfa_obs example_dotted (dfa_run example_dotted (start_anchored example_dotted) [1, 0, 0]) = ([7], [])"
    by code_simp
  ultimately show ?thesis
    using clear_deeper_reports_correct [OF example_dotted_ok(1,2,5), of 3] w by (auto dest!: spec [of _ "[1, 0, 0]"])
qed

theorem can_die_early_iff_witness:
  "can_die_early example_dotted 3 \<and> \<not> can_die_early example_dotted 0"
proof -
  have "word_ok example_dotted [0, 0, 1]" "dfa_run example_dotted (start_anchored example_dotted) [0, 0, 1] = DEAD_STATE"
    by code_simp+
  then have "can_die_early example_dotted 3"
    unfolding can_die_early_iff [OF example_dotted_ok(1), of 3] by (intro exI [of _ "[0, 0, 1]"]) simp
  moreover have "\<not> can_die_early example_dotted 0"
    using can_die_early_iff [OF example_dotted_ok(1), of 0] example_dotted_ok(5) by simp
  ultimately show ?thesis by simp
qed

end
