(* ===== verification/LogicalCombination.thy ===== *)
theory LogicalCombination
  imports FlatContainers
begin

text \<open>
  Logical combinations of patterns: the shunting-yard parser and key assignment of
  \<^verbatim>\<open>parser/logical_combination.cpp\<close> and the evaluation of the compiled operations
  against the match vector, \<^verbatim>\<open>report.h\<close>. A \<^verbatim>\<open>std::map\<close> is a sorted
  association list with the operations of \<^verbatim>\<open>FlatContainers\<close>, a thrown error is a
  left value; the parser's state is dropped when it throws, as the compilation is. The specification
  is a grammar of infix expressions after the documentation (\<^verbatim>\<open>compilation.rst\<close>, ``Using
  Logical Combinations''), with the limits that the parser has: whatever the grammar derives is accepted
  and evaluates to its Boolean value. The documentation is wider in three points, in which the parser
  refuses what it describes: a doubled negation, whitespace other than the space character, and
  expression ids of more than nine digits.
\<close>

section \<open>Data\<close>

datatype LogicalOpType = LOGICAL_OP_NOT | LOGICAL_OP_AND | LOGICAL_OP_OR

text \<open>The enumeration is ordered by its values: a smaller value binds more tightly.\<close>

fun op_value :: "LogicalOpType \<Rightarrow> nat" where
  "op_value LOGICAL_OP_NOT = 0"
| "op_value LOGICAL_OP_AND = 1"
| "op_value LOGICAL_OP_OR = 2"

instantiation LogicalOpType :: linorder
begin

definition less_eq_LogicalOpType :: "LogicalOpType \<Rightarrow> LogicalOpType \<Rightarrow> bool" where
  "less_eq_LogicalOpType a b = (op_value a \<le> op_value b)"

definition less_LogicalOpType :: "LogicalOpType \<Rightarrow> LogicalOpType \<Rightarrow> bool" where
  "less_LogicalOpType a b = (op_value a < op_value b)"

instance
proof
  fix a b :: LogicalOpType
  show "a \<le> b \<Longrightarrow> b \<le> a \<Longrightarrow> a = b"
    by (cases a; cases b) (simp_all add: less_eq_LogicalOpType_def)
qed (auto simp: less_eq_LogicalOpType_def less_LogicalOpType_def)

end

definition LOGICAL_OP_BIT :: u32 where "LOGICAL_OP_BIT = 0x80000000"
definition INVALID_LKEY :: u32 where "INVALID_LKEY = NOT 0"

record LogicalOp =
  op_id :: u32
  op_type :: LogicalOpType
  op_lo :: u32
  op_ro :: u32

record CombInfo =
  ci_id :: u32
  ci_ekey :: u32
  ci_start :: u32
  ci_result :: u32
  ci_min_offset :: u64a
  ci_max_offset :: u64a

record ParsedLogical =
  combInfoMap :: "CombInfo list"
  toCombKeyMap :: "(u32 \<times> u32) list"
  toLogicalKeyMap :: "(u32 \<times> u32) list"
  lkey2ckeys :: "(u32 \<times> u32 list) list"
  logicalTree :: "LogicalOp list"

definition new_ParsedLogical :: ParsedLogical where
  "new_ParsedLogical =
     \<lparr>combInfoMap = [], toCombKeyMap = [], toLogicalKeyMap = [], lkey2ckeys = [], logicalTree = []\<rparr>"

section \<open>Keys and operations\<close>

text \<open>Keys are numbered densely in the order in which their owners are first seen.\<close>

definition dense_key :: "('k::linorder \<times> u32) list \<Rightarrow> 'k \<Rightarrow> u32 \<times> ('k \<times> u32) list" where
  "dense_key m a =
     (let it = flat_map_find m a
      in if it = length m
         then let (m', it', inserted) = flat_map_insert m (a, of_nat (length m)) in (snd (m' ! it'), m')
         else (snd (m ! it), m))"

definition getLogicalKey :: "ParsedLogical \<Rightarrow> u32 \<Rightarrow> u32 \<times> ParsedLogical" where
  "getLogicalKey pl a = (let (k, m) = dense_key (toLogicalKeyMap pl) a in (k, pl\<lparr>toLogicalKeyMap := m\<rparr>))"

definition getCombKey :: "ParsedLogical \<Rightarrow> u32 \<Rightarrow> u32 \<times> ParsedLogical" where
  "getCombKey pl a = (let (k, m) = dense_key (toCombKeyMap pl) a in (k, pl\<lparr>toCombKeyMap := m\<rparr>))"

definition addRelateCKey :: "ParsedLogical \<Rightarrow> u32 \<Rightarrow> u32 \<Rightarrow> ParsedLogical" where
  "addRelateCKey pl lkey ckey =
     (let m = lkey2ckeys pl; it = flat_map_find m lkey;
          (m', it') = (if it = length m then let (m1, it1, inserted) = flat_map_insert m (lkey, []) in (m1, it1)
                       else (m, it))
      in pl\<lparr>lkey2ckeys := m'[it' := (fst (m' ! it'), fst (flat_set_insert (snd (m' ! it')) ckey))]\<rparr>)"

text \<open>\<open>TRY_RENUM_OP n ckey\<close>, where \<open>n\<close> is \<^verbatim>\<open>toLogicalKeyMap.size()\<close>.\<close>

definition TRY_RENUM_OP :: "nat \<Rightarrow> u32 \<Rightarrow> u32" where
  "TRY_RENUM_OP n ckey =
     (if ckey AND LOGICAL_OP_BIT \<noteq> 0 then (ckey AND NOT LOGICAL_OP_BIT) + of_nat n else ckey)"

definition logicalTreeAdd :: "ParsedLogical \<Rightarrow> LogicalOpType \<Rightarrow> u32 \<Rightarrow> u32 \<Rightarrow> u32 \<times> ParsedLogical" where
  "logicalTreeAdd pl opt left right =
     (let lid = LOGICAL_OP_BIT OR of_nat (length (logicalTree pl))
      in (lid, pl\<lparr>logicalTree := logicalTree pl @ [\<lparr>op_id = lid, op_type = opt, op_lo = left, op_ro = right\<rparr>]\<rparr>))"

text \<open>
  The code asserts that \<open>ckey\<close> is the position of the new entry. The parameter has no other use, and
  builds without assertions ignore it; it holds when the ids of the combinations are distinct.
\<close>

definition combinationInfoAdd ::
  "ParsedLogical \<Rightarrow> u32 \<Rightarrow> u32 \<Rightarrow> u32 \<Rightarrow> u32 \<Rightarrow> u32 \<Rightarrow> u64a \<Rightarrow> u64a \<Rightarrow> ParsedLogical" where
  "combinationInfoAdd pl ckey cid ekey lkey_start lkey_result min_offset max_offset =
     pl\<lparr>combInfoMap := combInfoMap pl @
        [\<lparr>ci_id = cid, ci_ekey = ekey, ci_start = lkey_start, ci_result = lkey_result,
          ci_min_offset = min_offset, ci_max_offset = max_offset\<rparr>]\<rparr>"

definition renumber_op :: "nat \<Rightarrow> LogicalOp \<Rightarrow> LogicalOp" where
  "renumber_op n lop =
     lop\<lparr>op_id := TRY_RENUM_OP n (op_id lop), op_lo := TRY_RENUM_OP n (op_lo lop),
         op_ro := TRY_RENUM_OP n (op_ro lop)\<rparr>"

definition logicalKeyRenumber :: "ParsedLogical \<Rightarrow> ParsedLogical" where
  "logicalKeyRenumber pl =
     (let n = length (toLogicalKeyMap pl)
      in pl\<lparr>logicalTree := map (renumber_op n) (logicalTree pl),
            combInfoMap := map (\<lambda>ci. ci\<lparr>ci_start := TRY_RENUM_OP n (ci_start ci),
                                         ci_result := TRY_RENUM_OP n (ci_result ci)\<rparr>) (combInfoMap pl)\<rparr>)"

section \<open>The parser\<close>

text \<open>
  The operator and operand stacks have their top first. An index is a \<open>nat\<close>, and the marker
  \<^verbatim>\<open>(u32)-1\<close> for no digit run in progress is \<open>None\<close>: expressions are shorter than
  \<open>2 ^ 32 - 1\<close> characters.
\<close>

datatype parse_msg = Not_enough_operand | Not_enough_left_parentheses | Not_enough_right_parentheses
  | Not_enough_operator | Unknown_character | Expression_id_too_large

datatype parse_error = LocatedParseError parse_msg nat | No_logical_operation

record LogicalOperator =
  lo_op :: LogicalOpType
  lo_paren :: nat

record ParseState =
  ps_pl :: ParsedLogical
  op_stack :: "LogicalOperator list"
  subid_stack :: "u32 list"
  lkey_start :: u32
  digit :: "nat option"
  paren :: nat

definition isdigit :: "char \<Rightarrow> bool" where
  "isdigit c \<longleftrightarrow> 48 \<le> (of_char c :: nat) \<and> (of_char c :: nat) \<le> 57"

definition toOperator :: "char \<Rightarrow> LogicalOpType option" where
  "toOperator c = (if c = CHR ''!'' then Some LOGICAL_OP_NOT
     else if c = CHR ''&'' then Some LOGICAL_OP_AND
     else if c = CHR ''|'' then Some LOGICAL_OP_OR else None)"

definition cmpOperator :: "LogicalOperator \<Rightarrow> LogicalOperator \<Rightarrow> bool" where
  "cmpOperator op1 op2 =
     (if lo_paren op1 < lo_paren op2 then False
      else if lo_paren op1 > lo_paren op2 then True
      else if lo_op op1 > lo_op op2 then False
      else True)"

definition fetchSubID :: "string \<Rightarrow> nat option \<Rightarrow> nat \<Rightarrow> parse_msg + u32 option" where
  "fetchSubID logical dig stop = (case dig of
     None \<Rightarrow> Inr None
   | Some d \<Rightarrow>
       if stop - d > 9 then Inl Expression_id_too_large
       else Inr (Some (fst (foldl (\<lambda>(acc, mult) j. (acc + (of_char (logical ! j) - 48) * mult, mult * 10))
                   (0 :: u32, 1 :: u32) (rev [d..<stop])))))"

definition popOperator :: "LogicalOperator \<Rightarrow> ParseState \<Rightarrow> parse_msg + ParseState" where
  "popOperator oper st = (case subid_stack st of
     [] \<Rightarrow> Inl Not_enough_operand
   | right # rest \<Rightarrow>
       (case (if lo_op oper \<noteq> LOGICAL_OP_NOT
              then (case rest of [] \<Rightarrow> None | left # rest' \<Rightarrow> Some (left, rest'))
              else Some (0, rest)) of
          None \<Rightarrow> Inl Not_enough_operand
        | Some (left, rest') \<Rightarrow>
            let (lid, pl') = logicalTreeAdd (ps_pl st) (lo_op oper) left right
            in Inr (st\<lparr>subid_stack := lid # rest', ps_pl := pl', op_stack := tl (op_stack st)\<rparr>)))"

text \<open>The loops that pop operators while the one on top satisfies a condition.\<close>

fun pop_while :: "(LogicalOperator \<Rightarrow> bool) \<Rightarrow> LogicalOperator list \<Rightarrow> ParseState \<Rightarrow> parse_msg + ParseState" where
  "pop_while cond [] st = Inr st"
| "pop_while cond (oper # ops) st =
     (if cond oper
      then case popOperator oper st of
             Inl e \<Rightarrow> Inl e
           | Inr st' \<Rightarrow>
               pop_while cond ops
                 (if lkey_start st' = INVALID_LKEY then st'\<lparr>lkey_start := hd (subid_stack st')\<rparr> else st')
      else Inr st)"

definition push_subid :: "string \<Rightarrow> u32 \<Rightarrow> nat \<Rightarrow> ParseState \<Rightarrow> parse_msg + ParseState" where
  "push_subid logical ckey i st = (case fetchSubID logical (digit st) i of
     Inl e \<Rightarrow> Inl e
   | Inr None \<Rightarrow> Inr (st\<lparr>digit := None\<rparr>)
   | Inr (Some subid) \<Rightarrow>
       let (lkey, pl') = getLogicalKey (ps_pl st) subid
       in Inr (st\<lparr>digit := None, subid_stack := lkey # subid_stack st, ps_pl := addRelateCKey pl' lkey ckey\<rparr>))"

definition parse_symbol :: "char \<Rightarrow> ParseState \<Rightarrow> parse_msg + ParseState" where
  "parse_symbol c st =
     (if c = CHR '' '' then Inr st
      else if c = CHR ''('' then Inr (st\<lparr>paren := paren st + 1\<rparr>)
      else if c = CHR '')'' then
        (if paren st = 0 then Inl Not_enough_left_parentheses else Inr (st\<lparr>paren := paren st - 1\<rparr>))
      else case toOperator c of
             None \<Rightarrow> Inl Unknown_character
           | Some prio \<Rightarrow>
               let oper = \<lparr>lo_op = prio, lo_paren = paren st\<rparr>
               in case pop_while (\<lambda>top_op. cmpOperator top_op oper) (op_stack st) st of
                    Inl e \<Rightarrow> Inl e
                  | Inr st' \<Rightarrow> Inr (st'\<lparr>op_stack := oper # op_stack st'\<rparr>))"

definition parse_char :: "string \<Rightarrow> u32 \<Rightarrow> nat \<Rightarrow> ParseState \<Rightarrow> parse_msg + ParseState" where
  "parse_char logical ckey i st =
     (if isdigit (logical ! i) then Inr (if digit st = None then st\<lparr>digit := Some i\<rparr> else st)
      else case push_subid logical ckey i st of
             Inl e \<Rightarrow> Inl e
           | Inr st' \<Rightarrow> parse_symbol (logical ! i) st')"

fun parse_loop :: "string \<Rightarrow> u32 \<Rightarrow> nat list \<Rightarrow> ParseState \<Rightarrow> parse_error + ParseState" where
  "parse_loop logical ckey [] st = Inr st"
| "parse_loop logical ckey (i # is) st = (case parse_char logical ckey i st of
     Inl e \<Rightarrow> Inl (LocatedParseError e i)
   | Inr st' \<Rightarrow> parse_loop logical ckey is st')"

definition parse_finish :: "string \<Rightarrow> u32 \<Rightarrow> ParseState \<Rightarrow> parse_msg + ParseState" where
  "parse_finish logical ckey st =
     (if paren st \<noteq> 0 then Inl Not_enough_right_parentheses
      else case push_subid logical ckey (length logical) st of
             Inl e \<Rightarrow> Inl e
           | Inr st1 \<Rightarrow>
               (case pop_while (\<lambda>_. True) (op_stack st1) st1 of
                  Inl e \<Rightarrow> Inl e
                | Inr st2 \<Rightarrow> if length (subid_stack st2) \<noteq> 1 then Inl Not_enough_operator else Inr st2))"

definition parseLogicalCombination ::
  "ParsedLogical \<Rightarrow> u32 \<Rightarrow> string \<Rightarrow> u32 \<Rightarrow> u64a \<Rightarrow> u64a \<Rightarrow> parse_error + ParsedLogical" where
  "parseLogicalCombination pl cid logical ekey min_offset max_offset =
     (let (ckey, pl0) = getCombKey pl cid;
          st0 = \<lparr>ps_pl = pl0, op_stack = [], subid_stack = [], lkey_start = INVALID_LKEY, digit = None, paren = 0\<rparr>
      in case parse_loop logical ckey [0..<length logical] st0 of
           Inl e \<Rightarrow> Inl e
         | Inr st1 \<Rightarrow>
             (case parse_finish logical ckey st1 of
                Inl e \<Rightarrow> Inl (LocatedParseError e (length logical))
              | Inr st \<Rightarrow>
                  if lkey_start st = INVALID_LKEY then Inl No_logical_operation
                  else Inr (combinationInfoAdd (ps_pl st) ckey cid ekey (lkey_start st) (hd (subid_stack st))
                              min_offset max_offset)))"

section \<open>Validation of sub-expressions\<close>

text \<open>
  \<open>expression_info\<close> stands for \<^verbatim>\<open>hs_expression_info\<close>, which runs the whole
  pattern compiler front end: \<open>None\<close> when it fails, otherwise the pointer it returns, of which only
  \<^verbatim>\<open>unordered_matches\<close> is read.
\<close>

datatype validate_error = Unknown_sub_expression_id | Combination_of_combination | SOM_flag_in_sub_expression
  | PREFILTER_flag_in_sub_expression | Run_expression_info_failed | Get_expr_info_failed
  | Unordered_match_in_sub_expressions

definition HS_FLAG_PREFILTER :: u32 where "HS_FLAG_PREFILTER = 128"
definition HS_FLAG_SOM_LEFTMOST :: u32 where "HS_FLAG_SOM_LEFTMOST = 256"

fun find_id :: "(nat \<Rightarrow> u32) \<Rightarrow> u32 \<Rightarrow> nat list \<Rightarrow> nat option" where
  "find_id ids a [] = None"
| "find_id ids a (i # is) = (if ids i = a then Some i else find_id ids a is)"

definition validate_sub_id ::
  "ParsedLogical \<Rightarrow> (string \<Rightarrow> u32 \<Rightarrow> bool option option) \<Rightarrow> u32 list option \<Rightarrow> string list \<Rightarrow> u32 list option \<Rightarrow> nat \<Rightarrow>
   u32 \<Rightarrow> validate_error option" where
  "validate_sub_id pl expression_info ids expressions flags elements a =
     (case find_id (\<lambda>i. case ids of None \<Rightarrow> 0 | Some v \<Rightarrow> v ! i) a [0..<elements] of
        None \<Rightarrow> Some Unknown_sub_expression_id
      | Some i \<Rightarrow>
          let fl = (case flags of None \<Rightarrow> 0 | Some f \<Rightarrow> f ! i)
          in if flat_map_find (toCombKeyMap pl) a \<noteq> length (toCombKeyMap pl) then Some Combination_of_combination
             else if flags \<noteq> None \<and> fl AND HS_FLAG_SOM_LEFTMOST \<noteq> 0 then Some SOM_flag_in_sub_expression
             else if flags \<noteq> None \<and> fl AND HS_FLAG_PREFILTER \<noteq> 0 then Some PREFILTER_flag_in_sub_expression
             else case expression_info (expressions ! i) fl of
                    None \<Rightarrow> Some Run_expression_info_failed
                  | Some None \<Rightarrow> Some Get_expr_info_failed
                  | Some (Some unordered_matches) \<Rightarrow>
                      if unordered_matches then Some Unordered_match_in_sub_expressions else None)"

fun first_error :: "('a \<Rightarrow> 'e option) \<Rightarrow> 'a list \<Rightarrow> 'e option" where
  "first_error f [] = None"
| "first_error f (x # xs) = (case f x of Some e \<Rightarrow> Some e | None \<Rightarrow> first_error f xs)"

definition validateSubIDs ::
  "ParsedLogical \<Rightarrow> (string \<Rightarrow> u32 \<Rightarrow> bool option option) \<Rightarrow> u32 list option \<Rightarrow> string list \<Rightarrow> u32 list option \<Rightarrow> nat \<Rightarrow>
   validate_error + unit" where
  "validateSubIDs pl expression_info ids expressions flags elements =
     (case first_error (validate_sub_id pl expression_info ids expressions flags elements)
             (map fst (toLogicalKeyMap pl)) of
        Some e \<Rightarrow> Inl e
      | None \<Rightarrow> Inr ())"

section \<open>Evaluation at scan time\<close>

text \<open>
  The part of the Rose engine that the evaluation reads. The match vector \<open>lvec\<close> has one
  Boolean per logical key and per operation.
\<close>

record RoseLogical =
  lkeyCount :: u32
  lopCount :: u32
  rose_logicalTree :: "LogicalOp list"

definition rose_logical :: "ParsedLogical \<Rightarrow> RoseLogical" where
  "rose_logical pl =
     \<lparr>lkeyCount = of_nat (length (toLogicalKeyMap pl)), lopCount = of_nat (length (logicalTree pl)),
      rose_logicalTree = logicalTree pl\<rparr>"

definition getLogicalVal :: "bool list \<Rightarrow> u32 \<Rightarrow> bool" where
  "getLogicalVal lvec lkey = lvec ! unat lkey"

definition setLogicalVal :: "bool list \<Rightarrow> u32 \<Rightarrow> bool \<Rightarrow> bool list" where
  "setLogicalVal lvec lkey val = lvec[unat lkey := val]"

definition eval_op :: "bool list \<Rightarrow> LogicalOp \<Rightarrow> bool list" where
  "eval_op lvec lop = setLogicalVal lvec (op_id lop) (case op_type lop of
     LOGICAL_OP_NOT \<Rightarrow> \<not> getLogicalVal lvec (op_ro lop)
   | LOGICAL_OP_AND \<Rightarrow> getLogicalVal lvec (op_lo lop) \<and> getLogicalVal lvec (op_ro lop)
   | LOGICAL_OP_OR \<Rightarrow> getLogicalVal lvec (op_lo lop) \<or> getLogicalVal lvec (op_ro lop))"

definition isLogicalCombination :: "RoseLogical \<Rightarrow> bool list \<Rightarrow> u32 \<Rightarrow> u32 \<Rightarrow> bool \<times> bool list" where
  "isLogicalCombination rose lvec start result =
     (let lvec' = foldl (\<lambda>lvec i. eval_op lvec (rose_logicalTree rose ! (i - unat (lkeyCount rose)))) lvec
                    [unat start..<Suc (unat result)]
      in (getLogicalVal lvec' result, lvec'))"

definition op_not_negative :: "RoseLogical \<Rightarrow> bool list \<Rightarrow> LogicalOp \<Rightarrow> bool" where
  "op_not_negative rose lvec lop =
     (op_type lop \<noteq> LOGICAL_OP_NOT \<and> op_lo lop < lkeyCount rose \<and> getLogicalVal lvec (op_lo lop) \<or>
      op_ro lop < lkeyCount rose \<and> getLogicalVal lvec (op_ro lop))"

fun purely_negative_loop :: "RoseLogical \<Rightarrow> bool list \<Rightarrow> nat list \<Rightarrow> bool \<times> bool list" where
  "purely_negative_loop rose lvec [] = (True, lvec)"
| "purely_negative_loop rose lvec (i # is) =
     (let lop = rose_logicalTree rose ! (i - unat (lkeyCount rose))
      in if op_not_negative rose lvec lop then (False, lvec)
         else purely_negative_loop rose (eval_op lvec lop) is)"

definition isPurelyNegativeMatch :: "RoseLogical \<Rightarrow> bool list \<Rightarrow> u32 \<Rightarrow> u32 \<Rightarrow> bool \<times> bool list" where
  "isPurelyNegativeMatch rose lvec start result =
     (case purely_negative_loop rose lvec [unat start..<Suc (unat result)] of
        (False, lvec') \<Rightarrow> (False, lvec')
      | (True, lvec') \<Rightarrow> (getLogicalVal lvec' result, lvec'))"

definition getCombInfoById :: "ParsedLogical \<Rightarrow> u32 \<Rightarrow> flat_error + CombInfo" where
  "getCombInfoById pl cid = (case flat_map_at (toCombKeyMap pl) cid of
     Inl e \<Rightarrow> Inl e
   | Inr ckey \<Rightarrow> if unat ckey < length (combInfoMap pl) then Inr (combInfoMap pl ! unat ckey) else Inl OutOfRange)"

text \<open>The combinations of a pattern set are parsed one after the other into one structure.\<close>

record combination =
  c_id :: u32
  c_logical :: string
  c_ekey :: u32
  c_min_offset :: u64a
  c_max_offset :: u64a

fun parse_combinations :: "ParsedLogical \<Rightarrow> combination list \<Rightarrow> parse_error + ParsedLogical" where
  "parse_combinations pl [] = Inr pl"
| "parse_combinations pl (c # cs) =
     (case parseLogicalCombination pl (c_id c) (c_logical c) (c_ekey c) (c_min_offset c) (c_max_offset c) of
        Inl e \<Rightarrow> Inl e
      | Inr pl' \<Rightarrow> parse_combinations pl' cs)"

section \<open>Specification: the grammar of combinations\<close>

datatype comb_exp = CSub u32 | CNot comb_exp | CAnd comb_exp comb_exp | COr comb_exp comb_exp

primrec comb_eval :: "(u32 \<Rightarrow> bool) \<Rightarrow> comb_exp \<Rightarrow> bool" where
  "comb_eval v (CSub a) = v a"
| "comb_eval v (CNot e) = (\<not> comb_eval v e)"
| "comb_eval v (CAnd e f) = (comb_eval v e \<and> comb_eval v f)"
| "comb_eval v (COr e f) = (comb_eval v e \<or> comb_eval v f)"

primrec comb_ids :: "comb_exp \<Rightarrow> u32 set" where
  "comb_ids (CSub a) = {a}"
| "comb_ids (CNot e) = comb_ids e"
| "comb_ids (CAnd e f) = comb_ids e \<union> comb_ids f"
| "comb_ids (COr e f) = comb_ids e \<union> comb_ids f"

definition dec_val :: "string \<Rightarrow> nat" where
  "dec_val ds = foldl (\<lambda>acc c. 10 * acc + (of_char c - 48)) 0 ds"

text \<open>
  \<open>grammar p s e\<close>: the text \<open>s\<close> is the expression \<open>e\<close>, with operators of priority at most \<open>p\<close>
  outside parentheses; \<open>None\<close> is an operand. Ids have at most nine digits, a negation applies to
  an operand (an id or an expression in parentheses), and spaces may stand anywhere but inside an id.
\<close>

inductive grammar :: "LogicalOpType option \<Rightarrow> string \<Rightarrow> comb_exp \<Rightarrow> bool" where
  g_num: "ds \<noteq> [] \<Longrightarrow> length ds \<le> 9 \<Longrightarrow> list_all isdigit ds \<Longrightarrow> grammar None ds (CSub (of_nat (dec_val ds)))"
| g_paren: "grammar (Some LOGICAL_OP_OR) s e \<Longrightarrow> grammar None (''('' @ s @ '')'') e"
| g_space_before: "grammar p s e \<Longrightarrow> grammar p ('' '' @ s) e"
| g_space_after: "grammar p s e \<Longrightarrow> grammar p (s @ '' '') e"
| g_operand: "grammar None s e \<Longrightarrow> grammar (Some LOGICAL_OP_NOT) s e"
| g_not: "grammar None s e \<Longrightarrow> grammar (Some LOGICAL_OP_NOT) (''!'' @ s) (CNot e)"
| g_unary: "grammar (Some LOGICAL_OP_NOT) s e \<Longrightarrow> grammar (Some LOGICAL_OP_AND) s e"
| g_and: "grammar (Some LOGICAL_OP_AND) s e \<Longrightarrow> grammar (Some LOGICAL_OP_NOT) t f \<Longrightarrow>
    grammar (Some LOGICAL_OP_AND) (s @ ''&'' @ t) (CAnd e f)"
| g_term: "grammar (Some LOGICAL_OP_AND) s e \<Longrightarrow> grammar (Some LOGICAL_OP_OR) s e"
| g_or: "grammar (Some LOGICAL_OP_OR) s e \<Longrightarrow> grammar (Some LOGICAL_OP_AND) t f \<Longrightarrow>
    grammar (Some LOGICAL_OP_OR) (s @ ''|'' @ t) (COr e f)"

text \<open>
  Independently of the grammar: the numbers written in a text are its maximal runs of digits, and the
  nesting of parentheses after a text is \<open>None\<close> when one is closed that was not opened.
\<close>

fun number_runs :: "string \<Rightarrow> string \<Rightarrow> string list" where
  "number_runs run [] = (if run = [] then [] else [run])"
| "number_runs run (c # cs) =
     (if isdigit c then number_runs (run @ [c]) cs
      else (if run = [] then [] else [run]) @ number_runs [] cs)"

definition number_id :: "string \<Rightarrow> u32" where
  "number_id ds = of_nat (dec_val ds)"

definition operand_ids :: "string \<Rightarrow> u32 list" where
  "operand_ids logical = map number_id (number_runs [] logical)"

fun paren_depth :: "nat \<Rightarrow> string \<Rightarrow> nat option" where
  "paren_depth d [] = Some d"
| "paren_depth d (c # cs) =
     (if c = CHR ''('' then paren_depth (d + 1) cs
      else if c = CHR '')'' then (if d = 0 then None else paren_depth (d - 1) cs)
      else paren_depth d cs)"

section \<open>Key numbering\<close>

definition dense_ok :: "('k::linorder \<times> u32) list \<Rightarrow> bool" where
  "dense_ok m \<longleftrightarrow> flat_map_ok m \<and> snd ` set m = of_nat ` {..<length m}"

lemma flat_map_insert_absent:
  assumes "flat_map_ok m" "map_of m k = None"
  shows "set (fst (flat_map_insert m (k, v))) = insert (k, v) (set m)"
    and "length (fst (flat_map_insert m (k, v))) = Suc (length m)"
    and "fst (flat_map_insert m (k, v)) ! fst (snd (flat_map_insert m (k, v))) = (k, v)"
proof (atomize (full), cases rule: flat_map_pos_cases [OF assms(1), of k, case_names absent present])
  case (absent as bs)
  then show "set (fst (flat_map_insert m (k, v))) = insert (k, v) (set m) \<and>
    length (fst (flat_map_insert m (k, v))) = Suc (length m) \<and>
    fst (flat_map_insert m (k, v)) ! fst (snd (flat_map_insert m (k, v))) = (k, v)"
    by (cases bs) (auto simp: flat_map_defs nth_append)
next
  case (present as e bs)
  then have "k \<in> fst ` set m" by auto
  then show "set (fst (flat_map_insert m (k, v))) = insert (k, v) (set m) \<and>
    length (fst (flat_map_insert m (k, v))) = Suc (length m) \<and>
    fst (flat_map_insert m (k, v)) ! fst (snd (flat_map_insert m (k, v))) = (k, v)"
    using assms(2) by (simp add: map_of_eq_None_iff)
qed

lemma dense_key_spec:
  assumes "dense_ok m" and dk: "dense_key m a = (k, m')"
  shows "dense_ok m'" "map_of m' = (map_of m)(a \<mapsto> k)" "map_of m \<subseteq>\<^sub>m map_of m'"
    and "length m \<le> length m'" "length m' \<le> Suc (length m)" "k \<in> of_nat ` {..<length m'}"
    and "map_of m a = None \<Longrightarrow> k = of_nat (length m) \<and> length m' = Suc (length m)"
    and "map_of m a \<noteq> None \<Longrightarrow> m' = m"
proof -
  have ok: "flat_map_ok m" and img: "snd ` set m = of_nat ` {..<length m}"
    using assms(1) by (simp_all add: dense_ok_def)
  have "dense_ok m' \<and> map_of m' = (map_of m)(a \<mapsto> k) \<and> map_of m \<subseteq>\<^sub>m map_of m' \<and>
     length m \<le> length m' \<and> length m' \<le> Suc (length m) \<and> k \<in> of_nat ` {..<length m'} \<and>
     (map_of m a = None \<longrightarrow> k = of_nat (length m) \<and> length m' = Suc (length m)) \<and>
     (map_of m a \<noteq> None \<longrightarrow> m' = m)"
  proof (cases "map_of m a")
    case None
    note new = flat_map_insert_absent [OF ok None] and spec = flat_map_insert_spec [OF ok]
    have "flat_map_find m a = length m"
      using flat_map_find_spec [OF ok, of a] None by (simp split: if_splits)
    then have r: "k = of_nat (length m)" "m' = fst (flat_map_insert m (a, of_nat (length m)))"
      using dk new(3) [of "of_nat (length m)"] by (auto simp: dense_key_def Let_def split_beta)
    then have "dense_ok m'" using spec(1) new(1,2) img by (auto simp: dense_ok_def lessThan_Suc)
    moreover have "map_of m' = (map_of m)(a \<mapsto> k)"
      using spec(3) None r by (auto simp: map_of_eq_None_iff)
    ultimately show ?thesis using r new(2) None by (auto simp: map_le_def)
  next
    case (Some x)
    then have "m' = m" "k = x"
      using flat_map_find_spec [OF ok, of a] dk by (auto simp: dense_key_def split: if_splits)
    moreover have "x \<in> snd ` set m" using map_of_SomeD [OF Some] by force
    ultimately show ?thesis using Some assms(1) img by auto
  qed
  then show "dense_ok m'" "map_of m' = (map_of m)(a \<mapsto> k)" "map_of m \<subseteq>\<^sub>m map_of m'"
    "length m \<le> length m'" "length m' \<le> Suc (length m)" "k \<in> of_nat ` {..<length m'}"
    "map_of m a = None \<Longrightarrow> k = of_nat (length m) \<and> length m' = Suc (length m)"
    "map_of m a \<noteq> None \<Longrightarrow> m' = m"
    by blast+
qed

lemma dense_ok_inj:
  assumes "dense_ok m" "length m \<le> 2 ^ 32" "map_of m a = Some k" "map_of m b = Some k"
  shows "a = b"
proof -
  have "inj_on (of_nat :: nat \<Rightarrow> u32) {..<length m}"
    using assms(2) by (auto intro!: inj_onI simp: u32_of_nat_inj)
  then have "card (snd ` set m) = length m"
    using assms(1) by (simp add: dense_ok_def card_image)
  then have "inj_on snd (set m)"
    using card_length [of m] card_image_le [of "set m" snd] by (intro eq_card_imp_inj_on) simp_all
  then show "a = b" using map_of_SomeD [OF assms(3)] map_of_SomeD [OF assms(4)] by (metis inj_onD prod.inject snd_conv)
qed

lemma dense_ok_Nil [simp]: "dense_ok []"
  by (simp add: dense_ok_def flat_map_ok_def)

section \<open>The structure every accepted expression leaves behind\<close>

abbreviation op_key :: "nat \<Rightarrow> u32" where
  "op_key i \<equiv> LOGICAL_OP_BIT OR of_nat i"

abbreviation n_keys :: "ParsedLogical \<Rightarrow> nat" where
  "n_keys pl \<equiv> length (toLogicalKeyMap pl)"

abbreviation n_ops :: "ParsedLogical \<Rightarrow> nat" where
  "n_ops pl \<equiv> length (logicalTree pl)"

text \<open>
  A key in use: the number of a sub-expression, or an operation between \<open>b\<close>, where the current
  expression began, and \<open>t\<close>.
\<close>

definition valid_key :: "nat \<Rightarrow> nat \<Rightarrow> nat \<Rightarrow> u32 \<Rightarrow> bool" where
  "valid_key b n t k \<longleftrightarrow> (\<exists>j < n. k = of_nat j) \<or> (\<exists>i. b \<le> i \<and> i < t \<and> k = op_key i)"

definition valid_op :: "nat \<Rightarrow> nat \<Rightarrow> nat \<Rightarrow> LogicalOp \<Rightarrow> bool" where
  "valid_op b n i lop \<longleftrightarrow> op_id lop = op_key i \<and> valid_key b n i (op_ro lop) \<and>
     (op_type lop \<noteq> LOGICAL_OP_NOT \<longrightarrow> valid_key b n i (op_lo lop))"

lemma valid_key_mono: "valid_key b n t k \<Longrightarrow> n \<le> n' \<Longrightarrow> t \<le> t' \<Longrightarrow> valid_key b n' t' k"
  unfolding valid_key_def using order_less_le_trans by blast

lemma valid_op_mono: "valid_op b n i lop \<Longrightarrow> n \<le> n' \<Longrightarrow> valid_op b n' i lop"
  unfolding valid_op_def using valid_key_mono by blast

definition parse_inv :: "nat \<Rightarrow> ParseState \<Rightarrow> bool" where
  "parse_inv b st \<longleftrightarrow>
     (let pl = ps_pl st in
      dense_ok (toLogicalKeyMap pl) \<and> b \<le> n_ops pl \<and>
      (\<forall>i. b \<le> i \<and> i < n_ops pl \<longrightarrow> valid_op b (n_keys pl) i (logicalTree pl ! i)) \<and>
      (\<forall>k \<in> set (subid_stack st). valid_key b (n_keys pl) (n_ops pl) k) \<and>
      (b < n_ops pl \<longrightarrow> op_key (n_ops pl - 1) \<in> set (subid_stack st)) \<and>
      (n_ops pl < 2 ^ 31 \<longrightarrow> lkey_start st = (if n_ops pl = b then INVALID_LKEY else op_key b)))"

lemma parse_invD:
  assumes "parse_inv b st"
  shows "dense_ok (toLogicalKeyMap (ps_pl st))" "b \<le> n_ops (ps_pl st)"
    and "b \<le> i \<Longrightarrow> i < n_ops (ps_pl st) \<Longrightarrow> valid_op b (n_keys (ps_pl st)) i (logicalTree (ps_pl st) ! i)"
    and "k \<in> set (subid_stack st) \<Longrightarrow> valid_key b (n_keys (ps_pl st)) (n_ops (ps_pl st)) k"
    and "b < n_ops (ps_pl st) \<Longrightarrow> op_key (n_ops (ps_pl st) - 1) \<in> set (subid_stack st)"
    and "n_ops (ps_pl st) < 2 ^ 31 \<Longrightarrow> lkey_start st = (if n_ops (ps_pl st) = b then INVALID_LKEY else op_key b)"
  using assms unfolding parse_inv_def Let_def by blast+

lemma op_key_valid [simp]: "op_key n \<noteq> INVALID_LKEY" if "n < 2 ^ 31 - 1"
proof
  assume "op_key n = INVALID_LKEY"
  then have "op_key n AND NOT LOGICAL_OP_BIT = NOT LOGICAL_OP_BIT" by (simp add: INVALID_LKEY_def)
  then have "(of_nat n :: u32) = of_nat (2 ^ 31 - 1)"
    using word_or_and_clear [of "of_nat n :: u32" LOGICAL_OP_BIT] u32_of_nat_top_bit [of n] that
    by (simp add: LOGICAL_OP_BIT_def)
  then show False using that by (subst (asm) u32_of_nat_inj) auto
qed

lemma op_key_bits: "n < 2 ^ 31 \<Longrightarrow> op_key n AND LOGICAL_OP_BIT \<noteq> 0"
  "n < 2 ^ 31 \<Longrightarrow> op_key n AND NOT LOGICAL_OP_BIT = of_nat n"
  "n < 2 ^ 31 \<Longrightarrow> (of_nat n :: u32) AND LOGICAL_OP_BIT = 0"
  using word_or_and_clear [of "of_nat n :: u32" LOGICAL_OP_BIT] u32_of_nat_top_bit [of n]
  by (simp_all add: word_or_and_self, simp_all add: LOGICAL_OP_BIT_def)

lemma addRelateCKey_keeps [simp]:
  "toLogicalKeyMap (addRelateCKey pl l c) = toLogicalKeyMap pl" "logicalTree (addRelateCKey pl l c) = logicalTree pl"
  "toCombKeyMap (addRelateCKey pl l c) = toCombKeyMap pl" "combInfoMap (addRelateCKey pl l c) = combInfoMap pl"
  by (simp_all add: addRelateCKey_def Let_def split_beta)

text \<open>One operator popped, with the start of the operations recorded.\<close>

definition pop_step :: "LogicalOperator \<Rightarrow> ParseState \<Rightarrow> parse_msg + ParseState" where
  "pop_step oper st = (case popOperator oper st of
     Inl e \<Rightarrow> Inl e
   | Inr st' \<Rightarrow> Inr (if lkey_start st' = INVALID_LKEY then st'\<lparr>lkey_start := hd (subid_stack st')\<rparr> else st'))"

lemma pop_while_Cons:
  "pop_while cond (oper # ops) st =
     (if cond oper then case pop_step oper st of Inl e \<Rightarrow> Inl e | Inr st' \<Rightarrow> pop_while cond ops st' else Inr st)"
  by (simp add: pop_step_def split: sum.split)

lemma pop_step_spec:
  assumes "pop_step oper st = Inr st'"
  obtains left right rest lop where
    "subid_stack st = right # (if lo_op oper = LOGICAL_OP_NOT then rest else left # rest)"
    "lop = \<lparr>op_id = op_key (n_ops (ps_pl st)), op_type = lo_op oper, op_lo = left, op_ro = right\<rparr>"
    "ps_pl st' = (ps_pl st)\<lparr>logicalTree := logicalTree (ps_pl st) @ [lop]\<rparr>"
    "subid_stack st' = op_key (n_ops (ps_pl st)) # rest"
    "lkey_start st' = (if lkey_start st = INVALID_LKEY then op_key (n_ops (ps_pl st)) else lkey_start st)"
    "op_stack st' = tl (op_stack st)" "digit st' = digit st" "paren st' = paren st"
  using assms
  by (auto simp: pop_step_def popOperator_def logicalTreeAdd_def Let_def
      split: sum.splits list.splits option.splits if_splits)

lemma pop_step_inv:
  assumes inv: "parse_inv b st" and st': "pop_step oper st = Inr st'"
  shows "parse_inv b st'"
proof -
  let ?pl = "ps_pl st" and ?n = "n_keys (ps_pl st)" and ?t = "n_ops (ps_pl st)"
  obtain left right rest lop where s:
    "subid_stack st = right # (if lo_op oper = LOGICAL_OP_NOT then rest else left # rest)"
    "lop = \<lparr>op_id = op_key ?t, op_type = lo_op oper, op_lo = left, op_ro = right\<rparr>"
    "ps_pl st' = ?pl\<lparr>logicalTree := logicalTree ?pl @ [lop]\<rparr>"
    "subid_stack st' = op_key ?t # rest"
    "lkey_start st' = (if lkey_start st = INVALID_LKEY then op_key ?t else lkey_start st)"
    using pop_step_spec [OF st'] by metis
  have bt: "b \<le> ?t" and ops: "\<And>i. b \<le> i \<Longrightarrow> i < ?t \<Longrightarrow> valid_op b ?n i (logicalTree ?pl ! i)"
    and keys: "\<forall>k \<in> set (subid_stack st). valid_key b ?n ?t k" and dense: "dense_ok (toLogicalKeyMap ?pl)"
    and start: "?t < 2 ^ 31 \<Longrightarrow> lkey_start st = (if ?t = b then INVALID_LKEY else op_key b)"
    using inv by (auto simp: parse_inv_def Let_def)
  have "valid_op b ?n ?t lop"
    using keys s(1,2) by (auto simp: valid_op_def split: if_splits)
  then have "valid_op b ?n i ((logicalTree ?pl @ [lop]) ! i)" if "b \<le> i" "i < Suc ?t" for i
    using ops that by (auto simp: nth_append less_Suc_eq)
  moreover have "valid_key b ?n (Suc ?t) k" if "k \<in> set (subid_stack st')" for k
  proof (cases "k = op_key ?t")
    case True
    then show ?thesis using bt by (auto simp: valid_key_def)
  next
    case False
    then have "k \<in> set (subid_stack st)" using that s(1,4) by (auto split: if_splits)
    then show ?thesis using keys valid_key_mono [of b ?n ?t k ?n "Suc ?t"] by simp
  qed
  moreover have "lkey_start st' = op_key b" if "Suc ?t < 2 ^ 31"
    using that start s(5) bt by (cases "?t = b") auto
  ultimately show ?thesis
    using s(3,4) dense bt by (auto simp: parse_inv_def Let_def)
qed

lemma pop_while_inv:
  "parse_inv b st \<Longrightarrow> pop_while cond ops st = Inr st' \<Longrightarrow> parse_inv b st'"
proof (induction ops arbitrary: st)
  case (Cons oper ops)
  then show ?case
    using pop_step_inv [OF Cons.prems(1)] unfolding pop_while_Cons by (auto split: if_splits sum.splits)
qed simp

lemma parse_inv_upd [simp]:
  "parse_inv b (st\<lparr>op_stack := x\<rparr>) = parse_inv b st" "parse_inv b (st\<lparr>digit := y\<rparr>) = parse_inv b st"
  "parse_inv b (st\<lparr>paren := z\<rparr>) = parse_inv b st"
  by (simp_all add: parse_inv_def)

lemma push_subid_inv:
  assumes inv: "parse_inv b st" and st': "push_subid logical ckey i st = Inr st'"
  shows "parse_inv b st'"
proof (cases "fetchSubID logical (digit st) i")
  case (Inl e)
  then show ?thesis using st' by (simp add: push_subid_def)
next
  case (Inr x)
  show ?thesis
  proof (cases x)
    case None
    then show ?thesis using inv Inr st' by (auto simp: push_subid_def)
  next
    case (Some a)
    obtain k m where km: "dense_key (toLogicalKeyMap (ps_pl st)) a = (k, m)" by fastforce
    have dense: "dense_ok (toLogicalKeyMap (ps_pl st))" using inv by (simp add: parse_inv_def Let_def)
    note m = dense_key_spec [OF dense km]
    have "ps_pl st' = addRelateCKey ((ps_pl st)\<lparr>toLogicalKeyMap := m\<rparr>) k ckey"
      "subid_stack st' = k # subid_stack st" "lkey_start st' = lkey_start st"
      using st' Inr Some km by (auto simp: push_subid_def getLogicalKey_def)
    moreover have "valid_key b (length m) t k" for t using m(6) by (auto simp: valid_key_def)
    ultimately show ?thesis
      using inv m(1,4) valid_op_mono valid_key_mono by (auto simp: parse_inv_def Let_def)
  qed
qed

lemma parse_symbol_inv:
  assumes "parse_inv b st" "parse_symbol c st = Inr st'"
  shows "parse_inv b st'"
proof (cases "toOperator c")
  case None
  then show ?thesis
    using assms by (auto simp: parse_symbol_def split: if_splits)
next
  case (Some p)
  then have c: "c \<noteq> CHR '' ''" "c \<noteq> CHR ''(''" "c \<noteq> CHR '')''"
    by (auto simp: toOperator_def split: if_splits)
  obtain st1 where "pop_while (\<lambda>x. cmpOperator x \<lparr>lo_op = p, lo_paren = paren st\<rparr>) (op_stack st) st = Inr st1"
    and "st' = st1\<lparr>op_stack := \<lparr>lo_op = p, lo_paren = paren st\<rparr> # op_stack st1\<rparr>"
    using assms(2) Some c by (auto simp: parse_symbol_def Let_def split: sum.splits)
  then show ?thesis using pop_while_inv [OF assms(1)] by auto
qed

lemma parse_char_inv:
  assumes "parse_inv b st" "parse_char logical ckey i st = Inr st'"
  shows "parse_inv b st'"
  using assms by (auto simp: parse_char_def split: if_splits sum.splits intro: parse_symbol_inv [OF push_subid_inv])

lemma parse_loop_inv: "parse_inv b st \<Longrightarrow> parse_loop logical ckey is st = Inr st' \<Longrightarrow> parse_inv b st'"
  by (induction "is" arbitrary: st) (auto dest: parse_char_inv split: sum.splits)

lemma parse_finish_inv: "parse_inv b st \<Longrightarrow> parse_finish logical ckey st = Inr st' \<Longrightarrow> parse_inv b st'"
  by (auto simp: parse_finish_def split: if_splits sum.splits dest: push_subid_inv pop_while_inv)

section \<open>Renumbered keys and the value of a key\<close>

lemma TRY_RENUM_key: "j < 2 ^ 31 \<Longrightarrow> TRY_RENUM_OP n (of_nat j) = of_nat j"
  by (simp add: TRY_RENUM_OP_def op_key_bits)

lemma TRY_RENUM_op:
  assumes "n + i < 2 ^ 31"
  shows "TRY_RENUM_OP n (op_key i) = of_nat (n + i)" "unat (TRY_RENUM_OP n (op_key i)) = n + i"
proof -
  have "i < 2 ^ 31" using assms by simp
  then show eq: "TRY_RENUM_OP n (op_key i) = of_nat (n + i)"
    using op_key_bits(1,2) [of i] by (simp only: TRY_RENUM_OP_def if_True of_nat_add add.commute simp_thms)
  show "unat (TRY_RENUM_OP n (op_key i)) = n + i"
    unfolding eq by (rule u32_unat_of_nat) (use assms in simp)
qed

definition seg_run :: "nat \<Rightarrow> bool list \<Rightarrow> LogicalOp list \<Rightarrow> bool list" where
  "seg_run n lv ops = foldl eval_op lv (map (renumber_op n) ops)"

lemma length_eval_op [simp]: "length (eval_op lv lop) = length lv"
  by (simp add: eval_op_def setLogicalVal_def)

lemma seg_run_simps [simp]:
  "seg_run n lv [] = lv" "seg_run n lv (ops @ [lop]) = eval_op (seg_run n lv ops) (renumber_op n lop)"
  by (simp_all add: seg_run_def)

lemma length_seg_run [simp]: "length (seg_run n lv ops) = length lv"
  by (induction ops rule: rev_induct) auto

lemma seg_run_other:
  "\<forall>lop \<in> set ops. unat (TRY_RENUM_OP n (op_id lop)) \<noteq> j \<Longrightarrow> seg_run n lv ops ! j = lv ! j"
  by (induction ops rule: rev_induct) (auto simp: eval_op_def setLogicalVal_def renumber_op_def)

definition key_val :: "nat \<Rightarrow> bool list \<Rightarrow> LogicalOp list \<Rightarrow> u32 \<Rightarrow> bool" where
  "key_val n lv ops k = seg_run n lv ops ! unat (TRY_RENUM_OP n k)"

text \<open>
  The key \<open>k\<close> of an expression that began at operation \<open>b\<close> stands for \<open>e\<close>: whatever the final
  number \<open>n\<close> of keys and the match vector, running the operations gives it the value of \<open>e\<close>.
\<close>

definition denotes :: "nat \<Rightarrow> ParsedLogical \<Rightarrow> u32 \<Rightarrow> comb_exp \<Rightarrow> bool" where
  "denotes b pl k e \<longleftrightarrow> comb_ids e \<subseteq> dom (map_of (toLogicalKeyMap pl)) \<and>
     (\<forall>n lv. n_keys pl \<le> n \<and> n + n_ops pl < 2 ^ 31 \<and> n + n_ops pl \<le> length lv \<longrightarrow>
        key_val n lv (drop b (logicalTree pl)) k =
          comb_eval (\<lambda>a. lv ! unat (the (map_of (toLogicalKeyMap pl) a))) e)"

lemma comb_eval_cong: "(\<And>a. a \<in> comb_ids e \<Longrightarrow> v a = w a) \<Longrightarrow> comb_eval v e = comb_eval w e"
  by (induction e) auto

lemma denotes_more_keys:
  assumes "denotes b pl k e" "map_of (toLogicalKeyMap pl) \<subseteq>\<^sub>m map_of m" "n_keys pl \<le> length m"
  shows "denotes b (pl\<lparr>toLogicalKeyMap := m\<rparr>) k e"
proof -
  have "comb_eval (\<lambda>a. lv ! unat (the (map_of m a))) e =
      comb_eval (\<lambda>a. lv ! unat (the (map_of (toLogicalKeyMap pl) a))) e" for lv
  proof (rule comb_eval_cong)
    fix a assume "a \<in> comb_ids e"
    then have "a \<in> dom (map_of (toLogicalKeyMap pl))" using assms(1) by (auto simp: denotes_def)
    then show "lv ! unat (the (map_of m a)) = lv ! unat (the (map_of (toLogicalKeyMap pl) a))"
      using assms(2) by (simp add: map_le_def)
  qed
  moreover have "comb_ids e \<subseteq> dom (map_of m)"
    using assms(1) map_le_implies_dom_le [OF assms(2)] unfolding denotes_def by blast
  ultimately show ?thesis using assms(1,3) by (auto simp: denotes_def)
qed

lemma valid_op_renum_id:
  assumes "valid_op b m i lop" "n + i < 2 ^ 31"
  shows "unat (TRY_RENUM_OP n (op_id lop)) = n + i"
  using assms TRY_RENUM_op(2) unfolding valid_op_def by metis

lemma denotes_sub:
  assumes inv: "parse_inv b st" and a: "map_of (toLogicalKeyMap (ps_pl st)) a = Some k"
  shows "denotes b (ps_pl st) k (CSub a)"
  unfolding denotes_def
proof (intro conjI allI impI)
  let ?pl = "ps_pl st"
  show "comb_ids (CSub a) \<subseteq> dom (map_of (toLogicalKeyMap ?pl))" using a by auto
  fix n and lv :: "bool list"
  assume n: "n_keys ?pl \<le> n \<and> n + n_ops ?pl < 2 ^ 31 \<and> n + n_ops ?pl \<le> length lv"
  have "k \<in> snd ` set (toLogicalKeyMap ?pl)" using map_of_SomeD [OF a] by force
  then obtain j where j: "j < n_keys ?pl" "k = of_nat j"
    using parse_invD(1) [OF inv] by (auto simp: dense_ok_def)
  have "unat (TRY_RENUM_OP n (op_id lop)) \<noteq> j" if lop: "lop \<in> set (drop b (logicalTree ?pl))" for lop
  proof -
    obtain i where i: "b + i < n_ops ?pl" "lop = logicalTree ?pl ! (b + i)"
      using lop parse_invD(2) [OF inv] by (auto simp: in_set_conv_nth) (metis add.commute less_diff_conv)
    then have "valid_op b (n_keys ?pl) (b + i) lop" using parse_invD(3) [OF inv] by simp
    from valid_op_renum_id [OF this, of n] show ?thesis using i n j by simp
  qed
  then have "seg_run n lv (drop b (logicalTree ?pl)) ! j = lv ! j" by (intro seg_run_other) blast
  then show "key_val n lv (drop b (logicalTree ?pl)) k =
      comb_eval (\<lambda>a. lv ! unat (the (map_of (toLogicalKeyMap ?pl) a))) (CSub a)"
    using a j n by (simp add: key_val_def TRY_RENUM_key)
qed

lemma valid_key_position:
  assumes "valid_key b m t k" "m \<le> n" "n + t < 2 ^ 31"
  shows "unat (TRY_RENUM_OP n k) < n + t"
  using assms(1) unfolding valid_key_def
proof (elim disjE exE conjE)
  fix j assume "j < m" "k = of_nat j"
  then show ?thesis using assms(2,3) by (simp add: TRY_RENUM_key)
next
  fix i assume "i < t" "k = op_key i"
  then show ?thesis using assms(3) TRY_RENUM_op(2) [of n i] by simp
qed

text \<open>Appending an operation keeps the values of the keys that exist and gives a value to its own.\<close>

lemma denotes_append:
  assumes pl': "pl' = pl\<lparr>logicalTree := logicalTree pl @ [lop]\<rparr>" and id: "op_id lop = op_key (n_ops pl)"
    and b: "b \<le> n_ops pl" and k: "valid_key b (n_keys pl) (n_ops pl) k" and d: "denotes b pl k e"
  shows "denotes b pl' k e"
  unfolding denotes_def
proof (intro conjI allI impI)
  show "comb_ids e \<subseteq> dom (map_of (toLogicalKeyMap pl'))" using d pl' by (simp add: denotes_def)
  fix n and lv :: "bool list"
  assume "n_keys pl' \<le> n \<and> n + n_ops pl' < 2 ^ 31 \<and> n + n_ops pl' \<le> length lv"
  then have n: "n_keys pl \<le> n" "n + Suc (n_ops pl) < 2 ^ 31" "n + n_ops pl \<le> length lv" by (simp_all add: pl')
  have "unat (TRY_RENUM_OP n k) < n + n_ops pl" using valid_key_position [OF k n(1)] n(2) by simp
  moreover have "unat (op_id (renumber_op n lop)) = n + n_ops pl"
    using TRY_RENUM_op(2) [of n "n_ops pl"] n(2) id by (simp add: renumber_op_def)
  ultimately have "key_val n lv (drop b (logicalTree pl')) k = key_val n lv (drop b (logicalTree pl)) k"
    using b by (simp add: key_val_def pl' eval_op_def setLogicalVal_def)
  also have "\<dots> = comb_eval (\<lambda>a. lv ! unat (the (map_of (toLogicalKeyMap pl') a))) e"
    using d n pl' by (simp add: denotes_def)
  finally show "key_val n lv (drop b (logicalTree pl')) k =
      comb_eval (\<lambda>a. lv ! unat (the (map_of (toLogicalKeyMap pl') a))) e" .
qed

fun comb_op :: "LogicalOpType \<Rightarrow> comb_exp \<Rightarrow> comb_exp \<Rightarrow> comb_exp" where
  "comb_op LOGICAL_OP_NOT l r = CNot r"
| "comb_op LOGICAL_OP_AND l r = CAnd l r"
| "comb_op LOGICAL_OP_OR l r = COr l r"

lemma denotes_new_op:
  assumes pl': "pl' = pl\<lparr>logicalTree := logicalTree pl @ [lop]\<rparr>" and id: "op_id lop = op_key (n_ops pl)"
    and b: "b \<le> n_ops pl" and ro: "denotes b pl (op_ro lop) r"
    and lo: "op_type lop \<noteq> LOGICAL_OP_NOT \<Longrightarrow> denotes b pl (op_lo lop) l"
  shows "denotes b pl' (op_key (n_ops pl)) (comb_op (op_type lop) l r)"
  unfolding denotes_def
proof (intro conjI allI impI)
  show "comb_ids (comb_op (op_type lop) l r) \<subseteq> dom (map_of (toLogicalKeyMap pl'))"
    using ro lo pl' by (cases "op_type lop") (auto simp: denotes_def)
  fix n and lv :: "bool list"
  assume "n_keys pl' \<le> n \<and> n + n_ops pl' < 2 ^ 31 \<and> n + n_ops pl' \<le> length lv"
  then have n: "n_keys pl \<le> n" "n + n_ops pl < 2 ^ 31" "n + n_ops pl < length lv" by (simp_all add: pl')
  let ?v = "\<lambda>a. lv ! unat (the (map_of (toLogicalKeyMap pl) a))" and ?lv = "seg_run n lv (drop b (logicalTree pl))"
  have r: "?lv ! unat (TRY_RENUM_OP n (op_ro lop)) = comb_eval ?v r"
    and l: "op_type lop \<noteq> LOGICAL_OP_NOT \<Longrightarrow> ?lv ! unat (TRY_RENUM_OP n (op_lo lop)) = comb_eval ?v l"
    using ro lo n by (simp_all add: denotes_def key_val_def)
  have pos: "unat (TRY_RENUM_OP n (op_key (n_ops pl))) = n + n_ops pl" using TRY_RENUM_op(2) n(2) .
  have "key_val n lv (drop b (logicalTree pl')) (op_key (n_ops pl)) = comb_eval ?v (comb_op (op_type lop) l r)"
    using b pos n(3) r l id
    by (cases "op_type lop")
      (simp_all add: key_val_def pl' eval_op_def setLogicalVal_def getLogicalVal_def renumber_op_def)
  then show "key_val n lv (drop b (logicalTree pl')) (op_key (n_ops pl)) =
      comb_eval (\<lambda>a. lv ! unat (the (map_of (toLogicalKeyMap pl') a))) (comb_op (op_type lop) l r)"
    by (simp add: pl')
qed

section \<open>The parser follows the grammar\<close>

primrec comb_ops :: "comb_exp \<Rightarrow> nat" where
  "comb_ops (CSub a) = 0"
| "comb_ops (CNot e) = Suc (comb_ops e)"
| "comb_ops (CAnd e f) = Suc (comb_ops e + comb_ops f)"
| "comb_ops (COr e f) = Suc (comb_ops e + comb_ops f)"

lemma comb_ops_pos: "\<forall>a. e \<noteq> CSub a \<Longrightarrow> 0 < comb_ops e"
  by (cases e) auto

text \<open>The operand stack holds keys of \<open>es\<close>, and the operations so far are those of \<open>es\<close>.\<close>

definition stack_rel :: "nat \<Rightarrow> ParseState \<Rightarrow> comb_exp list \<Rightarrow> bool" where
  "stack_rel b st es \<longleftrightarrow> parse_inv b st \<and> list_all2 (denotes b (ps_pl st)) (subid_stack st) es \<and>
     n_ops (ps_pl st) = b + sum_list (map comb_ops es)"

lemma stack_rel_upd [simp]:
  "stack_rel b (st\<lparr>op_stack := x\<rparr>) = stack_rel b st" "stack_rel b (st\<lparr>digit := y\<rparr>) = stack_rel b st"
  "stack_rel b (st\<lparr>paren := z\<rparr>) = stack_rel b st"
  by (rule ext, simp add: stack_rel_def)+

text \<open>Popping operators on a stack of expressions.\<close>

fun reduce :: "LogicalOperator list \<Rightarrow> comb_exp list \<Rightarrow> comb_exp list option" where
  "reduce [] es = Some es"
| "reduce (oper # ops) es = (case es of
     [] \<Rightarrow> None
   | r # es1 \<Rightarrow>
       if lo_op oper = LOGICAL_OP_NOT then reduce ops (CNot r # es1)
       else case es1 of [] \<Rightarrow> None | l # es2 \<Rightarrow> reduce ops (comb_op (lo_op oper) l r # es2))"

lemma reduce_append_stack: "reduce ops es = Some fs \<Longrightarrow> reduce ops (es @ gs) = Some (fs @ gs)"
proof (induction ops arbitrary: es)
  case (Cons oper ops)
  obtain r es1 where es: "es = r # es1" using Cons.prems by (cases es) auto
  show ?case
  proof (cases "lo_op oper = LOGICAL_OP_NOT")
    case True
    then show ?thesis using Cons.IH [of "CNot r # es1"] Cons.prems es by simp
  next
    case False
    then obtain l es2 where "es1 = l # es2" using Cons.prems es by (cases es1) auto
    then show ?thesis using False Cons.IH [of "comb_op (lo_op oper) l r # es2"] Cons.prems es by simp
  qed
qed simp

lemma reduce_append: "reduce (ops @ ops') es = Option.bind (reduce ops es) (reduce ops')"
  by (induction ops arbitrary: es) (auto split: list.splits)

lemma pop_step_rel:
  assumes rel: "stack_rel b st es" and ops: "op_stack st = oper # ops" and red: "reduce [oper] es = Some fs"
  obtains st' where "pop_step oper st = Inr st'" "stack_rel b st' fs" "op_stack st' = ops"
    "paren st' = paren st" "digit st' = digit st"
proof -
  have inv: "parse_inv b st" and den: "list_all2 (denotes b (ps_pl st)) (subid_stack st) es"
    using rel by (simp_all add: stack_rel_def)
  have "pop_step oper st \<noteq> Inl e" for e
    using red den
    by (auto simp: pop_step_def popOperator_def Let_def split_beta list_all2_Cons2
        split: list.splits if_splits)
  then obtain st' where st': "pop_step oper st = Inr st'" by (cases "pop_step oper st") auto
  obtain left right rest lop where s:
    "subid_stack st = right # (if lo_op oper = LOGICAL_OP_NOT then rest else left # rest)"
    "lop = \<lparr>op_id = op_key (n_ops (ps_pl st)), op_type = lo_op oper, op_lo = left, op_ro = right\<rparr>"
    "ps_pl st' = (ps_pl st)\<lparr>logicalTree := logicalTree (ps_pl st) @ [lop]\<rparr>"
    "subid_stack st' = op_key (n_ops (ps_pl st)) # rest"
    and eqs: "op_stack st' = tl (op_stack st)" "digit st' = digit st" "paren st' = paren st"
    using pop_step_spec [OF st'] by metis
  have b: "b \<le> n_ops (ps_pl st)" using parse_invD(2) [OF inv] .
  have old: "denotes b (ps_pl st') k e" if "denotes b (ps_pl st) k e" "k \<in> set (subid_stack st)" for k e
    using denotes_append [OF s(3) _ b _ that(1)] parse_invD(4) [OF inv that(2)] s(2) by simp
  obtain r l es' where es: "es = r # (if lo_op oper = LOGICAL_OP_NOT then es' else l # es')"
    and fs: "fs = comb_op (lo_op oper) l r # es'" and den': "denotes b (ps_pl st) right r"
      "lo_op oper \<noteq> LOGICAL_OP_NOT \<Longrightarrow> denotes b (ps_pl st) left l" "list_all2 (denotes b (ps_pl st)) rest es'"
    using red den s(1) by (auto simp: list_all2_Cons1 list_all2_Cons2 split: list.splits if_splits)
  have "denotes b (ps_pl st') (op_key (n_ops (ps_pl st))) (comb_op (op_type lop) l r)"
    by (rule denotes_new_op [OF s(3) _ b]) (use s(2) den' in auto)
  moreover have "list_all2 (denotes b (ps_pl st')) rest es'"
    by (rule list.rel_mono_strong [OF den'(3)]) (use old s(1) in \<open>auto split: if_splits\<close>)
  ultimately have "stack_rel b st' fs"
    using pop_step_inv [OF inv st'] s(2-4) fs rel es by (cases "lo_op oper") (simp_all add: stack_rel_def)
  then show thesis using that [OF st'] eqs ops by simp
qed

lemma pop_while_rel:
  assumes "stack_rel b st es" "op_stack st = ops @ rest" "reduce ops es = Some fs"
    and "\<forall>oper \<in> set ops. cond oper" "rest = [] \<or> \<not> cond (hd rest)"
  shows "\<exists>st'. pop_while cond (op_stack st) st = Inr st' \<and> stack_rel b st' fs \<and> op_stack st' = rest \<and>
    paren st' = paren st \<and> digit st' = digit st"
  using assms
proof (induction ops arbitrary: st es)
  case Nil
  then show ?case by (cases rest) auto
next
  case (Cons oper ops)
  obtain es1 where red: "reduce [oper] es = Some es1" "reduce ops es1 = Some fs"
    using Cons.prems(3) by (auto split: list.splits if_splits)
  obtain st1 where "pop_step oper st = Inr st1" "stack_rel b st1 es1" "op_stack st1 = ops @ rest"
    "paren st1 = paren st" "digit st1 = digit st"
    using pop_step_rel [OF Cons.prems(1) _ red(1)] Cons.prems(2) by (metis append_Cons)
  then show ?case
    using Cons.IH [of st1 es1] red(2) Cons.prems(2,4,5) by (auto simp: pop_while_Cons simp del: pop_while.simps)
qed

text \<open>
  \<open>loops\<close>: the characters from \<open>i\<close> to \<open>j\<close> lead from one state to another; \<open>reads\<close>: they do so once
  a digit run that ends at \<open>j\<close> has been pushed.
\<close>

definition loops :: "string \<Rightarrow> u32 \<Rightarrow> nat \<Rightarrow> nat \<Rightarrow> ParseState \<Rightarrow> ParseState \<Rightarrow> bool" where
  "loops logical ckey i j st st' \<longleftrightarrow> i \<le> j \<and> parse_loop logical ckey [i..<j] st = Inr st'"

definition reads :: "string \<Rightarrow> u32 \<Rightarrow> nat \<Rightarrow> nat \<Rightarrow> ParseState \<Rightarrow> ParseState \<Rightarrow> bool" where
  "reads logical ckey i j st st' \<longleftrightarrow>
     (\<exists>st1. loops logical ckey i j st st1 \<and> push_subid logical ckey j st1 = Inr st')"

lemma parse_loop_append:
  "parse_loop logical ckey (is @ js) st =
     (case parse_loop logical ckey is st of Inl e \<Rightarrow> Inl e | Inr st' \<Rightarrow> parse_loop logical ckey js st')"
  by (induction "is" arbitrary: st) (auto split: sum.split)

lemma loops_trans: "loops logical ckey i j st st1 \<Longrightarrow> loops logical ckey j k st1 st2 \<Longrightarrow> loops logical ckey i k st st2"
  using upt_add_eq_append [of i j "k - j"] by (auto simp: loops_def parse_loop_append)

lemma loops_reads: "loops logical ckey i j st st1 \<Longrightarrow> reads logical ckey j k st1 st2 \<Longrightarrow> reads logical ckey i k st st2"
  by (auto simp: reads_def intro: loops_trans)

lemma push_subid_none: "digit st = None \<Longrightarrow> push_subid logical ckey i st = Inr st"
  by (simp add: push_subid_def fetchSubID_def)

lemma loops_refl: "loops logical ckey i i st st"
  by (simp add: loops_def)

lemma loops_imp_reads: "loops logical ckey i j st st' \<Longrightarrow> digit st' = None \<Longrightarrow> reads logical ckey i j st st'"
  by (auto simp: reads_def push_subid_none)

lemma reads_symbol:
  assumes "reads logical ckey i j st st1" "\<not> isdigit (logical ! j)" "parse_symbol (logical ! j) st1 = Inr st2"
  shows "loops logical ckey i (Suc j) st st2"
  using assms by (auto simp: reads_def loops_def parse_loop_append parse_char_def)

lemma fetch_fold:
  assumes "list_all isdigit ds"
  shows "foldl (\<lambda>(acc, mult) c. (acc + (of_char c - 48) * mult, mult * 10)) (x, m) (rev ds) =
    (x + m * of_nat (dec_val ds), m * 10 ^ length ds :: u32)"
  using assms
proof (induction ds arbitrary: x m rule: rev_induct)
  case (snoc c ds)
  have c: "(of_nat (of_char c - 48) :: u32) = of_char c - 48"
    using snoc.prems of_nat_of_char [of c, where 'a = "32 word"] by (simp add: isdigit_def of_nat_diff)
  have "dec_val (ds @ [c]) = 10 * dec_val ds + (of_char c - 48)" by (simp add: dec_val_def)
  then have dv: "(of_nat (dec_val (ds @ [c])) :: u32) = 10 * of_nat (dec_val ds) + (of_char c - 48)"
    using c by (simp only: of_nat_add of_nat_mult of_nat_numeral)
  show ?case using snoc.prems by (simp add: snoc.IH dv) (simp add: algebra_simps)
qed (simp add: dec_val_def)

lemma fetchSubID_digits:
  assumes "logical = pre @ ds @ post" "list_all isdigit ds" "length ds \<le> 9"
  shows "fetchSubID logical (Some (length pre)) (length pre + length ds) = Inr (Some (of_nat (dec_val ds)))"
proof -
  let ?f = "\<lambda>(acc, mult) c. (acc + (of_char c - 48) * mult, mult * 10) :: u32 \<times> u32"
  have "map (nth logical) [length pre..<length pre + length ds] = ds"
    by (rule nth_equalityI) (simp_all add: assms(1) nth_append)
  then have "rev ds = map (nth logical) (rev [length pre..<length pre + length ds])"
    by (metis rev_map)
  moreover have "foldl (\<lambda>(acc, mult) j. (acc + (of_char (logical ! j) - 48) * mult, mult * 10)) xm js =
      foldl ?f xm (map (nth logical) js)" for xm js
    by (induction js arbitrary: xm) (auto simp: split_beta)
  ultimately show ?thesis
    using fetch_fold [OF assms(2), of 0 1] assms(3) by (simp add: fetchSubID_def)
qed

lemma digits_loop:
  assumes "\<forall>i \<in> set is. isdigit (logical ! i)" "digit st = Some d"
  shows "parse_loop logical ckey is st = Inr st"
  using assms by (induction "is" arbitrary: st) (auto simp: parse_char_def)

lemma digits_loops:
  assumes "logical = pre @ ds @ post" "ds \<noteq> []" "list_all isdigit ds" "digit st = None"
  shows "loops logical ckey (length pre) (length pre + length ds) st (st\<lparr>digit := Some (length pre)\<rparr>)"
proof -
  have dig: "isdigit (logical ! i)" if "length pre \<le> i" "i < length pre + length ds" for i
    using that assms(1,3) by (auto simp: nth_append list_all_length)
  have "[length pre..<length pre + length ds] = length pre # [Suc (length pre)..<length pre + length ds]"
    using assms(2) by (simp add: upt_conv_Cons)
  then show ?thesis
    using digits_loop [of "[Suc (length pre)..<length pre + length ds]" logical _ "length pre"] dig assms(2,4)
    by (auto simp: loops_def parse_char_def)
qed

lemma push_subid_rel:
  assumes rel: "stack_rel b st es" and f: "fetchSubID logical (digit st) i = Inr (Some a)"
  obtains st' where "push_subid logical ckey i st = Inr st'" "stack_rel b st' (CSub a # es)"
    "op_stack st' = op_stack st" "paren st' = paren st" "digit st' = None"
proof -
  have inv: "parse_inv b st" and den: "list_all2 (denotes b (ps_pl st)) (subid_stack st) es"
    using rel by (simp_all add: stack_rel_def)
  obtain k m where km: "dense_key (toLogicalKeyMap (ps_pl st)) a = (k, m)" by fastforce
  note m = dense_key_spec [OF parse_invD(1) [OF inv] km]
  let ?pl = "addRelateCKey ((ps_pl st)\<lparr>toLogicalKeyMap := m\<rparr>) k ckey"
  let ?st = "st\<lparr>digit := None, subid_stack := k # subid_stack st, ps_pl := ?pl\<rparr>"
  have push: "push_subid logical ckey i st = Inr ?st"
    using f km by (simp add: push_subid_def getLogicalKey_def)
  have "denotes b ?pl k' e" if "denotes b (ps_pl st) k' e" for k' e
    using denotes_more_keys [OF that m(3,4)] by (simp add: denotes_def)
  then have "list_all2 (denotes b ?pl) (subid_stack st) es" using den by (rule list.rel_mono_strong [rotated])
  moreover have inv': "parse_inv b ?st" using push_subid_inv [OF inv push] .
  moreover have "denotes b (ps_pl ?st) k (CSub a)" by (rule denotes_sub [OF inv']) (simp add: m(2))
  ultimately have "stack_rel b ?st (CSub a # es)" using rel by (simp add: stack_rel_def)
  then show thesis using that [OF push] by simp
qed

text \<open>
  While the text of an expression of priority \<open>p\<close> at depth \<open>d\<close> is read, the operators below it on
  the stack bind less tightly (\<open>top_below\<close>) and stay; those it leaves there bind at least as
  tightly (\<open>ops_within\<close>).
\<close>

fun lower_prio :: "LogicalOpType option \<Rightarrow> LogicalOpType \<Rightarrow> bool" where
  "lower_prio None x = True"
| "lower_prio (Some q) x = (q < x)"

definition top_below :: "LogicalOpType option \<Rightarrow> nat \<Rightarrow> LogicalOperator list \<Rightarrow> bool" where
  "top_below p d ops \<longleftrightarrow>
     ops = [] \<or> lo_paren (hd ops) < d \<or> lo_paren (hd ops) = d \<and> lower_prio p (lo_op (hd ops))"

definition ops_within :: "LogicalOpType option \<Rightarrow> nat \<Rightarrow> LogicalOperator list \<Rightarrow> bool" where
  "ops_within p d ops \<longleftrightarrow>
     (\<forall>x \<in> set ops. d < lo_paren x \<or> lo_paren x = d \<and> \<not> lower_prio p (lo_op x))"

definition parses ::
  "nat \<Rightarrow> string \<Rightarrow> u32 \<Rightarrow> LogicalOpType option \<Rightarrow> nat \<Rightarrow> nat \<Rightarrow> ParseState \<Rightarrow> comb_exp \<Rightarrow> comb_exp list \<Rightarrow> bool" where
  "parses b logical ckey p i j st e es \<longleftrightarrow>
     (\<exists>st' ops es'. reads logical ckey i j st st' \<and> paren st' = paren st \<and> digit st' = None \<and>
        op_stack st' = ops @ op_stack st \<and> stack_rel b st' (es' @ es) \<and> ops_within p (paren st) ops \<and>
        reduce ops es' = Some [e])"

lemma parsesI:
  "reads logical ckey i j st st' \<Longrightarrow> paren st' = paren st \<Longrightarrow> digit st' = None \<Longrightarrow>
   op_stack st' = ops @ op_stack st \<Longrightarrow> stack_rel b st' (es' @ es) \<Longrightarrow> ops_within p (paren st) ops \<Longrightarrow>
   reduce ops es' = Some [e] \<Longrightarrow> parses b logical ckey p i j st e es"
  unfolding parses_def by blast

lemma parsesE:
  assumes "parses b logical ckey p i j st e es"
  obtains st' ops es' where "reads logical ckey i j st st'" "paren st' = paren st" "digit st' = None"
    "op_stack st' = ops @ op_stack st" "stack_rel b st' (es' @ es)" "ops_within p (paren st) ops"
    "reduce ops es' = Some [e]"
  using assms unfolding parses_def by blast

lemma top_below_mono: "top_below (Some p) d ops \<Longrightarrow> q \<le> p \<Longrightarrow> top_below (Some q) d ops"
  "top_below (Some p) d ops \<Longrightarrow> top_below None d ops"
  by (auto simp: top_below_def)

lemma ops_within_mono:
  "ops_within p d ops \<Longrightarrow> (\<And>x. \<not> lower_prio p x \<Longrightarrow> \<not> lower_prio q x) \<Longrightarrow> ops_within q d ops"
  by (auto simp: ops_within_def)

lemma parses_weaken:
  assumes "parses b logical ckey p i j st e es" "\<And>x. \<not> lower_prio p x \<Longrightarrow> \<not> lower_prio q x"
  shows "parses b logical ckey q i j st e es"
  using assms(1) by (rule parsesE) (rule parsesI; (assumption | erule ops_within_mono [OF _ assms(2)]))

text \<open>An operator of priority \<open>p\<close> after an expression of that priority reduces it to one operand.\<close>

lemma operator_after:
  assumes p: "parses b logical ckey (Some p) i j st e es" and top: "top_below (Some p) (paren st) (op_stack st)"
    and c: "toOperator (logical ! j) = Some p"
  obtains st2 where "loops logical ckey i (Suc j) st st2" "op_stack st2 = \<lparr>lo_op = p, lo_paren = paren st\<rparr> # op_stack st"
    "stack_rel b st2 (e # es)" "paren st2 = paren st" "digit st2 = None"
proof -
  obtain st1 ops es' where s: "reads logical ckey i j st st1" "paren st1 = paren st" "digit st1 = None"
    "op_stack st1 = ops @ op_stack st" "stack_rel b st1 (es' @ es)" "ops_within (Some p) (paren st) ops"
    "reduce ops es' = Some [e]" using p by (rule parsesE)
  let ?op = "\<lparr>lo_op = p, lo_paren = paren st\<rparr>"
  have "\<forall>x \<in> set ops. cmpOperator x ?op" using s(6) by (auto simp: ops_within_def cmpOperator_def not_less)
  moreover have "op_stack st = [] \<or> \<not> cmpOperator (hd (op_stack st)) ?op"
    using top by (auto simp: top_below_def cmpOperator_def)
  ultimately obtain st2 where st2: "pop_while (\<lambda>x. cmpOperator x ?op) (op_stack st1) st1 = Inr st2"
    "stack_rel b st2 ([e] @ es)" "op_stack st2 = op_stack st" "paren st2 = paren st1" "digit st2 = digit st1"
    using pop_while_rel [OF s(5,4) reduce_append_stack [OF s(7)]] by metis
  have "\<not> isdigit (logical ! j)" "parse_symbol (logical ! j) st1 = Inr (st2\<lparr>op_stack := ?op # op_stack st2\<rparr>)"
    using c st2(1) s(2) by (auto simp: toOperator_def parse_symbol_def isdigit_def split: if_splits)
  from reads_symbol [OF s(1) this] show thesis by (rule that) (use st2 s in simp_all)
qed

text \<open>An operator between two operands.\<close>

lemma binary_parses:
  assumes st2: "loops logical ckey i (Suc j) st st2" "op_stack st2 = \<lparr>lo_op = p, lo_paren = paren st\<rparr> # op_stack st"
      "paren st2 = paren st"
    and p': "parses b logical ckey p' (Suc j) k st2 f (e # es)" and pp: "\<And>x. \<not> lower_prio p' x \<Longrightarrow> x \<le> p"
      "p \<noteq> LOGICAL_OP_NOT"
  shows "parses b logical ckey (Some p) i k st (comb_op p e f) es"
proof -
  obtain st3 ops es' where s: "reads logical ckey (Suc j) k st2 st3" "paren st3 = paren st2" "digit st3 = None"
    "op_stack st3 = ops @ op_stack st2" "stack_rel b st3 (es' @ e # es)" "ops_within p' (paren st2) ops"
    "reduce ops es' = Some [f]" using p' by (rule parsesE)
  show ?thesis
  proof (rule parsesI [OF loops_reads [OF st2(1) s(1)]])
    show "op_stack st3 = (ops @ [\<lparr>lo_op = p, lo_paren = paren st\<rparr>]) @ op_stack st" using s(4) st2(2) by simp
    show "stack_rel b st3 ((es' @ [e]) @ es)" using s(5) by simp
    show "ops_within (Some p) (paren st) (ops @ [\<lparr>lo_op = p, lo_paren = paren st\<rparr>])"
      using s(6) pp(1) st2(3) by (auto simp: ops_within_def not_less)
    show "reduce (ops @ [\<lparr>lo_op = p, lo_paren = paren st\<rparr>]) (es' @ [e]) = Some [comb_op p e f]"
      using reduce_append_stack [OF s(7), of "[e]"] pp(2) by (simp add: reduce_append)
  qed (use s st2 in simp_all)
qed

lemma toOperator_simps [simp]:
  "toOperator CHR ''!'' = Some LOGICAL_OP_NOT" "toOperator CHR ''&'' = Some LOGICAL_OP_AND"
  "toOperator CHR ''|'' = Some LOGICAL_OP_OR"
  by (simp_all add: toOperator_def)

lemma nondigits [simp]: "\<not> isdigit CHR '' ''" "\<not> isdigit CHR ''(''" "\<not> isdigit CHR '')''" "\<not> isdigit CHR ''!''"
  by (simp_all add: isdigit_def)

lemma prio_simps [simp]:
  "LOGICAL_OP_NOT < LOGICAL_OP_AND" "LOGICAL_OP_AND < LOGICAL_OP_OR" "LOGICAL_OP_NOT \<le> x" "x \<le> LOGICAL_OP_OR"
  "\<not> x < LOGICAL_OP_NOT"
  by (cases x; simp add: less_LogicalOpType_def less_eq_LogicalOpType_def)+

lemma number_parses:
  assumes "logical = pre @ ds @ post" "ds \<noteq> []" "length ds \<le> 9" "list_all isdigit ds"
    and st: "digit st = None" "stack_rel b st es"
  shows "parses b logical ckey None (length pre) (length pre + length ds) st (CSub (of_nat (dec_val ds))) es"
proof -
  let ?st1 = "st\<lparr>digit := Some (length pre)\<rparr>"
  have l: "loops logical ckey (length pre) (length pre + length ds) st ?st1"
    using digits_loops [OF assms(1,2,4) st(1)] .
  have "fetchSubID logical (digit ?st1) (length pre + length ds) = Inr (Some (of_nat (dec_val ds)))"
    using fetchSubID_digits [OF assms(1,4,3)] by simp
  then obtain st' where "push_subid logical ckey (length pre + length ds) ?st1 = Inr st'"
    "stack_rel b st' (CSub (of_nat (dec_val ds)) # es)" "op_stack st' = op_stack ?st1" "paren st' = paren ?st1"
    "digit st' = None"
    using push_subid_rel [of b ?st1 es] st(2) by (metis stack_rel_upd(2))
  then show ?thesis
    using l by (intro parsesI [of logical ckey _ _ st st' "[]" b "[CSub (of_nat (dec_val ds))]"])
      (auto simp: reads_def ops_within_def)
qed

lemma paren_parses:
  assumes s: "\<And>st. digit st = None \<Longrightarrow> stack_rel b st es \<Longrightarrow> top_below (Some LOGICAL_OP_OR) (paren st) (op_stack st) \<Longrightarrow>
      parses b logical ckey (Some LOGICAL_OP_OR) (Suc i) j st e es"
    and c: "logical ! i = CHR ''(''" "logical ! j = CHR '')''"
    and st: "digit st = None" "stack_rel b st es" "top_below None (paren st) (op_stack st)"
  shows "parses b logical ckey None i (Suc j) st e es"
proof -
  let ?st1 = "st\<lparr>paren := paren st + 1\<rparr>"
  have l: "loops logical ckey i (Suc i) st ?st1"
    by (rule reads_symbol [OF loops_imp_reads [OF loops_refl st(1)]]) (simp_all add: c parse_symbol_def)
  have "parses b logical ckey (Some LOGICAL_OP_OR) (Suc i) j ?st1 e es"
    by (rule s) (use st in \<open>auto simp: top_below_def\<close>)
  then obtain st2 ops es' where r: "reads logical ckey (Suc i) j ?st1 st2" "paren st2 = paren ?st1" "digit st2 = None"
    "op_stack st2 = ops @ op_stack ?st1" "stack_rel b st2 (es' @ es)" "ops_within (Some LOGICAL_OP_OR) (paren ?st1) ops"
    "reduce ops es' = Some [e]" by (rule parsesE)
  have "loops logical ckey i (Suc j) st (st2\<lparr>paren := paren st\<rparr>)"
    by (rule reads_symbol [OF loops_reads [OF l r(1)]]) (simp_all add: c parse_symbol_def r(2))
  then show ?thesis
    using r by (intro parsesI [OF loops_imp_reads, of logical ckey i "Suc j" st "st2\<lparr>paren := paren st\<rparr>" ops b es'])
      (auto simp: ops_within_def)
qed

lemma spaces_parse:
  assumes c: "logical ! i = CHR '' ''"
  shows "digit st = None \<Longrightarrow> parses b logical ckey p (Suc i) j st e es \<Longrightarrow> parses b logical ckey p i j st e es"
    and "parses b logical ckey p j i st e es \<Longrightarrow> parses b logical ckey p j (Suc i) st e es"
proof -
  show "parses b logical ckey p i j st e es" if "digit st = None" "parses b logical ckey p (Suc i) j st e es"
  proof -
    have "loops logical ckey i (Suc i) st st"
      by (rule reads_symbol [OF loops_imp_reads [OF loops_refl that(1)]]) (simp_all add: c parse_symbol_def)
    then show ?thesis using that(2) unfolding parses_def by (blast intro: loops_reads)
  qed
  show "parses b logical ckey p j (Suc i) st e es" if "parses b logical ckey p j i st e es"
  proof -
    have "reads logical ckey j (Suc i) st st'" if "reads logical ckey j i st st'" "digit st' = None" for st'
      by (rule loops_imp_reads [OF reads_symbol [OF that(1)] that(2)]) (simp_all add: c parse_symbol_def)
    then show ?thesis using that unfolding parses_def by blast
  qed
qed

lemma not_parses:
  assumes c: "logical ! i = CHR ''!''" and top: "top_below (Some LOGICAL_OP_NOT) (paren st) (op_stack st)"
    and st: "digit st = None"
    and p: "parses b logical ckey None (Suc i) j
      (st\<lparr>op_stack := \<lparr>lo_op = LOGICAL_OP_NOT, lo_paren = paren st\<rparr> # op_stack st\<rparr>) e es"
  shows "parses b logical ckey (Some LOGICAL_OP_NOT) i j st (CNot e) es"
proof -
  let ?op = "\<lparr>lo_op = LOGICAL_OP_NOT, lo_paren = paren st\<rparr>"
  let ?st1 = "st\<lparr>op_stack := ?op # op_stack st\<rparr>"
  have "pop_while (\<lambda>x. cmpOperator x ?op) (op_stack st) st = Inr st"
    using top by (cases "op_stack st") (auto simp: top_below_def cmpOperator_def)
  then have l: "loops logical ckey i (Suc i) st ?st1"
    by (intro reads_symbol [OF loops_imp_reads [OF loops_refl st]]) (simp_all add: c parse_symbol_def)
  obtain st2 ops es' where r: "reads logical ckey (Suc i) j ?st1 st2" "paren st2 = paren ?st1" "digit st2 = None"
    "op_stack st2 = ops @ op_stack ?st1" "stack_rel b st2 (es' @ es)" "ops_within None (paren ?st1) ops"
    "reduce ops es' = Some [e]" using p by (rule parsesE)
  show ?thesis
  proof (rule parsesI [OF loops_reads [OF l r(1)]])
    show "op_stack st2 = (ops @ [?op]) @ op_stack st" using r(4) by simp
    show "ops_within (Some LOGICAL_OP_NOT) (paren st) (ops @ [?op])"
      using r(6) by (auto simp: ops_within_def)
    show "reduce (ops @ [?op]) es' = Some [CNot e]" using r(7) by (simp add: reduce_append)
  qed (use r in simp_all)
qed

lemma lower_prio_mono: "q \<le> p \<Longrightarrow> \<not> lower_prio (Some q) x \<Longrightarrow> \<not> lower_prio (Some p) x"
  by (simp add: not_less)

lemma binary_grammar:
  assumes s: "parses b logical ckey (Some p) i j st e es" and c: "toOperator (logical ! j) = Some p"
    and top: "top_below (Some p) (paren st) (op_stack st)" and p: "q < p"
    and t: "\<And>st2. digit st2 = None \<Longrightarrow> stack_rel b st2 (e # es) \<Longrightarrow>
      top_below (Some q) (paren st2) (op_stack st2) \<Longrightarrow> parses b logical ckey (Some q) (Suc j) k st2 f (e # es)"
  shows "parses b logical ckey (Some p) i k st (comb_op p e f) es"
proof -
  obtain st2 where st2: "loops logical ckey i (Suc j) st st2"
    "op_stack st2 = \<lparr>lo_op = p, lo_paren = paren st\<rparr> # op_stack st"
    "stack_rel b st2 (e # es)" "paren st2 = paren st" "digit st2 = None"
    using operator_after [OF s top c] .
  have "parses b logical ckey (Some q) (Suc j) k st2 f (e # es)"
    by (rule t [OF st2(5,3)]) (use st2(2,4) p in \<open>simp add: top_below_def\<close>)
  then show ?thesis
    by (rule binary_parses [OF st2(1,2,4)]) (use p in \<open>auto simp: not_less\<close>)
qed

lemma grammar_parses:
  "grammar p s e \<Longrightarrow> logical = pre @ s @ post \<Longrightarrow> digit st = None \<Longrightarrow> stack_rel b st es \<Longrightarrow>
   top_below p (paren st) (op_stack st) \<Longrightarrow>
   parses b logical ckey p (length pre) (length pre + length s) st e es"
proof (induction arbitrary: pre post st es rule: grammar.induct)
  case (g_num ds)
  then show ?case by (intro number_parses) auto
next
  case (g_paren s e)
  have "parses b logical ckey None (length pre) (Suc (Suc (length pre) + length s)) st e es"
  proof (rule paren_parses [OF _ _ _ g_paren.prems(2-4)])
    show "parses b logical ckey (Some LOGICAL_OP_OR) (Suc (length pre)) (Suc (length pre) + length s) st e es"
      if "digit st = None" "stack_rel b st es" "top_below (Some LOGICAL_OP_OR) (paren st) (op_stack st)" for st
      using g_paren.IH [of "pre @ ''(''" "'')'' @ post" st es] g_paren.prems(1) that by simp
  qed (use g_paren.prems(1) in \<open>auto simp: nth_append\<close>)
  then show ?case by simp
next
  case (g_space_before p s e)
  then show ?case
    using spaces_parse(1) [of logical "length pre" st b ckey p "Suc (length pre + length s)" e es]
      g_space_before.IH [of "pre @ '' ''" post st es] by (auto simp: nth_append)
next
  case (g_space_after p s e)
  then show ?case
    using spaces_parse(2) [of logical "length pre + length s" b ckey p "length pre" st e es]
      g_space_after.IH [of pre "'' '' @ post" st es] by (auto simp: nth_append)
next
  case (g_operand s e)
  then show ?case
    using parses_weaken [OF g_operand.IH [OF g_operand.prems(1-3) top_below_mono(2) [OF g_operand.prems(4)]]]
    by simp
next
  case (g_not s e)
  let ?st1 = "st\<lparr>op_stack := \<lparr>lo_op = LOGICAL_OP_NOT, lo_paren = paren st\<rparr> # op_stack st\<rparr>"
  have s: "parses b logical ckey None (Suc (length pre)) (length pre + length (''!'' @ s)) ?st1 e es"
    using g_not.IH [of "pre @ ''!''" post ?st1 es] g_not.prems by (simp add: top_below_def)
  show ?case
    by (rule not_parses [OF _ g_not.prems(4,2) s]) (use g_not.prems(1) in \<open>simp add: nth_append\<close>)
next
  case (g_unary s e)
  show ?case
    by (rule parses_weaken [OF g_unary.IH [OF g_unary.prems(1-3) top_below_mono(1) [OF g_unary.prems(4) less_imp_le [OF prio_simps(1)]]]])
      (rule lower_prio_mono [OF less_imp_le [OF prio_simps(1)]])
next
  case (g_and s e t f)
  have "parses b logical ckey (Some LOGICAL_OP_AND) (length pre) (length pre + length s + Suc (length t)) st
      (comb_op LOGICAL_OP_AND e f) es"
  proof (rule binary_grammar [OF g_and.IH(1) _ g_and.prems(4)])
    show "logical = pre @ s @ (''&'' @ t @ post)" using g_and.prems(1) by simp
    show "parses b logical ckey (Some LOGICAL_OP_NOT) (Suc (length pre + length s)) (length pre + length s + Suc (length t))
        st2 f (e # es)" if "digit st2 = None" "stack_rel b st2 (e # es)"
      "top_below (Some LOGICAL_OP_NOT) (paren st2) (op_stack st2)" for st2
      using g_and.IH(2) [of "pre @ s @ ''&''" post st2 "e # es"] g_and.prems(1) that by simp
  qed (use g_and.prems in \<open>simp_all add: nth_append\<close>)
  then show ?case by (simp add: add.assoc)
next
  case (g_term s e)
  show ?case
    by (rule parses_weaken [OF g_term.IH [OF g_term.prems(1-3) top_below_mono(1) [OF g_term.prems(4) less_imp_le [OF prio_simps(2)]]]])
      (rule lower_prio_mono [OF less_imp_le [OF prio_simps(2)]])
next
  case (g_or s e t f)
  have "parses b logical ckey (Some LOGICAL_OP_OR) (length pre) (length pre + length s + Suc (length t)) st
      (comb_op LOGICAL_OP_OR e f) es"
  proof (rule binary_grammar [OF g_or.IH(1) _ g_or.prems(4)])
    show "logical = pre @ s @ (''|'' @ t @ post)" using g_or.prems(1) by simp
    show "parses b logical ckey (Some LOGICAL_OP_AND) (Suc (length pre + length s)) (length pre + length s + Suc (length t))
        st2 f (e # es)" if "digit st2 = None" "stack_rel b st2 (e # es)"
      "top_below (Some LOGICAL_OP_AND) (paren st2) (op_stack st2)" for st2
      using g_or.IH(2) [of "pre @ s @ ''|''" post st2 "e # es"] g_or.prems(1) that by simp
  qed (use g_or.prems in \<open>simp_all add: nth_append\<close>)
  then show ?case by (simp add: add.assoc)
qed

section \<open>The size of what is parsed\<close>

definition psize :: "ParseState \<Rightarrow> nat" where
  "psize st = n_keys (ps_pl st) + n_ops (ps_pl st) + length (op_stack st) + (if digit st = None then 0 else 1)"

lemma pop_while_size:
  "pop_while cond ops st = Inr st' \<Longrightarrow> op_stack st = ops \<Longrightarrow> psize st' = psize st \<and> digit st' = digit st"
proof (induction ops arbitrary: st)
  case (Cons oper ops)
  show ?case
  proof (cases "cond oper")
    case True
    then obtain st1 where st1: "pop_step oper st = Inr st1" "pop_while cond ops st1 = Inr st'"
      using Cons.prems(1) by (auto simp: pop_while_Cons simp del: pop_while.simps split: sum.splits)
    obtain lop where "ps_pl st1 = (ps_pl st)\<lparr>logicalTree := logicalTree (ps_pl st) @ [lop]\<rparr>"
      "op_stack st1 = tl (op_stack st)" "digit st1 = digit st"
      using pop_step_spec [OF st1(1)] by metis
    then show ?thesis using Cons.IH [OF st1(2)] Cons.prems(2) by (auto simp: psize_def split: if_splits)
  qed (use Cons.prems in simp)
qed simp

lemma push_subid_size:
  assumes "push_subid logical ckey i st = Inr st'" "parse_inv b st"
  shows "psize st' \<le> psize st" "digit st' = None" "op_stack st' = op_stack st"
proof (atomize (full), cases "fetchSubID logical (digit st) i")
  case (Inl e)
  then show "psize st' \<le> psize st \<and> digit st' = None \<and> op_stack st' = op_stack st"
    using assms(1) by (simp add: push_subid_def)
next
  case (Inr x)
  show "psize st' \<le> psize st \<and> digit st' = None \<and> op_stack st' = op_stack st"
  proof (cases x)
    case None
    then show ?thesis using assms(1) Inr by (auto simp: push_subid_def psize_def)
  next
    case (Some a)
    then have "digit st \<noteq> None" using Inr by (cases "digit st") (simp_all add: fetchSubID_def)
    then show ?thesis
      using assms(1) Inr Some dense_key_spec(5) [OF parse_invD(1) [OF assms(2)]]
      by (auto simp: push_subid_def getLogicalKey_def psize_def split: prod.splits)
  qed
qed

lemma parse_char_size:
  assumes "parse_char logical ckey i st = Inr st'" "parse_inv b st"
  shows "psize st' \<le> Suc (psize st)"
proof (cases "isdigit (logical ! i)")
  case True
  then show ?thesis using assms(1) by (auto simp: parse_char_def psize_def)
next
  case False
  then obtain st1 where st1: "push_subid logical ckey i st = Inr st1" "parse_symbol (logical ! i) st1 = Inr st'"
    using assms(1) by (auto simp: parse_char_def split: sum.splits)
  have "psize st' \<le> Suc (psize st1)"
    using st1(2)
    by (auto simp: parse_symbol_def Let_def psize_def split: if_splits option.splits sum.splits
        dest!: pop_while_size)
  then show ?thesis using push_subid_size(1) [OF st1(1) assms(2)] by simp
qed

lemma parse_loop_size:
  "parse_inv b st \<Longrightarrow> parse_loop logical ckey is st = Inr st' \<Longrightarrow> psize st' \<le> psize st + length is"
proof (induction "is" arbitrary: st)
  case (Cons i "is")
  then obtain st1 where st1: "parse_char logical ckey i st = Inr st1" "parse_loop logical ckey is st1 = Inr st'"
    by (auto split: sum.splits)
  show ?case
    using Cons.IH [OF parse_char_inv [OF Cons.prems(1) st1(1)] st1(2)] parse_char_size [OF st1(1) Cons.prems(1)]
    by simp
qed simp

lemma parse_finish_size:
  assumes "parse_finish logical ckey st = Inr st'" "parse_inv b st"
  shows "psize st' \<le> psize st"
  using assms push_subid_size(1) [OF _ assms(2)]
  by (auto simp: parse_finish_def split: if_splits sum.splits dest!: pop_while_size)

section \<open>Whole expressions\<close>

definition pl_ok :: "ParsedLogical \<Rightarrow> bool" where
  "pl_ok pl \<longleftrightarrow> dense_ok (toLogicalKeyMap pl) \<and> dense_ok (toCombKeyMap pl)"

text \<open>Parsing only adds keys and operations.\<close>

definition pl_ext :: "ParsedLogical \<Rightarrow> ParsedLogical \<Rightarrow> bool" where
  "pl_ext pl pl' \<longleftrightarrow> map_of (toLogicalKeyMap pl) \<subseteq>\<^sub>m map_of (toLogicalKeyMap pl') \<and> n_keys pl \<le> n_keys pl' \<and>
     (\<exists>xs. logicalTree pl' = logicalTree pl @ xs) \<and> (\<exists>ys. combInfoMap pl' = combInfoMap pl @ ys)"

lemma pl_ext_refl: "pl_ext pl pl"
  by (simp add: pl_ext_def)

lemma pl_ext_trans: "pl_ext pl pl' \<Longrightarrow> pl_ext pl' pl'' \<Longrightarrow> pl_ext pl pl''"
  unfolding pl_ext_def by (auto intro: map_le_trans)

text \<open>The maps and infos that a step of the parser leaves alone.\<close>

definition step_ext :: "ParseState \<Rightarrow> ParseState \<Rightarrow> bool" where
  "step_ext st st' \<longleftrightarrow> pl_ext (ps_pl st) (ps_pl st') \<and> combInfoMap (ps_pl st') = combInfoMap (ps_pl st) \<and>
     toCombKeyMap (ps_pl st') = toCombKeyMap (ps_pl st)"

lemma step_ext_refl: "step_ext st st"
  by (simp add: step_ext_def pl_ext_refl)

lemma step_ext_trans: "step_ext st st' \<Longrightarrow> step_ext st' st'' \<Longrightarrow> step_ext st st''"
  unfolding step_ext_def by (auto intro: pl_ext_trans)

lemma step_ext_upd [simp]:
  "step_ext st (st'\<lparr>op_stack := x\<rparr>) = step_ext st st'" "step_ext st (st'\<lparr>digit := y\<rparr>) = step_ext st st'"
  "step_ext st (st'\<lparr>paren := z\<rparr>) = step_ext st st'"
  by (simp_all add: step_ext_def)

lemma pop_step_ext: "pop_step oper st = Inr st' \<Longrightarrow> step_ext st st'"
  by (erule pop_step_spec) (simp add: step_ext_def pl_ext_def)

lemma pop_while_ext: "pop_while cond ops st = Inr st' \<Longrightarrow> step_ext st st'"
proof (induction ops arbitrary: st)
  case (Cons oper ops)
  then show ?case
    using pop_step_ext step_ext_trans step_ext_refl unfolding pop_while_Cons
    by (metis (no_types, lifting) old.sum.exhaust sum.inject(2) sum.simps(4,5,6))
qed (simp add: step_ext_refl)

lemma push_subid_ext:
  assumes "push_subid logical ckey i st = Inr st'" "parse_inv b st"
  shows "step_ext st st'"
proof (cases "fetchSubID logical (digit st) i")
  case (Inr x)
  show ?thesis
  proof (cases x)
    case None
    then show ?thesis using assms(1) Inr step_ext_refl by (auto simp: push_subid_def)
  next
    case (Some a)
    obtain k m where km: "dense_key (toLogicalKeyMap (ps_pl st)) a = (k, m)" by fastforce
    then show ?thesis
      using assms(1) Inr Some dense_key_spec(3,4) [OF parse_invD(1) [OF assms(2)] km]
      by (auto simp: push_subid_def getLogicalKey_def step_ext_def pl_ext_def)
  qed
qed (use assms(1) in \<open>simp add: push_subid_def\<close>)

lemma parse_symbol_ext: "parse_symbol c st = Inr st' \<Longrightarrow> step_ext st st'"
  using pop_while_ext step_ext_refl
  by (auto simp: parse_symbol_def Let_def split: if_splits option.splits sum.splits)

lemma parse_char_ext: "parse_char logical ckey i st = Inr st' \<Longrightarrow> parse_inv b st \<Longrightarrow> step_ext st st'"
  by (auto simp: parse_char_def step_ext_refl split: if_splits sum.splits
      dest: push_subid_ext parse_symbol_ext intro: step_ext_trans)

lemma parse_loop_ext: "parse_loop logical ckey is st = Inr st' \<Longrightarrow> parse_inv b st \<Longrightarrow> step_ext st st'"
proof (induction "is" arbitrary: st)
  case (Cons i "is")
  then obtain st1 where st1: "parse_char logical ckey i st = Inr st1" "parse_loop logical ckey is st1 = Inr st'"
    by (auto split: sum.splits)
  from Cons.IH [OF st1(2) parse_char_inv [OF Cons.prems(2) st1(1)]] parse_char_ext [OF st1(1) Cons.prems(2)]
  show ?case by (blast intro: step_ext_trans)
qed (simp add: step_ext_refl)

lemma parse_finish_ext: "parse_finish logical ckey st = Inr st' \<Longrightarrow> parse_inv b st \<Longrightarrow> step_ext st st'"
  by (auto simp: parse_finish_def split: if_splits sum.splits
      dest: push_subid_ext pop_while_ext intro: step_ext_trans)

definition start_state :: "ParsedLogical \<Rightarrow> ParseState" where
  "start_state pl =
     \<lparr>ps_pl = pl, op_stack = [], subid_stack = [], lkey_start = INVALID_LKEY, digit = None, paren = 0\<rparr>"

lemma start_state_inv: "dense_ok (toLogicalKeyMap pl) \<Longrightarrow> parse_inv (n_ops pl) (start_state pl)"
  by (auto simp: parse_inv_def start_state_def)

lemma start_state_simps [simp]:
  "ps_pl (start_state pl) = pl" "op_stack (start_state pl) = []" "digit (start_state pl) = None"
  "paren (start_state pl) = 0" "psize (start_state pl) = n_keys pl + n_ops pl"
  "subid_stack (start_state pl) = []"
  by (simp_all add: start_state_def psize_def)

lemma getCombKey_spec:
  assumes "pl_ok pl" "getCombKey pl cid = (ckey, pl0)"
  shows "pl_ok pl0" "toLogicalKeyMap pl0 = toLogicalKeyMap pl" "logicalTree pl0 = logicalTree pl"
    "combInfoMap pl0 = combInfoMap pl" "dense_key (toCombKeyMap pl) cid = (ckey, toCombKeyMap pl0)"
  using assms dense_key_spec(1)
  by (auto simp: getCombKey_def pl_ok_def split: prod.splits)

text \<open>The operations from \<open>b\<close> to \<open>r\<close> are those of a combination.\<close>

definition comb_segment :: "ParsedLogical \<Rightarrow> CombInfo \<Rightarrow> nat \<Rightarrow> nat \<Rightarrow> bool" where
  "comb_segment pl ci b r \<longleftrightarrow> b \<le> r \<and> r < n_ops pl \<and> ci_start ci = op_key b \<and> ci_result ci = op_key r \<and>
     (\<forall>i. b \<le> i \<and> i \<le> r \<longrightarrow> valid_op b (n_keys pl) i (logicalTree pl ! i))"

lemma parse_stages:
  assumes "parseLogicalCombination pl cid logical ekey mn mx = Inr pl'" "pl_ok pl"
  obtains ckey pl0 st1 st where "getCombKey pl cid = (ckey, pl0)"
    "parse_loop logical ckey [0..<length logical] (start_state pl0) = Inr st1"
    "parse_finish logical ckey st1 = Inr st" "lkey_start st \<noteq> INVALID_LKEY"
    "pl' = combinationInfoAdd (ps_pl st) ckey cid ekey (lkey_start st) (hd (subid_stack st)) mn mx"
    "length (subid_stack st) = 1"
proof -
  obtain ckey pl0 where ck: "getCombKey pl cid = (ckey, pl0)" by fastforce
  from assms(1) obtain st1 st where st:
    "parse_loop logical ckey [0..<length logical] (start_state pl0) = Inr st1"
    "parse_finish logical ckey st1 = Inr st" "lkey_start st \<noteq> INVALID_LKEY"
    "pl' = combinationInfoAdd (ps_pl st) ckey cid ekey (lkey_start st) (hd (subid_stack st)) mn mx"
    by (auto simp: parseLogicalCombination_def ck start_state_def Let_def split: sum.splits if_splits)
  moreover have "length (subid_stack st) = 1"
    using st(2) by (auto simp: parse_finish_def split: sum.splits if_splits)
  ultimately show thesis using ck that by blast
qed

lemma combinationInfoAdd_simps [simp]:
  "toLogicalKeyMap (combinationInfoAdd pl c i e s r mn mx) = toLogicalKeyMap pl"
  "logicalTree (combinationInfoAdd pl c i e s r mn mx) = logicalTree pl"
  "toCombKeyMap (combinationInfoAdd pl c i e s r mn mx) = toCombKeyMap pl"
  by (simp_all add: combinationInfoAdd_def)

lemma parse_finished:
  assumes "pl_ok pl" "getCombKey pl cid = (ckey, pl0)"
    and "parse_loop logical ckey [0..<length logical] (start_state pl0) = Inr st1"
    and "parse_finish logical ckey st1 = Inr st"
  shows "parse_inv (n_ops pl) st" "step_ext (start_state pl0) st" "psize st \<le> n_keys pl + n_ops pl + length logical"
proof -
  note ck = getCombKey_spec [OF assms(1,2)]
  have inv0: "parse_inv (n_ops pl) (start_state pl0)"
    using start_state_inv [of pl0] ck by (simp add: pl_ok_def)
  note inv1 = parse_loop_inv [OF inv0 assms(3)]
  show "parse_inv (n_ops pl) st" using parse_finish_inv [OF inv1 assms(4)] .
  show "step_ext (start_state pl0) st"
    using parse_loop_ext [OF assms(3) inv0] parse_finish_ext [OF assms(4) inv1] by (rule step_ext_trans)
  show "psize st \<le> n_keys pl + n_ops pl + length logical"
    using parse_loop_size [OF inv0 assms(3)] parse_finish_size [OF assms(4) inv1] ck by simp
qed

lemma parse_accepted:
  assumes ok: "pl_ok pl" and parse: "parseLogicalCombination pl cid logical ekey mn mx = Inr pl'"
  obtains ci where "combInfoMap pl' = combInfoMap pl @ [ci]" "n_ops pl' < 2 ^ 31 \<Longrightarrow> comb_segment pl' ci (n_ops pl) (n_ops pl' - 1)"
    "pl_ok pl'" "pl_ext pl pl'" "n_keys pl' + n_ops pl' \<le> n_keys pl + n_ops pl + length logical"
    "toCombKeyMap pl' = snd (dense_key (toCombKeyMap pl) cid)" "ci_id ci = cid"
proof -
  obtain ckey pl0 st1 st where s: "getCombKey pl cid = (ckey, pl0)"
    "parse_loop logical ckey [0..<length logical] (start_state pl0) = Inr st1"
    "parse_finish logical ckey st1 = Inr st" "lkey_start st \<noteq> INVALID_LKEY"
    "pl' = combinationInfoAdd (ps_pl st) ckey cid ekey (lkey_start st) (hd (subid_stack st)) mn mx"
    "length (subid_stack st) = 1"
    using parse_stages [OF parse ok] .
  note ck = getCombKey_spec [OF ok s(1)] and fin = parse_finished [OF ok s(1-3)]
  let ?ci = "\<lparr>ci_id = cid, ci_ekey = ekey, ci_start = lkey_start st, ci_result = hd (subid_stack st),
    ci_min_offset = mn, ci_max_offset = mx\<rparr>"
  have seg: "comb_segment pl' ?ci (n_ops pl) (n_ops pl' - 1)" if small: "n_ops pl' < 2 ^ 31"
  proof -
    have start: "lkey_start st = op_key (n_ops pl)" "n_ops pl < n_ops pl'"
      using parse_invD(2,6) [OF fin(1)] s(4,5) small by (auto split: if_splits)
    have "op_key (n_ops pl' - 1) \<in> set (subid_stack st)"
      using parse_invD(5) [OF fin(1)] start(2) s(5) by simp
    then have "hd (subid_stack st) = op_key (n_ops pl' - 1)" using s(6) by (auto simp: length_Suc_conv)
    then show ?thesis
      using start parse_invD(3) [OF fin(1)] s(5) by (auto simp: comb_segment_def)
  qed
  have cim: "combInfoMap pl' = combInfoMap pl @ [?ci]"
    using fin(2) ck(4) s(5) by (simp add: step_ext_def combinationInfoAdd_def)
  have "pl_ok pl'" using fin(2) ck(1) parse_invD(1) [OF fin(1)] s(5) by (simp add: pl_ok_def step_ext_def)
  moreover have "pl_ext pl pl'" using fin(2) ck(2,3) s(5) cim by (simp add: step_ext_def pl_ext_def)
  moreover have "n_keys pl' + n_ops pl' \<le> n_keys pl + n_ops pl + length logical"
    using fin(3) s(5) by (simp add: psize_def)
  moreover have "toCombKeyMap pl' = snd (dense_key (toCombKeyMap pl) cid)"
    using ck(5) fin(2) s(5) by (simp add: step_ext_def)
  ultimately show thesis using that cim seg by simp
qed

lemma push_subid_paren: "push_subid logical ckey i st = Inr st' \<Longrightarrow> paren st' = paren st"
  by (auto simp: push_subid_def split: sum.splits option.splits prod.splits)

text \<open>The parser's loop and its final reductions read a whole expression of the grammar.\<close>

lemma grammar_finishes:
  assumes g: "grammar (Some LOGICAL_OP_OR) logical e" and dense: "dense_ok (toLogicalKeyMap pl0)"
  obtains st1 st k where "parse_loop logical ckey [0..<length logical] (start_state pl0) = Inr st1"
    "parse_finish logical ckey st1 = Inr st" "subid_stack st = [k]" "denotes (n_ops pl0) (ps_pl st) k e"
    "n_ops (ps_pl st) = n_ops pl0 + comb_ops e"
proof -
  let ?b = "n_ops pl0"
  have "stack_rel ?b (start_state pl0) []"
    using start_state_inv [OF dense] by (simp add: stack_rel_def)
  then have "parses ?b logical ckey (Some LOGICAL_OP_OR) 0 (length logical) (start_state pl0) e []"
    using grammar_parses [OF g, of logical "[]" "[]" "start_state pl0" ?b "[]" ckey] by (simp add: top_below_def)
  then obtain st' ops es' where p: "reads logical ckey 0 (length logical) (start_state pl0) st'"
    "paren st' = 0" "op_stack st' = ops @ []" "stack_rel ?b st' (es' @ [])" "reduce ops es' = Some [e]"
    by (rule parsesE) simp
  obtain st1 where st1: "parse_loop logical ckey [0..<length logical] (start_state pl0) = Inr st1"
    "push_subid logical ckey (length logical) st1 = Inr st'"
    using p(1) by (auto simp: reads_def loops_def)
  obtain st where st: "pop_while (\<lambda>_. True) (op_stack st') st' = Inr st" "stack_rel ?b st [e]"
    using pop_while_rel [OF p(4,3), of "[e]" "\<lambda>_. True"] p(5) by auto
  from st(2) obtain k where k: "subid_stack st = [k]" "denotes ?b (ps_pl st) k e"
    "n_ops (ps_pl st) = ?b + comb_ops e"
    by (auto simp: stack_rel_def list_all2_Cons2)
  have "parse_finish logical ckey st1 = Inr st"
    using st1(2) st(1) p(2) k(1) push_subid_paren [OF st1(2)] by (simp add: parse_finish_def)
  then show thesis using that st1(1) k by blast
qed

lemma grammar_accepted:
  assumes g: "grammar (Some LOGICAL_OP_OR) logical e" and ok: "pl_ok pl" and ne: "\<forall>a. e \<noteq> CSub a"
    and small: "n_keys pl + n_ops pl + length logical < 2 ^ 31"
  obtains pl' where "parseLogicalCombination pl cid logical ekey mn mx = Inr pl'"
    "denotes (n_ops pl) pl' (op_key (n_ops pl' - 1)) e"
proof -
  obtain ckey pl0 where ck: "getCombKey pl cid = (ckey, pl0)" by fastforce
  note spec = getCombKey_spec [OF ok ck]
  have dense: "dense_ok (toLogicalKeyMap pl0)" using ok spec by (simp add: pl_ok_def)
  obtain st1 st k where st: "parse_loop logical ckey [0..<length logical] (start_state pl0) = Inr st1"
    "parse_finish logical ckey st1 = Inr st" "subid_stack st = [k]" "denotes (n_ops pl0) (ps_pl st) k e"
    "n_ops (ps_pl st) = n_ops pl0 + comb_ops e"
    using grammar_finishes [OF g dense] .
  note fin = parse_finished [OF ok ck st(1,2)]
  have b: "n_ops pl < n_ops (ps_pl st)" using st(5) comb_ops_pos [OF ne] spec(3) by simp
  moreover have "n_ops (ps_pl st) < 2 ^ 31" using fin(3) small by (simp add: psize_def)
  ultimately have "lkey_start st = op_key (n_ops pl)" "op_key (n_ops pl) \<noteq> INVALID_LKEY"
    using parse_invD(6) [OF fin(1)] by auto
  moreover have k: "k = op_key (n_ops (ps_pl st) - 1)" using parse_invD(5) [OF fin(1) b] st(3) by simp
  ultimately have "parseLogicalCombination pl cid logical ekey mn mx =
      Inr (combinationInfoAdd (ps_pl st) ckey cid ekey (lkey_start st) (hd (subid_stack st)) mn mx)"
    using st(1,2) ck by (simp add: parseLogicalCombination_def start_state_def [symmetric])
  then show thesis by (rule that) (use st(4) k spec in \<open>simp add: denotes_def\<close>)
qed

definition comb_denotes :: "ParsedLogical \<Rightarrow> CombInfo \<Rightarrow> comb_exp \<Rightarrow> bool" where
  "comb_denotes pl ci e \<longleftrightarrow> comb_ids e \<subseteq> dom (map_of (toLogicalKeyMap pl)) \<and>
     (\<exists>b r. comb_segment pl ci b r \<and>
       (\<forall>n lv. n_keys pl \<le> n \<and> n + Suc r < 2 ^ 31 \<and> n + Suc r \<le> length lv \<longrightarrow>
          seg_run n lv (take (Suc r - b) (drop b (logicalTree pl))) ! (n + r) =
            comb_eval (\<lambda>a. lv ! unat (the (map_of (toLogicalKeyMap pl) a))) e))"

lemma comb_denotes_ext:
  assumes d: "comb_denotes pl ci e" and ext: "pl_ext pl pl'"
  shows "comb_denotes pl' ci e"
proof -
  obtain b r where seg: "comb_segment pl ci b r"
    and v: "\<And>n lv. n_keys pl \<le> n \<Longrightarrow> n + Suc r < 2 ^ 31 \<Longrightarrow> n + Suc r \<le> length lv \<Longrightarrow>
          seg_run n lv (take (Suc r - b) (drop b (logicalTree pl))) ! (n + r) =
            comb_eval (\<lambda>a. lv ! unat (the (map_of (toLogicalKeyMap pl) a))) e"
    using d unfolding comb_denotes_def by blast
  obtain xs where tree: "logicalTree pl' = logicalTree pl @ xs" using ext by (auto simp: pl_ext_def)
  have keys: "n_keys pl \<le> n_keys pl'" and le: "map_of (toLogicalKeyMap pl) \<subseteq>\<^sub>m map_of (toLogicalKeyMap pl')"
    using ext by (auto simp: pl_ext_def)
  have r: "r < n_ops pl" "b \<le> r" using seg by (auto simp: comb_segment_def)
  then have t: "take (Suc r - b) (drop b (logicalTree pl')) = take (Suc r - b) (drop b (logicalTree pl))"
    by (simp add: tree)
  have dom: "comb_ids e \<subseteq> dom (map_of (toLogicalKeyMap pl))" using d by (simp add: comb_denotes_def)
  have ev: "comb_eval (\<lambda>a. lv ! unat (the (map_of (toLogicalKeyMap pl') a))) e =
      comb_eval (\<lambda>a. lv ! unat (the (map_of (toLogicalKeyMap pl) a))) e" for lv
  proof (rule comb_eval_cong)
    fix a assume "a \<in> comb_ids e"
    then have "a \<in> dom (map_of (toLogicalKeyMap pl))" using dom by blast
    then show "lv ! unat (the (map_of (toLogicalKeyMap pl') a)) = lv ! unat (the (map_of (toLogicalKeyMap pl) a))"
      using le by (simp add: map_le_def)
  qed
  have "comb_segment pl' ci b r"
    using seg keys valid_op_mono by (fastforce simp: comb_segment_def tree nth_append)
  moreover have "comb_ids e \<subseteq> dom (map_of (toLogicalKeyMap pl'))"
    using dom map_le_implies_dom_le [OF le] by blast
  moreover have "seg_run n lv (take (Suc r - b) (drop b (logicalTree pl'))) ! (n + r) =
      comb_eval (\<lambda>a. lv ! unat (the (map_of (toLogicalKeyMap pl') a))) e"
    if "n_keys pl' \<le> n \<and> n + Suc r < 2 ^ 31 \<and> n + Suc r \<le> length lv" for n lv
    unfolding t ev using v [of n lv] that keys by linarith
  ultimately show ?thesis unfolding comb_denotes_def by blast
qed

lemma comb_denotes_new:
  assumes r: "n_ops pl = Suc r" and seg: "comb_segment pl ci b r" and d: "denotes b pl (op_key r) e"
  shows "comb_denotes pl ci e"
proof -
  have t: "take (Suc r - b) (drop b (logicalTree pl)) = drop b (logicalTree pl)"
    by (rule take_all) (use r in simp)
  have "seg_run n lv (take (Suc r - b) (drop b (logicalTree pl))) ! (n + r) =
      comb_eval (\<lambda>a. lv ! unat (the (map_of (toLogicalKeyMap pl) a))) e"
    if "n_keys pl \<le> n \<and> n + Suc r < 2 ^ 31 \<and> n + Suc r \<le> length lv" for n lv
  proof -
    have "key_val n lv (drop b (logicalTree pl)) (op_key r) =
        comb_eval (\<lambda>a. lv ! unat (the (map_of (toLogicalKeyMap pl) a))) e"
      using d that r by (simp add: denotes_def)
    moreover have "unat (TRY_RENUM_OP n (op_key r)) = n + r" by (rule TRY_RENUM_op(2)) (use that in simp)
    ultimately show ?thesis unfolding t key_val_def by simp
  qed
  moreover have "comb_ids e \<subseteq> dom (map_of (toLogicalKeyMap pl))" using d by (simp add: denotes_def)
  ultimately show ?thesis unfolding comb_denotes_def using seg by blast
qed

section \<open>Renumbering and evaluation\<close>

lemma isLogicalCombination_seg_run:
  assumes seg: "comb_segment pl ci b r" and small: "n_keys pl + n_ops pl < 2 ^ 31"
  defines "rose \<equiv> rose_logical (logicalKeyRenumber pl)" and "n \<equiv> n_keys pl"
  shows "isLogicalCombination rose lvec (TRY_RENUM_OP n (ci_start ci)) (TRY_RENUM_OP n (ci_result ci)) =
    (let lvec' = seg_run n lvec (take (Suc r - b) (drop b (logicalTree pl))) in (lvec' ! (n + r), lvec'))"
proof -
  have br: "b \<le> r" "r < n_ops pl" "ci_start ci = op_key b" "ci_result ci = op_key r"
    using seg by (auto simp: comb_segment_def)
  have pos: "unat (TRY_RENUM_OP n (op_key b)) = n + b" "unat (TRY_RENUM_OP n (op_key r)) = n + r"
    using TRY_RENUM_op(2) br small by (simp_all add: n_def)
  have rose: "rose_logicalTree rose = map (renumber_op n) (logicalTree pl)" "unat (lkeyCount rose) = n"
    using small by (simp_all add: rose_def n_def rose_logical_def logicalKeyRenumber_def Let_def)
  let ?seg = "take (Suc r - b) (drop b (logicalTree pl))"
  have "map (\<lambda>i. rose_logicalTree rose ! (i - n)) [n + b..<Suc (n + r)] = map (renumber_op n) ?seg"
    by (rule nth_equalityI) (use br in \<open>simp_all add: rose del: upt_Suc\<close>)
  moreover have "foldl (\<lambda>lv i. eval_op lv (rose_logicalTree rose ! (i - n))) lv is =
      foldl eval_op lv (map (\<lambda>i. rose_logicalTree rose ! (i - n)) is)" for lv "is"
    by (simp add: foldl_map)
  ultimately show ?thesis
    by (simp only: isLogicalCombination_def Let_def br pos rose(2) seg_run_def getLogicalVal_def)
qed

lemma combination_value:
  assumes d: "comb_denotes pl ci e" and small: "n_keys pl + n_ops pl < 2 ^ 31"
    and lvec: "length lvec = n_keys pl + n_ops pl"
    and v: "\<And>a k. map_of (toLogicalKeyMap pl) a = Some k \<Longrightarrow> lvec ! unat k = v a"
  defines "rose \<equiv> rose_logical (logicalKeyRenumber pl)" and "n \<equiv> n_keys pl"
  shows "fst (isLogicalCombination rose lvec (TRY_RENUM_OP n (ci_start ci)) (TRY_RENUM_OP n (ci_result ci))) =
    comb_eval v e"
proof -
  obtain b r where seg: "comb_segment pl ci b r"
    and val: "\<And>n lv. n_keys pl \<le> n \<and> n + Suc r < 2 ^ 31 \<and> n + Suc r \<le> length lv \<Longrightarrow>
          seg_run n lv (take (Suc r - b) (drop b (logicalTree pl))) ! (n + r) =
            comb_eval (\<lambda>a. lv ! unat (the (map_of (toLogicalKeyMap pl) a))) e"
    using d unfolding comb_denotes_def by blast
  have "r < n_ops pl" using seg by (simp add: comb_segment_def)
  then have "fst (isLogicalCombination rose lvec (TRY_RENUM_OP n (ci_start ci)) (TRY_RENUM_OP n (ci_result ci))) =
      comb_eval (\<lambda>a. lvec ! unat (the (map_of (toLogicalKeyMap pl) a))) e"
    unfolding rose_def n_def isLogicalCombination_seg_run [OF seg small] Let_def fst_conv
    using small lvec by (intro val) linarith
  also have "\<dots> = comb_eval v e"
  proof (rule comb_eval_cong)
    fix a assume "a \<in> comb_ids e"
    then obtain k where "map_of (toLogicalKeyMap pl) a = Some k" using d by (auto simp: comb_denotes_def)
    then show "lvec ! unat (the (map_of (toLogicalKeyMap pl) a)) = v a" using v by simp
  qed
  finally show ?thesis .
qed

lemma parse_combinations_append:
  "parse_combinations pl (cs @ cs') =
     (case parse_combinations pl cs of Inl e \<Rightarrow> Inl e | Inr pl' \<Rightarrow> parse_combinations pl' cs')"
  by (induction cs arbitrary: pl) (auto split: sum.split)

lemma parse_size:
  assumes "parseLogicalCombination pl cid logical ekey mn mx = Inr pl'" "pl_ok pl"
  shows "n_keys pl' + n_ops pl' \<le> n_keys pl + n_ops pl + length logical"
  using parse_stages [OF assms]
proof cases
  case (1 ckey pl0 st1 st)
  then show ?thesis using parse_finished(3) [OF assms(2) 1(1-3)] by (simp add: psize_def)
qed

text \<open>The combinations \<open>cs\<close> have been parsed, and stand for the expressions \<open>es\<close>.\<close>

definition parsed_all :: "ParsedLogical \<Rightarrow> combination list \<Rightarrow> comb_exp list \<Rightarrow> bool" where
  "parsed_all pl cs es \<longleftrightarrow> pl_ok pl \<and> length (combInfoMap pl) = length cs \<and>
     length (toCombKeyMap pl) = length cs \<and> dom (map_of (toCombKeyMap pl)) = c_id ` set cs \<and>
     n_keys pl + n_ops pl \<le> sum_list (map (\<lambda>c. length (c_logical c)) cs) \<and>
     (\<forall>i < length cs. map_of (toCombKeyMap pl) (c_id (cs ! i)) = Some (of_nat i) \<and>
        comb_denotes pl (combInfoMap pl ! i) (es ! i))"

lemma parsed_all_snoc:
  assumes all: "parsed_all pl cs es" and len: "length es = length cs"
    and g: "grammar (Some LOGICAL_OP_OR) (c_logical c) e" "\<forall>a. e \<noteq> CSub a" and new: "c_id c \<notin> c_id ` set cs"
    and small: "sum_list (map (\<lambda>c. length (c_logical c)) (cs @ [c])) < 2 ^ 31"
  shows "\<exists>pl'. parse_combinations pl [c] = Inr pl' \<and> parsed_all pl' (cs @ [c]) (es @ [e])"
proof -
  have ok: "pl_ok pl" and size: "n_keys pl + n_ops pl \<le> sum_list (map (\<lambda>c. length (c_logical c)) cs)"
    using all by (simp_all add: parsed_all_def)
  then have sm: "n_keys pl + n_ops pl + length (c_logical c) < 2 ^ 31" using small by simp
  obtain pl' where p: "parseLogicalCombination pl (c_id c) (c_logical c) (c_ekey c) (c_min_offset c) (c_max_offset c) = Inr pl'"
    and d: "denotes (n_ops pl) pl' (op_key (n_ops pl' - 1)) e"
    using grammar_accepted [OF g(1) ok g(2) sm] .
  have sm': "n_keys pl' + n_ops pl' < 2 ^ 31" using parse_size [OF p ok] sm by simp
  then have "n_ops pl' < 2 ^ 31" by simp
  then obtain ci where ci: "combInfoMap pl' = combInfoMap pl @ [ci]" "comb_segment pl' ci (n_ops pl) (n_ops pl' - 1)"
    "pl_ok pl'" "pl_ext pl pl'" "toCombKeyMap pl' = snd (dense_key (toCombKeyMap pl) (c_id c))"
    using parse_accepted [OF ok p] by metis
  have "n_ops pl' - 1 < n_ops pl'" using ci(2) by (simp only: comb_segment_def)
  then have "n_ops pl' = Suc (n_ops pl' - 1)" by linarith
  then have dn: "comb_denotes pl' ci e" using comb_denotes_new ci(2) d by metis
  obtain k m where km: "dense_key (toCombKeyMap pl) (c_id c) = (k, m)" by fastforce
  have "map_of (toCombKeyMap pl) (c_id c) = None" using all new by (auto simp: parsed_all_def)
  then have m: "map_of m = (map_of (toCombKeyMap pl))(c_id c \<mapsto> k)" "k = of_nat (length cs)" "length m = Suc (length cs)"
    using dense_key_spec(2,7) [OF _ km] ok all by (simp_all add: pl_ok_def parsed_all_def)
  have ids: "c_id (cs ! i) \<noteq> c_id c" if "i < length cs" for i using new nth_mem [OF that] by (metis image_eqI)
  have "parsed_all pl' (cs @ [c]) (es @ [e])"
    unfolding parsed_all_def
  proof (intro conjI allI impI)
    show "dom (map_of (toCombKeyMap pl')) = c_id ` set (cs @ [c])"
      using ci(5) km m(1) all by (simp add: parsed_all_def)
    show "n_keys pl' + n_ops pl' \<le> sum_list (map (\<lambda>c. length (c_logical c)) (cs @ [c]))"
      using parse_size [OF p ok] size by simp
    fix i assume i: "i < length (cs @ [c])"
    show "map_of (toCombKeyMap pl') (c_id ((cs @ [c]) ! i)) = Some (of_nat i)"
      using i ci(5) km m ids all by (auto simp: parsed_all_def nth_append less_Suc_eq)
    show "comb_denotes pl' (combInfoMap pl' ! i) ((es @ [e]) ! i)"
      using i ci(1) dn all len comb_denotes_ext [OF _ ci(4)]
      by (auto simp: parsed_all_def nth_append less_Suc_eq)
  qed (use ci km m all in \<open>simp_all add: parsed_all_def\<close>)
  then show ?thesis using p by simp
qed

lemma parse_combinations_all:
  "list_all2 (\<lambda>c e. grammar (Some LOGICAL_OP_OR) (c_logical c) e \<and> (\<forall>a. e \<noteq> CSub a)) cs es \<Longrightarrow>
   distinct (map c_id cs) \<Longrightarrow> sum_list (map (\<lambda>c. length (c_logical c)) cs) < 2 ^ 31 \<Longrightarrow>
   \<exists>pl. parse_combinations new_ParsedLogical cs = Inr pl \<and> parsed_all pl cs es"
proof (induction cs arbitrary: es rule: rev_induct)
  case Nil
  then show ?case by (simp add: parsed_all_def new_ParsedLogical_def pl_ok_def)
next
  case (snoc c cs)
  obtain es' e where es: "es = es' @ [e]" "list_all2 (\<lambda>c e. grammar (Some LOGICAL_OP_OR) (c_logical c) e \<and> (\<forall>a. e \<noteq> CSub a)) cs es'"
    and g: "grammar (Some LOGICAL_OP_OR) (c_logical c) e" "\<forall>a. e \<noteq> CSub a"
    using snoc.prems(1) by (auto simp: list_all2_append1 list_all2_Cons1)
  obtain pl where pl: "parse_combinations new_ParsedLogical cs = Inr pl" "parsed_all pl cs es'"
    using snoc.IH [OF es(2)] snoc.prems(2,3) by auto
  have "\<exists>pl'. parse_combinations pl [c] = Inr pl' \<and> parsed_all pl' (cs @ [c]) (es' @ [e])"
    by (rule parsed_all_snoc [OF pl(2) _ g]) (use es(2) snoc.prems(2,3) in \<open>auto simp: list_all2_lengthD\<close>)
  then show ?case using pl(1) es(1) by (auto simp: parse_combinations_append simp del: parse_combinations.simps)
qed

lemma grammar_nonempty: "grammar p s e \<Longrightarrow> s \<noteq> []"
  by (induction rule: grammar.induct) auto

lemma getCombInfoById_spec:
  assumes "pl_ok pl" "map_of (toCombKeyMap pl) a = Some (of_nat i)" "i < length (combInfoMap pl)" "i < 2 ^ 32"
  shows "getCombInfoById (logicalKeyRenumber pl) a =
    Inr ((combInfoMap pl ! i)\<lparr>ci_start := TRY_RENUM_OP (n_keys pl) (ci_start (combInfoMap pl ! i)),
      ci_result := TRY_RENUM_OP (n_keys pl) (ci_result (combInfoMap pl ! i))\<rparr>)"
proof -
  have "flat_map_ok (toCombKeyMap pl)" using assms(1) by (simp add: pl_ok_def dense_ok_def)
  then have "flat_map_at (toCombKeyMap pl) a = Inr (of_nat i)"
    using flat_map_find_spec [of "toCombKeyMap pl" a] assms(2) by (auto simp: flat_map_at_def split: if_splits)
  then show ?thesis using assms(3,4) by (simp add: getCombInfoById_def logicalKeyRenumber_def Let_def)
qed

section \<open>The assertions of the evaluation\<close>

definition op_safe :: "RoseLogical \<Rightarrow> u32 \<Rightarrow> u32 \<Rightarrow> LogicalOp \<Rightarrow> bool" where
  "op_safe rose start i lop \<longleftrightarrow> op_id lop = i \<and>
     (op_ro lop < lkeyCount rose \<or> start \<le> op_ro lop \<and> op_ro lop < i) \<and>
     (op_type lop \<noteq> LOGICAL_OP_NOT \<longrightarrow> op_lo lop < lkeyCount rose \<or> start \<le> op_lo lop \<and> op_lo lop < i)"

definition range_safe :: "RoseLogical \<Rightarrow> u32 \<Rightarrow> u32 \<Rightarrow> bool" where
  "range_safe rose start result \<longleftrightarrow> lkeyCount rose \<le> start \<and> start \<le> result \<and>
     result < lkeyCount rose + lopCount rose \<and>
     (\<forall>i. start \<le> i \<and> i \<le> result \<longrightarrow>
        op_safe rose start i (rose_logicalTree rose ! unat (i - lkeyCount rose)))"

section \<open>What holds of every accepted set of combinations\<close>

definition accepted_inv :: "ParsedLogical \<Rightarrow> combination list \<Rightarrow> bool" where
  "accepted_inv pl cs \<longleftrightarrow> pl_ok pl \<and> length (toCombKeyMap pl) \<le> length (combInfoMap pl) \<and>
     c_id ` set cs \<subseteq> dom (map_of (toCombKeyMap pl)) \<and>
     (n_ops pl < 2 ^ 31 \<longrightarrow> (\<forall>ci \<in> set (combInfoMap pl). \<exists>b r. comb_segment pl ci b r))"

lemma comb_segment_ext: "comb_segment pl ci b r \<Longrightarrow> pl_ext pl pl' \<Longrightarrow> comb_segment pl' ci b r"
  unfolding comb_segment_def pl_ext_def using valid_op_mono by (fastforce simp: nth_append)

lemma accepted_inv_step:
  assumes inv: "accepted_inv pl cs"
    and p: "parseLogicalCombination pl (c_id c) logical ekey mn mx = Inr pl'"
  shows "accepted_inv pl' (cs @ [c])"
proof -
  have ok: "pl_ok pl" using inv by (simp add: accepted_inv_def)
  obtain ci where ci: "combInfoMap pl' = combInfoMap pl @ [ci]"
    "n_ops pl' < 2 ^ 31 \<Longrightarrow> comb_segment pl' ci (n_ops pl) (n_ops pl' - 1)"
    "pl_ok pl'" "pl_ext pl pl'" "toCombKeyMap pl' = snd (dense_key (toCombKeyMap pl) (c_id c))"
    using parse_accepted [OF ok p] by metis
  obtain k m where km: "dense_key (toCombKeyMap pl) (c_id c) = (k, m)" by fastforce
  note m = dense_key_spec(2,5) [OF _ km]
  have "n_ops pl \<le> n_ops pl'" using ci(4) by (auto simp: pl_ext_def)
  then have segs: "\<forall>ci \<in> set (combInfoMap pl'). \<exists>b r. comb_segment pl' ci b r" if "n_ops pl' < 2 ^ 31"
    using inv that ci(1,2) comb_segment_ext [OF _ ci(4)] by (fastforce simp: accepted_inv_def)
  then show ?thesis
    using inv ci(1,3,5) km m ok by (auto simp: accepted_inv_def pl_ok_def)
qed

lemma accepted_inv_all: "parse_combinations new_ParsedLogical cs = Inr pl \<Longrightarrow> accepted_inv pl cs"
proof (induction cs arbitrary: pl rule: rev_induct)
  case Nil
  then show ?case by (auto simp: accepted_inv_def new_ParsedLogical_def pl_ok_def)
next
  case (snoc c cs)
  then obtain pl1 where pl1: "parse_combinations new_ParsedLogical cs = Inr pl1" "parse_combinations pl1 [c] = Inr pl"
    by (auto simp: parse_combinations_append simp del: parse_combinations.simps split: sum.splits)
  then show ?case using accepted_inv_step [OF snoc.IH [OF pl1(1)]] by (auto split: sum.splits)
qed

lemma valid_key_range:
  assumes "valid_key b m i k" "m + i < 2 ^ 31" "b \<le> i"
  shows "TRY_RENUM_OP m k < of_nat m \<or> of_nat (m + b) \<le> TRY_RENUM_OP m k \<and> TRY_RENUM_OP m k < of_nat (m + i)"
  using assms(1) unfolding valid_key_def
proof (elim disjE exE conjE)
  fix j assume "j < m" "k = of_nat j"
  then show ?thesis using assms(2) by (simp add: TRY_RENUM_key u32_of_nat_less)
next
  fix j assume "b \<le> j" "j < i" "k = op_key j"
  then show ?thesis
    using assms(2) TRY_RENUM_op(1) [of m j] by (simp del: of_nat_add add: u32_of_nat_less u32_of_nat_le)
qed

lemma segment_op:
  assumes seg: "comb_segment pl ci b r" and small: "n_keys pl + n_ops pl < 2 ^ 31"
    and i: "of_nat (n_keys pl + b) \<le> i" "i \<le> of_nat (n_keys pl + r)"
  defines "lop \<equiv> renumber_op (n_keys pl) (logicalTree pl ! unat (i - of_nat (n_keys pl)))"
  shows "op_id lop = i" "unat (i - of_nat (n_keys pl)) < n_ops pl"
    and "op_ro lop < of_nat (n_keys pl) \<or> of_nat (n_keys pl + b) \<le> op_ro lop \<and> op_ro lop < i"
    and "op_type lop \<noteq> LOGICAL_OP_NOT \<Longrightarrow>
      op_lo lop < of_nat (n_keys pl) \<or> of_nat (n_keys pl + b) \<le> op_lo lop \<and> op_lo lop < i"
proof -
  let ?n = "n_keys pl"
  have r: "r < n_ops pl" "b \<le> r" using seg by (auto simp: comb_segment_def)
  define j where "j = unat i - ?n"
  have un: "?n + b \<le> unat i" "unat i \<le> ?n + r"
    using i small r by (simp_all add: word_le_nat_alt del: of_nat_add)
  then have ij: "i = of_nat (?n + j)" "b \<le> j" "j \<le> r" by (simp_all add: j_def del: of_nat_add)
  then have ij': "unat (i - of_nat ?n) = j" using small r by simp
  then show "unat (i - of_nat ?n) < n_ops pl" using ij r by simp
  have v: "valid_op b ?n j (logicalTree pl ! j)" using seg ij by (simp add: comb_segment_def)
  have nj: "?n + j < 2 ^ 31" using ij r small by simp
  have lop: "lop = renumber_op ?n (logicalTree pl ! j)" by (simp only: lop_def ij')
  show "op_id lop = i"
    using v TRY_RENUM_op(1) [OF nj] unfolding lop ij(1) by (simp add: renumber_op_def valid_op_def)
  show "op_ro lop < of_nat ?n \<or> of_nat (?n + b) \<le> op_ro lop \<and> op_ro lop < i"
    using valid_key_range [OF _ nj ij(2)] v unfolding lop ij(1) by (simp add: renumber_op_def valid_op_def)
  show "op_type lop \<noteq> LOGICAL_OP_NOT \<Longrightarrow> op_lo lop < of_nat ?n \<or> of_nat (?n + b) \<le> op_lo lop \<and> op_lo lop < i"
    using valid_key_range [OF _ nj ij(2)] v unfolding lop ij(1) by (simp add: renumber_op_def valid_op_def)
qed

section \<open>The operands of an accepted expression\<close>

abbreviation key_ids :: "ParsedLogical \<Rightarrow> u32 set" where
  "key_ids pl \<equiv> dom (map_of (toLogicalKeyMap pl))"

text \<open>The digits read since the last symbol, up to position \<open>i\<close>, are \<open>run\<close>.\<close>

definition pending :: "string \<Rightarrow> nat \<Rightarrow> string \<Rightarrow> ParseState \<Rightarrow> bool" where
  "pending logical i run st \<longleftrightarrow> list_all isdigit run \<and>
     (\<exists>pre. logical = pre @ run @ drop i logical \<and> i = length pre + length run \<and>
        digit st = (if run = [] then None else Some (length pre)))"

lemma push_subid_ids:
  assumes p: "push_subid logical ckey i st = Inr st'" and run: "pending logical i run st" and inv: "parse_inv b st"
  shows "key_ids (ps_pl st') = key_ids (ps_pl st) \<union> number_id ` (if run = [] then {} else {run})"
    and "length run \<le> 9" "digit st' = None" "paren st' = paren st"
proof -
  obtain pre where pre: "logical = pre @ run @ drop i logical" "i = length pre + length run" "list_all isdigit run"
    "digit st = (if run = [] then None else Some (length pre))"
    using run unfolding pending_def by blast
  have "key_ids (ps_pl st') = key_ids (ps_pl st) \<union> number_id ` (if run = [] then {} else {run}) \<and> length run \<le> 9 \<and>
    digit st' = None"
  proof (cases "run = []")
    case True
    then show ?thesis using p push_subid_none [of st logical ckey i] pre(4) by simp
  next
    case False
    show ?thesis
    proof (cases "length run \<le> 9")
      case True
      then have f: "fetchSubID logical (digit st) i = Inr (Some (number_id run))"
        using fetchSubID_digits [OF pre(1,3)] pre(2,4) False by (simp add: number_id_def)
      obtain k m where km: "dense_key (toLogicalKeyMap (ps_pl st)) (number_id run) = (k, m)" by fastforce
      then show ?thesis
        using p f True False dense_key_spec(2) [OF parse_invD(1) [OF inv] km] by (auto simp: push_subid_def getLogicalKey_def)
    next
      case long: False
      then show ?thesis using p pre(2,4) False by (simp add: push_subid_def fetchSubID_def)
    qed
  qed
  then show "key_ids (ps_pl st') = key_ids (ps_pl st) \<union> number_id ` (if run = [] then {} else {run})"
    "length run \<le> 9" "digit st' = None" by blast+
  show "paren st' = paren st" by (rule push_subid_paren [OF p])
qed

lemma pop_step_keeps:
  "pop_step oper st = Inr st' \<Longrightarrow> toLogicalKeyMap (ps_pl st') = toLogicalKeyMap (ps_pl st) \<and> digit st' = digit st \<and> paren st' = paren st"
  by (erule pop_step_spec) simp

lemma pop_while_keeps:
  "pop_while cond ops st = Inr st' \<Longrightarrow> toLogicalKeyMap (ps_pl st') = toLogicalKeyMap (ps_pl st) \<and> digit st' = digit st \<and> paren st' = paren st"
proof (induction ops arbitrary: st)
  case (Cons oper ops)
  then show ?case
    using pop_step_keeps [of oper st] unfolding pop_while_Cons by (auto split: if_splits sum.splits)
qed simp

lemma parse_symbol_keeps:
  assumes "parse_symbol c st = Inr st'"
  shows "toLogicalKeyMap (ps_pl st') = toLogicalKeyMap (ps_pl st)" "digit st' = digit st"
    and "paren_depth (paren st) (c # cs) = paren_depth (paren st') cs" "c \<in> set '' ()!&|''"
proof -
  have "toLogicalKeyMap (ps_pl st') = toLogicalKeyMap (ps_pl st) \<and> digit st' = digit st \<and>
    paren_depth (paren st) (c # cs) = paren_depth (paren st') cs \<and> c \<in> set '' ()!&|''"
  proof (cases "toOperator c")
    case None
    then show ?thesis using assms by (auto simp: parse_symbol_def split: if_splits)
  next
    case (Some p)
    then have c: "c \<in> set ''!&|''" by (auto simp: toOperator_def split: if_splits)
    obtain st1 where "pop_while (\<lambda>x. cmpOperator x \<lparr>lo_op = p, lo_paren = paren st\<rparr>) (op_stack st) st = Inr st1"
      and "st' = st1\<lparr>op_stack := \<lparr>lo_op = p, lo_paren = paren st\<rparr> # op_stack st1\<rparr>"
      using assms Some c by (auto simp: parse_symbol_def Let_def split: sum.splits)
    then show ?thesis using pop_while_keeps [of _ "op_stack st" st st1] c by auto
  qed
  then show "toLogicalKeyMap (ps_pl st') = toLogicalKeyMap (ps_pl st)" "digit st' = digit st"
    "paren_depth (paren st) (c # cs) = paren_depth (paren st') cs" "c \<in> set '' ()!&|''"
    by blast+
qed

text \<open>Reading the rest \<open>cs\<close> of a text: its numbers become operands, and what it may contain.\<close>

lemma reads_operands:
  assumes "parse_loop logical ckey [i..<length logical] st = Inr st1" "push_subid logical ckey (length logical) st1 = Inr st2"
    and "pending logical i run st" "parse_inv b st" "cs = drop i logical" "i \<le> length logical"
  shows "key_ids (ps_pl st2) = key_ids (ps_pl st) \<union> number_id ` set (number_runs run cs) \<and>
    (\<forall>r \<in> set (number_runs run cs). length r \<le> 9) \<and> paren_depth (paren st) cs = Some (paren st2) \<and>
    (\<forall>c \<in> set cs. isdigit c \<or> c \<in> set '' ()!&|'')"
  using assms
proof (induction cs arbitrary: i run st)
  case Nil
  have "i = length logical" "st1 = st" using Nil.prems(1,5,6) by simp_all
  then have "pending logical (length logical) run st1" "parse_inv b st1" using Nil.prems(3,4) by simp_all
  note ids = push_subid_ids [OF Nil.prems(2) this]
  show ?case using ids \<open>st1 = st\<close> by auto
next
  case (Cons c cs)
  have i: "i < length logical" using Cons.prems(5,6) by (cases "i = length logical") simp_all
  have "logical ! i # drop (Suc i) logical = c # cs" using Cons_nth_drop_Suc [OF i] Cons.prems(5) by simp
  then have c: "logical ! i = c" "cs = drop (Suc i) logical" by simp_all
  obtain sta where sta: "parse_char logical ckey i st = Inr sta" "parse_loop logical ckey [Suc i..<length logical] sta = Inr st1"
    using Cons.prems(1) i by (auto simp: upt_conv_Cons split: sum.splits)
  note inv = parse_char_inv [OF Cons.prems(4) sta(1)]
  obtain pre where pre: "logical = pre @ run @ drop i logical" "i = length pre + length run" "list_all isdigit run"
    "digit st = (if run = [] then None else Some (length pre))"
    using Cons.prems(3) unfolding pending_def by blast
  have split: "logical = pre @ run @ [c] @ cs" using pre(1) Cons.prems(5) by simp
  show ?case
  proof (cases "isdigit c")
    case True
    then have "digit sta = Some (length pre)" and same: "ps_pl sta = ps_pl st" "paren sta = paren st"
      using sta(1) pre(2,4) c(1) by (auto simp: parse_char_def split: if_splits)
    then have "pending logical (Suc i) (run @ [c]) sta"
      unfolding pending_def using True pre(2,3) split c(2) by (intro conjI exI [of _ pre]) simp_all
    from Cons.IH [OF sta(2) Cons.prems(2) this inv c(2)] i True same show ?thesis by auto
  next
    case False
    then obtain stb where stb: "push_subid logical ckey i st = Inr stb" "parse_symbol c stb = Inr sta"
      using sta(1) c(1) by (auto simp: parse_char_def split: sum.splits)
    note ids = push_subid_ids [OF stb(1) Cons.prems(3,4)] and sym = parse_symbol_keeps [OF stb(2)]
    have "pending logical (Suc i) [] sta"
      unfolding pending_def using ids(3) sym(2) pre(2) split c(2) by (intro conjI exI [of _ "pre @ run @ [c]"]) simp_all
    note IH = Cons.IH [OF sta(2) Cons.prems(2) this inv c(2)]
    show ?thesis using IH i False ids sym(1,2,4) sym(3) [of cs] by auto
  qed
qed

lemma accepted_operands:
  assumes "pl_ok pl" "parseLogicalCombination pl cid logical ekey mn mx = Inr pl'"
  shows "key_ids pl' = key_ids pl \<union> set (operand_ids logical)"
    and "\<forall>r \<in> set (number_runs [] logical). length r \<le> 9" "paren_depth 0 logical = Some 0"
    and "\<forall>c \<in> set logical. isdigit c \<or> c \<in> set '' ()!&|''"
proof -
  obtain ckey pl0 st1 st where s: "getCombKey pl cid = (ckey, pl0)"
    "parse_loop logical ckey [0..<length logical] (start_state pl0) = Inr st1" "parse_finish logical ckey st1 = Inr st"
    "pl' = combinationInfoAdd (ps_pl st) ckey cid ekey (lkey_start st) (hd (subid_stack st)) mn mx"
    using parse_stages [OF assms(2,1)] by metis
  note ck = getCombKey_spec [OF assms(1) s(1)]
  have inv: "parse_inv (n_ops pl) (start_state pl0)" using start_state_inv [of pl0] ck by (simp add: pl_ok_def)
  obtain st2 where st2: "push_subid logical ckey (length logical) st1 = Inr st2" "paren st1 = 0"
    "pop_while (\<lambda>_. True) (op_stack st2) st2 = Inr st"
    using s(3) by (auto simp: parse_finish_def split: if_splits sum.splits)
  have run: "pending logical 0 [] (start_state pl0)" by (simp add: pending_def)
  note r = reads_operands [OF s(2) st2(1) run inv, of logical, simplified]
  have keys: "key_ids pl' = key_ids (ps_pl st2)" using s(4) pop_while_keeps [OF st2(3)] by simp
  have "paren st2 = 0" using push_subid_paren [OF st2(1)] st2(2) by simp
  with r show "key_ids pl' = key_ids pl \<union> set (operand_ids logical)"
    "\<forall>r \<in> set (number_runs [] logical). length r \<le> 9" "paren_depth 0 logical = Some 0"
    "\<forall>c \<in> set logical. isdigit c \<or> c \<in> set '' ()!&|''"
    unfolding keys operand_ids_def set_map by (simp_all add: ck(2))
qed

lemma accepted_keys:
  "parse_combinations new_ParsedLogical cs = Inr pl \<Longrightarrow>
     fst ` set (toLogicalKeyMap pl) = (\<Union>c \<in> set cs. set (operand_ids (c_logical c)))"
proof (induction cs arbitrary: pl rule: rev_induct)
  case Nil
  then show ?case by (auto simp: new_ParsedLogical_def)
next
  case (snoc c cs)
  then obtain pl1 where pl1: "parse_combinations new_ParsedLogical cs = Inr pl1" "parse_combinations pl1 [c] = Inr pl"
    by (auto simp: parse_combinations_append simp del: parse_combinations.simps split: sum.splits)
  have "pl_ok pl1" using accepted_inv_all [OF pl1(1)] by (simp add: accepted_inv_def)
  from accepted_operands(1) [OF this] pl1(2) have "key_ids pl = key_ids pl1 \<union> set (operand_ids (c_logical c))"
    by (auto split: sum.splits)
  then show ?case using snoc.IH [OF pl1(1)] by (simp add: dom_map_of_conv_image_fst Un_commute)
qed

section \<open>Results\<close>

text \<open>
  C14. Take a set of logical combinations with pairwise distinct ids, as an assertion of the code
  requires, less than \<open>2\<^sup>31\<close> characters long in all, each an infix expression with at least one
  operator over ids of at most nine digits: \<open>|\<close>, \<open>&\<close> and \<open>!\<close> in increasing priority, \<open>!\<close> before
  an id or a parenthesis and not doubled, parentheses, and spaces as the only whitespace. It is
  accepted, and after renumbering the scan-time evaluation of each combination, found by its id, gives
  the Boolean value of its expression for every assignment of matches to the sub-expressions.
\<close>

theorem combination_semantics:
  assumes "list_all2 (\<lambda>c e. grammar (Some LOGICAL_OP_OR) (c_logical c) e \<and> (\<forall>a. e \<noteq> CSub a)) cs es"
    and "distinct (map c_id cs)" and "sum_list (map (\<lambda>c. length (c_logical c)) cs) < 2 ^ 31"
  shows "\<exists>pl. parse_combinations new_ParsedLogical cs = Inr pl \<and>
    (\<forall>i < length cs. \<exists>ci. getCombInfoById (logicalKeyRenumber pl) (c_id (cs ! i)) = Inr ci \<and>
      (\<forall>v lvec. length lvec = length (toLogicalKeyMap pl) + length (logicalTree pl) \<and>
          (\<forall>a k. map_of (toLogicalKeyMap pl) a = Some k \<longrightarrow> lvec ! unat k = v a) \<longrightarrow>
        fst (isLogicalCombination (rose_logical (logicalKeyRenumber pl)) lvec (ci_start ci) (ci_result ci)) =
          comb_eval v (es ! i)))"
proof -
  obtain pl where pl: "parse_combinations new_ParsedLogical cs = Inr pl" and all: "parsed_all pl cs es"
    using parse_combinations_all [OF assms] by blast
  have small: "n_keys pl + n_ops pl < 2 ^ 31" and ok: "pl_ok pl" and len: "length (combInfoMap pl) = length cs"
    using all assms(3) by (auto simp: parsed_all_def)
  have "length cs \<le> sum_list (map (\<lambda>c. length (c_logical c)) cs)"
    using assms(1)
  proof (induction rule: list_all2_induct)
    case (Cons c cs e es)
    then have "c_logical c \<noteq> []" using grammar_nonempty by blast
    then show ?case using Cons by (cases "c_logical c") simp_all
  qed simp
  then have lt: "length cs < 2 ^ 32" using assms(3) by simp
  show ?thesis
  proof (intro exI [of _ pl] conjI allI impI pl)
    fix i assume i: "i < length cs"
    let ?ci = "combInfoMap pl ! i" and ?n = "n_keys pl"
    have key: "map_of (toCombKeyMap pl) (c_id (cs ! i)) = Some (of_nat i)" and den: "comb_denotes pl ?ci (es ! i)"
      using all i by (auto simp: parsed_all_def)
    let ?ci' = "?ci\<lparr>ci_start := TRY_RENUM_OP ?n (ci_start ?ci), ci_result := TRY_RENUM_OP ?n (ci_result ?ci)\<rparr>"
    have "getCombInfoById (logicalKeyRenumber pl) (c_id (cs ! i)) = Inr ?ci'"
      by (rule getCombInfoById_spec [OF ok key]) (use i len lt in simp_all)
    then show "\<exists>ci. getCombInfoById (logicalKeyRenumber pl) (c_id (cs ! i)) = Inr ci \<and>
      (\<forall>v lvec. length lvec = length (toLogicalKeyMap pl) + length (logicalTree pl) \<and>
          (\<forall>a k. map_of (toLogicalKeyMap pl) a = Some k \<longrightarrow> lvec ! unat k = v a) \<longrightarrow>
        fst (isLogicalCombination (rose_logical (logicalKeyRenumber pl)) lvec (ci_start ci) (ci_result ci)) =
          comb_eval v (es ! i))"
      using combination_value [OF den small] by auto
  qed
qed

lemma example_grammar:
  "grammar (Some LOGICAL_OP_OR) ''(301|302)& !7'' (CAnd (COr (CSub 301) (CSub 302)) (CNot (CSub 7)))"
proof -
  have n: "grammar None ''301'' (CSub 301)" "grammar None ''302'' (CSub 302)" "grammar None ''7'' (CSub 7)"
    using g_num [of "''301''"] g_num [of "''302''"] g_num [of "''7''"] by (simp_all add: isdigit_def dec_val_def)
  have o: "grammar (Some LOGICAL_OP_OR) ''301|302'' (COr (CSub 301) (CSub 302))"
    using g_or [OF g_term [OF g_unary [OF g_operand [OF n(1)]]] g_unary [OF g_operand [OF n(2)]]] by simp
  have "grammar (Some LOGICAL_OP_NOT) '' !7'' (CNot (CSub 7))"
    using g_space_before [OF g_not [OF n(3)]] by simp
  then show ?thesis
    using g_term [OF g_and [OF g_unary [OF g_operand [OF g_paren [OF o]]]]] by simp
qed

theorem combination_semantics_witness:
  "\<exists>pl ci. parse_combinations new_ParsedLogical
      [\<lparr>c_id = 9, c_logical = ''(301|302)& !7'', c_ekey = 0, c_min_offset = 0, c_max_offset = 0\<rparr>] = Inr pl \<and>
    getCombInfoById (logicalKeyRenumber pl) 9 = Inr ci \<and>
    (\<forall>v lvec. length lvec = length (toLogicalKeyMap pl) + length (logicalTree pl) \<and>
        (\<forall>a k. map_of (toLogicalKeyMap pl) a = Some k \<longrightarrow> lvec ! unat k = v a) \<longrightarrow>
      fst (isLogicalCombination (rose_logical (logicalKeyRenumber pl)) lvec (ci_start ci) (ci_result ci)) =
        ((v 301 \<or> v 302) \<and> \<not> v 7))"
  using combination_semantics
    [of "[\<lparr>c_id = 9, c_logical = ''(301|302)& !7'', c_ekey = 0, c_min_offset = 0, c_max_offset = 0\<rparr>]"
      "[CAnd (COr (CSub 301) (CSub 302)) (CNot (CSub 7))]"] example_grammar
  by auto

text \<open>
  C15. Whatever expressions are accepted, with fewer than \<open>2\<^sup>31\<close> keys and operations in all, the compiled combinations meet every assertion of the
  scan-time evaluation: the range of each is inside the operations and runs forwards, every operation
  in it is numbered by its position, and it reads only sub-expression keys and the results of earlier
  operations of the same combination.
\<close>

theorem combination_ranges_safe:
  assumes "parse_combinations new_ParsedLogical cs = Inr pl"
    and "length (toLogicalKeyMap pl) + length (logicalTree pl) < 2 ^ 31"
  shows "\<forall>ci \<in> set (combInfoMap (logicalKeyRenumber pl)).
    range_safe (rose_logical (logicalKeyRenumber pl)) (ci_start ci) (ci_result ci)"
proof (rule ballI)
  let ?n = "n_keys pl" and ?rose = "rose_logical (logicalKeyRenumber pl)"
  have rose: "lkeyCount ?rose = of_nat ?n" "lkeyCount ?rose + lopCount ?rose = of_nat (?n + n_ops pl)"
    "rose_logicalTree ?rose = map (renumber_op ?n) (logicalTree pl)"
    by (simp_all add: rose_logical_def logicalKeyRenumber_def Let_def)
  fix ci assume "ci \<in> set (combInfoMap (logicalKeyRenumber pl))"
  then obtain ci0 where ci0: "ci0 \<in> set (combInfoMap pl)"
    and ci: "ci_start ci = TRY_RENUM_OP ?n (ci_start ci0)" "ci_result ci = TRY_RENUM_OP ?n (ci_result ci0)"
    by (auto simp: logicalKeyRenumber_def Let_def)
  then obtain b r where seg: "comb_segment pl ci0 b r"
    using accepted_inv_all [OF assms(1)] assms(2) by (auto simp: accepted_inv_def)
  then have br: "b \<le> r" "r < n_ops pl" by (auto simp: comb_segment_def)
  have st: "ci_start ci = of_nat (?n + b)" "ci_result ci = of_nat (?n + r)"
    using seg ci TRY_RENUM_op(1) br assms(2) by (auto simp: comb_segment_def simp del: of_nat_add)
  show "range_safe ?rose (ci_start ci) (ci_result ci)"
    unfolding range_safe_def rose(2)
  proof (intro conjI allI impI)
    show "lkeyCount ?rose \<le> ci_start ci" "ci_start ci \<le> ci_result ci" "ci_result ci < of_nat (?n + n_ops pl)"
      unfolding st rose(1) using br assms(2) by (simp_all add: u32_of_nat_le u32_of_nat_less del: of_nat_add)
    fix i assume "ci_start ci \<le> i \<and> i \<le> ci_result ci"
    then have i: "of_nat (?n + b) \<le> i" "i \<le> of_nat (?n + r)" unfolding st by auto
    note op = segment_op [OF seg assms(2) i]
    show "op_safe ?rose (ci_start ci) i (rose_logicalTree ?rose ! unat (i - lkeyCount ?rose))"
      unfolding op_safe_def rose(1,3) st nth_map [OF op(2)] using op(1,3,4) by blast
  qed
qed

theorem combination_ranges_safe_witness:
  "\<exists>pl. parse_combinations new_ParsedLogical
      [\<lparr>c_id = 9, c_logical = ''1&2 3|'', c_ekey = 0, c_min_offset = 0, c_max_offset = 0\<rparr>] = Inr pl \<and>
    (\<forall>ci \<in> set (combInfoMap (logicalKeyRenumber pl)).
      range_safe (rose_logical (logicalKeyRenumber pl)) (ci_start ci) (ci_result ci))"
proof -
  let ?p = "parse_combinations new_ParsedLogical
      [\<lparr>c_id = 9, c_logical = ''1&2 3|'', c_ekey = 0, c_min_offset = 0, c_max_offset = 0\<rparr>]"
  have "case ?p of Inl e \<Rightarrow> False | Inr pl \<Rightarrow> length (toLogicalKeyMap pl) + length (logicalTree pl) < 2 ^ 31"
    by code_simp
  then obtain pl where "?p = Inr pl" "length (toLogicalKeyMap pl) + length (logicalTree pl) < 2 ^ 31"
    by (auto split: sum.splits)
  then show ?thesis using combination_ranges_safe by blast
qed

text \<open>
  C16. The sub-expressions that have keys after a set of combinations has been accepted are exactly the
  ids that the texts of the combinations contain (their maximal runs of digits, read as decimal
  numbers), and the keys are a bijection between these ids and the numbers from zero up.
\<close>

theorem logical_keys_dense:
  assumes "parse_combinations new_ParsedLogical cs = Inr pl"
    and "length (toLogicalKeyMap pl) + length (logicalTree pl) < 2 ^ 31"
  shows "fst ` set (toLogicalKeyMap pl) = (\<Union>c \<in> set cs. set (operand_ids (c_logical c))) \<and>
    bij_betw (\<lambda>a. unat (the (map_of (toLogicalKeyMap pl) a))) (\<Union>c \<in> set cs. set (operand_ids (c_logical c)))
      {..<length (toLogicalKeyMap pl)}"
proof -
  let ?m = "toLogicalKeyMap pl"
  have dense: "dense_ok ?m" using accepted_inv_all [OF assms(1)] by (simp add: accepted_inv_def pl_ok_def)
  then have dist: "distinct (map fst ?m)"
    using strict_sorted_iff by (auto simp: dense_ok_def flat_map_ok_def)
  have small: "length ?m < 2 ^ 32" using assms(2) by simp
  have "inj_on (\<lambda>a. unat (the (map_of ?m a))) (fst ` set ?m)"
  proof (rule inj_onI)
    fix a b assume "a \<in> fst ` set ?m" "b \<in> fst ` set ?m" and eq: "unat (the (map_of ?m a)) = unat (the (map_of ?m b))"
    then obtain k l where kl: "map_of ?m a = Some k" "map_of ?m b = Some l"
      using map_of_eq_None_iff by (metis not_None_eq)
    then have "k = l" using eq by (simp add: word_unat_eq_iff)
    then show "a = b" using dense_ok_inj [OF dense, of a k b] small kl by simp
  qed
  moreover have "(\<lambda>a. unat (the (map_of ?m a))) ` fst ` set ?m = unat ` snd ` set ?m"
    using dist by (auto simp: image_iff) (metis fst_conv map_of_is_SomeI option.sel snd_conv)+
  moreover have "unat ` snd ` set ?m = {..<length ?m}"
    using dense small by (auto simp: dense_ok_def image_image)
  ultimately have "bij_betw (\<lambda>a. unat (the (map_of ?m a))) (fst ` set ?m) {..<length ?m}" by (simp add: bij_betw_def)
  then show ?thesis using accepted_keys [OF assms(1)] by simp
qed

text \<open>Two combinations that both refer to 20: the keys 0, 1 and 2 go to the three ids in their texts.\<close>

theorem logical_keys_dense_witness:
  "\<exists>pl. parse_combinations new_ParsedLogical
      [\<lparr>c_id = 9, c_logical = ''12&20|12'', c_ekey = 0, c_min_offset = 0, c_max_offset = 0\<rparr>,
       \<lparr>c_id = 10, c_logical = ''!(5|20)'', c_ekey = 0, c_min_offset = 0, c_max_offset = 0\<rparr>] = Inr pl \<and>
    fst ` set (toLogicalKeyMap pl) = {5, 12, 20} \<and>
    bij_betw (\<lambda>a. unat (the (map_of (toLogicalKeyMap pl) a))) {5, 12, 20} {..<3}"
proof -
  let ?cs = "[\<lparr>c_id = 9, c_logical = ''12&20|12'', c_ekey = 0, c_min_offset = 0, c_max_offset = 0\<rparr>,
       \<lparr>c_id = 10, c_logical = ''!(5|20)'', c_ekey = 0, c_min_offset = 0, c_max_offset = 0\<rparr>]"
  have "case parse_combinations new_ParsedLogical ?cs of Inl e \<Rightarrow> False | Inr pl \<Rightarrow>
      length (toLogicalKeyMap pl) + length (logicalTree pl) < 2 ^ 31 \<and> length (toLogicalKeyMap pl) = 3"
    by code_simp
  then obtain pl where pl: "parse_combinations new_ParsedLogical ?cs = Inr pl"
    "length (toLogicalKeyMap pl) + length (logicalTree pl) < 2 ^ 31" "length (toLogicalKeyMap pl) = 3"
    by (auto split: sum.splits)
  have "operand_ids ''12&20|12'' = [12, 20, 12]" "operand_ids ''!(5|20)'' = [5, 20]" by code_simp+
  then have "(\<Union>c \<in> set ?cs. set (operand_ids (c_logical c))) = {5, 12, 20}" by auto
  then show ?thesis using logical_keys_dense [OF pl(1,2)] pl(1,3) by auto
qed

text \<open>
  A single expression id without an operator is rejected, wherever it stands in the pattern set.
\<close>

lemma bare_id_rejected:
  assumes "grammar (Some LOGICAL_OP_OR) logical (CSub a)" and "pl_ok pl"
    and "n_keys pl + n_ops pl + length logical < 2 ^ 31"
  shows "parseLogicalCombination pl cid logical ekey mn mx = Inl No_logical_operation"
proof -
  obtain ckey pl0 where ck: "getCombKey pl cid = (ckey, pl0)" by fastforce
  note spec = getCombKey_spec [OF assms(2) ck]
  have dense: "dense_ok (toLogicalKeyMap pl0)" using assms(2) spec by (simp add: pl_ok_def)
  obtain st1 st k where st: "parse_loop logical ckey [0..<length logical] (start_state pl0) = Inr st1"
    "parse_finish logical ckey st1 = Inr st" "n_ops (ps_pl st) = n_ops pl0 + comb_ops (CSub a)"
    using grammar_finishes [OF assms(1) dense] by metis
  note fin = parse_finished [OF assms(2) ck st(1,2)]
  have "n_ops (ps_pl st) = n_ops pl" using st(3) spec(3) by simp
  moreover have "n_ops (ps_pl st) < 2 ^ 31" using calculation assms(3) by simp
  ultimately have "lkey_start st = INVALID_LKEY" using parse_invD(6) [OF fin(1)] by simp
  then show ?thesis using st(1,2) ck by (simp add: parseLogicalCombination_def start_state_def [symmetric])
qed

lemma bare_id_rejected_witness:
  "parseLogicalCombination new_ParsedLogical 9 ''301'' 0 0 0 = Inl No_logical_operation"
proof (rule bare_id_rejected)
  show "grammar (Some LOGICAL_OP_OR) ''301'' (CSub (of_nat (dec_val ''301'')))"
    by (intro g_term g_unary g_operand g_num) (simp_all add: isdigit_def)
qed (simp_all add: new_ParsedLogical_def pl_ok_def)

text \<open>
  A doubled negation is not accepted: the second \<open>!\<close> makes the parser pop the first one, which
  has no operand yet, whatever follows.
\<close>

lemma double_negation_rejected:
  "parseLogicalCombination pl cid (''!!'' @ s) ekey mn mx = Inl (LocatedParseError Not_enough_operand 1)"
proof -
  have upt: "[0..<length (''!!'' @ s)] = 0 # 1 # [2..<length (''!!'' @ s)]"
    by (simp add: upt_conv_Cons numeral_2_eq_2 del: upt_Suc)
  show ?thesis
    unfolding parseLogicalCombination_def upt
    by (simp add: Let_def split_beta parse_char_def push_subid_none parse_symbol_def cmpOperator_def popOperator_def)
qed

section \<open>Refused expressions\<close>







text \<open>
  Without the assertion on \<open>ckey\<close>, a combination with the id of an earlier one would add an entry to the table of
  combinations and no key, so that the keys no longer are the positions of the entries.
\<close>

lemma duplicate_id_adds_no_key:
  assumes "parse_combinations new_ParsedLogical cs = Inr pl" and "c \<in> set cs"
    and "parseLogicalCombination pl (c_id c) logical ekey mn mx = Inr pl'"
  shows "toCombKeyMap pl' = toCombKeyMap pl" "length (combInfoMap pl') = Suc (length (combInfoMap pl))"
proof -
  have inv: "accepted_inv pl cs" using accepted_inv_all [OF assms(1)] .
  then have ok: "pl_ok pl" by (simp add: accepted_inv_def)
  obtain ci where ci: "combInfoMap pl' = combInfoMap pl @ [ci]"
    "toCombKeyMap pl' = snd (dense_key (toCombKeyMap pl) (c_id c))"
    using parse_accepted [OF ok assms(3)] by metis
  have "map_of (toCombKeyMap pl) (c_id c) \<noteq> None" using inv assms(2) by (auto simp: accepted_inv_def)
  then show "toCombKeyMap pl' = toCombKeyMap pl" using ci(2) dense_key_spec(8) ok by (metis pl_ok_def prod.collapse)
  show "length (combInfoMap pl') = Suc (length (combInfoMap pl))" using ci(1) by simp
qed

text \<open>With the ids 9, 9 and 10, the key of the third combination selects the entry of the second.\<close>

lemma duplicate_id_wrong_entry:
  "\<exists>pl ci. parse_combinations new_ParsedLogical
      [\<lparr>c_id = 9, c_logical = ''1&2'', c_ekey = 0, c_min_offset = 0, c_max_offset = 0\<rparr>,
       \<lparr>c_id = 9, c_logical = ''3|4'', c_ekey = 0, c_min_offset = 0, c_max_offset = 0\<rparr>,
       \<lparr>c_id = 10, c_logical = ''5&6'', c_ekey = 0, c_min_offset = 0, c_max_offset = 0\<rparr>] = Inr pl \<and>
    getCombInfoById pl 10 = Inr ci \<and> ci = combInfoMap pl ! 1 \<and> ci_id ci = 9"
proof -
  let ?p = "parse_combinations new_ParsedLogical
      [\<lparr>c_id = 9, c_logical = ''1&2'', c_ekey = 0, c_min_offset = 0, c_max_offset = 0\<rparr>,
       \<lparr>c_id = 9, c_logical = ''3|4'', c_ekey = 0, c_min_offset = 0, c_max_offset = 0\<rparr>,
       \<lparr>c_id = 10, c_logical = ''5&6'', c_ekey = 0, c_min_offset = 0, c_max_offset = 0\<rparr>]"
  have "case ?p of Inl e \<Rightarrow> False | Inr pl \<Rightarrow>
      (case getCombInfoById pl 10 of Inl e \<Rightarrow> False | Inr ci \<Rightarrow> ci = combInfoMap pl ! 1 \<and> ci_id ci = 9)"
    by code_simp
  then show ?thesis by (auto split: sum.splits)
qed

end
