(* ===== verification/Report.thy ===== *)
theory Report
  imports LogicalCombination "HOL-Library.List_Lexorder"
begin

text \<open>
  The data attached to a match at compile time, \<^verbatim>\<open>util/report.h\<close>: its type, its bounds and
  keys, the comparison operators and the classification of reports. \<^verbatim>\<open>s32\<close> values are words
  compared as signed numbers.
\<close>

section \<open>Model\<close>

datatype ReportType = EXTERNAL_CALLBACK | EXTERNAL_CALLBACK_SOM_REL | INTERNAL_SOM_LOC_SET
  | INTERNAL_SOM_LOC_SET_IF_UNSET | INTERNAL_SOM_LOC_SET_IF_WRITABLE | INTERNAL_SOM_LOC_SET_SOM_REV_NFA
  | INTERNAL_SOM_LOC_SET_SOM_REV_NFA_IF_UNSET | INTERNAL_SOM_LOC_SET_SOM_REV_NFA_IF_WRITABLE
  | INTERNAL_SOM_LOC_COPY | INTERNAL_SOM_LOC_COPY_IF_WRITABLE | INTERNAL_SOM_LOC_MAKE_WRITABLE
  | EXTERNAL_CALLBACK_SOM_STORED | EXTERNAL_CALLBACK_SOM_ABS | EXTERNAL_CALLBACK_SOM_REV_NFA
  | INTERNAL_SOM_LOC_SET_FROM | INTERNAL_SOM_LOC_SET_FROM_IF_WRITABLE | INTERNAL_ROSE_CHAIN
  | EXTERNAL_CALLBACK_SOM_PASS

fun type_value :: "ReportType \<Rightarrow> nat" where
  "type_value EXTERNAL_CALLBACK = 0" | "type_value EXTERNAL_CALLBACK_SOM_REL = 1"
| "type_value INTERNAL_SOM_LOC_SET = 2" | "type_value INTERNAL_SOM_LOC_SET_IF_UNSET = 3"
| "type_value INTERNAL_SOM_LOC_SET_IF_WRITABLE = 4" | "type_value INTERNAL_SOM_LOC_SET_SOM_REV_NFA = 5"
| "type_value INTERNAL_SOM_LOC_SET_SOM_REV_NFA_IF_UNSET = 6"
| "type_value INTERNAL_SOM_LOC_SET_SOM_REV_NFA_IF_WRITABLE = 7" | "type_value INTERNAL_SOM_LOC_COPY = 8"
| "type_value INTERNAL_SOM_LOC_COPY_IF_WRITABLE = 9" | "type_value INTERNAL_SOM_LOC_MAKE_WRITABLE = 10"
| "type_value EXTERNAL_CALLBACK_SOM_STORED = 11" | "type_value EXTERNAL_CALLBACK_SOM_ABS = 12"
| "type_value EXTERNAL_CALLBACK_SOM_REV_NFA = 13" | "type_value INTERNAL_SOM_LOC_SET_FROM = 14"
| "type_value INTERNAL_SOM_LOC_SET_FROM_IF_WRITABLE = 15" | "type_value INTERNAL_ROSE_CHAIN = 16"
| "type_value EXTERNAL_CALLBACK_SOM_PASS = 17"

definition MAX_OFFSET :: u64a where "MAX_OFFSET = 0xffffffffffffffff"
definition INVALID_EKEY :: u32 where "INVALID_EKEY = NOT 0"

record Report =
  rep_type :: ReportType
  quashSom :: bool
  minOffset :: u64a
  maxOffset :: u64a
  minLength :: u64a
  ekey :: u32
  lkey :: u32
  quiet :: bool
  offsetAdjust :: "32 word"
  onmatch :: u32
  revNfaIndex :: u32
  somDistance :: u64a
  topSquashDistance :: u64a

definition new_Report :: "ReportType \<Rightarrow> u32 \<Rightarrow> Report" where
  "new_Report type_in onmatch_in =
     \<lparr>rep_type = type_in, quashSom = False, minOffset = 0, maxOffset = MAX_OFFSET, minLength = 0,
      ekey = INVALID_EKEY, lkey = INVALID_LKEY, quiet = False, offsetAdjust = 0, onmatch = onmatch_in,
      revNfaIndex = 0, somDistance = 0, topSquashDistance = 0\<rparr>"

definition hasBounds :: "Report \<Rightarrow> bool" where
  "hasBounds r \<longleftrightarrow> minOffset r > 0 \<or> maxOffset r < MAX_OFFSET \<or> minLength r > 0"

definition isExternalReport :: "Report \<Rightarrow> bool" where
  "isExternalReport r = (case rep_type r of
       INTERNAL_SOM_LOC_SET \<Rightarrow> False | INTERNAL_SOM_LOC_SET_IF_UNSET \<Rightarrow> False
     | INTERNAL_SOM_LOC_SET_IF_WRITABLE \<Rightarrow> False | INTERNAL_SOM_LOC_SET_SOM_REV_NFA \<Rightarrow> False
     | INTERNAL_SOM_LOC_SET_SOM_REV_NFA_IF_UNSET \<Rightarrow> False
     | INTERNAL_SOM_LOC_SET_SOM_REV_NFA_IF_WRITABLE \<Rightarrow> False | INTERNAL_SOM_LOC_COPY \<Rightarrow> False
     | INTERNAL_SOM_LOC_COPY_IF_WRITABLE \<Rightarrow> False | INTERNAL_SOM_LOC_MAKE_WRITABLE \<Rightarrow> False
     | INTERNAL_SOM_LOC_SET_FROM \<Rightarrow> False | INTERNAL_SOM_LOC_SET_FROM_IF_WRITABLE \<Rightarrow> False
     | INTERNAL_ROSE_CHAIN \<Rightarrow> False
     | EXTERNAL_CALLBACK \<Rightarrow> True | EXTERNAL_CALLBACK_SOM_REL \<Rightarrow> True | EXTERNAL_CALLBACK_SOM_STORED \<Rightarrow> True
     | EXTERNAL_CALLBACK_SOM_ABS \<Rightarrow> True | EXTERNAL_CALLBACK_SOM_REV_NFA \<Rightarrow> True
     | EXTERNAL_CALLBACK_SOM_PASS \<Rightarrow> True)"

definition isExternalSomReport :: "Report \<Rightarrow> bool" where
  "isExternalSomReport r \<longleftrightarrow> rep_type r \<noteq> EXTERNAL_CALLBACK \<and> isExternalReport r"

definition isSimpleExhaustible :: "Report \<Rightarrow> bool" where
  "isSimpleExhaustible ir =
     (if ekey ir = INVALID_EKEY then False
      else if hasBounds ir \<and> (minOffset ir \<noteq> 0 \<or> minLength ir \<noteq> 0) then False
      else if \<not> isExternalReport ir then False
      else True)"

text \<open>\<^verbatim>\<open>ORDER_CHECK(field)\<close> returns when the field decides and goes on otherwise.\<close>

definition order_check :: "'a::linorder \<Rightarrow> 'a \<Rightarrow> bool \<Rightarrow> bool" where
  "order_check x y rest = (if x < y then True else if y < x then False else rest)"

definition report_less :: "Report \<Rightarrow> Report \<Rightarrow> bool" where
  "report_less a b =
     order_check (type_value (rep_type a)) (type_value (rep_type b))
    (order_check (quashSom a) (quashSom b)
    (order_check (ekey a) (ekey b)
    (order_check (sint (offsetAdjust a)) (sint (offsetAdjust b))
    (order_check (onmatch a) (onmatch b)
    (order_check (minOffset a) (minOffset b)
    (order_check (maxOffset a) (maxOffset b)
    (order_check (minLength a) (minLength b)
    (order_check (somDistance a) (somDistance b)
    (order_check (revNfaIndex a) (revNfaIndex b)
    (order_check (topSquashDistance a) (topSquashDistance b) False))))))))))"

definition report_eq :: "Report \<Rightarrow> Report \<Rightarrow> bool" where
  "report_eq a b \<longleftrightarrow> rep_type a = rep_type b \<and> quashSom a = quashSom b \<and>
     minOffset a = minOffset b \<and> maxOffset a = maxOffset b \<and> minLength a = minLength b \<and> ekey a = ekey b \<and>
     offsetAdjust a = offsetAdjust b \<and> onmatch a = onmatch b \<and> revNfaIndex a = revNfaIndex b \<and>
     somDistance a = somDistance b \<and> topSquashDistance a = topSquashDistance b"

definition makeECallback :: "u32 \<Rightarrow> 32 word \<Rightarrow> u32 \<Rightarrow> bool \<Rightarrow> Report" where
  "makeECallback report adj key qt =
     (new_Report EXTERNAL_CALLBACK report)\<lparr>offsetAdjust := adj, ekey := key, quiet := qt\<rparr>"

definition makeCallback :: "u32 \<Rightarrow> 32 word \<Rightarrow> Report" where
  "makeCallback report adj = makeECallback report adj INVALID_EKEY False"

definition makeSomRelativeCallback :: "u32 \<Rightarrow> 32 word \<Rightarrow> u64a \<Rightarrow> Report" where
  "makeSomRelativeCallback report adj dist =
     (new_Report EXTERNAL_CALLBACK_SOM_REL report)
       \<lparr>offsetAdjust := adj, ekey := INVALID_EKEY, somDistance := dist\<rparr>"

definition makeMpvTrigger :: "u32 \<Rightarrow> u64a \<Rightarrow> Report" where
  "makeMpvTrigger event squashDistance =
     (new_Report INTERNAL_ROSE_CHAIN event)\<lparr>ekey := INVALID_EKEY, topSquashDistance := squashDistance\<rparr>"

section \<open>Order and equality\<close>

text \<open>The fields that the operators compare, in the order of comparison, as numbers.\<close>

definition report_fields :: "Report \<Rightarrow> int list" where
  "report_fields r =
     [int (type_value (rep_type r)), of_bool (quashSom r), uint (ekey r), sint (offsetAdjust r), uint (onmatch r),
      uint (minOffset r), uint (maxOffset r), uint (minLength r), uint (somDistance r), uint (revNfaIndex r),
      uint (topSquashDistance r)]"

lemma type_value_inj: "type_value a = type_value b \<longleftrightarrow> a = b"
  by (cases a; cases b; simp)

lemma order_check_Cons:
  "order_check x y (xs < ys) \<longleftrightarrow> x # xs < y # ys"
  by (auto simp: order_check_def)

lemma order_checks:
  "order_check (m::nat) n c = order_check (int m) (int n) c"
  "order_check b d c = order_check (of_bool b :: int) (of_bool d) c"
  "order_check (v :: 'a::len word) w c = order_check (uint v) (uint w) c"
  by (auto simp: order_check_def word_less_def)

lemma report_less_fields: "report_less a b \<longleftrightarrow> report_fields a < report_fields b"
proof -
  have last: "order_check x y False \<longleftrightarrow> [x] < [y]" for x y :: int by (auto simp: order_check_def)
  show ?thesis
    unfolding report_less_def report_fields_def order_checks last order_check_Cons ..
qed

lemma report_eq_fields: "report_eq a b \<longleftrightarrow> report_fields a = report_fields b"
  by (auto simp: report_eq_def report_fields_def type_value_inj simp flip: word_eq_iff_unsigned word_eq_iff_signed)

text \<open>
  The two operators of a report agree: \<^verbatim>\<open>operator<\<close> is a strict order, and two reports are equal
  under \<^verbatim>\<open>operator==\<close> exactly when neither is below the other.
\<close>

lemma report_order:
  "\<not> report_less a a" "report_less a b \<Longrightarrow> report_less b c \<Longrightarrow> report_less a c"
  "report_eq a b \<longleftrightarrow> \<not> report_less a b \<and> \<not> report_less b a"
  by (auto simp: report_less_fields report_eq_fields)

lemma report_eq_equiv:
  "report_eq a a" "report_eq a b \<Longrightarrow> report_eq b a" "report_eq a b \<Longrightarrow> report_eq b c \<Longrightarrow> report_eq a c"
  by (simp_all add: report_eq_fields)

lemma isSimpleExhaustible_iff:
  "isSimpleExhaustible r \<longleftrightarrow> ekey r \<noteq> INVALID_EKEY \<and> minOffset r = 0 \<and> minLength r = 0 \<and> isExternalReport r"
  by (auto simp: isSimpleExhaustible_def hasBounds_def word_gt_0)

end
