(* ===== verification/ReportManager.thy ===== *)
theory ReportManager
  imports Report
begin

text \<open>
  The report manager, \<^verbatim>\<open>util/report_manager.h\<close> and \<^verbatim>\<open>util/report_manager.cpp\<close>: it hands
  out internal ids for reports, exhaustion keys and deduplication keys, and rejects sets of
  expressions that mix single-match and ordinary expressions under one id. Hash maps are kept in
  key order, which nothing here observes; the map from reports to ids compares reports with their
  \<^verbatim>\<open>operator==\<close>. Reachable managers are an inductive predicate over the operations, and the
  invariants hold by rule induction.
\<close>

section \<open>Model\<close>

datatype som_type = SOM_NONE | SOM_LEFT

record ExpressionInfo =
  ex_index :: u32
  ex_report :: u32
  ex_allow_vacuous :: bool
  ex_highlander :: bool
  ex_utf8 :: bool
  ex_prefilter :: bool
  ex_som :: som_type
  ex_min_offset :: u64a
  ex_max_offset :: u64a
  ex_min_length :: u64a
  ex_edit_distance :: u32
  ex_hamm_distance :: u32
  ex_quiet :: bool

record external_report_info =
  highlander :: bool
  first_pattern_index :: u32

text \<open>
  \<open>CompileError i r spec j\<close> is the error for expression \<open>i\<close> with match id \<open>r\<close>, which did
  (\<open>spec\<close>) or did not specify \<^verbatim>\<open>HS_FLAG_SINGLEMATCH\<close> unlike expression \<open>j\<close> before it.
\<close>

datatype rm_error = ResourceLimitError | CompileError u32 u32 bool u32

record ReportManager =
  rm_pl :: ParsedLogical
  limitReportCount :: u32
  reportIds :: "Report list"
  reportIdToInternalMap :: "(Report \<times> nat) list"
  reportIdToDedupeKey :: "(u32 \<times> u32) list"
  reportIdToProgramOffset :: "(nat \<times> u32) list"
  externalIdMap :: "(u32 \<times> external_report_info) list"
  toExhaustibleKeyMap :: "(int \<times> u32) list"
  freeEIndex :: int
  global_exhaust :: bool

definition new_ReportManager :: "u32 \<Rightarrow> ReportManager" where
  "new_ReportManager limit =
     \<lparr>rm_pl = new_ParsedLogical, limitReportCount = limit, reportIds = [], reportIdToInternalMap = [],
      reportIdToDedupeKey = [], reportIdToProgramOffset = [], externalIdMap = [], toExhaustibleKeyMap = [],
      freeEIndex = 0, global_exhaust = True\<rparr>"

definition numReports :: "ReportManager \<Rightarrow> nat" where
  "numReports rm = length (reportIds rm)"

definition getInternalId :: "ReportManager \<Rightarrow> Report \<Rightarrow> rm_error + nat \<times> ReportManager" where
  "getInternalId rm ir =
     (case find (\<lambda>e. report_eq (fst e) ir) (reportIdToInternalMap rm) of
        Some it \<Rightarrow> Inr (snd it, rm)
      | None \<Rightarrow>
          if unat (limitReportCount rm) \<le> numReports rm then Inl ResourceLimitError
          else let size = length (reportIds rm) mod 2 ^ 32
               in Inr (size, rm\<lparr>reportIds := reportIds rm @ [ir],
                                 reportIdToInternalMap := reportIdToInternalMap rm @ [(ir, size)]\<rparr>))"

definition getReport :: "ReportManager \<Rightarrow> nat \<Rightarrow> flat_error + Report" where
  "getReport rm i = (if i < length (reportIds rm) then Inr (reportIds rm ! i) else Inl OutOfRange)"

definition getExhaustibleKey :: "ReportManager \<Rightarrow> u32 \<Rightarrow> u32 \<times> ReportManager" where
  "getExhaustibleKey rm a =
     (let (k, m) = dense_key (toExhaustibleKeyMap rm) (uint a) in (k, rm\<lparr>toExhaustibleKeyMap := m\<rparr>))"

definition getRelateCKeys :: "ReportManager \<Rightarrow> u32 \<Rightarrow> u32 list option" where
  "getRelateCKeys rm k = map_of (lkey2ckeys (rm_pl rm)) k"

definition assign_lkey :: "ParsedLogical \<Rightarrow> Report \<Rightarrow> Report" where
  "assign_lkey pl ir =
     (case flat_map_at (toLogicalKeyMap pl) (onmatch ir) of Inr k \<Rightarrow> ir\<lparr>lkey := k\<rparr> | Inl _ \<Rightarrow> ir)"

definition rm_logicalKeyRenumber :: "ReportManager \<Rightarrow> ReportManager" where
  "rm_logicalKeyRenumber rm =
     (let pl = logicalKeyRenumber (rm_pl rm)
      in rm\<lparr>rm_pl := pl, reportIds := map (assign_lkey pl) (reportIds rm)\<rparr>)"

definition getUnassociatedExhaustibleKey :: "ReportManager \<Rightarrow> u32 \<times> ReportManager" where
  "getUnassociatedExhaustibleKey rm =
     (let rv = of_nat (length (toExhaustibleKeyMap rm)); i = freeEIndex rm - 1
      in (rv, rm\<lparr>freeEIndex := i, toExhaustibleKeyMap := fst (flat_map_insert (toExhaustibleKeyMap rm) (i, rv))\<rparr>))"

definition numDkeys :: "ReportManager \<Rightarrow> u32" where "numDkeys rm = of_nat (length (reportIdToDedupeKey rm))"
definition numEkeys :: "ReportManager \<Rightarrow> u32" where "numEkeys rm = of_nat (length (toExhaustibleKeyMap rm))"
definition numLogicalKeys :: "ReportManager \<Rightarrow> u32" where
  "numLogicalKeys rm = of_nat (length (toLogicalKeyMap (rm_pl rm)))"
definition numLogicalOps :: "ReportManager \<Rightarrow> u32" where
  "numLogicalOps rm = of_nat (length (logicalTree (rm_pl rm)))"
definition numCkeys :: "ReportManager \<Rightarrow> u32" where "numCkeys rm = of_nat (length (toCombKeyMap (rm_pl rm)))"

definition patternSetCanExhaust :: "ReportManager \<Rightarrow> bool" where
  "patternSetCanExhaust rm \<longleftrightarrow> global_exhaust rm \<and> toExhaustibleKeyMap rm \<noteq> []"

definition getDkeyToReportTable :: "ReportManager \<Rightarrow> u32 list" where
  "getDkeyToReportTable rm =
     foldl (\<lambda>rv m. rv[unat (snd m) := fst m]) (replicate (length (reportIdToDedupeKey rm)) 0) (reportIdToDedupeKey rm)"

text \<open>
  \<open>requiresDedupeSupport\<close> is the answer of the auxiliary object that the Rose build supplies.
\<close>

definition ext_to_int_add :: "(u32 \<times> nat list) list \<Rightarrow> Report \<times> nat \<Rightarrow> (u32 \<times> nat list) list" where
  "ext_to_int_add m p =
     (let (ir, i) = p
      in if isExternalReport ir
         then flat_map_assign m [] (onmatch ir)
                (fst (flat_set_insert (case flat_map_at m (onmatch ir) of Inr s \<Rightarrow> s | Inl _ \<Rightarrow> []) i))
         else m)"

definition assign_dkey :: "(nat list \<Rightarrow> bool) \<Rightarrow> (u32 \<times> u32) list \<Rightarrow> u32 \<times> nat list \<Rightarrow> (u32 \<times> u32) list" where
  "assign_dkey requiresDedupeSupport dk m =
     (if \<not> requiresDedupeSupport (snd m) then dk
      else flat_map_assign dk 0 (fst m) (of_nat (length dk)))"

definition assignDkeys :: "(nat list \<Rightarrow> bool) \<Rightarrow> ReportManager \<Rightarrow> ReportManager" where
  "assignDkeys requiresDedupeSupport rm =
     (let ext_to_int = foldl ext_to_int_add [] (zip (reportIds rm) [0..<length (reportIds rm)])
      in rm\<lparr>reportIdToDedupeKey := foldl (assign_dkey requiresDedupeSupport) (reportIdToDedupeKey rm) ext_to_int\<rparr>)"

definition getDkey :: "ReportManager \<Rightarrow> Report \<Rightarrow> u32" where
  "getDkey rm r =
     (if \<not> isExternalReport r then NOT 0
      else case flat_map_at (reportIdToDedupeKey rm) (onmatch r) of Inl _ \<Rightarrow> NOT 0 | Inr k \<Rightarrow> k)"

definition registerExtReport :: "ReportManager \<Rightarrow> u32 \<Rightarrow> external_report_info \<Rightarrow> rm_error + ReportManager" where
  "registerExtReport rm r ext =
     (let it = flat_map_find (externalIdMap rm) r;
          checked =
            (if it \<noteq> length (externalIdMap rm)
             then let eri = snd (externalIdMap rm ! it)
                  in if highlander eri \<noteq> highlander ext
                     then Inl (CompileError (first_pattern_index ext) r (highlander ext) (first_pattern_index eri))
                     else Inr rm
             else Inr (rm\<lparr>externalIdMap := fst (flat_map_insert (externalIdMap rm) (r, ext))\<rparr>))
      in case checked of
           Inl e \<Rightarrow> Inl e
         | Inr rm \<Rightarrow> Inr (if \<not> highlander ext then rm\<lparr>global_exhaust := False\<rparr> else rm))"

definition getBasicInternalReport ::
  "ReportManager \<Rightarrow> ExpressionInfo \<Rightarrow> 32 word \<Rightarrow> rm_error + Report \<times> ReportManager" where
  "getBasicInternalReport rm expr adj =
     (case registerExtReport rm (ex_report expr)
             \<lparr>highlander = ex_highlander expr, first_pattern_index = ex_index expr\<rparr> of
        Inl e \<Rightarrow> Inl e
      | Inr rm \<Rightarrow>
          let (key, rm) = (if ex_highlander expr then getExhaustibleKey rm (ex_report expr) else (INVALID_EKEY, rm))
          in Inr (makeECallback (ex_report expr) adj key (ex_quiet expr), rm))"

definition setProgramOffset :: "ReportManager \<Rightarrow> nat \<Rightarrow> u32 \<Rightarrow> ReportManager" where
  "setProgramOffset rm i programOffset =
     rm\<lparr>reportIdToProgramOffset := fst (flat_map_insert (reportIdToProgramOffset rm) (i, programOffset))\<rparr>"

definition getProgramOffset :: "ReportManager \<Rightarrow> nat \<Rightarrow> flat_error + u32" where
  "getProgramOffset rm i = flat_map_at (reportIdToProgramOffset rm) i"

definition ekeysUnion :: "u32 list \<Rightarrow> u32 \<Rightarrow> u32 list" where
  "ekeysUnion ekeys key =
     (if ekeys \<noteq> [] then if key = INVALID_EKEY then [] else fst (flat_set_insert ekeys key) else ekeys)"

fun reports_ekeys :: "ReportManager \<Rightarrow> bool \<Rightarrow> nat list \<Rightarrow> u32 list \<Rightarrow> flat_error + u32 list" where
  "reports_ekeys rm first [] ekeys = Inr ekeys"
| "reports_ekeys rm first (r # rs) ekeys =
     (case getReport rm r of
        Inl e \<Rightarrow> Inl e
      | Inr ir \<Rightarrow>
          reports_ekeys rm False rs
            (if first then if ekey ir \<noteq> INVALID_EKEY then fst (flat_set_insert ekeys (ekey ir)) else ekeys
             else ekeysUnion ekeys (ekey ir)))"

definition reportsToEkeys :: "nat list \<Rightarrow> ReportManager \<Rightarrow> flat_error + u32 list" where
  "reportsToEkeys rs rm = reports_ekeys rm True rs []"

section \<open>Reachable managers and their invariant\<close>

text \<open>
  What clients do with a manager. They set the public member \<^verbatim>\<open>pl\<close> through the parser of
  combinations, assign deduplication keys once, and set a program offset once per report.
\<close>

inductive rm_reach :: "u32 \<Rightarrow> ReportManager \<Rightarrow> bool" for limit where
  init: "rm_reach limit (new_ReportManager limit)"
| internal: "rm_reach limit rm \<Longrightarrow> getInternalId rm ir = Inr (i, rm') \<Longrightarrow> rm_reach limit rm'"
| basic: "rm_reach limit rm \<Longrightarrow> getBasicInternalReport rm expr adj = Inr (r, rm') \<Longrightarrow> rm_reach limit rm'"
| ext_report: "rm_reach limit rm \<Longrightarrow> registerExtReport rm i ext = Inr rm' \<Longrightarrow> rm_reach limit rm'"
| exhaust: "rm_reach limit rm \<Longrightarrow> getExhaustibleKey rm a = (k, rm') \<Longrightarrow> rm_reach limit rm'"
| unassociated: "rm_reach limit rm \<Longrightarrow> getUnassociatedExhaustibleKey rm = (k, rm') \<Longrightarrow> rm_reach limit rm'"
| combinations: "rm_reach limit rm \<Longrightarrow> rm_reach limit (rm\<lparr>rm_pl := pl\<rparr>)"
| renumber: "rm_reach limit rm \<Longrightarrow> rm_reach limit (rm_logicalKeyRenumber rm)"
| dkeys: "rm_reach limit rm \<Longrightarrow> reportIdToDedupeKey rm = [] \<Longrightarrow> rm_reach limit (assignDkeys req rm)"
| offset: "rm_reach limit rm \<Longrightarrow> i < numReports rm \<Longrightarrow> map_of (reportIdToProgramOffset rm) i = None \<Longrightarrow>
    rm_reach limit (setProgramOffset rm i off)"

text \<open>The invariant, one part per group of members.\<close>

definition ids_ok :: "Report list \<Rightarrow> (Report \<times> nat) list \<Rightarrow> bool" where
  "ids_ok rs m \<longleftrightarrow> length m = length rs \<and>
     (\<forall>i < length rs. snd (m ! i) = i \<and> report_eq (fst (m ! i)) (rs ! i)) \<and>
     (\<forall>i < length rs. \<forall>j < length rs. report_eq (rs ! i) (rs ! j) \<longrightarrow> i = j)"

definition ekeys_ok :: "(int \<times> u32) list \<Rightarrow> int \<Rightarrow> bool" where
  "ekeys_ok m free \<longleftrightarrow> dense_ok m \<and> free \<le> 0 \<and> (\<forall>e \<in> set m. free \<le> fst e)"

definition ext_ok :: "(u32 \<times> external_report_info) list \<Rightarrow> bool \<Rightarrow> bool" where
  "ext_ok m exh \<longleftrightarrow> flat_map_ok m \<and> (exh \<longleftrightarrow> (\<forall>e \<in> set m. highlander (snd e)))"

definition rm_ok :: "ReportManager \<Rightarrow> bool" where
  "rm_ok rm \<longleftrightarrow> ids_ok (reportIds rm) (reportIdToInternalMap rm) \<and>
     length (reportIds rm) \<le> unat (limitReportCount rm) \<and>
     ekeys_ok (toExhaustibleKeyMap rm) (freeEIndex rm) \<and> ext_ok (externalIdMap rm) (global_exhaust rm) \<and>
     dense_ok (reportIdToDedupeKey rm)"

lemma report_eq_cong: "report_eq a b \<Longrightarrow> report_eq a c \<longleftrightarrow> report_eq b c"
  by (metis report_eq_equiv(2,3))

lemma find_report:
  assumes "ids_ok rs m"
  shows "find (\<lambda>e. report_eq (fst e) ir) m = Some e \<Longrightarrow> snd e < length rs \<and> report_eq (rs ! snd e) ir"
    and "find (\<lambda>e. report_eq (fst e) ir) m = None \<Longrightarrow> i < length rs \<Longrightarrow> \<not> report_eq (rs ! i) ir"
    and "i < length rs \<Longrightarrow> report_eq (rs ! i) ir \<Longrightarrow> \<exists>e. find (\<lambda>e. report_eq (fst e) ir) m = Some e \<and> snd e = i"
proof -
  have len: "length m = length rs" and m: "\<And>i. i < length rs \<Longrightarrow> snd (m ! i) = i \<and> report_eq (fst (m ! i)) (rs ! i)"
    and inj: "\<And>i j. i < length rs \<Longrightarrow> j < length rs \<Longrightarrow> report_eq (rs ! i) (rs ! j) \<Longrightarrow> i = j"
    using assms by (auto simp: ids_ok_def)
  show some: "snd e < length rs \<and> report_eq (rs ! snd e) ir" if f: "find (\<lambda>e. report_eq (fst e) ir) m = Some e" for e
  proof -
    obtain j where j: "j < length m" "report_eq (fst (m ! j)) ir" "e = m ! j"
      using f by (auto simp: find_Some_iff)
    then show ?thesis using m [of j] report_eq_cong [of "fst (m ! j)" "rs ! j" ir] by (simp add: len)
  qed
  show none: "\<not> report_eq (rs ! i) ir" if "find (\<lambda>e. report_eq (fst e) ir) m = None" "i < length rs" for i
    using that m [of i] report_eq_cong [of "fst (m ! i)" "rs ! i" ir] len
    by (metis find_None_iff nth_mem)
  show "\<exists>e. find (\<lambda>e. report_eq (fst e) ir) m = Some e \<and> snd e = i" if i: "i < length rs" and eq: "report_eq (rs ! i) ir"
  proof (cases "find (\<lambda>e. report_eq (fst e) ir) m")
    case None
    then show ?thesis using none [OF None i] eq by simp
  next
    case (Some e)
    have "report_eq (rs ! snd e) (rs ! i)" using some [OF Some] eq by (metis report_eq_equiv(2,3))
    then show ?thesis using inj [of "snd e" i] some [OF Some] i Some by auto
  qed
qed

lemma getInternalId_cases:
  assumes ok: "rm_ok rm"
  obtains (known) i where "i < numReports rm" "report_eq (reportIds rm ! i) ir" "getInternalId rm ir = Inr (i, rm)"
  | (full) "\<forall>i < numReports rm. \<not> report_eq (reportIds rm ! i) ir" "unat (limitReportCount rm) = numReports rm"
      "getInternalId rm ir = Inl ResourceLimitError"
  | (new) "\<forall>i < numReports rm. \<not> report_eq (reportIds rm ! i) ir" "numReports rm < unat (limitReportCount rm)"
      "getInternalId rm ir = Inr (numReports rm, rm\<lparr>reportIds := reportIds rm @ [ir],
         reportIdToInternalMap := reportIdToInternalMap rm @ [(ir, numReports rm)]\<rparr>)"
proof -
  have ids: "ids_ok (reportIds rm) (reportIdToInternalMap rm)" and lim: "numReports rm \<le> unat (limitReportCount rm)"
    using ok by (simp_all add: rm_ok_def numReports_def)
  have small: "unat (limitReportCount rm) < 2 ^ 32" using unsigned_less [of "limitReportCount rm"] by simp
  show thesis
  proof (cases "find (\<lambda>e. report_eq (fst e) ir) (reportIdToInternalMap rm)")
    case None
    note none = find_report(2) [OF ids None]
    show thesis
    proof (cases "unat (limitReportCount rm) \<le> numReports rm")
      case True
      then show thesis using full none None lim by (simp add: getInternalId_def numReports_def)
    next
      case False
      then show thesis using new none None lim small by (simp add: getInternalId_def numReports_def Let_def)
    qed
  next
    case (Some e)
    then show thesis using known [of "snd e"] find_report(1) [OF ids Some] by (simp add: getInternalId_def numReports_def)
  qed
qed

lemma ids_ok_snoc:
  assumes "ids_ok rs m" "\<forall>i < length rs. \<not> report_eq (rs ! i) ir"
  shows "ids_ok (rs @ [ir]) (m @ [(ir, length rs)])"
  unfolding ids_ok_def
proof (intro conjI allI impI)
  fix i j assume "i < length (rs @ [ir])" "j < length (rs @ [ir])" "report_eq ((rs @ [ir]) ! i) ((rs @ [ir]) ! j)"
  then show "i = j"
    using assms report_eq_equiv(2) [of ir] by (auto simp: ids_ok_def nth_append less_Suc_eq split: if_splits)
qed (use assms report_eq_equiv(1) in \<open>auto simp: ids_ok_def nth_append less_Suc_eq\<close>)

lemma ids_ok_map:
  assumes "ids_ok rs m" "\<And>r. report_eq r (f r)"
  shows "ids_ok (map f rs) m"
proof -
  have "report_eq (f a) (f b) \<longleftrightarrow> report_eq a b" for a b by (metis assms(2) report_eq_equiv(2,3))
  moreover have "report_eq c a \<Longrightarrow> report_eq c (f a)" for a c by (metis assms(2) report_eq_equiv(3))
  ultimately show ?thesis using assms(1) by (auto simp: ids_ok_def)
qed

lemma ekeys_ok_dense:
  assumes "ekeys_ok m free" "dense_key m a = (k, m')" "0 \<le> a"
  shows "ekeys_ok m' free"
proof -
  have d: "dense_ok m" using assms(1) by (simp add: ekeys_ok_def)
  note s = dense_key_spec [OF d assms(2)]
  have "fst e \<in> insert a (fst ` set m)" if "e \<in> set m'" for e
    using that s(2) dom_map_of_conv_image_fst [of m'] dom_map_of_conv_image_fst [of m] by force
  then have "free \<le> fst e" if "e \<in> set m'" for e
    using that assms(1,3) unfolding ekeys_ok_def by (metis imageE insert_iff order_trans)
  then show ?thesis using s(1) assms(1) by (simp add: ekeys_ok_def)
qed

lemma ekeys_ok_fresh:
  assumes "ekeys_ok m free"
  shows "ekeys_ok (fst (flat_map_insert m (free - 1, of_nat (length m)))) (free - 1)"
    and "length (fst (flat_map_insert m (free - 1, of_nat (length m)))) = Suc (length m)"
proof -
  have ok: "flat_map_ok m" and abs: "map_of m (free - 1) = None"
    using assms by (auto simp: ekeys_ok_def dense_ok_def map_of_eq_None_iff)
  note n = flat_map_insert_absent [OF ok abs]
  have "dense_ok (fst (flat_map_insert m (free - 1, of_nat (length m))))"
    using assms flat_map_insert_spec(1) [OF ok] n by (auto simp: ekeys_ok_def dense_ok_def lessThan_Suc)
  then show "ekeys_ok (fst (flat_map_insert m (free - 1, of_nat (length m)))) (free - 1)"
    using assms n(1) by (force simp: ekeys_ok_def)
  show "length (fst (flat_map_insert m (free - 1, of_nat (length m)))) = Suc (length m)" by (rule n(2))
qed

lemma registerExtReport_eq:
  assumes "flat_map_ok (externalIdMap rm)"
  shows "registerExtReport rm r ext =
    (case map_of (externalIdMap rm) r of
       Some eri \<Rightarrow>
         if highlander eri \<noteq> highlander ext
         then Inl (CompileError (first_pattern_index ext) r (highlander ext) (first_pattern_index eri))
         else Inr (rm\<lparr>global_exhaust := global_exhaust rm \<and> highlander ext\<rparr>)
     | None \<Rightarrow> Inr (rm\<lparr>externalIdMap := fst (flat_map_insert (externalIdMap rm) (r, ext)),
                       global_exhaust := global_exhaust rm \<and> highlander ext\<rparr>))"
  using flat_map_find_spec [OF assms, of r]
  by (auto simp: registerExtReport_def Let_def split: if_splits option.splits)

lemma ext_ok_register:
  assumes ok: "ext_ok m exh"
  shows "map_of m r = Some eri \<Longrightarrow> highlander eri = h \<Longrightarrow> ext_ok m (exh \<and> h)"
    and "map_of m r = None \<Longrightarrow> ext_ok (fst (flat_map_insert m (r, ext))) (exh \<and> highlander ext)"
proof -
  have m: "flat_map_ok m" and exh: "exh \<longleftrightarrow> (\<forall>e \<in> set m. highlander (snd e))" using ok by (auto simp: ext_ok_def)
  show "ext_ok m (exh \<and> h)" if "map_of m r = Some eri" "highlander eri = h"
    using that m exh map_of_SomeD [OF that(1)] by (auto simp: ext_ok_def)
  show "ext_ok (fst (flat_map_insert m (r, ext))) (exh \<and> highlander ext)" if "map_of m r = None"
    using flat_map_insert_spec(1) [OF m] flat_map_insert_absent(1) [OF m that] exh by (auto simp: ext_ok_def)
qed

lemma registerExtReport_ok:
  assumes ok: "rm_ok rm" and reg: "registerExtReport rm r ext = Inr rm'"
  shows "rm_ok rm'"
proof -
  have e: "ext_ok (externalIdMap rm) (global_exhaust rm)" "flat_map_ok (externalIdMap rm)"
    using ok by (auto simp: rm_ok_def ext_ok_def)
  show ?thesis
  proof (cases "map_of (externalIdMap rm) r")
    case None
    then show ?thesis
      using reg ok ext_ok_register(2) [OF e(1) None, of ext] by (auto simp: registerExtReport_eq [OF e(2)] rm_ok_def)
  next
    case (Some eri)
    have "highlander eri = highlander ext" "rm' = rm\<lparr>global_exhaust := global_exhaust rm \<and> highlander ext\<rparr>"
      using reg by (simp_all add: registerExtReport_eq [OF e(2)] Some split: if_split_asm)
    then show ?thesis using ok ext_ok_register(1) [OF e(1) Some] by (simp add: rm_ok_def)
  qed
qed

lemma rm_limit:
  "registerExtReport rm r ext = Inr rm' \<Longrightarrow> limitReportCount rm' = limitReportCount rm"
  "getExhaustibleKey rm a = (k, rm') \<Longrightarrow> limitReportCount rm' = limitReportCount rm"
  by (auto simp: registerExtReport_def getExhaustibleKey_def Let_def split: if_splits sum.splits prod.splits)

lemma getExhaustibleKey_ok:
  assumes ok: "rm_ok rm" and key: "getExhaustibleKey rm a = (k, rm')"
  shows "rm_ok rm'"
proof -
  obtain m where m: "dense_key (toExhaustibleKeyMap rm) (uint a) = (k, m)" "rm' = rm\<lparr>toExhaustibleKeyMap := m\<rparr>"
    using key by (auto simp: getExhaustibleKey_def split: prod.splits)
  have "ekeys_ok (toExhaustibleKeyMap rm) (freeEIndex rm)" using ok by (simp add: rm_ok_def)
  from ekeys_ok_dense [OF this m(1)] show ?thesis using ok m(2) by (simp add: rm_ok_def)
qed

lemma getBasicInternalReport_cases:
  assumes "getBasicInternalReport rm expr adj = Inr (r, rm')"
  obtains rm1 key where "registerExtReport rm (ex_report expr)
      \<lparr>highlander = ex_highlander expr, first_pattern_index = ex_index expr\<rparr> = Inr rm1"
    "r = makeECallback (ex_report expr) adj key (ex_quiet expr)"
    "if ex_highlander expr then getExhaustibleKey rm1 (ex_report expr) = (key, rm') else key = INVALID_EKEY \<and> rm' = rm1"
  using assms by (auto simp: getBasicInternalReport_def split: sum.splits prod.splits if_splits)

lemma assign_lkey_eq: "report_eq r (assign_lkey pl r)"
  by (simp add: assign_lkey_def report_eq_def split: sum.splits)

section \<open>Deduplication keys\<close>

lemma nth_foldl_update_other: "j \<notin> f ` set es \<Longrightarrow> foldl (\<lambda>m e. m[f e := g e]) m es ! j = m ! j"
  by (induction es arbitrary: m) auto

lemma nth_foldl_update_inj:
  "inj_on f (set es) \<Longrightarrow> e \<in> set es \<Longrightarrow> f e < length m \<Longrightarrow> foldl (\<lambda>m e. m[f e := g e]) m es ! f e = g e"
proof (induction es arbitrary: m)
  case (Cons x es)
  show ?case
  proof (cases "e \<in> set es")
    case True
    then show ?thesis using Cons by (simp add: inj_on_def)
  next
    case False
    then have "f e \<notin> f ` set es" using Cons.prems(1,2) by (force simp: inj_on_def)
    then show ?thesis using Cons.prems(2,3) False by (simp add: nth_foldl_update_other)
  qed
qed simp

lemma flat_map_graph:
  assumes "flat_map_ok m"
  shows "snd ` set m = ran (map_of m)" "length m = card (dom (map_of m))"
proof -
  have d: "distinct (map fst m)" using assms by (simp add: flat_map_ok_def strict_sorted_iff)
  then show "snd ` set m = ran (map_of m)" by (simp add: ran_distinct)
  show "length m = card (dom (map_of m))"
    using distinct_card [OF d] by (simp add: dom_map_of_conv_image_fst)
qed

lemma dense_ok_assign:
  assumes "dense_ok m" "map_of m k = None"
  shows "dense_ok (flat_map_assign m d k (of_nat (length m)))"
    and "map_of (flat_map_assign m d k (of_nat (length m))) = (map_of m)(k \<mapsto> of_nat (length m))"
    and "length (flat_map_assign m d k (of_nat (length m))) = Suc (length m)"
proof -
  have ok: "flat_map_ok m" and img: "snd ` set m = of_nat ` {..<length m}" using assms(1) by (auto simp: dense_ok_def)
  let ?m = "flat_map_assign m d k (of_nat (length m) :: u32)"
  note a = flat_map_assign_spec [OF ok, of d k "of_nat (length m)"]
  show "map_of ?m = (map_of m)(k \<mapsto> of_nat (length m))" by (rule a(2))
  show len: "length ?m = Suc (length m)"
    using flat_map_graph(2) [OF a(1)] flat_map_graph(2) [OF ok] assms(2) a(2)
    by (simp add: card_insert_if finite_dom_map_of domIff)
  have "snd ` set ?m = insert (of_nat (length m)) (snd ` set m)"
    using flat_map_graph(1) [OF a(1)] flat_map_graph(1) [OF ok] assms(2) a(2) by (simp add: ran_map_upd)
  then show "dense_ok ?m" using a(1) img len by (simp add: dense_ok_def lessThan_Suc)
qed

lemma assign_dkeys_fold:
  assumes "dense_ok dk" "distinct (map fst es)" "\<forall>e \<in> set es. map_of dk (fst e) = None"
  shows "dense_ok (foldl (assign_dkey req) dk es) \<and>
    dom (map_of (foldl (assign_dkey req) dk es)) = dom (map_of dk) \<union> {k. \<exists>s. (k, s) \<in> set es \<and> req s} \<and>
    length (foldl (assign_dkey req) dk es) \<le> length dk + length es"
  using assms
proof (induction es arbitrary: dk)
  case (Cons e es)
  show ?case
  proof (cases "req (snd e)")
    case True
    let ?dk = "flat_map_assign dk 0 (fst e) (of_nat (length dk))"
    have none: "map_of dk (fst e) = None" using Cons.prems(3) by simp
    note a = dense_ok_assign [OF Cons.prems(1) none, of 0]
    have "\<forall>x \<in> set es. map_of ?dk (fst x) = None"
      using Cons.prems(2,3) a(2) by (auto simp: image_iff)
    note IH = Cons.IH [OF a(1) _ this]
    have step: "foldl (assign_dkey req) dk (e # es) = foldl (assign_dkey req) ?dk es"
      using True by (simp add: assign_dkey_def [of req dk e])
    have "{k. \<exists>s. (k, s) \<in> set (e # es) \<and> req s} = insert (fst e) {k. \<exists>s. (k, s) \<in> set es \<and> req s}"
      using True by (cases e) auto
    moreover have "dom (map_of ?dk) = insert (fst e) (dom (map_of dk))" unfolding a(2) by simp
    ultimately show ?thesis unfolding step using IH Cons.prems(2) a(3) by simp
  next
    case False
    then show ?thesis using Cons.IH [of dk] Cons.prems by (cases e) (auto simp: assign_dkey_def)
  qed
qed simp

definition ext_ids :: "Report list \<Rightarrow> u32 \<Rightarrow> nat list" where
  "ext_ids rs k = filter (\<lambda>i. isExternalReport (rs ! i) \<and> onmatch (rs ! i) = k) [0..<length rs]"

lemma flat_map_at_eq: "flat_map_ok m \<Longrightarrow> flat_map_at m k = (case map_of m k of None \<Rightarrow> Inl OutOfRange | Some v \<Rightarrow> Inr v)"
  by (simp add: flat_map_at_def Let_def flip: flat_map_find_spec)

lemma flat_set_insert_greater: "\<forall>x \<in> set xs. x < v \<Longrightarrow> fst (flat_set_insert xs v) = xs @ [v]"
proof -
  assume "\<forall>x \<in> set xs. x < v"
  then have "flat_lower_bound xs v = length xs" by (simp add: flat_lower_bound_def takeWhile_eq_all_conv [THEN iffD2])
  then show ?thesis by (simp add: flat_set_insert_def)
qed

lemma ext_to_int_spec:
  "flat_map_ok (foldl ext_to_int_add [] (zip rs [0..<length rs])) \<and>
   map_of (foldl ext_to_int_add [] (zip rs [0..<length rs])) k =
     (if ext_ids rs k = [] then None else Some (ext_ids rs k))"
proof (induction rs arbitrary: k rule: rev_induct)
  case Nil
  then show ?case by (simp add: ext_ids_def flat_map_ok_def)
next
  case (snoc r rs)
  let ?m = "foldl ext_to_int_add [] (zip rs [0..<length rs])" and ?n = "length rs"
  have ok: "flat_map_ok ?m" and m: "\<And>k. map_of ?m k = (if ext_ids rs k = [] then None else Some (ext_ids rs k))"
    using snoc by auto
  have ids: "ext_ids (rs @ [r]) k = ext_ids rs k @ (if isExternalReport r \<and> onmatch r = k then [?n] else [])" for k
    by (auto simp: ext_ids_def nth_append intro: filter_cong)
  have old: "(case flat_map_at ?m k of Inr s \<Rightarrow> s | Inl _ \<Rightarrow> []) = ext_ids rs k" for k
    by (simp add: flat_map_at_eq [OF ok] m)
  have grow: "fst (flat_set_insert (ext_ids rs k) ?n) = ext_ids rs k @ [?n]" for k
    by (rule flat_set_insert_greater) (auto simp: ext_ids_def)
  have z: "zip (rs @ [r]) [0..<length (rs @ [r])] = zip rs [0..<?n] @ [(r, ?n)]" by simp
  show ?case
    unfolding z foldl_append foldl.simps ext_to_int_add_def [of ?m] Let_def prod.case old grow ids
    using flat_map_assign_spec [OF ok, of "[]" "onmatch r" "ext_ids rs (onmatch r) @ [?n]"] ok m by auto
qed

lemma assignDkeys_spec:
  assumes "reportIdToDedupeKey rm = []"
  shows "dense_ok (reportIdToDedupeKey (assignDkeys req rm))"
    and "dom (map_of (reportIdToDedupeKey (assignDkeys req rm))) =
      {k. ext_ids (reportIds rm) k \<noteq> [] \<and> req (ext_ids (reportIds rm) k)}"
    and "length (reportIdToDedupeKey (assignDkeys req rm)) \<le> length (reportIds rm)"
proof -
  let ?e = "foldl ext_to_int_add [] (zip (reportIds rm) [0..<length (reportIds rm)])"
  have ok: "flat_map_ok ?e" and m: "\<And>k. map_of ?e k = (if ext_ids (reportIds rm) k = [] then None else Some (ext_ids (reportIds rm) k))"
    using ext_to_int_spec by auto
  have d: "distinct (map fst ?e)" using ok by (simp add: flat_map_ok_def strict_sorted_iff)
  have mem: "(k, s) \<in> set ?e \<longleftrightarrow> ext_ids (reportIds rm) k \<noteq> [] \<and> s = ext_ids (reportIds rm) k" for k s
    using map_of_eq_Some_iff [OF d, of k s] m [of k] by (auto split: if_splits)
  note f = assign_dkeys_fold [of "[]" ?e req]
  show "dense_ok (reportIdToDedupeKey (assignDkeys req rm))"
    "dom (map_of (reportIdToDedupeKey (assignDkeys req rm))) =
      {k. ext_ids (reportIds rm) k \<noteq> [] \<and> req (ext_ids (reportIds rm) k)}"
    using f d assms mem by (auto simp: assignDkeys_def)
  have keys: "fst ` set ?e \<subseteq> onmatch ` set (reportIds rm)"
    using mem by (force simp: ext_ids_def filter_empty_conv)
  have "length ?e = card (fst ` set ?e)" using distinct_card [OF d] by simp
  also have "\<dots> \<le> card (onmatch ` set (reportIds rm))" by (rule card_mono [OF _ keys]) simp
  also have "\<dots> \<le> length (reportIds rm)" by (metis card_length card_image_le List.finite_set le_trans)
  finally show "length (reportIdToDedupeKey (assignDkeys req rm)) \<le> length (reportIds rm)"
    using f d assms by (simp add: assignDkeys_def)
qed

section \<open>The invariant holds\<close>

lemma rm_reach_ok: "rm_reach limit rm \<Longrightarrow> rm_ok rm \<and> limitReportCount rm = limit"
proof (induction rule: rm_reach.induct)
  case init
  then show ?case by (simp add: rm_ok_def new_ReportManager_def ids_ok_def ekeys_ok_def ext_ok_def flat_map_ok_def)
next
  case (internal rm ir i rm')
  then have ok: "rm_ok rm" and lim: "limitReportCount rm = limit" by auto
  show ?case
    using internal.hyps(2) ok lim ids_ok_snoc [of "reportIds rm" "reportIdToInternalMap rm" ir]
    by (cases rule: getInternalId_cases [OF ok, of ir]) (auto simp: rm_ok_def numReports_def)
next
  case (basic rm expr adj r rm')
  from getBasicInternalReport_cases [OF basic.hyps(2)] obtain rm1 key where
    reg: "registerExtReport rm (ex_report expr) \<lparr>highlander = ex_highlander expr, first_pattern_index = ex_index expr\<rparr> = Inr rm1"
    and key: "if ex_highlander expr then getExhaustibleKey rm1 (ex_report expr) = (key, rm') else key = INVALID_EKEY \<and> rm' = rm1"
    by blast
  have "rm_ok rm1" using registerExtReport_ok [OF _ reg] basic.IH by simp
  moreover have "limitReportCount rm1 = limit" using rm_limit(1) [OF reg] basic.IH by simp
  ultimately show ?case
    using key getExhaustibleKey_ok [of rm1] rm_limit(2) [of rm1] by (metis (full_types))
next
  case (ext_report rm i ext rm')
  then show ?case using registerExtReport_ok rm_limit(1) by metis
next
  case (exhaust rm a k rm')
  then show ?case using getExhaustibleKey_ok rm_limit(2) by metis
next
  case (unassociated rm k rm')
  then show ?case using ekeys_ok_fresh(1) [of "toExhaustibleKeyMap rm" "freeEIndex rm"]
    by (auto simp: getUnassociatedExhaustibleKey_def Let_def rm_ok_def)
next
  case (renumber rm)
  then show ?case using ids_ok_map [OF _ assign_lkey_eq] by (auto simp: rm_logicalKeyRenumber_def Let_def rm_ok_def)
next
  case (dkeys rm req)
  then show ?case using assignDkeys_spec(1) [of rm req] by (auto simp: rm_ok_def assignDkeys_def Let_def)
qed (auto simp: rm_ok_def setProgramOffset_def)

section \<open>Properties\<close>

text \<open>
  C5. Ids and reports: in every manager that the operations can reach, each id below the number of
  reports has a report, and asking for the id of any report equal to it gives that id and changes
  nothing; a report equal to none of them gets the next id, and then that id has exactly that report
  and the other ids keep theirs, or is refused when the limit on reports is reached.
\<close>

theorem report_ids_stable:
  assumes "rm_reach limit rm"
  shows "(\<forall>i < numReports rm. \<exists>r. getReport rm i = Inr r \<and>
      (\<forall>r'. report_eq r r' \<longrightarrow> getInternalId rm r' = Inr (i, rm))) \<and>
    (\<forall>r'. (\<forall>i < numReports rm. \<forall>r. getReport rm i = Inr r \<longrightarrow> \<not> report_eq r r') \<longrightarrow>
      (if numReports rm < unat limit
       then \<exists>rm'. getInternalId rm r' = Inr (numReports rm, rm') \<and> numReports rm' = Suc (numReports rm) \<and>
         getReport rm' (numReports rm) = Inr r' \<and> (\<forall>i < numReports rm. getReport rm' i = getReport rm i)
       else getInternalId rm r' = Inl ResourceLimitError)) \<and>
    (\<forall>i \<ge> numReports rm. getReport rm i = Inl OutOfRange)"
proof -
  have ok: "rm_ok rm" and lim: "limitReportCount rm = limit" using rm_reach_ok [OF assms] by auto
  have ids: "ids_ok (reportIds rm) (reportIdToInternalMap rm)" using ok by (simp add: rm_ok_def)
  have known: "getInternalId rm r' = Inr (i, rm)" if "i < numReports rm" "report_eq (reportIds rm ! i) r'" for i r'
    using find_report(3) [OF ids, of i r'] that by (auto simp: getInternalId_def numReports_def)
  have unknown: "if numReports rm < unat limit
       then \<exists>rm'. getInternalId rm r' = Inr (numReports rm, rm') \<and> numReports rm' = Suc (numReports rm) \<and>
         getReport rm' (numReports rm) = Inr r' \<and> (\<forall>i < numReports rm. getReport rm' i = getReport rm i)
       else getInternalId rm r' = Inl ResourceLimitError"
    if "\<forall>i < numReports rm. \<forall>r. getReport rm i = Inr r \<longrightarrow> \<not> report_eq r r'" for r'
    using that lim
    by (cases rule: getInternalId_cases [OF ok, of r']) (auto simp: getReport_def numReports_def nth_append)
  have "\<exists>r. getReport rm i = Inr r \<and> (\<forall>r'. report_eq r r' \<longrightarrow> getInternalId rm r' = Inr (i, rm))" if "i < numReports rm" for i
    using known [OF that] that by (simp add: getReport_def numReports_def)
  moreover have "getReport rm i = Inl OutOfRange" if "numReports rm \<le> i" for i
    using that by (simp add: getReport_def numReports_def)
  ultimately show ?thesis using unknown by blast
qed

theorem report_ids_stable_witness:
  "\<exists>rm. getInternalId (new_ReportManager 1) (makeCallback 7 0) = Inr (0, rm) \<and>
    getInternalId rm ((makeCallback 7 0)\<lparr>quiet := True\<rparr>) = Inr (0, rm) \<and>
    getInternalId rm (makeCallback 8 0) = Inl ResourceLimitError"
proof -
  obtain rm where g: "getInternalId (new_ReportManager 1) (makeCallback 7 0) = Inr (0, rm)"
    and r: "reportIds rm = [makeCallback 7 0]"
    by (simp add: getInternalId_def new_ReportManager_def numReports_def)
  from report_ids_stable [OF rm_reach.internal [OF rm_reach.init g]]
  have s: "\<And>i r'. i < numReports rm \<Longrightarrow> report_eq (reportIds rm ! i) r' \<Longrightarrow> getInternalId rm r' = Inr (i, rm)"
    "\<And>r'. (\<forall>i < numReports rm. \<forall>r. getReport rm i = Inr r \<longrightarrow> \<not> report_eq r r') \<Longrightarrow> \<not> numReports rm < unat (1 :: u32) \<Longrightarrow>
      getInternalId rm r' = Inl ResourceLimitError"
    by (auto simp: getReport_def numReports_def)
  have "report_eq (makeCallback 7 0) ((makeCallback 7 0)\<lparr>quiet := True\<rparr>)" "\<not> report_eq (makeCallback 7 0) (makeCallback 8 0)"
    by (simp_all add: report_eq_def makeCallback_def makeECallback_def new_Report_def)
  then show ?thesis using g s(1) [of 0] s(2) [of "makeCallback 8 0"] r
    by (simp add: numReports_def getReport_def)
qed

lemma u32_of_nat_lessThan:
  assumes "n < 2 ^ 32"
  shows "of_nat ` {..<n} = {..<(of_nat n :: u32)}"
proof (intro set_eqI iffI)
  fix k :: u32 assume "k \<in> {..<of_nat n}"
  then have "unat k < n" using assms by (simp add: word_less_nat_alt unsigned_of_nat take_bit_nat_eq_self)
  then show "k \<in> of_nat ` {..<n}" by (intro image_eqI [of _ _ "unat k"]) simp_all
qed (use assms u32_of_nat_less in auto)

text \<open>
  The key of a match id, in the map that \<open>assignDkeys\<close> leaves in a reachable manager: the keys
  are the numbers below the size of the map, and the table of keys inverts it.
\<close>

lemma dkey_map:
  fixes req :: "nat list \<Rightarrow> bool"
  assumes reach: "rm_reach limit rm" and unassigned: "reportIdToDedupeKey rm = []"
  defines "m \<equiv> reportIdToDedupeKey (assignDkeys req rm)"
  shows "flat_map_ok m" and "ran (map_of m) = {..<numDkeys (assignDkeys req rm)}"
    and "length m < 2 ^ 32"
    and "map_of m x = Some k \<Longrightarrow> getDkeyToReportTable (assignDkeys req rm) ! unat k = x"
proof -
  have dense: "dense_ok m" and len: "length m \<le> length (reportIds rm)"
    using assignDkeys_spec(1,3) [OF unassigned, of req] by (simp_all add: m_def)
  have "length (reportIds rm) \<le> unat (limitReportCount rm)" using rm_reach_ok [OF reach] by (auto simp: rm_ok_def)
  then show small: "length m < 2 ^ 32"
    using len unsigned_less [of "limitReportCount rm", where 'a = nat] by simp
  show ok: "flat_map_ok m" using dense by (simp add: dense_ok_def)
  have d: "distinct (map fst m)" using ok by (simp add: flat_map_ok_def strict_sorted_iff)
  have "ran (map_of m) = snd ` set m" by (rule ran_distinct [OF d])
  also have "\<dots> = {..<of_nat (length m)}"
    using dense u32_of_nat_lessThan [of "length m"] small by (simp add: dense_ok_def)
  finally show "ran (map_of m) = {..<numDkeys (assignDkeys req rm)}" by (simp add: numDkeys_def m_def)
  have inj: "inj_on (\<lambda>e. unat (snd e)) (set m)"
  proof (rule inj_onI)
    fix e e' assume e: "e \<in> set m" "e' \<in> set m" "unat (snd e) = unat (snd e')"
    then have "map_of m (fst e) = Some (snd e)" "map_of m (fst e') = Some (snd e')" using d by simp_all
    then show "e = e'"
      using dense_ok_inj [OF dense] small e(3) by (metis less_imp_le prod.collapse word_unat_eq_iff)
  qed
  assume xk: "map_of m x = Some k"
  then have mem: "(x, k) \<in> set m" by (rule map_of_SomeD)
  then obtain n where "n < length m" "k = of_nat n" using dense by (force simp: dense_ok_def)
  then show "getDkeyToReportTable (assignDkeys req rm) ! unat k = x"
    using nth_foldl_update_inj [OF inj mem, of "replicate (length m) 0" fst] small
    by (simp add: getDkeyToReportTable_def m_def)
qed

text \<open>The external reports whose match id requires deduplication, and the keys that they get.\<close>

definition dedupe_required :: "(nat list \<Rightarrow> bool) \<Rightarrow> ReportManager \<Rightarrow> Report set" where
  "dedupe_required req rm = {r \<in> set (reportIds rm). isExternalReport r \<and>
     req (filter (\<lambda>i. isExternalReport (reportIds rm ! i) \<and> onmatch (reportIds rm ! i) = onmatch r) [0..<numReports rm])}"

lemma dkey_dom:
  assumes "reportIdToDedupeKey rm = []"
  shows "dom (map_of (reportIdToDedupeKey (assignDkeys req rm))) = onmatch ` dedupe_required req rm"
proof -
  have "ext_ids (reportIds rm) k \<noteq> [] \<longleftrightarrow> (\<exists>r \<in> set (reportIds rm). isExternalReport r \<and> onmatch r = k)" for k
    by (fastforce simp: ext_ids_def filter_empty_conv in_set_conv_nth)
  then show ?thesis
    unfolding assignDkeys_spec(2) [OF assms] by (auto simp: dedupe_required_def ext_ids_def numReports_def)
qed

lemma getDkey_required:
  assumes "rm_reach limit rm" "reportIdToDedupeKey rm = []" "r \<in> set (reportIds rm)" "isExternalReport r"
  shows "map_of (reportIdToDedupeKey (assignDkeys req rm)) (onmatch r) =
      (if r \<in> dedupe_required req rm then Some (getDkey (assignDkeys req rm) r) else None)"
    and "getDkey (assignDkeys req rm) r \<noteq> NOT 0 \<longleftrightarrow> r \<in> dedupe_required req rm"
proof -
  let ?rm = "assignDkeys req rm"
  let ?m = "reportIdToDedupeKey ?rm"
  note dm = dkey_map [OF assms(1,2), where req = req]
  have dk: "getDkey ?rm r = (case map_of ?m (onmatch r) of None \<Rightarrow> NOT 0 | Some k \<Rightarrow> k)"
    using assms(4) by (simp add: getDkey_def flat_map_at_eq [OF dm(1)] split: option.splits)
  have "map_of ?m (onmatch r) \<noteq> None \<longleftrightarrow> onmatch r \<in> onmatch ` dedupe_required req rm"
    using dkey_dom [OF assms(2), of req] by (auto simp: domIff)
  also have "\<dots> \<longleftrightarrow> r \<in> dedupe_required req rm" using assms(3,4) by (auto simp: dedupe_required_def)
  finally show key: "map_of ?m (onmatch r) = (if r \<in> dedupe_required req rm then Some (getDkey ?rm r) else None)"
    using dk by auto
  have no_max: "k \<noteq> NOT 0" if "map_of ?m (onmatch r) = Some k" for k
  proof -
    have "k < numDkeys ?rm" using ranI [of "map_of ?m", OF that] dm(2) by simp
    then show ?thesis using word_order.extremum_strict [of "numDkeys ?rm"] by auto
  qed
  show "getDkey ?rm r \<noteq> NOT 0 \<longleftrightarrow> r \<in> dedupe_required req rm"
  proof (cases "r \<in> dedupe_required req rm")
    case True
    then show ?thesis using key no_max [of "getDkey ?rm r"] by simp
  next
    case False
    then have "map_of ?m (onmatch r) = None" using key by simp
    then have "getDkey ?rm r = NOT 0" unfolding dk by simp
    then show ?thesis using False by simp
  qed
qed

text \<open>
  C7. Deduplication keys, assigned once in a manager that the operations can reach. An external
  report of the manager has a key exactly when the set of internal reports with its match id
  requires deduplication. The reports that require it have exactly the numbers below
  \<^verbatim>\<open>numDkeys\<close> as keys, all of them used, two of these reports have the same key exactly when
  they have the same match id, and the table from keys to match ids, one entry per key, inverts the
  assignment.
\<close>

theorem dedupe_keys_roundtrip:
  assumes reach: "rm_reach limit rm" and unassigned: "reportIdToDedupeKey rm = []"
  shows "let rm' = assignDkeys req rm; required = dedupe_required req rm
    in (\<forall>r \<in> set (reportIds rm). isExternalReport r \<longrightarrow> (getDkey rm' r \<noteq> NOT 0 \<longleftrightarrow> r \<in> required)) \<and>
       getDkey rm' ` required = {..<numDkeys rm'} \<and>
       (\<forall>r \<in> required. \<forall>r' \<in> required. getDkey rm' r = getDkey rm' r' \<longleftrightarrow> onmatch r = onmatch r') \<and>
       length (getDkeyToReportTable rm') = unat (numDkeys rm') \<and>
       (\<forall>r \<in> required. getDkeyToReportTable rm' ! unat (getDkey rm' r) = onmatch r)"
proof -
  let ?rm = "assignDkeys req rm" and ?req = "dedupe_required req rm"
  let ?m = "reportIdToDedupeKey ?rm"
  note dm = dkey_map [OF assms, where req = req]
  have mem: "r \<in> set (reportIds rm)" "isExternalReport r" if "r \<in> ?req" for r using that by (simp_all add: dedupe_required_def)
  have key: "map_of ?m (onmatch r) = Some (getDkey ?rm r)" if "r \<in> ?req" for r
    using getDkey_required(1) [OF assms mem [OF that]] that by simp
  have "k \<in> ran (map_of ?m) \<longleftrightarrow> (\<exists>x \<in> onmatch ` ?req. map_of ?m x = Some k)" for k
    unfolding dkey_dom [OF unassigned, symmetric] by (auto simp: ran_def)
  then have dense: "getDkey ?rm ` ?req = {..<numDkeys ?rm}" unfolding dm(2) [symmetric] using key by (auto intro: ranI)
  have inv: "getDkeyToReportTable ?rm ! unat (getDkey ?rm r) = onmatch r" if "r \<in> ?req" for r
    using dm(4) [OF key [OF that]] .
  have inj: "getDkey ?rm r = getDkey ?rm r' \<longleftrightarrow> onmatch r = onmatch r'" if "r \<in> ?req" "r' \<in> ?req" for r r'
    using inv [OF that(1)] inv [OF that(2)] key [OF that(1)] key [OF that(2)] by (metis option.inject)
  have "length (foldl (\<lambda>rv e. rv[unat (snd e) := fst e]) l es) = length l" for l :: "u32 list" and es :: "(u32 \<times> u32) list"
    by (induction es arbitrary: l) simp_all
  then have len: "length (getDkeyToReportTable ?rm) = unat (numDkeys ?rm)"
    using dm(3) by (simp add: getDkeyToReportTable_def numDkeys_def unsigned_of_nat take_bit_nat_eq_self)
  show ?thesis
    unfolding Let_def using getDkey_required(2) [OF assms, of _ req] dense inj len inv by blast
qed

text \<open>
  Two reports of one match id and one of another, both ids requiring deduplication: two keys.
\<close>

theorem dedupe_keys_roundtrip_witness:
  "\<exists>rm. rm_reach 9 rm \<and> reportIds rm = [makeCallback 7 0, makeCallback 7 1, makeCallback 5 0] \<and>
    getDkey (assignDkeys (\<lambda>s. True) rm) ` set (reportIds rm) = {..<2} \<and>
    getDkeyToReportTable (assignDkeys (\<lambda>s. True) rm) !
      unat (getDkey (assignDkeys (\<lambda>s. True) rm) (makeCallback 7 1)) = 7"
proof -
  have ne: "\<not> report_eq (makeCallback 7 0) (makeCallback 7 1)" "\<not> report_eq (makeCallback 7 0) (makeCallback 5 0)"
    "\<not> report_eq (makeCallback 7 1) (makeCallback 5 0)"
    by (simp_all add: report_eq_def makeCallback_def makeECallback_def new_Report_def)
  obtain rm1 where g1: "getInternalId (new_ReportManager 9) (makeCallback 7 0) = Inr (0, rm1)"
    and r1: "reportIds rm1 = [makeCallback 7 0]" "reportIdToInternalMap rm1 = [(makeCallback 7 0, 0)]"
      "limitReportCount rm1 = 9" "reportIdToDedupeKey rm1 = []"
    by (simp add: getInternalId_def new_ReportManager_def numReports_def)
  obtain rm2 where g2: "getInternalId rm1 (makeCallback 7 1) = Inr (1, rm2)"
    and r2: "reportIds rm2 = [makeCallback 7 0, makeCallback 7 1]" "limitReportCount rm2 = 9"
      "reportIdToInternalMap rm2 = [(makeCallback 7 0, 0), (makeCallback 7 1, 1)]" "reportIdToDedupeKey rm2 = []"
    using r1 ne by (simp add: getInternalId_def numReports_def)
  obtain rm where g: "getInternalId rm2 (makeCallback 5 0) = Inr (2, rm)"
    and r: "reportIds rm = [makeCallback 7 0, makeCallback 7 1, makeCallback 5 0]" and d: "reportIdToDedupeKey rm = []"
    using r2 ne by (simp add: getInternalId_def numReports_def)
  have reach: "rm_reach 9 rm"
    by (rule rm_reach.internal [OF rm_reach.internal [OF rm_reach.internal [OF rm_reach.init g1] g2] g])
  have ext: "isExternalReport (makeCallback a b)" "onmatch (makeCallback a b) = a" for a b
    by (simp_all add: isExternalReport_def makeCallback_def makeECallback_def new_Report_def)
  let ?rm = "assignDkeys (\<lambda>s. True) rm"
  have S: "dedupe_required (\<lambda>s. True) rm = set (reportIds rm)" by (auto simp: dedupe_required_def r ext)
  note t = dedupe_keys_roundtrip [OF reach d, of "\<lambda>s. True", unfolded Let_def S]
  let ?rs = "[makeCallback 7 0, makeCallback 7 1, makeCallback 5 0]"
  have two: "length (foldl (assign_dkey (\<lambda>s. True)) [] (foldl ext_to_int_add [] (zip ?rs [0..<length ?rs]))) = 2"
    by code_simp
  have n: "numDkeys ?rm = 2"
    unfolding numDkeys_def assignDkeys_def Let_def r d ReportManager.select_convs ReportManager.update_convs
    using two by simp
  have "getDkey ?rm ` set (reportIds rm) = {..<2}" using t n by simp
  moreover have "getDkeyToReportTable ?rm ! unat (getDkey ?rm (makeCallback 7 1)) = onmatch (makeCallback 7 1)"
    using t r by simp
  ultimately show ?thesis using reach r ext(2) by (intro exI [of _ rm]) simp
qed

section \<open>Exhaustion keys of a set of reports\<close>

lemma ekeysUnion_spec:
  "flat_set_ok ks \<Longrightarrow> flat_set_ok (ekeysUnion ks k) \<and>
     set (ekeysUnion ks k) = (if ks = [] \<or> k = INVALID_EKEY then {} else insert k (set ks))"
  by (simp add: ekeysUnion_def flat_set_insert_spec)

lemma reports_ekeys_rest:
  assumes "\<forall>r \<in> set rs. r < numReports rm" "flat_set_ok ks"
  shows "\<exists>ks'. reports_ekeys rm False rs ks = Inr ks' \<and> flat_set_ok ks' \<and>
    set ks' = (if ks = [] \<or> (\<exists>r \<in> set rs. ekey (reportIds rm ! r) = INVALID_EKEY) then {}
      else set ks \<union> (\<lambda>r. ekey (reportIds rm ! r)) ` set rs)"
  using assms
proof (induction rs arbitrary: ks)
  case (Cons r rs)
  let ?ks = "ekeysUnion ks (ekey (reportIds rm ! r))"
  have u: "flat_set_ok ?ks" "set ?ks = (if ks = [] \<or> ekey (reportIds rm ! r) = INVALID_EKEY then {}
      else insert (ekey (reportIds rm ! r)) (set ks))"
    using ekeysUnion_spec [OF Cons.prems(2)] by simp_all
  have e: "?ks = [] \<longleftrightarrow> ks = [] \<or> ekey (reportIds rm ! r) = INVALID_EKEY"
    using u(2) by (cases "?ks") (auto split: if_splits)
  have g: "getReport rm r = Inr (reportIds rm ! r)" using Cons.prems(1) by (simp add: getReport_def numReports_def)
  from Cons.IH [OF _ u(1)] Cons.prems(1) show ?case by (auto simp: g e u(2) split: if_splits)
qed simp

text \<open>
  A set of reports has exhaustion keys only when every report of the set has one.
\<close>

lemma reportsToEkeys_spec:
  assumes "rs \<noteq> []" "\<forall>r \<in> set rs. r < numReports rm"
  shows "\<exists>ks. reportsToEkeys rs rm = Inr ks \<and> flat_set_ok ks \<and>
    set ks = (if \<exists>r \<in> set rs. ekey (reportIds rm ! r) = INVALID_EKEY then {}
      else (\<lambda>r. ekey (reportIds rm ! r)) ` set rs)"
proof (cases rs)
  case (Cons r rs')
  let ?k = "ekey (reportIds rm ! r)"
  let ?ks = "if ?k \<noteq> INVALID_EKEY then fst (flat_set_insert [] ?k) else []"
  have u: "flat_set_ok ?ks" "set ?ks = (if ?k = INVALID_EKEY then {} else {?k})" "?ks = [] \<longleftrightarrow> ?k = INVALID_EKEY"
    using flat_set_insert_spec [of "[]" ?k] by (auto simp: flat_set_defs)
  have g: "getReport rm r = Inr (reportIds rm ! r)" using assms(2) Cons by (simp add: getReport_def numReports_def)
  have "reportsToEkeys rs rm = reports_ekeys rm False rs' ?ks" by (simp add: reportsToEkeys_def Cons g)
  with reports_ekeys_rest [OF _ u(1), of rs' rm] assms(2) Cons u(2,3) show ?thesis by (auto split: if_splits)
qed (use assms(1) in simp)

section \<open>Registration of expressions\<close>

text \<open>The reports of a sequence of expressions, as the graph builder requests them one after another.\<close>

definition register_expr ::
  "rm_error + Report list \<times> ReportManager \<Rightarrow> ExpressionInfo \<Rightarrow> rm_error + Report list \<times> ReportManager" where
  "register_expr acc expr =
     (case acc of Inl e \<Rightarrow> Inl e
      | Inr (rs, rm) \<Rightarrow>
          (case getBasicInternalReport rm expr 0 of Inl e \<Rightarrow> Inl e | Inr (r, rm') \<Rightarrow> Inr (rs @ [r], rm')))"

definition register_exprs :: "ReportManager \<Rightarrow> ExpressionInfo list \<Rightarrow> rm_error + Report list \<times> ReportManager" where
  "register_exprs rm exprs = foldl register_expr (Inr ([], rm)) exprs"

definition first_with :: "ExpressionInfo list \<Rightarrow> u32 \<Rightarrow> external_report_info option" where
  "first_with exprs i = map_option (\<lambda>e. \<lparr>highlander = ex_highlander e, first_pattern_index = ex_index e\<rparr>)
     (find (\<lambda>e. ex_report e = i) exprs)"

definition single_ids :: "ExpressionInfo list \<Rightarrow> int set" where
  "single_ids exprs = {uint (ex_report e) |e. e \<in> set exprs \<and> ex_highlander e}"

definition reg_inv :: "ExpressionInfo list \<Rightarrow> Report list \<Rightarrow> ReportManager \<Rightarrow> bool" where
  "reg_inv exprs rs rm \<longleftrightarrow> rm_ok rm \<and> map_of (externalIdMap rm) = first_with exprs \<and>
     dom (map_of (toExhaustibleKeyMap rm)) = single_ids exprs \<and>
     length (toExhaustibleKeyMap rm) \<le> length exprs \<and> length rs = length exprs \<and>
     (\<forall>i < length exprs. onmatch (rs ! i) = ex_report (exprs ! i) \<and> quiet (rs ! i) = ex_quiet (exprs ! i) \<and>
        (if ex_highlander (exprs ! i)
         then map_of (toExhaustibleKeyMap rm) (uint (ex_report (exprs ! i))) = Some (ekey (rs ! i))
         else ekey (rs ! i) = INVALID_EKEY))"

definition consistent :: "ExpressionInfo list \<Rightarrow> bool" where
  "consistent exprs \<longleftrightarrow>
     (\<forall>e \<in> set exprs. \<forall>e' \<in> set exprs. ex_report e = ex_report e' \<longrightarrow> ex_highlander e = ex_highlander e')"

lemma first_with_snoc:
  "first_with (exprs @ [e]) i = (case first_with exprs i of Some x \<Rightarrow> Some x
     | None \<Rightarrow> if ex_report e = i then Some \<lparr>highlander = ex_highlander e, first_pattern_index = ex_index e\<rparr> else None)"
  by (induction exprs) (auto simp: first_with_def)

lemma first_with_SomeD:
  "first_with exprs i = Some info \<Longrightarrow>
   \<exists>e \<in> set exprs. ex_report e = i \<and> info = \<lparr>highlander = ex_highlander e, first_pattern_index = ex_index e\<rparr>"
  by (auto simp: first_with_def find_Some_iff)

lemma first_with_None: "first_with exprs i = None \<longleftrightarrow> (\<forall>e \<in> set exprs. ex_report e \<noteq> i)"
  by (auto simp: first_with_def find_None_iff)

lemma consistent_append1:
  "consistent (exprs @ [e]) \<longleftrightarrow> consistent exprs \<and>
     (\<forall>d \<in> set exprs. ex_report d = ex_report e \<longrightarrow> ex_highlander d = ex_highlander e)"
proof -
  have all: "(\<forall>x \<in> set (xs @ [e]). \<forall>y \<in> set (xs @ [e]). P x y) \<longleftrightarrow>
      (\<forall>x \<in> set xs. \<forall>y \<in> set xs. P x y) \<and> (\<forall>x \<in> set xs. P x e) \<and> (\<forall>y \<in> set xs. P e y) \<and> P e e"
    for P and xs :: "ExpressionInfo list" by auto
  have "(\<forall>y \<in> set exprs. ex_report e = ex_report y \<longrightarrow> ex_highlander e = ex_highlander y) \<longleftrightarrow>
      (\<forall>d \<in> set exprs. ex_report d = ex_report e \<longrightarrow> ex_highlander d = ex_highlander e)"
    by (simp add: eq_commute)
  then show ?thesis unfolding consistent_def all by blast
qed

lemma consistent_snoc:
  assumes "consistent exprs"
  shows "consistent (exprs @ [e]) \<longleftrightarrow> (case first_with exprs (ex_report e) of None \<Rightarrow> True
     | Some info \<Rightarrow> highlander info = ex_highlander e)"
proof (cases "first_with exprs (ex_report e)")
  case None
  then show ?thesis using assms None [unfolded first_with_None] by (simp add: consistent_append1)
next
  case (Some info)
  from first_with_SomeD [OF Some] obtain d where d: "d \<in> set exprs" "ex_report d = ex_report e" "highlander info = ex_highlander d"
    by auto
  moreover from this have "\<forall>x \<in> set exprs. ex_report x = ex_report e \<longrightarrow> ex_highlander x = ex_highlander d"
    using assms unfolding consistent_def by metis
  ultimately show ?thesis unfolding consistent_append1 Some option.case using assms by metis
qed

lemma reg_inv_step:
  assumes inv: "reg_inv exprs rs rm"
  shows "case first_with exprs (ex_report e) of
      Some info \<Rightarrow> if highlander info \<noteq> ex_highlander e
        then getBasicInternalReport rm e 0 =
          Inl (CompileError (ex_index e) (ex_report e) (ex_highlander e) (first_pattern_index info))
        else \<exists>r rm'. getBasicInternalReport rm e 0 = Inr (r, rm') \<and> reg_inv (exprs @ [e]) (rs @ [r]) rm'
    | None \<Rightarrow> \<exists>r rm'. getBasicInternalReport rm e 0 = Inr (r, rm') \<and> reg_inv (exprs @ [e]) (rs @ [r]) rm'"
proof -
  let ?ext = "\<lparr>highlander = ex_highlander e, first_pattern_index = ex_index e\<rparr>"
  have ok: "rm_ok rm" and ext: "map_of (externalIdMap rm) = first_with exprs"
    using inv by (auto simp: reg_inv_def)
  have fm: "flat_map_ok (externalIdMap rm)" using ok by (simp add: rm_ok_def ext_ok_def)
  have go: "\<exists>r rm'. getBasicInternalReport rm e 0 = Inr (r, rm') \<and> reg_inv (exprs @ [e]) (rs @ [r]) rm'"
    if reg: "registerExtReport rm (ex_report e) ?ext = Inr rm1"
      and m1: "map_of (externalIdMap rm1) = first_with (exprs @ [e])"
      and t1: "toExhaustibleKeyMap rm1 = toExhaustibleKeyMap rm" for rm1
  proof -
    have ok1: "rm_ok rm1" by (rule registerExtReport_ok [OF ok reg])
    show ?thesis
    proof (cases "ex_highlander e")
      case False
      have "single_ids (exprs @ [e]) = single_ids exprs" using False by (auto simp: single_ids_def)
      then have "reg_inv (exprs @ [e]) (rs @ [makeECallback (ex_report e) 0 INVALID_EKEY (ex_quiet e)]) rm1"
        using inv ok1 m1 t1 False
        by (auto simp: reg_inv_def nth_append less_Suc_eq makeECallback_def new_Report_def)
      then show ?thesis using reg False by (simp add: getBasicInternalReport_def)
    next
      case True
      obtain k m where km: "dense_key (toExhaustibleKeyMap rm) (uint (ex_report e)) = (k, m)" by fastforce
      then have g: "getExhaustibleKey rm1 (ex_report e) = (k, rm1\<lparr>toExhaustibleKeyMap := m\<rparr>)"
        by (simp add: getExhaustibleKey_def t1)
      have "dense_ok (toExhaustibleKeyMap rm)" using ok by (simp add: rm_ok_def ekeys_ok_def)
      note d = dense_key_spec [OF this km]
      have ids: "single_ids (exprs @ [e]) = insert (uint (ex_report e)) (single_ids exprs)"
        using True by (auto simp: single_ids_def)
      have keep: "map_of m x = Some v" if "map_of (toExhaustibleKeyMap rm) x = Some v" for x v
        using that d(3) unfolding map_le_def by (metis domI)
      have "reg_inv (exprs @ [e]) (rs @ [makeECallback (ex_report e) 0 k (ex_quiet e)]) (rm1\<lparr>toExhaustibleKeyMap := m\<rparr>)"
        using inv m1 True getExhaustibleKey_ok [OF ok1 g] d(2,5) ids keep
        by (auto simp: reg_inv_def nth_append less_Suc_eq makeECallback_def new_Report_def split: if_splits)
      then show ?thesis using reg True g by (simp add: getBasicInternalReport_def)
    qed
  qed
  show ?thesis
  proof (cases "first_with exprs (ex_report e)")
    case None
    let ?rm = "rm\<lparr>externalIdMap := fst (flat_map_insert (externalIdMap rm) (ex_report e, ?ext)),
        global_exhaust := global_exhaust rm \<and> ex_highlander e\<rparr>"
    have "registerExtReport rm (ex_report e) ?ext = Inr ?rm"
      using None by (simp add: registerExtReport_eq [OF fm] ext)
    moreover have "map_of (externalIdMap ?rm) = first_with (exprs @ [e])"
    proof -
      have "ex_report e \<notin> fst ` set (externalIdMap rm)" using None ext by (metis map_of_eq_None_iff)
      then have "map_of (externalIdMap ?rm) = (first_with exprs)(ex_report e \<mapsto> ?ext)"
        using flat_map_insert_spec(3) [OF fm, of "ex_report e" ?ext] ext by simp
      then show ?thesis using None by (auto simp: first_with_snoc fun_eq_iff split: option.splits)
    qed
    ultimately show ?thesis using None go [of ?rm] by simp
  next
    case (Some info)
    let ?rm = "rm\<lparr>global_exhaust := global_exhaust rm \<and> ex_highlander e\<rparr>"
    have reg: "registerExtReport rm (ex_report e) ?ext =
        (if highlander info \<noteq> ex_highlander e
         then Inl (CompileError (ex_index e) (ex_report e) (ex_highlander e) (first_pattern_index info)) else Inr ?rm)"
      using Some by (simp add: registerExtReport_eq [OF fm] ext)
    have "map_of (externalIdMap ?rm) = first_with (exprs @ [e])"
      using Some ext by (auto simp: first_with_snoc fun_eq_iff split: option.splits)
    then show ?thesis using Some go [of ?rm] reg by (simp add: getBasicInternalReport_def)
  qed
qed

lemma register_exprs_snoc: "register_exprs rm (exprs @ [e]) = register_expr (register_exprs rm exprs) e"
  by (simp add: register_exprs_def)

definition reg_conflict :: "ExpressionInfo list \<Rightarrow> rm_error \<Rightarrow> bool" where
  "reg_conflict exprs err \<longleftrightarrow> (\<exists>e \<in> set exprs. \<exists>d \<in> set exprs.
     ex_report d = ex_report e \<and> ex_highlander d \<noteq> ex_highlander e \<and>
     err = CompileError (ex_index e) (ex_report e) (ex_highlander e) (ex_index d))"

lemma reg_conflict_append: "reg_conflict exprs err \<Longrightarrow> reg_conflict (exprs @ es) err"
  unfolding reg_conflict_def set_append by blast

lemma register_exprs_cases:
  "(if consistent exprs then \<exists>rs rm. register_exprs (new_ReportManager limit) exprs = Inr (rs, rm) \<and> reg_inv exprs rs rm
    else \<exists>err. register_exprs (new_ReportManager limit) exprs = Inl err \<and> reg_conflict exprs err)"
proof (induction exprs rule: rev_induct)
  case Nil
  have "rm_ok (new_ReportManager limit)" using rm_reach_ok [OF rm_reach.init] by blast
  then show ?case
    by (simp add: consistent_def register_exprs_def reg_inv_def new_ReportManager_def first_with_def single_ids_def fun_eq_iff)
next
  case (snoc e exprs)
  show ?case
  proof (cases "consistent exprs")
    case False
    then have "\<not> consistent (exprs @ [e])" by (simp add: consistent_append1)
    with snoc False show ?thesis using reg_conflict_append by (auto simp: register_exprs_snoc register_expr_def)
  next
    case True
    with snoc obtain rs rm where r: "register_exprs (new_ReportManager limit) exprs = Inr (rs, rm)" and inv: "reg_inv exprs rs rm"
      by auto
    note step = reg_inv_step [OF inv, of e] and cons = consistent_snoc [OF True, of e]
    show ?thesis
    proof (cases "consistent (exprs @ [e])")
      case c: True
      then have "\<exists>r rm'. getBasicInternalReport rm e 0 = Inr (r, rm') \<and> reg_inv (exprs @ [e]) (rs @ [r]) rm'"
        using step cons by (auto split: option.splits)
      then show ?thesis using c r by (auto simp: register_exprs_snoc register_expr_def)
    next
      case c: False
      then obtain info where info: "first_with exprs (ex_report e) = Some info" "highlander info \<noteq> ex_highlander e"
        using cons by (auto split: option.splits)
      from first_with_SomeD [OF info(1)] obtain d where d: "d \<in> set exprs" "ex_report d = ex_report e"
        "info = \<lparr>highlander = ex_highlander d, first_pattern_index = ex_index d\<rparr>" by auto
      have "register_exprs (new_ReportManager limit) (exprs @ [e]) =
          Inl (CompileError (ex_index e) (ex_report e) (ex_highlander e) (ex_index d))"
        using step info d(3) r by (simp add: register_exprs_snoc register_expr_def)
      moreover have "reg_conflict (exprs @ [e]) (CompileError (ex_index e) (ex_report e) (ex_highlander e) (ex_index d))"
        unfolding reg_conflict_def using d info(2) by (intro bexI [of _ e] bexI [of _ d]) auto
      ultimately show ?thesis using c by simp
    qed
  qed
qed

text \<open>
  C6. Registering expressions one after another on a new manager succeeds exactly when no two of them
  share a match id while only one asks for single matches; otherwise the error names two such
  expressions. On success the set can exhaust exactly when it is not empty and all expressions are
  single-match; an expression that is not single-match has no exhaustion key, and two single-match
  expressions have the same valid key exactly when they have the same match id.
\<close>

theorem register_exprs_highlander:
  assumes "length exprs < 2 ^ 32"
  shows "case register_exprs (new_ReportManager limit) exprs of
      Inl err \<Rightarrow> \<exists>e \<in> set exprs. \<exists>d \<in> set exprs. ex_report d = ex_report e \<and> ex_highlander d \<noteq> ex_highlander e \<and>
        err = CompileError (ex_index e) (ex_report e) (ex_highlander e) (ex_index d)
    | Inr (rs, rm) \<Rightarrow>
        (\<forall>e \<in> set exprs. \<forall>d \<in> set exprs. ex_report d = ex_report e \<longrightarrow> ex_highlander d = ex_highlander e) \<and>
        (patternSetCanExhaust rm \<longleftrightarrow> exprs \<noteq> [] \<and> (\<forall>e \<in> set exprs. ex_highlander e)) \<and>
        length rs = length exprs \<and>
        (\<forall>i < length exprs. onmatch (rs ! i) = ex_report (exprs ! i) \<and>
           (ekey (rs ! i) = INVALID_EKEY \<longleftrightarrow> \<not> ex_highlander (exprs ! i))) \<and>
        (\<forall>i < length exprs. \<forall>j < length exprs. ex_highlander (exprs ! i) \<and> ex_highlander (exprs ! j) \<longrightarrow>
           (ekey (rs ! i) = ekey (rs ! j) \<longleftrightarrow> ex_report (exprs ! i) = ex_report (exprs ! j)))"
proof (cases "consistent exprs")
  case False
  then obtain err where "register_exprs (new_ReportManager limit) exprs = Inl err" "reg_conflict exprs err"
    using register_exprs_cases [of exprs limit] by auto
  then show ?thesis by (simp add: reg_conflict_def)
next
  case True
  then obtain rs rm where r: "register_exprs (new_ReportManager limit) exprs = Inr (rs, rm)" and inv: "reg_inv exprs rs rm"
    using register_exprs_cases [of exprs limit] by auto
  let ?m = "toExhaustibleKeyMap rm"
  have ok: "rm_ok rm" and ext: "map_of (externalIdMap rm) = first_with exprs" and dom: "dom (map_of ?m) = single_ids exprs"
    and len: "length ?m \<le> length exprs" "length rs = length exprs"
    using inv by (auto simp: reg_inv_def)
  have key: "map_of ?m (uint (ex_report (exprs ! i))) = Some (ekey (rs ! i))"
    if "i < length exprs" "ex_highlander (exprs ! i)" for i
    using inv that by (auto simp: reg_inv_def)
  have nokey: "ekey (rs ! i) = INVALID_EKEY" if "i < length exprs" "\<not> ex_highlander (exprs ! i)" for i
    using inv that by (auto simp: reg_inv_def)
  have dense: "dense_ok ?m" using ok by (simp add: rm_ok_def ekeys_ok_def)
  have valid: "ekey (rs ! i) \<noteq> INVALID_EKEY" if "i < length exprs" "ex_highlander (exprs ! i)" for i
  proof -
    have "ekey (rs ! i) \<in> snd ` set ?m" using map_of_SomeD [OF key [OF that]] by force
    then obtain n where n: "n < length ?m" "ekey (rs ! i) = of_nat n" using dense by (auto simp: dense_ok_def)
    then have "ekey (rs ! i) < of_nat (length ?m)" using len assms by (simp add: u32_of_nat_less)
    then show ?thesis
      using word_order.extremum_strict [of "of_nat (length ?m) :: u32"] by (auto simp: INVALID_EKEY_def)
  qed
  have same: "ekey (rs ! i) = ekey (rs ! j) \<longleftrightarrow> ex_report (exprs ! i) = ex_report (exprs ! j)"
    if "i < length exprs" "j < length exprs" "ex_highlander (exprs ! i)" "ex_highlander (exprs ! j)" for i j
  proof
    assume "ekey (rs ! i) = ekey (rs ! j)"
    from dense_ok_inj [OF dense _ key [OF that(1,3)] key [OF that(2,4), folded this]] len(1) assms
    have "uint (ex_report (exprs ! i)) = uint (ex_report (exprs ! j))" by simp
    then show "ex_report (exprs ! i) = ex_report (exprs ! j)" by (rule word_uint_eqI)
  next
    assume "ex_report (exprs ! i) = ex_report (exprs ! j)"
    then show "ekey (rs ! i) = ekey (rs ! j)" using key [OF that(1,3)] key [OF that(2,4)] by simp
  qed
  have d: "distinct (map fst (externalIdMap rm))"
    using ok by (simp add: rm_ok_def ext_ok_def flat_map_ok_def strict_sorted_iff)
  have all: "(\<forall>x \<in> set (externalIdMap rm). highlander (snd x)) \<longleftrightarrow> (\<forall>e \<in> set exprs. ex_highlander e)"
  proof
    assume l: "\<forall>x \<in> set (externalIdMap rm). highlander (snd x)"
    show "\<forall>e \<in> set exprs. ex_highlander e"
    proof
      fix e assume e: "e \<in> set exprs"
      then obtain info where i: "first_with exprs (ex_report e) = Some info" by (metis first_with_None not_None_eq)
      then have "(ex_report e, info) \<in> set (externalIdMap rm)" by (metis ext map_of_SomeD)
      then have "highlander info" using l by force
      moreover from first_with_SomeD [OF i] obtain c where c: "c \<in> set exprs" "ex_report c = ex_report e"
        "info = \<lparr>highlander = ex_highlander c, first_pattern_index = ex_index c\<rparr>" by blast
      moreover have "ex_highlander c = ex_highlander e" using True c(1,2) e unfolding consistent_def by blast
      ultimately show "ex_highlander e" by simp
    qed
  next
    assume a: "\<forall>e \<in> set exprs. ex_highlander e"
    show "\<forall>x \<in> set (externalIdMap rm). highlander (snd x)"
    proof
      fix x assume "x \<in> set (externalIdMap rm)"
      then have "first_with exprs (fst x) = Some (snd x)" using d ext by (metis map_of_eq_Some_iff prod.collapse)
      from first_with_SomeD [OF this] a show "highlander (snd x)" by auto
    qed
  qed
  have "?m \<noteq> [] \<longleftrightarrow> single_ids exprs \<noteq> {}" using dom by (cases ?m) auto
  then have exh: "patternSetCanExhaust rm \<longleftrightarrow> exprs \<noteq> [] \<and> (\<forall>e \<in> set exprs. ex_highlander e)"
    using ok all by (cases exprs) (auto simp: patternSetCanExhaust_def rm_ok_def ext_ok_def single_ids_def)
  have on: "onmatch (rs ! i) = ex_report (exprs ! i)" if "i < length exprs" for i
    using inv that by (auto simp: reg_inv_def)
  show ?thesis
    unfolding r sum.case prod.case
    using True exh len(2) on valid nokey same unfolding consistent_def by blast
qed

definition example_expr :: "u32 \<Rightarrow> u32 \<Rightarrow> bool \<Rightarrow> ExpressionInfo" where
  "example_expr i r h = \<lparr>ex_index = i, ex_report = r, ex_allow_vacuous = False, ex_highlander = h, ex_utf8 = False,
     ex_prefilter = False, ex_som = SOM_NONE, ex_min_offset = 0, ex_max_offset = MAX_OFFSET, ex_min_length = 0,
     ex_edit_distance = 0, ex_hamm_distance = 0, ex_quiet = False\<rparr>"

theorem register_exprs_highlander_witness:
  "\<exists>rs rm. register_exprs (new_ReportManager 9) [example_expr 0 7 True, example_expr 1 8 True] = Inr (rs, rm) \<and>
    patternSetCanExhaust rm \<and> ekey (rs ! 0) \<noteq> ekey (rs ! 1)"
proof -
  let ?es = "[example_expr 0 7 True, example_expr 1 8 True]"
  have "consistent ?es" by (simp add: consistent_def example_expr_def)
  then obtain rs rm where r: "register_exprs (new_ReportManager 9) ?es = Inr (rs, rm)"
    using register_exprs_cases [of ?es 9] by auto
  have "length ?es < 2 ^ 32" by simp
  from register_exprs_highlander [OF this, of 9] r show ?thesis
    by (auto simp: example_expr_def nth_Cons')
qed

text \<open>
  The comparison of reports leaves the \<^verbatim>\<open>quiet\<close> flag out. When two expressions share a match id
  and the first is quiet, the second gets the internal id of the first, whose report is quiet.
\<close>

lemma quiet_flag_shared:
  assumes "\<not> ex_highlander e" "ex_quiet e" and d: "d = e\<lparr>ex_index := i, ex_quiet := False\<rparr>" and lim: "limit \<noteq> 0"
  shows "\<exists>rs rm rm1. register_exprs (new_ReportManager limit) [e, d] = Inr (rs, rm) \<and> \<not> quiet (rs ! 1) \<and>
    getInternalId rm (rs ! 0) = Inr (0, rm1) \<and> getInternalId rm1 (rs ! 1) = Inr (0, rm1) \<and>
    (\<exists>r. getReport rm1 0 = Inr r \<and> quiet r)"
proof -
  have "consistent [e, d]" using d by (simp add: consistent_def)
  then obtain rs rm where r: "register_exprs (new_ReportManager limit) [e, d] = Inr (rs, rm)"
    using register_exprs_cases [of "[e, d]" limit] by auto
  have rs: "rs = [makeECallback (ex_report e) 0 INVALID_EKEY True, makeECallback (ex_report e) 0 INVALID_EKEY False]"
    and ids: "reportIds rm = []" "reportIdToInternalMap rm = []" "limitReportCount rm = limit"
    using r assms by (auto simp: register_exprs_def register_expr_def getBasicInternalReport_def registerExtReport_def
      Let_def new_ReportManager_def flat_map_defs split: if_splits sum.splits prod.splits)
  have "0 < unat limit" using lim by (simp add: unat_gt_0)
  then show ?thesis
    using r ids by (simp add: rs getInternalId_def numReports_def getReport_def report_eq_def makeECallback_def new_Report_def)
qed

end
