(* ===== verification/PartitionedSet.thy ===== *)
theory PartitionedSet
  imports FlatContainers
begin

text \<open>
  The partition of \<open>[0, n)\<close> into indexed subsets of \<^verbatim>\<open>util/partitioned_set.h\<close>,
  used by DFA minimisation. \<open>INVALID_SUBSET\<close> is \<open>None\<close>; the scratch vectors
  \<^verbatim>\<open>split_temp_inter\<close> and \<^verbatim>\<open>split_temp_diff\<close> are the results of
  \<open>split_members\<close>. The locale \<open>partition_ops\<close> is the contract a
  refinement algorithm relies on.
\<close>

section \<open>Data and operations\<close>

record partitioned_set =
  member_to_subset :: "nat list"
  subsets :: "nat list list"

text \<open>
  The loop of \<^verbatim>\<open>split\<close> over the sorted members, with the search position in the
  splitter only moving forward. Returns the difference and the intersection.
\<close>

fun split_members :: "nat list \<Rightarrow> nat list \<Rightarrow> nat list \<times> nat list" where
  "split_members [] sp = ([], [])"
| "split_members (m # ms) sp =
     (case lower_bound sp m of
        [] \<Rightarrow> (m # ms, [])
      | x # sp' \<Rightarrow>
          (let (diff, inter) = split_members ms (x # sp')
           in if m < x then (m # diff, inter) else (diff, m # inter)))"

definition partition_split :: "partitioned_set \<Rightarrow> nat \<Rightarrow> nat list \<Rightarrow> nat option \<times> partitioned_set" where
  "partition_split p subset_index splitter =
     (if splitter = [] then (None, p)
      else
        let orig = subsets p ! subset_index
        in if last orig < hd splitter then (None, p)
           else if last splitter < hd orig then (None, p)
           else
             let (diff, inter) = split_members orig splitter
             in if inter = [] then (None, p)
                else if diff = [] then (None, p)
                else
                  let (big, small) = (if length inter < length diff then (diff, inter) else (inter, diff));
                      new_index = length (subsets p)
                  in (Some new_index,
                      p\<lparr>subsets := (subsets p)[subset_index := big] @ [small],
                        member_to_subset := foldl (\<lambda>m e. m[e := new_index]) (member_to_subset p) small\<rparr>))"

definition find_overlapping :: "partitioned_set \<Rightarrow> nat list \<Rightarrow> nat list" where
  "find_overlapping p keys =
     (let seen = foldl (\<lambda>b key. b[member_to_subset p ! key := True])
                   (replicate (length (subsets p)) False) keys
      in filter (\<lambda>i. seen ! i) [0..<length (subsets p)])"

definition subset_count :: "nat list \<Rightarrow> nat" where
  "subset_count state_to_subset = foldl (\<lambda>c sub. max c (sub + 1)) 0 state_to_subset"

definition new_partitioned_set :: "nat list \<Rightarrow> partitioned_set" where
  "new_partitioned_set state_to_subset =
     foldl
       (\<lambda>p i. let sub = state_to_subset ! i
              in p\<lparr>member_to_subset := (member_to_subset p)[i := sub],
                   subsets := (subsets p)[sub := (subsets p ! sub) @ [i]]\<rparr>)
       \<lparr>member_to_subset = replicate (length state_to_subset) 0,
        subsets = replicate (subset_count state_to_subset) []\<rparr>
       [0..<length state_to_subset]"

section \<open>Invariant\<close>

definition members :: "nat \<Rightarrow> partitioned_set \<Rightarrow> nat \<Rightarrow> nat list" where
  "members n p i = filter (\<lambda>s. member_to_subset p ! s = i) [0..<n]"

definition partition_ok :: "nat \<Rightarrow> partitioned_set \<Rightarrow> bool" where
  "partition_ok n p \<longleftrightarrow>
     length (member_to_subset p) = n \<and>
     (\<forall>s < n. member_to_subset p ! s < length (subsets p)) \<and>
     (\<forall>i < length (subsets p). subsets p ! i = members n p i \<and> members n p i \<noteq> [])"

lemma partition_okD:
  assumes "partition_ok n p"
  shows "length (member_to_subset p) = n"
    and "s < n \<Longrightarrow> member_to_subset p ! s < length (subsets p)"
    and "i < length (subsets p) \<Longrightarrow> subsets p ! i = members n p i"
    and "i < length (subsets p) \<Longrightarrow> members n p i \<noteq> []"
  using assms by (auto simp: partition_ok_def)

lemma sorted_members [simp]: "sorted (members n p i)"
  by (simp add: members_def)

lemma in_members: "s \<in> set (members n p i) \<longleftrightarrow> s < n \<and> member_to_subset p ! s = i"
  by (auto simp: members_def)

section \<open>Splitting\<close>

lemma split_members_filter:
  "sorted ms \<Longrightarrow> sorted sp \<Longrightarrow>
   split_members ms sp = (filter (\<lambda>m. m \<notin> set sp) ms, filter (\<lambda>m. m \<in> set sp) ms)"
proof (induction ms sp rule: split_members.induct)
  case (1 sp)
  then show ?case by simp
next
  case (2 m ms sp)
  have lb: "x \<in> set (lower_bound sp m) \<longleftrightarrow> x \<in> set sp" if "m \<le> x" for x
    using that "2.prems"(2) by (simp add: set_lower_bound)
  have ge: "m \<le> x" if "x \<in> set ms" for x
    using that "2.prems"(1) by auto
  show ?case
  proof (cases "lower_bound sp m")
    case Nil
    then have "\<And>x. m \<le> x \<Longrightarrow> x \<notin> set sp" using lb by simp
    then show ?thesis using Nil ge by (auto simp: filter_empty_conv filter_id_conv)
  next
    case (Cons x sp')
    have IH: "split_members ms (x # sp') =
        (filter (\<lambda>m. m \<notin> set (x # sp')) ms, filter (\<lambda>m. m \<in> set (x # sp')) ms)"
      using "2.IH" [OF Cons] "2.prems" sorted_lower_bound [OF "2.prems"(2), of m] Cons by simp
    have eq: "y \<in> set (x # sp') \<longleftrightarrow> y \<in> set sp" if "m \<le> y" for y
      using lb [OF that] Cons by simp
    have hd: "m \<le> x" "m \<in> set sp \<longleftrightarrow> m = x"
      using hd_lower_bound [OF "2.prems"(2) Cons] by auto
    have "filter (\<lambda>m. m \<in> set (x # sp')) ms = filter (\<lambda>m. m \<in> set sp) ms"
      "filter (\<lambda>m. m \<notin> set (x # sp')) ms = filter (\<lambda>m. m \<notin> set sp) ms"
      using eq ge by (auto intro!: filter_cong)
    then show ?thesis
      using Cons IH hd by (auto simp del: set_simps list.set)
  qed
qed

text \<open>
  The result of a split in terms of the class of each element: nothing happens when the subset is
  inside or outside the splitter; otherwise one of the two parts moves to a new subset.
\<close>

definition split_parts :: "nat \<Rightarrow> partitioned_set \<Rightarrow> nat \<Rightarrow> nat list \<Rightarrow> bool \<Rightarrow> nat set" where
  "split_parts n p i X b = {s. s < n \<and> member_to_subset p ! s = i \<and> (s \<in> set X) = b}"

lemma partition_split_unfold:
  assumes ok: "partition_ok n p" and i: "i < length (subsets p)" and X: "sorted X"
  defines "ins \<equiv> filter (\<lambda>m. m \<in> set X) (members n p i)"
    and "out \<equiv> filter (\<lambda>m. m \<notin> set X) (members n p i)"
  shows "partition_split p i X =
     (if ins = [] \<or> out = [] then (None, p)
      else let (big, small) = (if length ins < length out then (out, ins) else (ins, out));
               new_index = length (subsets p)
           in (Some new_index,
               p\<lparr>subsets := (subsets p)[i := big] @ [small],
                 member_to_subset := foldl (\<lambda>m e. m[e := new_index]) (member_to_subset p) small\<rparr>))"
proof -
  have orig: "subsets p ! i = members n p i" and ne: "members n p i \<noteq> []"
    using ok i by (auto dest: partition_okD)
  have lo: "ins = []" if "last (members n p i) < hd X"
  proof -
    have "m \<notin> set X" if m: "m \<in> set (members n p i)" for m
      using sorted_le_last [OF sorted_members m] sorted_hd_le [OF X, of m]
        \<open>last (members n p i) < hd X\<close> by fastforce
    then show ?thesis by (simp add: ins_def filter_empty_conv)
  qed
  have hi: "ins = []" if "last X < hd (members n p i)"
  proof -
    have "m \<notin> set X" if m: "m \<in> set (members n p i)" for m
      using sorted_hd_le [OF sorted_members m] sorted_le_last [OF X, of m]
        \<open>last X < hd (members n p i)\<close> by fastforce
    then show ?thesis by (simp add: ins_def filter_empty_conv)
  qed
  have "ins = []" if "X = []" using that by (simp add: ins_def)
  then show ?thesis
    unfolding partition_split_def Let_def orig split_members_filter [OF sorted_members X]
      ins_def [symmetric] out_def [symmetric] prod.case
    using lo hi by auto
qed

lemma partition_split_cases:
  assumes ok: "partition_ok n p" and i: "i < length (subsets p)" and X: "sorted X"
  obtains (none) b where "partition_split p i X = (None, p)" "split_parts n p i X b = {}"
  | (some) b p' where "partition_split p i X = (Some (length (subsets p)), p')"
      "partition_ok n p'" "length (subsets p') = Suc (length (subsets p))"
      "\<forall>s < n. member_to_subset p' ! s =
        (if s \<in> split_parts n p i X b then length (subsets p) else member_to_subset p ! s)"
      "split_parts n p i X b \<noteq> {}"
proof -
  define ins where "ins = filter (\<lambda>m. m \<in> set X) (members n p i)"
  define out where "out = filter (\<lambda>m. m \<notin> set X) (members n p i)"
  note unf = partition_split_unfold [OF assms, folded ins_def out_def]
  have sets: "set ins = split_parts n p i X True" "set out = split_parts n p i X False"
    by (auto simp: ins_def out_def split_parts_def in_members)
  show thesis
  proof (cases "ins = [] \<or> out = []")
    case True
    then show thesis using none [of True] none [of False] unf sets by auto
  next
    case False
    define b where "b = (length ins < length out)"
    define big where "big = (if b then out else ins)"
    define small where "small = (if b then ins else out)"
    let ?new = "length (subsets p)"
    define p' where "p' = p\<lparr>subsets := (subsets p)[i := big] @ [small],
        member_to_subset := foldl (\<lambda>m e. m[e := ?new]) (member_to_subset p) small\<rparr>"
    have split: "partition_split p i X = (Some ?new, p')"
      using unf False by (auto simp: p'_def big_def small_def b_def Let_def)
    have small: "set small = split_parts n p i X b"
      using sets by (auto simp: small_def)
    have n: "length (member_to_subset p) = n" using ok by (rule partition_okD)
    have cls: "member_to_subset p' ! s =
        (if s \<in> split_parts n p i X b then ?new else member_to_subset p ! s)" if "s < n" for s
      using that n small by (simp add: p'_def nth_foldl_update_const [where f = "\<lambda>e. e"])
    have old: "member_to_subset p ! s < ?new" if "s < n" for s
      using ok that by (rule partition_okD)
    have mem: "members n p' j = (if j = i then big else if j = ?new then small else members n p j)" for j
    proof -
      have "members n p' j = filter (\<lambda>s. (if s \<in> set small then ?new else member_to_subset p ! s) = j) [0..<n]"
        unfolding members_def using cls small by (intro filter_cong) auto
      also have "\<dots> = (if j = i then filter (\<lambda>s. s \<notin> set small) (members n p i)
          else if j = ?new then small else members n p j)"
      proof -
        have "filter (\<lambda>s. s \<in> set small) [0..<n] = small"
          unfolding small_def ins_def out_def members_def by (auto simp: conj_commute intro!: filter_cong)
        moreover have "filter (\<lambda>s. s \<in> set small) [0..<n] = filter (\<lambda>s. (if s \<in> set small then ?new
            else member_to_subset p ! s) = ?new) [0..<n]"
          using old by (intro filter_cong) (auto dest: less_imp_neq)
        ultimately show ?thesis
          using i small by (auto simp: members_def split_parts_def intro!: filter_cong)
      qed
      also have "filter (\<lambda>s. s \<notin> set small) (members n p i) = big"
        unfolding small_def big_def ins_def out_def by (auto simp: conj_commute intro!: filter_cong)
      finally show ?thesis .
    qed
    have "partition_ok n p'"
      unfolding partition_ok_def
    proof (intro conjI allI impI)
      show "length (member_to_subset p') = n" using n by (simp add: p'_def)
    next
      fix s assume "s < n"
      then show "member_to_subset p' ! s < length (subsets p')"
        using cls old by (auto simp: p'_def less_Suc_eq)
    next
      fix j assume j: "j < length (subsets p')"
      then show "subsets p' ! j = members n p' j"
        using mem i partition_okD(3) [OF ok, of j]
        by (auto simp: p'_def nth_append nth_list_update less_Suc_eq)
      show "members n p' j \<noteq> []"
        using j mem i False partition_okD(4) [OF ok, of j]
        by (auto simp: p'_def big_def small_def less_Suc_eq)
    qed
    moreover have "split_parts n p i X b \<noteq> {}"
      using small False by (auto simp: small_def split: if_splits)
    ultimately show thesis using some [of p' b] split cls by (auto simp: p'_def)
  qed
qed

lemma length_subsets_le:
  assumes "partition_ok n p"
  shows "length (subsets p) \<le> n"
proof -
  have hd: "hd (members n p i) \<in> set (members n p i)" if "i < length (subsets p)" for i
    using partition_okD(4) [OF assms that] by simp
  have "inj_on (\<lambda>i. hd (members n p i)) {..<length (subsets p)}"
  proof (rule inj_onI)
    fix i j assume "i \<in> {..<length (subsets p)}" "j \<in> {..<length (subsets p)}"
      and eq: "hd (members n p i) = hd (members n p j)"
    then have "hd (members n p i) \<in> set (members n p i)" "hd (members n p j) \<in> set (members n p j)"
      using hd [of i] hd [of j] by simp_all
    then show "i = j" using eq by (simp add: in_members)
  qed
  moreover have "(\<lambda>i. hd (members n p i)) ` {..<length (subsets p)} \<subseteq> {..<n}"
  proof
    fix x assume "x \<in> (\<lambda>i. hd (members n p i)) ` {..<length (subsets p)}"
    then obtain i where "i < length (subsets p)" "x = hd (members n p i)" by auto
    then have "x \<in> set (members n p i)" using hd by simp
    then show "x \<in> {..<n}" by (simp add: in_members)
  qed
  ultimately have "card {..<length (subsets p)} \<le> card {..<n}"
    by (metis card_inj_on_le finite_lessThan)
  then show ?thesis by simp
qed

lemma find_overlapping_iff:
  assumes ok: "partition_ok n p" and keys: "\<forall>s \<in> set keys. s < n"
  shows "set (find_overlapping p keys) = (\<lambda>s. member_to_subset p ! s) ` set keys"
    and "distinct (find_overlapping p keys)"
proof -
  let ?seen = "foldl (\<lambda>b key. b[member_to_subset p ! key := True]) (replicate (length (subsets p)) False) keys"
  have seen: "?seen ! i \<longleftrightarrow> i \<in> (\<lambda>s. member_to_subset p ! s) ` set keys" if "i < length (subsets p)" for i
    using that by (subst nth_foldl_update_const) auto
  show "set (find_overlapping p keys) = (\<lambda>s. member_to_subset p ! s) ` set keys"
    using seen keys partition_okD(2) [OF ok] by (auto simp: find_overlapping_def Let_def)
  show "distinct (find_overlapping p keys)"
    by (simp add: find_overlapping_def Let_def)
qed

section \<open>Construction\<close>

lemma subset_count_bound: "(c::nat) \<le> foldl (\<lambda>c sub. max c (sub + 1)) c xs \<and>
    (\<forall>x \<in> set xs. x < foldl (\<lambda>c sub. max c (sub + 1)) c xs)"
proof (induction xs arbitrary: c)
  case Nil
  then show ?case by simp
next
  case (Cons x xs)
  from Cons.IH [of "max c (x + 1)"] show ?case by auto
qed

lemma subset_count_attained:
  "foldl (\<lambda>c sub. max c (sub + 1)) c xs = c \<or>
   (\<exists>x \<in> set xs. foldl (\<lambda>c sub. max c (sub + 1)) c xs = x + (1::nat))"
proof (induction xs arbitrary: c)
  case Nil
  then show ?case by simp
next
  case (Cons x xs)
  then show ?case using Cons.IH [of "max c (x + 1)"] by (auto simp: max_def split: if_splits)
qed

lemma subset_count_dense:
  assumes "set xs = {..<k}"
  shows "subset_count xs = k"
proof (cases k)
  case 0
  then show ?thesis using assms by (simp add: subset_count_def)
next
  case (Suc j)
  have "j < subset_count xs"
  proof -
    have "j \<in> set xs" unfolding assms Suc by simp
    then show ?thesis using subset_count_bound [of 0 xs] unfolding subset_count_def by blast
  qed
  moreover have "subset_count xs \<le> Suc j"
  proof -
    have "x + 1 \<le> Suc j" if "x \<in> set xs" for x using that unfolding assms Suc by simp
    then show ?thesis
      using subset_count_attained [of 0 xs] unfolding subset_count_def by fastforce
  qed
  ultimately show ?thesis using Suc by simp
qed

lemma new_partitioned_set_upto:
  assumes "k \<le> length st" and "\<forall>x \<in> set st. x < c"
  defines "p \<equiv> foldl
       (\<lambda>p i. let sub = st ! i
              in p\<lparr>member_to_subset := (member_to_subset p)[i := sub],
                   subsets := (subsets p)[sub := (subsets p ! sub) @ [i]]\<rparr>)
       \<lparr>member_to_subset = replicate (length st) 0, subsets = replicate c []\<rparr> [0..<k]"
  shows "length (member_to_subset p) = length st" "length (subsets p) = c"
    and "\<forall>i < k. member_to_subset p ! i = st ! i"
    and "\<forall>j < c. subsets p ! j = filter (\<lambda>i. st ! i = j) [0..<k]"
  using assms(1) unfolding p_def
proof (atomize (full), induction k)
  case 0
  then show ?case by simp
next
  case (Suc k)
  have "st ! k < c" using assms(2) Suc.prems by simp
  then show ?case using Suc by (auto simp: Let_def nth_list_update less_Suc_eq)
qed

lemma new_partitioned_set_ok:
  assumes dense: "set st = {..<k}"
  shows "partition_ok (length st) (new_partitioned_set st)"
    and "\<forall>s < length st. member_to_subset (new_partitioned_set st) ! s = st ! s"
    and "length (subsets (new_partitioned_set st)) = k"
proof -
  have k: "subset_count st = k" using dense by (rule subset_count_dense)
  have bnd: "\<forall>x \<in> set st. x < k" using dense by auto
  have new: "new_partitioned_set st = foldl
       (\<lambda>p i. let sub = st ! i
              in p\<lparr>member_to_subset := (member_to_subset p)[i := sub],
                   subsets := (subsets p)[sub := (subsets p ! sub) @ [i]]\<rparr>)
       \<lparr>member_to_subset = replicate (length st) 0, subsets = replicate k []\<rparr> [0..<length st]"
    by (simp add: new_partitioned_set_def k)
  note upto = new_partitioned_set_upto [OF order_refl bnd, folded new]
  show cls: "\<forall>s < length st. member_to_subset (new_partitioned_set st) ! s = st ! s"
    and len: "length (subsets (new_partitioned_set st)) = k"
    using upto by auto
  have mem: "members (length st) (new_partitioned_set st) i = filter (\<lambda>s. st ! s = i) [0..<length st]" for i
    unfolding members_def using cls by (auto intro!: filter_cong)
  have "\<exists>s \<in> {0..<length st}. st ! s = i" if "i < k" for i
    using that dense by (metis atLeastLessThan_iff in_set_conv_nth lessThan_iff zero_le)
  then show "partition_ok (length st) (new_partitioned_set st)"
    unfolding partition_ok_def mem using upto bnd cls
    by (auto simp: filter_empty_conv)
qed

section \<open>The contract of a refinable partition\<close>

text \<open>
  What partition refinement relies on: a split keeps the invariant, only separates elements on
  which the splitter differs, separates all of them within the named subset, leaves other subsets
  alone, and puts what it moves under the next fresh index.
\<close>

locale partition_ops =
  fixes size :: "'p \<Rightarrow> nat"
    and dom_size :: "'p \<Rightarrow> nat"
    and cls :: "'p \<Rightarrow> nat \<Rightarrow> nat"
    and split :: "'p \<Rightarrow> nat \<Rightarrow> nat list \<Rightarrow> nat option \<times> 'p"
    and overlap :: "'p \<Rightarrow> nat list \<Rightarrow> nat list"
    and ok :: "'p \<Rightarrow> bool"
  assumes cls_bound: "ok p \<Longrightarrow> s < dom_size p \<Longrightarrow> cls p s < size p"
    and split_ok: "ok p \<Longrightarrow> i < size p \<Longrightarrow> sorted X \<Longrightarrow> split p i X = (r, p') \<Longrightarrow>
      ok p' \<and> dom_size p' = dom_size p"
    and split_None: "ok p \<Longrightarrow> i < size p \<Longrightarrow> sorted X \<Longrightarrow> split p i X = (None, p') \<Longrightarrow> p' = p"
    and split_Some: "ok p \<Longrightarrow> i < size p \<Longrightarrow> sorted X \<Longrightarrow> split p i X = (Some j, p') \<Longrightarrow>
      j = size p \<and> size p' = Suc (size p) \<and>
      (\<forall>s < dom_size p. cls p' s = cls p s \<or> cls p' s = j)"
    and split_frame: "ok p \<Longrightarrow> i < size p \<Longrightarrow> sorted X \<Longrightarrow> split p i X = (r, p') \<Longrightarrow>
      s < dom_size p \<Longrightarrow> cls p s \<noteq> i \<Longrightarrow> cls p' s = cls p s"
    and split_sep: "ok p \<Longrightarrow> i < size p \<Longrightarrow> sorted X \<Longrightarrow> split p i X = (r, p') \<Longrightarrow>
      s < dom_size p \<Longrightarrow> t < dom_size p \<Longrightarrow> cls p s = i \<Longrightarrow> cls p t = i \<Longrightarrow>
      cls p' s = cls p' t \<longleftrightarrow> (s \<in> set X \<longleftrightarrow> t \<in> set X)"
    and overlap_set: "ok p \<Longrightarrow> (\<forall>s \<in> set X. s < dom_size p) \<Longrightarrow> set (overlap p X) = cls p ` set X"
begin

lemma split_refines:
  assumes "ok p" "i < size p" "sorted X" "split p i X = (r, p')" "s < dom_size p" "t < dom_size p"
    and "cls p' s = cls p' t"
  shows "cls p s = cls p t"
proof (cases r)
  case None
  then show ?thesis using assms split_None by auto
next
  case (Some j)
  have new: "j = size p" and old: "cls p s < size p" "cls p t < size p"
    using assms Some cls_bound split_Some [of p i X j p'] by auto
  show ?thesis
  proof (cases "cls p s = i \<longleftrightarrow> cls p t = i")
    case True
    then show ?thesis using assms split_frame [of p i X r p'] by metis
  next
    case False
    then have "cls p' s = cls p s \<or> cls p' t = cls p t"
      using assms split_frame [of p i X r p'] by metis
    moreover have "cls p' s = cls p s \<or> cls p' s = j" "cls p' t = cls p t \<or> cls p' t = j"
      using assms Some split_Some [of p i X j p'] by auto
    ultimately show ?thesis using assms(7) new old by auto
  qed
qed

lemma split_keeps:
  assumes "ok p" "i < size p" "sorted X" "split p i X = (r, p')" "s < dom_size p" "t < dom_size p"
    and "cls p s = cls p t" "s \<in> set X \<longleftrightarrow> t \<in> set X"
  shows "cls p' s = cls p' t"
proof (cases "cls p s = i")
  case True
  then show ?thesis using split_sep [OF assms(1-6)] assms(7,8) by simp
next
  case False
  then show ?thesis using split_frame [OF assms(1-4)] assms(5-7) by metis
qed

text \<open>Splitting every listed subset makes the partition respect the splitter on them.\<close>

lemma split_all:
  assumes "ok p" "sorted X" "\<forall>i \<in> set is. i < size p"
  defines "p' \<equiv> foldl (\<lambda>p i. snd (split p i X)) p is"
  shows "ok p' \<and> dom_size p' = dom_size p \<and> size p \<le> size p' \<and>
    (\<forall>s < dom_size p. \<forall>t < dom_size p. cls p' s = cls p' t \<longrightarrow> cls p s = cls p t \<and>
       (cls p s \<in> set is \<longrightarrow> (s \<in> set X \<longleftrightarrow> t \<in> set X))) \<and>
    (\<forall>s < dom_size p. cls p s \<notin> set is \<longrightarrow> cls p' s = cls p s)"
  using assms(3) unfolding p'_def
proof (induction "is" rule: rev_induct)
  case Nil
  then show ?case using assms(1) by simp
next
  case (snoc i js)
  let ?q = "foldl (\<lambda>p i. snd (split p i X)) p js"
  have IH: "ok ?q" "dom_size ?q = dom_size p" "size p \<le> size ?q"
    and ref: "\<And>s t. s < dom_size p \<Longrightarrow> t < dom_size p \<Longrightarrow> cls ?q s = cls ?q t \<Longrightarrow> cls p s = cls p t"
    and hom: "\<And>s t. s < dom_size p \<Longrightarrow> t < dom_size p \<Longrightarrow> cls ?q s = cls ?q t \<Longrightarrow>
        cls p s \<in> set js \<Longrightarrow> s \<in> set X \<longleftrightarrow> t \<in> set X"
    and frame: "\<And>s. s < dom_size p \<Longrightarrow> cls p s \<notin> set js \<Longrightarrow> cls ?q s = cls p s"
  proof -
    from snoc.prems have "\<forall>i \<in> set js. i < size p" by simp
    note ih = snoc.IH [OF this]
    show "ok ?q" "dom_size ?q = dom_size p" "size p \<le> size ?q"
      using ih by blast+
    show "\<And>s t. s < dom_size p \<Longrightarrow> t < dom_size p \<Longrightarrow> cls ?q s = cls ?q t \<Longrightarrow> cls p s = cls p t"
      using ih by blast
    show "\<And>s t. s < dom_size p \<Longrightarrow> t < dom_size p \<Longrightarrow> cls ?q s = cls ?q t \<Longrightarrow>
        cls p s \<in> set js \<Longrightarrow> s \<in> set X \<longleftrightarrow> t \<in> set X"
      using ih by blast
    show "\<And>s. s < dom_size p \<Longrightarrow> cls p s \<notin> set js \<Longrightarrow> cls ?q s = cls p s"
      using ih by blast
  qed
  obtain r q' where q': "split ?q i X = (r, q')" by fastforce
  have i: "i < size ?q" using snoc.prems IH by auto
  note sp = IH(1) i assms(2) q'
  have size: "size ?q \<le> size q'"
    using split_None [of ?q i X q'] split_Some [of ?q i X _ q'] sp by (cases r) auto
  have frame': "cls q' s = cls p s" if "s < dom_size p" "cls p s \<notin> set (js @ [i])" for s
    using split_frame [OF sp, of s] frame that IH(2) by auto
  have eq: "cls ?q s = cls ?q t" if "s < dom_size p" "t < dom_size p" "cls q' s = cls q' t" for s t
    by (rule split_refines [OF sp]) (simp_all add: IH(2) that)
  have hom': "s \<in> set X \<longleftrightarrow> t \<in> set X"
    if st: "s < dom_size p" "t < dom_size p" "cls q' s = cls q' t" "cls p s \<in> set (js @ [i])" for s t
  proof (cases "cls p s \<in> set js")
    case True
    show ?thesis by (rule hom [OF st(1,2) eq [OF st(1-3)] True])
  next
    case False
    note eq = eq [OF st(1-3)]
    have "cls ?q s = i" using frame [OF st(1)] False st(4) by simp
    then show ?thesis using split_sep [OF sp, of s t] eq st IH(2) by simp
  qed
  have ref': "cls p s = cls p t" if "s < dom_size p" "t < dom_size p" "cls q' s = cls q' t" for s t
    by (rule ref [OF that(1,2) eq [OF that]])
  have "foldl (\<lambda>p i. snd (split p i X)) p (js @ [i]) = q'" using q' by simp
  moreover have "ok q' \<and> dom_size q' = dom_size p \<and> size p \<le> size q'"
    using split_ok [OF sp] IH size by simp
  ultimately show ?case using ref' hom' frame' by blast
qed

text \<open>Splitting every subset that meets the splitter makes the whole partition respect it.\<close>

lemma split_overlapping_homogeneous:
  assumes "ok p" "sorted X" "\<forall>s \<in> set X. s < dom_size p" "s < dom_size p" "t < dom_size p"
    and "cls (foldl (\<lambda>p i. snd (split p i X)) p (overlap p X)) s =
         cls (foldl (\<lambda>p i. snd (split p i X)) p (overlap p X)) t"
  shows "s \<in> set X \<longleftrightarrow> t \<in> set X"
proof -
  have ov: "set (overlap p X) = cls p ` set X" using assms by (simp add: overlap_set)
  have "\<forall>i \<in> set (overlap p X). i < size p" using ov assms(1,3) cls_bound by auto
  note all = split_all [OF assms(1,2) this]
  have eq: "cls p s = cls p t" using all assms(4-6) by blast
  have hom: "s \<in> set X \<longleftrightarrow> t \<in> set X" if "cls p s \<in> cls p ` set X"
    using all assms(4-6) that unfolding ov by blast
  show ?thesis
    using hom eq by (cases "cls p s \<in> cls p ` set X") (simp, metis imageI)
qed

end

abbreviation subset_of :: "partitioned_set \<Rightarrow> nat \<Rightarrow> nat" where
  "subset_of p s \<equiv> member_to_subset p ! s"

abbreviation partitioned_set_ok :: "partitioned_set \<Rightarrow> bool" where
  "partitioned_set_ok p \<equiv> partition_ok (length (member_to_subset p)) p"

interpretation pset: partition_ops "\<lambda>p. length (subsets p)" "\<lambda>p. length (member_to_subset p)"
  subset_of partition_split find_overlapping partitioned_set_ok
proof (unfold_locales, goal_cases)
  case (1 p s)
  then show ?case by (rule partition_okD)
next
  case (2 p i X r p')
  show ?case
  proof (cases rule: partition_split_cases [OF 2(1-3)])
    case (1 b)
    then show ?thesis using 2(1,4) by simp
  next
    case (2 b q)
    then have "p' = q" using \<open>partition_split p i X = (r, p')\<close> by simp
    then show ?thesis using 2(2) partition_okD(1) [OF 2(2)] by simp
  qed
next
  case (3 p i X p')
  show ?case
    by (cases rule: partition_split_cases [OF 3(1-3)]) (use 3 in auto)
next
  case (4 p i X j p')
  show ?case
    by (cases rule: partition_split_cases [OF 4(1-3)]) (use 4 in auto)
next
  case (5 p i X r p' s)
  show ?case
    by (cases rule: partition_split_cases [OF 5(1-3)]) (use 5 in \<open>auto simp: split_parts_def\<close>)
next
  case (6 p i X r p' s t)
  show ?case
  proof (cases rule: partition_split_cases [OF 6(1-3)])
    case (1 b)
    then have "s \<notin> split_parts (length (member_to_subset p)) p i X b"
      "t \<notin> split_parts (length (member_to_subset p)) p i X b" "p' = p"
      using 6 by auto
    then show ?thesis using 6 by (auto simp: split_parts_def)
  next
    case (2 b q)
    have "i < length (subsets p)" by (rule 6)
    then show ?thesis using 6 2 by (auto simp: split_parts_def split: if_splits)
  qed
next
  case (7 p X)
  then show ?case by (simp add: find_overlapping_iff)
qed

end
