(* ===== verification/DfaMin.thy ===== *)
theory DfaMin
  imports Rdfa PartitionedSet
begin

text \<open>
  Hopcroft minimisation of a raw DFA, \<^verbatim>\<open>nfa/dfa_min.cpp\<close>. The work queue, the
  partition and the predecessor lists of \<^verbatim>\<open>HopcroftInfo\<close> are one record; the main
  loop is a partial function, \<open>None\<close> meaning that it does not return. The theorems show
  that it returns, that the result behaves as the input from both start states, and that no two
  states of the result are equivalent.
\<close>

section \<open>Model\<close>

record Grey =
  minimizeDFA :: bool
  highlanderPruneDFA :: bool

record HopcroftInfo =
  hi_alpha_size :: nat
  work_queue :: "nat list"
  partition_of :: partitioned_set
  prev :: "nat list list list"

type_synonym report_key = "nat list \<times> nat list"

definition report_key :: "dstate \<Rightarrow> report_key" where
  "report_key ds = (reports ds, reports_eod ds)"

definition create_map_step ::
  "raw_dfa \<Rightarrow> (report_key \<times> nat) list \<times> nat option list \<times> nat list \<Rightarrow> nat \<Rightarrow>
   (report_key \<times> nat) list \<times> nat option list \<times> nat list" where
  "create_map_step d = (\<lambda>(subset_map, state_to_subset, queue) i.
     let ds = states d ! i
     in if reports ds \<noteq> [] \<or> reports_eod ds \<noteq> []
        then case map_of subset_map (report_key ds) of
               Some sub \<Rightarrow> (subset_map, state_to_subset[i := Some sub], queue)
             | None \<Rightarrow>
                 let sub = length subset_map
                 in (subset_map @ [(report_key ds, sub)], state_to_subset[i := Some sub], queue @ [sub])
        else (subset_map, state_to_subset, queue))"

definition create_map :: "raw_dfa \<Rightarrow> nat list \<times> nat list" where
  "create_map d =
     (let n = length (states d);
          (subset_map, state_to_subset, queue) =
            foldl (create_map_step d) ([], replicate n None, []) [0..<n];
          non_accept_sub = length subset_map
      in (map (\<lambda>x. case x of None \<Rightarrow> non_accept_sub | Some sub \<Rightarrow> sub) state_to_subset, queue))"

definition add_pred :: "raw_dfa \<Rightarrow> nat \<Rightarrow> nat list list list \<Rightarrow> nat \<Rightarrow> nat list list list" where
  "add_pred d i pv a =
     (let present_state = nexts (states d ! i) ! a
      in pv[present_state := (pv ! present_state)[a := (pv ! present_state ! a) @ [i]]])"

definition new_HopcroftInfo :: "raw_dfa \<Rightarrow> HopcroftInfo" where
  "new_HopcroftInfo d =
     (let n = length (states d);
          (state_to_subset, queue) = create_map d
      in \<lparr>hi_alpha_size = alpha_size d, work_queue = queue,
          partition_of = new_partitioned_set state_to_subset,
          prev = foldl (\<lambda>pv i. foldl (add_pred d i) pv [0..<alpha_size d])
                   (replicate n (replicate (alpha_size d) [])) [0..<n]\<rparr>)"

definition split_and_replace_set :: "nat list \<Rightarrow> HopcroftInfo \<Rightarrow> nat \<Rightarrow> HopcroftInfo" where
  "split_and_replace_set splitter info part_index =
     (if length (subsets (partition_of info) ! part_index) = 1 then info
      else case partition_split (partition_of info) part_index splitter of
             (None, p) \<Rightarrow> info\<lparr>partition_of := p\<rparr>
           | (Some small_index, p) \<Rightarrow>
               info\<lparr>partition_of := p, work_queue := work_queue info @ [small_index]\<rparr>)"

definition sym_preds :: "HopcroftInfo \<Rightarrow> nat list \<Rightarrow> nat \<Rightarrow> nat list" where
  "sym_preds info cur a = foldl (\<lambda>ps s. flat_set_insert_range ps (prev info ! s ! a)) [] cur"

definition dfa_min_sym :: "nat list \<Rightarrow> HopcroftInfo \<Rightarrow> nat \<Rightarrow> HopcroftInfo" where
  "dfa_min_sym cur info a =
     (let preds = sym_preds info cur a
      in if preds = [] then info
         else foldl (split_and_replace_set preds) info (find_overlapping (partition_of info) preds))"

definition dfa_min_body :: "HopcroftInfo \<Rightarrow> HopcroftInfo" where
  "dfa_min_body info =
     (let cur = flat_set_insert_range [] (subsets (partition_of info) ! hd (work_queue info));
          info' = info\<lparr>work_queue := tl (work_queue info)\<rparr>
      in foldl (dfa_min_sym cur) info' [0..<hi_alpha_size info])"

partial_function (option) dfa_min :: "HopcroftInfo \<Rightarrow> HopcroftInfo option" where
  "dfa_min info = (if work_queue info = [] then Some info else dfa_min (dfa_min_body info))"

declare dfa_min.simps [code]

definition class_ordering :: "HopcroftInfo \<Rightarrow> (nat \<times> nat) list" where
  "class_ordering info =
     foldl (\<lambda>m i. flat_map_assign m 0 (hd (subsets (partition_of info) ! i)) i) []
       [0..<length (subsets (partition_of info))]"

definition eq_states :: "HopcroftInfo \<Rightarrow> nat list" where
  "eq_states info =
     fst (foldl (\<lambda>(eq_state, new_id) m. (eq_state[snd m := new_id], u16_of_nat (new_id + 1)))
            (replicate (length (subsets (partition_of info))) 0, 0) (class_ordering info))"

definition mapping_new_states :: "HopcroftInfo \<Rightarrow> nat list \<Rightarrow> raw_dfa \<Rightarrow> nat list \<times> raw_dfa" where
  "mapping_new_states info old_to_new d =
     (foldl (\<lambda>o2n t. foldl (\<lambda>o2n id. o2n[id := eq_states info ! t]) o2n (subsets (partition_of info) ! t))
        old_to_new [0..<length (subsets (partition_of info))],
      d\<lparr>states := map (\<lambda>m. states d ! fst m) (class_ordering info)\<rparr>)"

definition renumber_state :: "nat \<Rightarrow> nat list \<Rightarrow> dstate \<Rightarrow> dstate" where
  "renumber_state alpha old_to_new ds =
     ds\<lparr>nexts := foldl (\<lambda>nx a. nx[a := old_to_new ! (nx ! a)]) (nexts ds) [0..<alpha],
        daddy := old_to_new ! daddy ds\<rparr>"

definition renumber_new_states :: "HopcroftInfo \<Rightarrow> nat list \<Rightarrow> raw_dfa \<Rightarrow> raw_dfa" where
  "renumber_new_states info old_to_new d =
     d\<lparr>states := foldl (\<lambda>ss i. ss[i := renumber_state (hi_alpha_size info) old_to_new (ss ! i)])
                  (states d) [0..<length (subsets (partition_of info))],
       start_floating := old_to_new ! start_floating d,
       start_anchored := old_to_new ! start_anchored d\<rparr>"

definition new_dfa :: "raw_dfa \<Rightarrow> HopcroftInfo \<Rightarrow> raw_dfa" where
  "new_dfa d info =
     (if length (subsets (partition_of info)) = length (prev info) then d
      else let (old_to_new, d') = mapping_new_states info (replicate (length (prev info)) 0) d
           in renumber_new_states info old_to_new d')"

definition minimize_hopcroft :: "Grey \<Rightarrow> raw_dfa \<Rightarrow> raw_dfa option" where
  "minimize_hopcroft grey d =
     (if \<not> minimizeDFA grey then Some d
      else map_option (new_dfa d) (dfa_min (new_HopcroftInfo d)))"

section \<open>The initial partition\<close>

definition is_accept :: "raw_dfa \<Rightarrow> nat \<Rightarrow> bool" where
  "is_accept d i \<longleftrightarrow> reports (states d ! i) \<noteq> [] \<or> reports_eod (states d ! i) \<noteq> []"

lemma dfa_obs_key: "dfa_obs d s = report_key (states d ! s)"
  by (simp add: dfa_obs_def report_key_def)

lemma is_accept_obs: "is_accept d i \<longleftrightarrow> dfa_obs d i \<noteq> ([], [])"
  by (auto simp: is_accept_def dfa_obs_def)

text \<open>The state of the loop of \<open>create_map\<close> after \<open>k\<close> states.\<close>

definition create_map_inv ::
  "raw_dfa \<Rightarrow> nat \<Rightarrow> (report_key \<times> nat) list \<times> nat option list \<times> nat list \<Rightarrow> bool" where
  "create_map_inv d k = (\<lambda>(m, st, q).
     (\<forall>j < length m. snd (m ! j) = j) \<and> distinct (map fst m) \<and> q = [0..<length m] \<and>
     length st = length (states d) \<and>
     (\<forall>i < length (states d). st ! i =
        (if i < k \<and> is_accept d i then map_of m (dfa_obs d i) else None)) \<and>
     fst ` set m = dfa_obs d ` {i. i < k \<and> is_accept d i})"

lemma map_of_indexed:
  assumes "\<forall>j < length m. snd (m ! j) = j"
  shows "map_of m key = Some sub \<Longrightarrow> sub < length m \<and> fst (m ! sub) = key"
  using assms by (auto dest!: map_of_SomeD simp: in_set_conv_nth) (metis fst_conv snd_conv)+

lemma map_of_snoc: "map_of (m @ [(k, v)]) x = (if x \<in> fst ` set m then map_of m x else if x = k then Some v else None)"
  by (induction m) auto

lemma create_map_step_inv:
  assumes inv: "create_map_inv d k (m, st, q)" and k: "k < length (states d)"
  shows "create_map_inv d (Suc k) (create_map_step d (m, st, q) k)"
proof (cases "is_accept d k")
  case False
  then have "{i. i < Suc k \<and> is_accept d i} = {i. i < k \<and> is_accept d i}"
    by (auto simp: less_Suc_eq)
  moreover have "create_map_step d (m, st, q) k = (m, st, q)"
    using False by (simp add: create_map_step_def is_accept_def Let_def)
  ultimately show ?thesis
    using inv False unfolding create_map_inv_def by (auto simp: less_Suc_eq)
next
  case True
  have keys: "fst ` set m = dfa_obs d ` {i. i < k \<and> is_accept d i}" and st: "length st = length (states d)"
    and snd: "\<forall>j < length m. snd (m ! j) = j" and dist: "distinct (map fst m)" and q: "q = [0..<length m]"
    and nth: "\<And>i. i < length (states d) \<Longrightarrow> st ! i =
        (if i < k \<and> is_accept d i then map_of m (dfa_obs d i) else None)"
    using inv by (auto simp: create_map_inv_def)
  have set_Suc: "{i. i < Suc k \<and> is_accept d i} = insert k {i. i < k \<and> is_accept d i}"
    using True by (auto simp: less_Suc_eq)
  show ?thesis
  proof (cases "map_of m (dfa_obs d k)")
    case None
    have step: "create_map_step d (m, st, q) k =
        (m @ [(dfa_obs d k, length m)], st[k := Some (length m)], q @ [length m])"
      using True None by (auto simp: create_map_step_def is_accept_def Let_def dfa_obs_key)
    have fresh: "dfa_obs d k \<notin> fst ` set m" using None by (simp add: map_of_eq_None_iff)
    have old: "dfa_obs d i \<in> fst ` set m" if "i < k" "is_accept d i" for i
      using keys that by auto
    show ?thesis
      unfolding step create_map_inv_def prod.case
    proof (intro conjI)
      show "\<forall>j < length (m @ [(dfa_obs d k, length m)]). snd ((m @ [(dfa_obs d k, length m)]) ! j) = j"
        using snd by (auto simp: nth_append less_Suc_eq)
      show "distinct (map fst (m @ [(dfa_obs d k, length m)]))" using dist fresh by auto
      show "q @ [length m] = [0..<length (m @ [(dfa_obs d k, length m)])]" using q by simp
      show "length (st[k := Some (length m)]) = length (states d)" using st by simp
      show "\<forall>i < length (states d). st[k := Some (length m)] ! i =
          (if i < Suc k \<and> is_accept d i then map_of (m @ [(dfa_obs d k, length m)]) (dfa_obs d i) else None)"
        using nth old fresh True k st
        by (auto simp: nth_list_update less_Suc_eq map_of_snoc simp del: map_of_append)
      show "fst ` set (m @ [(dfa_obs d k, length m)]) = dfa_obs d ` {i. i < Suc k \<and> is_accept d i}"
        using keys set_Suc by simp
    qed
  next
    case (Some sub)
    have step: "create_map_step d (m, st, q) k = (m, st[k := Some sub], q)"
      using True Some by (auto simp: create_map_step_def is_accept_def Let_def dfa_obs_key)
    have "dfa_obs d k \<in> fst ` set m" using Some by (metis map_of_eq_None_iff option.distinct(1))
    then show ?thesis
      unfolding step create_map_inv_def prod.case set_Suc
      using snd dist q st nth keys True k Some by (auto simp: nth_list_update less_Suc_eq)
  qed
qed

lemma create_map_inv_all:
  "k \<le> length (states d) \<Longrightarrow>
   create_map_inv d k (foldl (create_map_step d) ([], replicate (length (states d)) None, []) [0..<k])"
proof (induction k)
  case 0
  then show ?case by (simp add: create_map_inv_def)
next
  case (Suc k)
  obtain m st q where f: "foldl (create_map_step d) ([], replicate (length (states d)) None, []) [0..<k] = (m, st, q)"
    by (metis prod_cases3)
  then show ?case using Suc create_map_step_inv [of d k m st q] by simp
qed

lemma create_map_spec:
  assumes cm: "create_map d = (st, q)"
  obtains k c where "length st = length (states d)" "set st = {..<c}" "k \<le> c" "c \<le> Suc k" "q = [0..<k]"
    "\<And>s t. s < length (states d) \<Longrightarrow> t < length (states d) \<Longrightarrow> st ! s = st ! t \<longleftrightarrow> dfa_obs d s = dfa_obs d t"
proof -
  let ?n = "length (states d)"
  obtain m ost q' where fold: "foldl (create_map_step d) ([], replicate ?n None, []) [0..<?n] = (m, ost, q')"
    by (metis prod_cases3)
  have inv: "create_map_inv d ?n (m, ost, q')"
    using create_map_inv_all [of ?n d] fold by simp
  have st: "st = map (\<lambda>x. case x of None \<Rightarrow> length m | Some sub \<Rightarrow> sub) ost" and q: "q' = q"
    using cm fold by (simp_all add: create_map_def Let_def)
  have snd: "\<forall>j < length m. snd (m ! j) = j" and qm: "q' = [0..<length m]" and len: "length ost = ?n"
    and keys: "fst ` set m = dfa_obs d ` {i. i < ?n \<and> is_accept d i}"
    and nth: "\<And>i. i < ?n \<Longrightarrow> ost ! i = (if is_accept d i then map_of m (dfa_obs d i) else None)"
    using inv by (auto simp: create_map_inv_def)
  have acc: "\<exists>sub. ost ! i = Some sub \<and> st ! i = sub \<and> sub < length m \<and> fst (m ! sub) = dfa_obs d i"
    if "i < ?n" "is_accept d i" for i
  proof -
    have "dfa_obs d i \<in> fst ` set m" using that keys by auto
    then obtain sub where "map_of m (dfa_obs d i) = Some sub"
      by (metis map_of_eq_None_iff not_Some_eq)
    then show ?thesis using map_of_indexed [OF snd] nth that st len by auto
  qed
  have rej: "st ! i = length m" if "i < ?n" "\<not> is_accept d i" for i
    using that nth st len by simp
  have classes: "st ! s = st ! t \<longleftrightarrow> dfa_obs d s = dfa_obs d t"
    if st2: "s < ?n" "t < ?n" for s t
  proof (cases "is_accept d s \<longleftrightarrow> is_accept d t")
    case True
    show ?thesis
    proof (cases "is_accept d s")
      case True
      then obtain a b where "st ! s = a" "fst (m ! a) = dfa_obs d s" "ost ! s = Some a"
        "st ! t = b" "fst (m ! b) = dfa_obs d t" "ost ! t = Some b"
        using acc st2 \<open>is_accept d s \<longleftrightarrow> is_accept d t\<close> by blast
      then show ?thesis using nth st2 True \<open>is_accept d s \<longleftrightarrow> is_accept d t\<close> by auto
    next
      case False
      then show ?thesis using True rej that by (simp add: is_accept_obs)
    qed
  next
    case False
    have "st ! s \<noteq> st ! t"
      using False acc [of s] acc [of t] rej [of s] rej [of t] that by (cases "is_accept d s") auto
    moreover have "dfa_obs d s \<noteq> dfa_obs d t" using False by (auto simp: is_accept_obs)
    ultimately show ?thesis by simp
  qed
  have onto: "sub \<in> set st" if "sub < length m" for sub
  proof -
    have "fst (m ! sub) \<in> fst ` set m" using that by simp
    then obtain i where i: "i < ?n" "is_accept d i" "dfa_obs d i = fst (m ! sub)"
      using keys by (auto simp: image_iff)
    have "map_of m (fst (m ! sub)) = Some sub"
      using that inv snd by (auto simp: create_map_inv_def intro!: map_of_is_SomeI)
        (metis nth_mem prod.collapse)
    then have "st ! i = sub" using nth i st len by simp
    then show ?thesis using i st len by (metis length_map nth_mem)
  qed
  define c where "c = (if length m \<in> set st then Suc (length m) else length m)"
  have stlen: "length st = ?n" using st len by simp
  have "x < c" if xin: "x \<in> set st" for x
  proof -
    obtain i where "i < ?n" "st ! i = x" using xin unfolding in_set_conv_nth stlen by blast
    then show ?thesis
      using acc [of i] rej [of i] xin by (cases "is_accept d i") (auto simp: c_def)
  qed
  moreover have "x \<in> set st" if "x < c" for x
    using that onto by (auto simp: c_def less_Suc_eq split: if_splits)
  ultimately have "set st = {..<c}" by auto
  then show thesis
    using that [of c "length m"] classes q qm st len by (auto simp: c_def)
qed

section \<open>Predecessor lists\<close>

definition pred_shape :: "raw_dfa \<Rightarrow> nat list list list \<Rightarrow> bool" where
  "pred_shape d pv \<longleftrightarrow> length pv = length (states d) \<and> (\<forall>s < length pv. length (pv ! s) = alpha_size d)"

lemma add_pred_spec:
  assumes "pred_shape d pv" and "dfa_step d i a < length (states d)" and "a < alpha_size d"
  shows "pred_shape d (add_pred d i pv a)"
    and "s < length (states d) \<Longrightarrow> b < alpha_size d \<Longrightarrow>
      set (add_pred d i pv a ! s ! b) = set (pv ! s ! b) \<union> (if b = a \<and> dfa_step d i a = s then {i} else {})"
  using assms by (auto simp: pred_shape_def add_pred_def Let_def dfa_step_def nth_list_update)

lemma add_preds_row:
  assumes "pred_shape d pv" and "\<forall>a < alpha_size d. dfa_step d i a < length (states d)" and "k \<le> alpha_size d"
  defines "pv' \<equiv> foldl (add_pred d i) pv [0..<k]"
  shows "pred_shape d pv' \<and> (\<forall>s < length (states d). \<forall>b < alpha_size d.
      set (pv' ! s ! b) = set (pv ! s ! b) \<union> (if b < k \<and> dfa_step d i b = s then {i} else {}))"
  using assms(3) unfolding pv'_def
proof (induction k)
  case 0
  then show ?case using assms(1) by simp
next
  case (Suc k)
  let ?p = "foldl (add_pred d i) pv [0..<k]"
  have IH: "pred_shape d ?p" and sets: "\<forall>s < length (states d). \<forall>b < alpha_size d.
      set (?p ! s ! b) = set (pv ! s ! b) \<union> (if b < k \<and> dfa_step d i b = s then {i} else {})"
    using Suc by auto
  have k: "dfa_step d i k < length (states d)" "k < alpha_size d" using assms(2) Suc.prems by auto
  show ?case
    using add_pred_spec [OF IH k] sets by (auto simp: less_Suc_eq)
qed

lemma prev_spec:
  assumes wf: "wf_rdfa d" and "k \<le> length (states d)"
  defines "pv \<equiv> foldl (\<lambda>pv i. foldl (add_pred d i) pv [0..<alpha_size d])
                   (replicate (length (states d)) (replicate (alpha_size d) [])) [0..<k]"
  shows "pred_shape d pv \<and> (\<forall>s < length (states d). \<forall>a < alpha_size d.
      set (pv ! s ! a) = {i. i < k \<and> dfa_step d i a = s})"
  using assms(2) unfolding pv_def
proof (induction k)
  case 0
  then show ?case by (simp add: pred_shape_def)
next
  case (Suc k)
  let ?p = "foldl (\<lambda>pv i. foldl (add_pred d i) pv [0..<alpha_size d])
                   (replicate (length (states d)) (replicate (alpha_size d) [])) [0..<k]"
  have IH: "pred_shape d ?p" and sets: "\<forall>s < length (states d). \<forall>a < alpha_size d.
      set (?p ! s ! a) = {i. i < k \<and> dfa_step d i a = s}"
    using Suc by auto
  have "\<forall>a < alpha_size d. dfa_step d k a < length (states d)"
    using wf_rdfaD(2) [OF wf] Suc.prems by auto
  from add_preds_row [OF IH this order_refl] sets show ?case
    by (auto simp: less_Suc_eq)
qed

section \<open>The refinement loop\<close>

definition preds_ok :: "raw_dfa \<Rightarrow> HopcroftInfo \<Rightarrow> bool" where
  "preds_ok d info \<longleftrightarrow> hi_alpha_size info = alpha_size d \<and> pred_shape d (prev info) \<and>
     (\<forall>s < length (states d). \<forall>a < alpha_size d.
        set (prev info ! s ! a) = {i. i < length (states d) \<and> dfa_step d i a = s})"

lemma sym_preds_spec:
  assumes "preds_ok d info" and "\<forall>s \<in> set cur. s < length (states d)" and "a < alpha_size d"
  shows "flat_set_ok (sym_preds info cur a)"
    and "set (sym_preds info cur a) = {i. i < length (states d) \<and> dfa_step d i a \<in> set cur}"
proof -
  show "flat_set_ok (sym_preds info cur a)"
    unfolding sym_preds_def flat_set_insert_range_def by (rule fset.ok_insert_lists) simp
  have "set (sym_preds info cur a) = (\<Union>s\<in>set cur. set (prev info ! s ! a))"
    unfolding sym_preds_def flat_set_insert_range_def by (subst fset.elems_insert_lists) simp_all
  then show "set (sym_preds info cur a) = {i. i < length (states d) \<and> dfa_step d i a \<in> set cur}"
    using assms by (auto simp: preds_ok_def)
qed

lemma flat_set_ok_sorted: "flat_set_ok xs \<Longrightarrow> sorted xs"
  unfolding flat_set_ok_def by (rule strict_sorted_imp_sorted)

abbreviation cls_of :: "HopcroftInfo \<Rightarrow> nat \<Rightarrow> nat" where
  "cls_of info s \<equiv> subset_of (partition_of info) s"

abbreviation n_classes :: "HopcroftInfo \<Rightarrow> nat" where
  "n_classes info \<equiv> length (subsets (partition_of info))"

text \<open>A subset of one member cannot be split, so the early return only saves work.\<close>

lemma split_and_replace_set_eq:
  assumes ok: "partition_ok n (partition_of info)" and i: "i < n_classes info" and X: "sorted X"
  shows "split_and_replace_set X info i =
     (case partition_split (partition_of info) i X of
        (None, p) \<Rightarrow> info\<lparr>partition_of := p\<rparr>
      | (Some j, p) \<Rightarrow> info\<lparr>partition_of := p, work_queue := work_queue info @ [j]\<rparr>)"
proof (cases "length (subsets (partition_of info) ! i) = 1")
  case True
  then obtain x where "members n (partition_of info) i = [x]"
    using partition_okD(3) [OF ok i] by (auto simp: length_Suc_conv)
  then have "partition_split (partition_of info) i X = (None, partition_of info)"
    using partition_split_unfold [OF ok i X] by simp
  then show ?thesis using True by (simp add: split_and_replace_set_def)
next
  case False
  then show ?thesis by (simp add: split_and_replace_set_def)
qed

text \<open>
  The invariant of the loop. Classes agree on reports and are unions of equivalence classes. Where
  a symbol leads two states of one class into different classes, one of these is still in the
  queue, or the symbol is yet to be handled for the set \<open>C\<close> being processed, which
  tells the two successors apart.
\<close>

definition hop_base :: "raw_dfa \<Rightarrow> HopcroftInfo \<Rightarrow> bool" where
  "hop_base d info \<longleftrightarrow> preds_ok d info \<and> partition_ok (length (states d)) (partition_of info) \<and>
     (\<forall>w \<in> set (work_queue info). w < n_classes info) \<and>
     (\<forall>s < length (states d). \<forall>t < length (states d).
        cls_of info s = cls_of info t \<longrightarrow> dfa_obs d s = dfa_obs d t) \<and>
     (\<forall>s < length (states d). \<forall>t < length (states d).
        dfa_equiv d s t \<longrightarrow> cls_of info s = cls_of info t)"

definition hop_pending :: "raw_dfa \<Rightarrow> nat set \<Rightarrow> nat \<Rightarrow> HopcroftInfo \<Rightarrow> bool" where
  "hop_pending d C k info \<longleftrightarrow>
     (\<forall>s < length (states d). \<forall>t < length (states d). \<forall>a < alpha_size d.
        cls_of info s = cls_of info t \<longrightarrow>
        cls_of info (dfa_step d s a) \<noteq> cls_of info (dfa_step d t a) \<longrightarrow>
        cls_of info (dfa_step d s a) \<in> set (work_queue info) \<or>
        cls_of info (dfa_step d t a) \<in> set (work_queue info) \<or>
        (k \<le> a \<and> (dfa_step d s a \<in> C \<longleftrightarrow> dfa_step d t a \<notin> C)))"

definition hop_measure :: "raw_dfa \<Rightarrow> HopcroftInfo \<Rightarrow> nat" where
  "hop_measure d info = 2 * (length (states d) - n_classes info) + length (work_queue info)"

definition equiv_closed :: "raw_dfa \<Rightarrow> nat set \<Rightarrow> bool" where
  "equiv_closed d X \<longleftrightarrow> (\<forall>s < length (states d). \<forall>t < length (states d).
     dfa_equiv d s t \<longrightarrow> (s \<in> X \<longleftrightarrow> t \<in> X))"

lemma hop_baseD:
  assumes "hop_base d info"
  shows "preds_ok d info" "partition_ok (length (states d)) (partition_of info)"
    and "w \<in> set (work_queue info) \<Longrightarrow> w < n_classes info"
    and "s < length (states d) \<Longrightarrow> t < length (states d) \<Longrightarrow> cls_of info s = cls_of info t \<Longrightarrow>
      dfa_obs d s = dfa_obs d t"
    and "s < length (states d) \<Longrightarrow> t < length (states d) \<Longrightarrow> dfa_equiv d s t \<Longrightarrow>
      cls_of info s = cls_of info t"
  using assms unfolding hop_base_def by blast+

lemma hop_pendingD:
  assumes "hop_pending d C k info" "s < length (states d)" "t < length (states d)" "a < alpha_size d"
    "cls_of info s = cls_of info t" "cls_of info (dfa_step d s a) \<noteq> cls_of info (dfa_step d t a)"
  shows "cls_of info (dfa_step d s a) \<in> set (work_queue info) \<or>
        cls_of info (dfa_step d t a) \<in> set (work_queue info) \<or>
        (k \<le> a \<and> (dfa_step d s a \<in> C \<longleftrightarrow> dfa_step d t a \<notin> C))"
  using assms unfolding hop_pending_def by blast

lemma split_step:
  assumes wf: "wf_rdfa d" and base: "hop_base d info" and pend: "hop_pending d C k info"
    and i: "i < n_classes info" and X: "sorted X" "equiv_closed d (set X)"
  defines "info' \<equiv> split_and_replace_set X info i"
  shows "hop_base d info' \<and> hop_pending d C k info' \<and> hop_measure d info' \<le> hop_measure d info \<and>
    n_classes info \<le> n_classes info' \<and>
    partition_of info' = snd (partition_split (partition_of info) i X)"
proof -
  let ?n = "length (states d)"
  obtain r p where sp: "partition_split (partition_of info) i X = (r, p)" by fastforce
  have len: "length (member_to_subset (partition_of info)) = ?n"
    using hop_baseD(2) [OF base] by (rule partition_okD)
  have ok: "partitioned_set_ok (partition_of info)" using hop_baseD(2) [OF base] len by simp
  note law = ok i X(1) sp
  have okp: "partition_ok ?n p"
    using pset.split_ok [OF law] len by metis
  show ?thesis
  proof (cases r)
    case None
    then have "info' = info"
      using split_and_replace_set_eq [OF hop_baseD(2) [OF base] i X(1)] pset.split_None [OF ok i X(1)] sp
      by (simp add: info'_def)
    then show ?thesis using base pend sp None pset.split_None [OF ok i X(1)] by simp
  next
    case (Some j)
    have info': "partition_of info' = p" "work_queue info' = work_queue info @ [j]"
      "prev info' = prev info" "hi_alpha_size info' = hi_alpha_size info"
      using split_and_replace_set_eq [OF hop_baseD(2) [OF base] i X(1)] sp Some
      by (simp_all add: info'_def)
    have new: "j = n_classes info" "length (subsets p) = Suc (n_classes info)"
      and moves: "\<And>s. s < ?n \<Longrightarrow> subset_of p s = cls_of info s \<or> subset_of p s = j"
      using pset.split_Some [OF ok i X(1), of j p] sp Some len by auto
    have refines: "cls_of info s = cls_of info t" if "s < ?n" "t < ?n" "subset_of p s = subset_of p t" for s t
      by (rule pset.split_refines [OF law]) (simp_all add: len that)
    have keeps: "subset_of p s = subset_of p t"
      if "s < ?n" "t < ?n" "cls_of info s = cls_of info t" "s \<in> set X \<longleftrightarrow> t \<in> set X" for s t
      by (rule pset.split_keeps [OF law]) (simp_all add: len that)
    have b1: "preds_ok d info'" using hop_baseD(1) [OF base] info' by (simp add: preds_ok_def)
    have b2: "\<forall>w \<in> set (work_queue info'). w < n_classes info'"
      using hop_baseD(3) [OF base] info' new by (auto simp: less_Suc_eq)
    have b3: "\<forall>s < ?n. \<forall>t < ?n. cls_of info' s = cls_of info' t \<longrightarrow> dfa_obs d s = dfa_obs d t"
      using hop_baseD(4) [OF base] refines unfolding info' by blast
    have b4: "\<forall>s < ?n. \<forall>t < ?n. dfa_equiv d s t \<longrightarrow> cls_of info' s = cls_of info' t"
      using hop_baseD(5) [OF base] keeps X(2) unfolding info' equiv_closed_def by blast
    have "hop_base d info'"
      unfolding hop_base_def using b1 b2 b3 b4 okp [folded info'(1)] by blast
    moreover have "hop_pending d C k info'"
      unfolding hop_pending_def info'
    proof (intro allI impI)
      fix s t a
      assume st: "s < ?n" "t < ?n" and a: "a < alpha_size d" and same: "subset_of p s = subset_of p t"
        and diff: "subset_of p (dfa_step d s a) \<noteq> subset_of p (dfa_step d t a)"
      have sa: "dfa_step d s a < ?n" "dfa_step d t a < ?n" using wf st a by (auto intro: wf_rdfaD)
      show "subset_of p (dfa_step d s a) \<in> set (work_queue info @ [j]) \<or>
          subset_of p (dfa_step d t a) \<in> set (work_queue info @ [j]) \<or>
          k \<le> a \<and> (dfa_step d s a \<in> C \<longleftrightarrow> dfa_step d t a \<notin> C)"
      proof (cases "cls_of info (dfa_step d s a) = cls_of info (dfa_step d t a)")
        case True
        then show ?thesis using moves [OF sa(1)] moves [OF sa(2)] diff by auto
      next
        case False
        then show ?thesis
          using hop_pendingD [OF pend st a refines [OF st same]] moves [OF sa(1)] moves [OF sa(2)] by auto
      qed
    qed
    moreover have "length (subsets p) \<le> ?n" using okp by (rule length_subsets_le)
    ultimately show ?thesis
      using new info' sp by (simp add: hop_measure_def)
  qed
qed

lemma split_steps:
  assumes wf: "wf_rdfa d" and base: "hop_base d info" and pend: "hop_pending d C k info"
    and X: "sorted X" "equiv_closed d (set X)" and cands: "\<forall>i \<in> set js. i < n_classes info"
  defines "info' \<equiv> foldl (split_and_replace_set X) info js"
  shows "hop_base d info' \<and> hop_pending d C k info' \<and> hop_measure d info' \<le> hop_measure d info \<and>
    partition_of info' = foldl (\<lambda>p i. snd (partition_split p i X)) (partition_of info) js"
  using base pend cands unfolding info'_def
proof (induction js arbitrary: info)
  case Nil
  then show ?case by simp
next
  case (Cons i js)
  let ?i = "split_and_replace_set X info i"
  have "i < n_classes info" using Cons.prems by simp
  note step = split_step [OF wf Cons.prems(1,2) this X]
  have "\<forall>i \<in> set js. i < n_classes ?i" using step Cons.prems(3) by auto
  with Cons.IH [of ?i] step show ?case by auto
qed

lemma dfa_min_sym_step:
  assumes wf: "wf_rdfa d" and base: "hop_base d info" and pend: "hop_pending d (set cur) k info"
    and cur: "\<forall>s \<in> set cur. s < length (states d)" "equiv_closed d (set cur)" and k: "k < alpha_size d"
  defines "info' \<equiv> dfa_min_sym cur info k"
  shows "hop_base d info' \<and> hop_pending d (set cur) (Suc k) info' \<and> hop_measure d info' \<le> hop_measure d info"
proof -
  let ?n = "length (states d)"
  define X where "X = sym_preds info cur k"
  have X: "sorted X" and setX: "set X = {i. i < ?n \<and> dfa_step d i k \<in> set cur}"
    using sym_preds_spec [OF hop_baseD(1) [OF base] cur(1) k] by (auto simp: X_def flat_set_ok_sorted)
  have closed: "equiv_closed d (set X)"
    unfolding equiv_closed_def setX
    using cur(2) dfa_equiv_step [OF _ k] wf_rdfaD(2) [OF wf _ k] unfolding equiv_closed_def by blast
  have respects: "hop_pending d (set cur) (Suc k) info''"
    if "hop_pending d (set cur) k info''"
      and hom: "\<And>s t. s < ?n \<Longrightarrow> t < ?n \<Longrightarrow> cls_of info'' s = cls_of info'' t \<Longrightarrow> s \<in> set X \<longleftrightarrow> t \<in> set X"
    for info''
    unfolding hop_pending_def
  proof (intro allI impI)
    fix s t a
    assume st: "s < ?n" "t < ?n" and a: "a < alpha_size d" and same: "cls_of info'' s = cls_of info'' t"
      and "cls_of info'' (dfa_step d s a) \<noteq> cls_of info'' (dfa_step d t a)"
    from hop_pendingD [OF that(1) this] hom [OF st same] st
    show "cls_of info'' (dfa_step d s a) \<in> set (work_queue info'') \<or>
        cls_of info'' (dfa_step d t a) \<in> set (work_queue info'') \<or>
        Suc k \<le> a \<and> (dfa_step d s a \<in> set cur \<longleftrightarrow> dfa_step d t a \<notin> set cur)"
      unfolding setX by (cases "a = k") auto
  qed
  show ?thesis
  proof (cases "X = []")
    case True
    then have "info' = info" by (simp add: info'_def dfa_min_sym_def X_def Let_def)
    then show ?thesis using base respects [OF pend] True by simp
  next
    case False
    let ?js = "find_overlapping (partition_of info) X"
    have info': "info' = foldl (split_and_replace_set X) info ?js"
      using False by (simp add: info'_def dfa_min_sym_def X_def Let_def)
    have len: "length (member_to_subset (partition_of info)) = ?n"
      using hop_baseD(2) [OF base] by (rule partition_okD)
    have ok: "partitioned_set_ok (partition_of info)" using hop_baseD(2) [OF base] len by simp
    have Xn: "\<forall>s \<in> set X. s < ?n" using setX by auto
    have js: "\<forall>i \<in> set ?js. i < n_classes info"
      using find_overlapping_iff(1) [OF hop_baseD(2) [OF base] Xn] Xn
        partition_okD(2) [OF hop_baseD(2) [OF base]] by auto
    note all = split_steps [OF wf base pend X closed js, folded info']
    have "s \<in> set X \<longleftrightarrow> t \<in> set X" if "s < ?n" "t < ?n" "cls_of info' s = cls_of info' t" for s t
      by (rule pset.split_overlapping_homogeneous [OF ok X]) (use all Xn len that in simp_all)
    then show ?thesis using all respects by blast
  qed
qed

lemma dfa_min_syms:
  assumes wf: "wf_rdfa d" and base: "hop_base d info" and pend: "hop_pending d (set cur) 0 info"
    and cur: "\<forall>s \<in> set cur. s < length (states d)" "equiv_closed d (set cur)" and k: "k \<le> alpha_size d"
  defines "info' \<equiv> foldl (dfa_min_sym cur) info [0..<k]"
  shows "hop_base d info' \<and> hop_pending d (set cur) k info' \<and> hop_measure d info' \<le> hop_measure d info"
  using k unfolding info'_def
proof (induction k)
  case 0
  then show ?case using base pend by simp
next
  case (Suc k)
  let ?i = "foldl (dfa_min_sym cur) info [0..<k]"
  have "hop_base d ?i" "hop_pending d (set cur) k ?i" "hop_measure d ?i \<le> hop_measure d info" "k < alpha_size d"
    using Suc by auto
  then show ?case using dfa_min_sym_step [OF wf _ _ cur, of ?i k] by simp
qed

text \<open>Between iterations nothing is pending beyond the queue.\<close>

definition hop_inv :: "raw_dfa \<Rightarrow> HopcroftInfo \<Rightarrow> bool" where
  "hop_inv d info \<longleftrightarrow> hop_base d info \<and> hop_pending d {} 0 info"

lemma dfa_min_body_step:
  assumes wf: "wf_rdfa d" and inv: "hop_inv d info" and q: "work_queue info \<noteq> []"
  shows "hop_inv d (dfa_min_body info) \<and> hop_measure d (dfa_min_body info) < hop_measure d info"
proof -
  let ?n = "length (states d)"
  let ?w = "hd (work_queue info)"
  let ?info = "info\<lparr>work_queue := tl (work_queue info)\<rparr>"
  define cur where "cur = flat_set_insert_range [] (subsets (partition_of info) ! ?w)"
  have base: "hop_base d info" and pend: "hop_pending d {} 0 info"
    using inv by (auto simp: hop_inv_def)
  have w: "?w < n_classes info" using hop_baseD(3) [OF base] q by simp
  have "set cur = set (subsets (partition_of info) ! ?w)"
    unfolding cur_def flat_set_insert_range_def by (subst fset.elems_insert_all) simp_all
  then have setc: "set cur = {s. s < ?n \<and> cls_of info s = ?w}"
    unfolding partition_okD(3) [OF hop_baseD(2) [OF base] w] by (simp add: set_eq_iff in_members)
  have closed: "equiv_closed d (set cur)"
    unfolding equiv_closed_def setc using hop_baseD(5) [OF base] by auto
  have base': "hop_base d ?info"
  proof -
    have upd: "partition_of ?info = partition_of info" "prev ?info = prev info"
      "hi_alpha_size ?info = hi_alpha_size info" "work_queue ?info = tl (work_queue info)"
      by simp_all
    show ?thesis
      using base list.set_sel(2) [OF q] unfolding hop_base_def preds_ok_def upd by blast
  qed
  have split: "x \<in> set (work_queue info) \<longleftrightarrow> x = ?w \<or> x \<in> set (tl (work_queue info))" for x
    using q by (metis list.collapse set_ConsD list.set_intros)
  have pend': "hop_pending d (set cur) 0 ?info"
    unfolding hop_pending_def
  proof (intro allI impI)
    fix s t a
    assume st: "s < ?n" "t < ?n" and a: "a < alpha_size d" and same: "cls_of ?info s = cls_of ?info t"
      and diff: "cls_of ?info (dfa_step d s a) \<noteq> cls_of ?info (dfa_step d t a)"
    have sa: "dfa_step d s a < ?n" "dfa_step d t a < ?n" using wf st a by (auto intro: wf_rdfaD)
    have "cls_of info (dfa_step d s a) \<in> set (work_queue info) \<or>
        cls_of info (dfa_step d t a) \<in> set (work_queue info)"
      using hop_pendingD [OF pend st a] same diff by simp
    then show "cls_of ?info (dfa_step d s a) \<in> set (work_queue ?info) \<or>
        cls_of ?info (dfa_step d t a) \<in> set (work_queue ?info) \<or>
        0 \<le> a \<and> (dfa_step d s a \<in> set cur \<longleftrightarrow> dfa_step d t a \<notin> set cur)"
      using sa diff unfolding setc by (auto simp: split)
  qed
  have cur_n: "\<forall>s \<in> set cur. s < ?n" using setc by auto
  have body: "dfa_min_body info = foldl (dfa_min_sym cur) ?info [0..<alpha_size d]"
    using hop_baseD(1) [OF base] by (simp add: dfa_min_body_def Let_def cur_def preds_ok_def)
  note all = dfa_min_syms [OF wf base' pend' cur_n closed order_refl, folded body]
  have "hop_measure d ?info < hop_measure d info"
    using q by (cases "work_queue info") (auto simp: hop_measure_def)
  moreover have "hop_pending d {} 0 (dfa_min_body info)"
    using all unfolding hop_pending_def by auto
  ultimately show ?thesis using all by (auto simp: hop_inv_def)
qed

text \<open>The loop returns, and returns with an empty queue.\<close>

lemma dfa_min_returns:
  "wf_rdfa d \<Longrightarrow> hop_inv d info \<Longrightarrow>
   \<exists>info'. dfa_min info = Some info' \<and> hop_inv d info' \<and> work_queue info' = []"
proof (induction "hop_measure d info" arbitrary: info rule: less_induct)
  case less
  show ?case
  proof (cases "work_queue info = []")
    case True
    then show ?thesis using less.prems by (subst dfa_min.simps) simp
  next
    case False
    note step = dfa_min_body_step [OF less.prems False]
    from less.hyps [of "dfa_min_body info"] step less.prems(1) False show ?thesis
      by (subst dfa_min.simps) simp
  qed
qed

lemma hop_inv_initial:
  assumes wf: "wf_rdfa d"
  shows "hop_inv d (new_HopcroftInfo d)" and "length (prev (new_HopcroftInfo d)) = length (states d)"
proof -
  let ?n = "length (states d)"
  obtain st q where cm: "create_map d = (st, q)" by fastforce
  obtain k c where st: "length st = ?n" "set st = {..<c}" "k \<le> c" "c \<le> Suc k" "q = [0..<k]"
    and same: "\<And>s t. s < ?n \<Longrightarrow> t < ?n \<Longrightarrow> st ! s = st ! t \<longleftrightarrow> dfa_obs d s = dfa_obs d t"
    using create_map_spec [OF cm] by metis
  let ?info = "new_HopcroftInfo d"
  have p: "partition_of ?info = new_partitioned_set st" and wq: "work_queue ?info = [0..<k]"
    using cm st by (simp_all add: new_HopcroftInfo_def Let_def)
  note part = new_partitioned_set_ok [OF st(2), unfolded st(1)]
  have cls: "cls_of ?info s = st ! s" if "s < ?n" for s using part that by (simp add: p)
  have preds: "preds_ok d ?info"
    using prev_spec [OF wf order_refl] cm
    by (simp add: preds_ok_def new_HopcroftInfo_def Let_def)
  then show "length (prev ?info) = ?n" by (simp add: preds_ok_def pred_shape_def)
  have "hop_base d ?info"
    unfolding hop_base_def using preds part st(3) wq cls same dfa_equiv_obs by (auto simp: p)
  moreover have "hop_pending d {} 0 ?info"
    unfolding hop_pending_def
  proof (intro allI impI)
    fix s t a
    assume st': "s < ?n" "t < ?n" and a: "a < alpha_size d"
      and diff: "cls_of ?info (dfa_step d s a) \<noteq> cls_of ?info (dfa_step d t a)"
    have sa: "dfa_step d s a < ?n" "dfa_step d t a < ?n" using wf st' a by (auto intro: wf_rdfaD)
    have "cls_of ?info (dfa_step d s a) < c" "cls_of ?info (dfa_step d t a) < c"
      using cls sa st(1,2) nth_mem [of _ st] by auto
    then show "cls_of ?info (dfa_step d s a) \<in> set (work_queue ?info) \<or>
        cls_of ?info (dfa_step d t a) \<in> set (work_queue ?info) \<or>
        0 \<le> a \<and> (dfa_step d s a \<in> {} \<longleftrightarrow> dfa_step d t a \<notin> {})"
      using diff st(4) wq by auto
  qed
  ultimately show "hop_inv d ?info" by (simp add: hop_inv_def)
qed

section \<open>The quotient automaton\<close>

definition final_info :: "raw_dfa \<Rightarrow> HopcroftInfo \<Rightarrow> bool" where
  "final_info d info \<longleftrightarrow> wf_rdfa d \<and> hop_inv d info \<and> work_queue info = []"

lemma final_infoD:
  assumes "final_info d info"
  shows "wf_rdfa d" "preds_ok d info" "partition_ok (length (states d)) (partition_of info)"
    and "length (prev info) = length (states d)" "hi_alpha_size info = alpha_size d"
    and "n_classes info \<le> length (states d)"
  using assms unfolding final_info_def hop_inv_def
  by (auto simp: hop_base_def preds_ok_def pred_shape_def dest: length_subsets_le)

lemma final_congruence:
  assumes "final_info d info" "s < length (states d)" "t < length (states d)" "cls_of info s = cls_of info t"
  shows "dfa_obs d s = dfa_obs d t"
    and "a < alpha_size d \<Longrightarrow> cls_of info (dfa_step d s a) = cls_of info (dfa_step d t a)"
proof -
  have base: "hop_base d info" and pend: "hop_pending d {} 0 info" and q: "work_queue info = []"
    using assms(1) by (auto simp: final_info_def hop_inv_def)
  show "dfa_obs d s = dfa_obs d t" by (rule hop_baseD(4) [OF base assms(2-4)])
  show "cls_of info (dfa_step d s a) = cls_of info (dfa_step d t a)" if "a < alpha_size d"
    using hop_pendingD [OF pend assms(2,3) that assms(4)] q by auto
qed

lemma final_class_equiv:
  assumes fin: "final_info d info" and st: "s < length (states d)" "t < length (states d)"
  shows "cls_of info s = cls_of info t \<longleftrightarrow> dfa_equiv d s t"
proof
  assume "dfa_equiv d s t"
  then show "cls_of info s = cls_of info t"
    using fin st hop_baseD(5) unfolding final_info_def hop_inv_def by blast
next
  assume same: "cls_of info s = cls_of info t"
  have "dfa_obs d (dfa_run d s w) = dfa_obs d (dfa_run d t w)" if "\<forall>a \<in> set w. a < alpha_size d" for w
    using that st same
  proof (induction w arbitrary: s t)
    case Nil
    show ?case
      by (simp only: dfa_run_simps) (rule final_congruence(1) [OF fin Nil.prems(2-4)])
  next
    case (Cons a w)
    have a: "a < alpha_size d" "\<forall>a \<in> set w. a < alpha_size d" using Cons.prems(1) by auto
    have "dfa_obs d (dfa_run d (dfa_step d s a) w) = dfa_obs d (dfa_run d (dfa_step d t a) w)"
      by (rule Cons.IH [OF a(2)])
        (rule wf_rdfaD(2) [OF final_infoD(1) [OF fin] Cons.prems(2) a(1)]
          wf_rdfaD(2) [OF final_infoD(1) [OF fin] Cons.prems(3) a(1)]
          final_congruence(2) [OF fin Cons.prems(2-4) a(1)])+
    then show ?case by simp
  qed
  then show "dfa_equiv d s t" by (simp add: dfa_equiv_def)
qed

text \<open>The representative of a class is its first member.\<close>

definition rep :: "raw_dfa \<Rightarrow> HopcroftInfo \<Rightarrow> nat \<Rightarrow> nat" where
  "rep d info i = hd (members (length (states d)) (partition_of info) i)"

lemma rep_spec:
  assumes "final_info d info" "i < n_classes info"
  shows "rep d info i < length (states d)" "cls_of info (rep d info i) = i"
    and "hd (subsets (partition_of info) ! i) = rep d info i"
    and "s < length (states d) \<Longrightarrow> cls_of info s = i \<Longrightarrow> rep d info i \<le> s"
proof -
  let ?m = "members (length (states d)) (partition_of info) i"
  note ok = final_infoD(3) [OF assms(1)]
  have "hd ?m \<in> set ?m" using partition_okD(4) [OF ok assms(2)] by simp
  then show "rep d info i < length (states d)" "cls_of info (rep d info i) = i"
    by (auto simp: rep_def in_members)
  show "hd (subsets (partition_of info) ! i) = rep d info i"
    using partition_okD(3) [OF ok assms(2)] by (simp add: rep_def)
  show "rep d info i \<le> s" if "s < length (states d)" "cls_of info s = i"
    unfolding rep_def by (rule sorted_hd_le) (use that in \<open>simp_all add: in_members\<close>)
qed

lemma cls_of_bound: "final_info d info \<Longrightarrow> s < length (states d) \<Longrightarrow> cls_of info s < n_classes info"
  using partition_okD(2) [OF final_infoD(3)] by blast

lemma class_ordering_spec:
  assumes fin: "final_info d info"
  shows "sorted_wrt (<) (map fst (class_ordering info))"
    and "set (class_ordering info) = (\<lambda>i. (rep d info i, i)) ` {..<n_classes info}"
    and "length (class_ordering info) = n_classes info"
proof -
  let ?co = "class_ordering info"
  have "?co = foldl (\<lambda>m i. flat_map_assign m 0 (rep d info i) i) [] [0..<n_classes info]"
    unfolding class_ordering_def by (rule foldl_cong) (auto simp: rep_spec [OF fin])
  moreover have "flat_map_ok ([] :: (nat \<times> nat) list)" by (simp add: flat_map_ok_def)
  moreover have inj: "inj_on (rep d info) {..<n_classes info}"
    by (rule inj_onI) (metis lessThan_iff rep_spec(2) [OF fin])
  moreover have upt: "set [0..<n_classes info] = {..<n_classes info}" by auto
  ultimately have ok: "flat_map_ok ?co" and ents: "map_of ?co k =
      (if k \<in> rep d info ` {..<n_classes info} then Some (the_inv_into {..<n_classes info} (rep d info) k) else None)" for k
    using fmap.ok_put_all [of "[]" 0 "rep d info" "\<lambda>i. i" "[0..<n_classes info]"]
      fmap.entries_put_all [of "[]" "rep d info" "[0..<n_classes info]" 0 "\<lambda>i. i" k, unfolded upt]
    by simp_all
  then show srt: "sorted_wrt (<) (map fst ?co)" by (simp add: flat_map_ok_def)
  then have dist: "distinct (map fst ?co)" using strict_sorted_iff by blast
  have "(k, i) \<in> set ?co \<longleftrightarrow> map_of ?co k = Some i" for k i
    using dist by simp
  then show set_co: "set ?co = (\<lambda>i. (rep d info i, i)) ` {..<n_classes info}"
    using ents inj by (auto simp: the_inv_into_f_f split: if_splits)
  have "length ?co = card (set ?co)" using dist by (metis distinct_card distinct_map)
  also have "\<dots> = n_classes info"
    unfolding set_co by (subst card_image) (auto intro: inj_onI)
  finally show "length ?co = n_classes info" .
qed

text \<open>The new id of a class is the rank of its representative.\<close>

lemma eq_states_upto:
  assumes "k \<le> length co" "length co \<le> 65536" "distinct (map snd co)" "\<forall>m \<in> set co. snd m < c"
  defines "r \<equiv> foldl (\<lambda>(eq_state, new_id) m. (eq_state[snd m := new_id], u16_of_nat (new_id + 1)))
            (replicate c 0, 0) (take k co)"
  shows "length (fst r) = c \<and> snd r = u16_of_nat k \<and> (\<forall>j < k. fst r ! snd (co ! j) = j)"
  using assms(1) unfolding r_def
proof (induction k)
  case 0
  then show ?case by simp
next
  case (Suc k)
  let ?r = "foldl (\<lambda>(eq_state, new_id) m. (eq_state[snd m := new_id], u16_of_nat (new_id + 1)))
            (replicate c 0, 0) (take k co)"
  have "k < 65536" using Suc.prems assms(2) by simp
  obtain e i where r: "?r = (e, i)" by fastforce
  have IH: "length e = c" "i = k" "\<forall>j < k. e ! snd (co ! j) = j"
    using Suc.IH [OF Suc_leD [OF Suc.prems]] \<open>k < 65536\<close> unfolding r by simp_all
  have k: "k < length co" "snd (co ! k) < c" using Suc.prems assms(4) by auto
  have "snd (co ! k) \<noteq> snd (co ! j)" if "j < k" for j
    using nth_eq_iff_index_eq [OF assms(3), of j k] that k(1) by simp
  then show ?case
    using IH k r by (auto simp: take_Suc_conv_app_nth nth_list_update less_Suc_eq)
qed

lemma eq_states_spec:
  assumes fin: "final_info d info" and j: "j < n_classes info"
  shows "eq_states info ! snd (class_ordering info ! j) = j" and "length (eq_states info) = n_classes info"
proof -
  let ?co = "class_ordering info"
  note co = class_ordering_spec [OF fin]
  have small: "length ?co \<le> 65536"
    using co(3) final_infoD(1,6) [OF fin] by (auto simp: wf_rdfa_def)
  have "inj_on snd (set ?co)" unfolding co(2) by (auto intro: inj_onI)
  moreover have "distinct ?co" using co(1) strict_sorted_iff by (metis distinct_map)
  ultimately have dist: "distinct (map snd ?co)" by (simp add: distinct_map)
  have bnd: "\<forall>m \<in> set ?co. snd m < n_classes info" unfolding co(2) by auto
  from eq_states_upto [OF order_refl small dist bnd] j co(3)
  show "eq_states info ! snd (?co ! j) = j" "length (eq_states info) = n_classes info"
    by (simp_all add: eq_states_def)
qed

lemma eq_states_rank:
  assumes fin: "final_info d info" and i: "i < n_classes info"
  shows "eq_states info ! i < n_classes info"
    and "class_ordering info ! (eq_states info ! i) = (rep d info i, i)"
proof -
  have "(rep d info i, i) \<in> set (class_ordering info)" using class_ordering_spec(2) [OF fin] i by auto
  then obtain j where "j < n_classes info" "class_ordering info ! j = (rep d info i, i)"
    unfolding in_set_conv_nth class_ordering_spec(3) [OF fin] by blast
  then show "eq_states info ! i < n_classes info"
    "class_ordering info ! (eq_states info ! i) = (rep d info i, i)"
    using eq_states_spec(1) [OF fin, of j] by simp_all
qed

lemma old_to_new_upto:
  fixes e :: "nat list"
  assumes ok: "partition_ok n p" and "k \<le> length (subsets p)" and "length o2n = n"
  defines "r \<equiv> foldl (\<lambda>o2n t. foldl (\<lambda>o2n id. o2n[id := e ! t]) o2n (subsets p ! t)) o2n [0..<k]"
  shows "length r = n \<and> (\<forall>s < n. subset_of p s < k \<longrightarrow> r ! s = e ! subset_of p s)"
  using assms(2) unfolding r_def
proof (induction k)
  case 0
  then show ?case using assms(3) by simp
next
  case (Suc k)
  have "subsets p ! k = members n p k" using partition_okD(3) [OF ok] Suc.prems by simp
  then show ?case
    using Suc by (auto simp: nth_foldl_update_const [where f = "\<lambda>x. x"] in_members less_Suc_eq)
qed

definition quotient_map :: "HopcroftInfo \<Rightarrow> nat list" where
  "quotient_map info = fst (mapping_new_states info (replicate (length (prev info)) 0) undefined)"

lemma quotient_map_spec:
  assumes fin: "final_info d info" and s: "s < length (states d)"
  shows "quotient_map info ! s = eq_states info ! cls_of info s"
  using old_to_new_upto [OF final_infoD(3) [OF fin] order_refl,
      of "replicate (length (prev info)) 0" "eq_states info"] s cls_of_bound [OF fin s] final_infoD(4) [OF fin]
  by (simp add: quotient_map_def mapping_new_states_def)

lemma foldl_update_each:
  "k \<le> length xs \<Longrightarrow>
   foldl (\<lambda>ys i. ys[i := f (ys ! i)]) xs [0..<k] = map f (take k xs) @ drop k xs"
proof (induction k)
  case 0
  then show ?case by simp
next
  case (Suc k)
  then show ?case
    by (simp add: nth_append list_update_append take_Suc_conv_app_nth Cons_nth_drop_Suc [symmetric])
qed

lemma renumber_state_spec:
  assumes "length (nexts ds) = alpha"
  shows "nexts (renumber_state alpha o2n ds) = map (\<lambda>t. o2n ! t) (nexts ds)"
    and "daddy (renumber_state alpha o2n ds) = o2n ! daddy ds"
    and "reports (renumber_state alpha o2n ds) = reports ds"
    and "reports_eod (renumber_state alpha o2n ds) = reports_eod ds"
  using foldl_update_each [of alpha "nexts ds" "\<lambda>t. o2n ! t"] assms
  by (simp_all add: renumber_state_def)

text \<open>The result of minimisation when it is not the identity.\<close>

lemma new_dfa_spec:
  assumes fin: "final_info d info" and ne: "n_classes info \<noteq> length (states d)"
  shows "length (states (new_dfa d info)) = n_classes info"
    and "s < length (states d) \<Longrightarrow> states (new_dfa d info) ! (quotient_map info ! s) =
      renumber_state (alpha_size d) (quotient_map info) (states d ! rep d info (cls_of info s))"
    and "start_anchored (new_dfa d info) = quotient_map info ! start_anchored d"
    and "start_floating (new_dfa d info) = quotient_map info ! start_floating d"
    and "alpha_size (new_dfa d info) = alpha_size d" "alpha_remap (new_dfa d info) = alpha_remap d"
    and "kind (new_dfa d info) = kind d"
proof -
  note co = class_ordering_spec [OF fin]
  have o2n: "fst (mapping_new_states info (replicate (length (prev info)) 0) d) = quotient_map info"
    by (simp add: quotient_map_def mapping_new_states_def)
  let ?base = "map (\<lambda>m. states d ! fst m) (class_ordering info)"
  have new: "new_dfa d info = renumber_new_states info (quotient_map info) (d\<lparr>states := ?base\<rparr>)"
    using ne final_infoD(4) [OF fin] o2n
    by (simp add: new_dfa_def mapping_new_states_def Let_def)
  have sts: "states (new_dfa d info) = map (renumber_state (alpha_size d) (quotient_map info)) ?base"
    unfolding new renumber_new_states_def
    using foldl_update_each [of "n_classes info" ?base] co(3) final_infoD(5) [OF fin] by simp
  show "length (states (new_dfa d info)) = n_classes info" using sts co(3) by simp
  show "states (new_dfa d info) ! (quotient_map info ! s) =
      renumber_state (alpha_size d) (quotient_map info) (states d ! rep d info (cls_of info s))"
    if s: "s < length (states d)"
    unfolding sts quotient_map_spec [OF fin s]
    using eq_states_rank [OF fin cls_of_bound [OF fin s]] co(3) by simp
qed (use ne final_infoD(4) [OF fin] in \<open>auto simp: new_dfa_def mapping_new_states_def renumber_new_states_def
  quotient_map_def Let_def\<close>)

text \<open>The state of the result that stands for a state of the input.\<close>

definition new_id :: "raw_dfa \<Rightarrow> HopcroftInfo \<Rightarrow> nat \<Rightarrow> nat" where
  "new_id d info s = (if n_classes info = length (states d) then s else quotient_map info ! s)"

lemma new_dfa_id: "final_info d info \<Longrightarrow> n_classes info = length (states d) \<Longrightarrow> new_dfa d info = d"
  using final_infoD(4) by (simp add: new_dfa_def)

lemma new_id_bound:
  "final_info d info \<Longrightarrow> s < length (states d) \<Longrightarrow> new_id d info s < length (states (new_dfa d info))"
  using eq_states_rank(1) cls_of_bound
  by (cases "n_classes info = length (states d)")
    (simp_all add: new_id_def new_dfa_id new_dfa_spec quotient_map_spec)

lemma new_dfa_sim:
  assumes fin: "final_info d info" and s: "s < length (states d)"
  shows "dfa_obs (new_dfa d info) (new_id d info s) = dfa_obs d s"
    and "a < alpha_size d \<Longrightarrow> dfa_step (new_dfa d info) (new_id d info s) a = new_id d info (dfa_step d s a)"
    and "alpha_size (new_dfa d info) = alpha_size d"
proof -
  let ?r = "rep d info (cls_of info s)"
  note wf = final_infoD(1) [OF fin]
  have r: "?r < length (states d)" "cls_of info ?r = cls_of info s"
    using rep_spec [OF fin cls_of_bound [OF fin s]] by auto
  show "alpha_size (new_dfa d info) = alpha_size d"
    using new_dfa_spec(5) [OF fin] new_dfa_id [OF fin] by metis
  show "dfa_obs (new_dfa d info) (new_id d info s) = dfa_obs d s"
  proof (cases "n_classes info = length (states d)")
    case True
    then show ?thesis using new_dfa_id [OF fin] by (simp add: new_id_def)
  next
    case False
    then have "dfa_obs (new_dfa d info) (new_id d info s) = dfa_obs d ?r"
      using new_dfa_spec(2) [OF fin False s] wf_rdfaD(1) [OF wf r(1)]
      by (simp add: new_id_def dfa_obs_def renumber_state_spec)
    then show ?thesis using final_congruence(1) [OF fin r(1) s r(2)] by simp
  qed
  show "dfa_step (new_dfa d info) (new_id d info s) a = new_id d info (dfa_step d s a)" if a: "a < alpha_size d"
  proof (cases "n_classes info = length (states d)")
    case True
    then show ?thesis using new_dfa_id [OF fin] by (simp add: new_id_def)
  next
    case False
    have "dfa_step (new_dfa d info) (new_id d info s) a = quotient_map info ! dfa_step d ?r a"
      using False new_dfa_spec(2) [OF fin False s] wf_rdfaD(1) [OF wf r(1)] a
      by (simp add: new_id_def dfa_step_def renumber_state_spec)
    also have "\<dots> = quotient_map info ! dfa_step d s a"
      using quotient_map_spec [OF fin wf_rdfaD(2) [OF wf r(1) a]] quotient_map_spec [OF fin wf_rdfaD(2) [OF wf s a]]
        final_congruence(2) [OF fin r(1) s r(2) a] by simp
    finally show ?thesis using False by (simp add: new_id_def)
  qed
qed

interpretation min_sim: moore_simulation
  "\<lambda>(d, s) a. (d, dfa_step d s a)" "\<lambda>(d, s). dfa_obs d s"
  "\<lambda>(d, s) a. (d, dfa_step d s a)" "\<lambda>(d, s). dfa_obs d s"
  "\<lambda>(d, s) a. a < alpha_size d"
  "\<lambda>(d, s) (d', s'). \<exists>info. final_info d info \<and> s < length (states d) \<and> d' = new_dfa d info \<and> s' = new_id d info s"
  by unfold_locales (auto simp: new_dfa_sim, blast intro: wf_rdfaD final_infoD)

section \<open>Results\<close>

lemma quotient_map_onto:
  assumes fin: "final_info d info" and j: "j < n_classes info"
  shows "\<exists>s < length (states d). j = quotient_map info ! s"
proof -
  have "class_ordering info ! j \<in> (\<lambda>i. (rep d info i, i)) ` {..<n_classes info}"
    using class_ordering_spec(2,3) [OF fin] j by (metis nth_mem)
  then obtain i where i: "i < n_classes info" "class_ordering info ! j = (rep d info i, i)" by auto
  have "quotient_map info ! rep d info i = j"
    using quotient_map_spec [OF fin rep_spec(1) [OF fin i(1)]] rep_spec(2) [OF fin i(1)]
      eq_states_spec(1) [OF fin j] i(2) by simp
  then show ?thesis using rep_spec(1) [OF fin i(1)] by auto
qed

lemma new_id_onto:
  assumes fin: "final_info d info" and j: "j < length (states (new_dfa d info))"
  shows "\<exists>s < length (states d). j = new_id d info s"
proof (cases "n_classes info = length (states d)")
  case True
  then show ?thesis using j new_dfa_id [OF fin] by (auto simp: new_id_def)
next
  case False
  then show ?thesis using quotient_map_onto [OF fin, of j] j new_dfa_spec(1) [OF fin False]
    by (simp add: new_id_def)
qed

lemma new_dfa_wf:
  assumes fin: "final_info d info"
  shows "wf_rdfa (new_dfa d info)"
proof (cases "n_classes info = length (states d)")
  case True
  then show ?thesis using new_dfa_id [OF fin] final_infoD(1) [OF fin] by simp
next
  case False
  note wf = final_infoD(1) [OF fin] and spec = new_dfa_spec [OF fin False]
  have q: "quotient_map info ! s < n_classes info" if "s < length (states d)" for s
    using eq_states_rank(1) [OF fin cls_of_bound [OF fin that]] quotient_map_spec [OF fin that] by simp
  have wfd: "wf_dstate (n_classes info) (alpha_size d)
      (renumber_state (alpha_size d) (quotient_map info) (states d ! s))" if s: "s < length (states d)" for s
  proof -
    have "wf_dstate (length (states d)) (alpha_size d) (states d ! s)"
      using wf nth_mem [OF s] by (auto simp: wf_rdfa_def)
    then show ?thesis using q by (auto simp: wf_dstate_def renumber_state_spec)
  qed
  have wfs: "\<forall>ds \<in> set (states (new_dfa d info)). wf_dstate (n_classes info) (alpha_size d) ds"
  proof
    fix ds assume "ds \<in> set (states (new_dfa d info))"
    then obtain j where j: "j < n_classes info" "ds = states (new_dfa d info) ! j"
      unfolding in_set_conv_nth spec(1) by blast
    obtain s where s: "s < length (states d)" "j = quotient_map info ! s"
      using quotient_map_onto [OF fin j(1)] by blast
    show "wf_dstate (n_classes info) (alpha_size d) ds"
      unfolding j(2) s(2) spec(2) [OF s(1)] by (rule wfd [OF rep_spec(1) [OF fin cls_of_bound [OF fin s(1)]]])
  qed
  have starts: "start_anchored d < length (states d)" "start_floating d < length (states d)"
    and rest: "0 < alpha_size d" "alpha_size d \<le> ALPHABET_SIZE" "length (states d) \<le> 65536"
      "length (alpha_remap d) = ALPHABET_SIZE" "\<forall>a \<in> set (alpha_remap d). a < alpha_size d"
    using wf by (simp_all add: wf_rdfa_def)
  have pos: "states (new_dfa d info) \<noteq> []" using q [OF starts(1)] spec(1) by auto
  show ?thesis
    unfolding wf_rdfa_def spec(1,3-6)
    using pos wfs rest q starts final_infoD(6) [OF fin] by simp
qed

lemma minimize_hopcroft_cases:
  assumes wf: "wf_rdfa d"
  obtains (off) "\<not> minimizeDFA g" "minimize_hopcroft g d = Some d"
  | (on) info where "minimizeDFA g" "final_info d info" "minimize_hopcroft g d = Some (new_dfa d info)"
proof (cases "minimizeDFA g")
  case False
  then show thesis using off by (simp add: minimize_hopcroft_def)
next
  case True
  obtain info where "dfa_min (new_HopcroftInfo d) = Some info" "hop_inv d info" "work_queue info = []"
    using dfa_min_returns [OF wf hop_inv_initial(1) [OF wf]] by blast
  then show thesis using on [OF True] wf True by (simp add: minimize_hopcroft_def final_info_def)
qed

lemma new_dfa_starts:
  "final_info d info \<Longrightarrow> start_anchored (new_dfa d info) = new_id d info (start_anchored d)"
  "final_info d info \<Longrightarrow> start_floating (new_dfa d info) = new_id d info (start_floating d)"
  "final_info d info \<Longrightarrow> alpha_remap (new_dfa d info) = alpha_remap d"
  by (cases "n_classes info = length (states d)"; simp add: new_id_def new_dfa_id new_dfa_spec)+

lemma foldl_pair: "foldl (\<lambda>(d, s) a. (d, dfa_step d s a)) (d, s) w = (d, dfa_run d s w)"
  by (induction w arbitrary: s) auto

lemma new_dfa_run:
  assumes fin: "final_info d info" and "s < length (states d)" and w: "\<forall>a \<in> set w. a < alpha_size d"
  shows "dfa_obs (new_dfa d info) (dfa_run (new_dfa d info) (new_id d info s) w) = dfa_obs d (dfa_run d s w)"
proof -
  have "\<exists>info'. final_info d info' \<and> s < length (states d) \<and> new_dfa d info = new_dfa d info' \<and>
      new_id d info s = new_id d info' s"
    using assms by blast
  then show ?thesis
    using min_sim.run_obs [of "(d, s)" "(new_dfa d info, new_id d info s)" w, unfolded foldl_pair] w by simp
qed

lemma new_dfa_distinct:
  assumes fin: "final_info d info" and ij: "i < length (states (new_dfa d info))"
    "j < length (states (new_dfa d info))" and eqv: "dfa_equiv (new_dfa d info) i j"
  shows "i = j"
proof -
  obtain s t where st: "s < length (states d)" "t < length (states d)"
    and id: "i = new_id d info s" "j = new_id d info t"
    using new_id_onto [OF fin] ij by meson
  have "dfa_equiv d s t"
    using eqv unfolding dfa_equiv_def id new_dfa_sim(3) [OF fin st(1)]
    using new_dfa_run [OF fin st(1)] new_dfa_run [OF fin st(2)] by simp
  then have same: "cls_of info s = cls_of info t" using final_class_equiv [OF fin st] by simp
  show ?thesis
  proof (cases "n_classes info = length (states d)")
    case False
    then show ?thesis using same id st quotient_map_spec [OF fin] by (simp add: new_id_def)
  next
    case True
    have "cls_of info ` {..<length (states d)} = {..<n_classes info}"
      using cls_of_bound [OF fin] rep_spec(1,2) [OF fin] by (auto simp: image_iff) (metis lessThan_iff)
    then have "inj_on (cls_of info) {..<length (states d)}"
      using True by (intro eq_card_imp_inj_on) simp_all
    then show ?thesis using same st True id by (auto simp: new_id_def dest: inj_onD)
  qed
qed

lemma new_dfa_size: "final_info d info \<Longrightarrow> length (states (new_dfa d info)) \<le> length (states d)"
  by (cases "n_classes info = length (states d)") (simp_all add: new_dfa_id new_dfa_spec final_infoD(6))

lemma new_id_dead:
  assumes fin: "final_info d info"
  shows "new_id d info 0 = 0"
proof (cases "n_classes info = length (states d)")
  case False
  have n: "0 < length (states d)" using final_infoD(1) [OF fin] by (simp add: wf_rdfa_def)
  let ?c = "cls_of info 0" and ?co = "class_ordering info"
  note c = cls_of_bound [OF fin n]
  have "rep d info ?c = 0" using rep_spec(4) [OF fin c n refl] by simp
  then have at: "fst (?co ! (eq_states info ! ?c)) = 0" using eq_states_rank(2) [OF fin c] by simp
  have "eq_states info ! ?c = 0"
  proof (rule ccontr)
    assume "eq_states info ! ?c \<noteq> 0"
    then have "map fst ?co ! 0 < map fst ?co ! (eq_states info ! ?c)"
      by (intro sorted_wrt_nth_less [OF class_ordering_spec(1) [OF fin]])
        (use eq_states_rank(1) [OF fin c] class_ordering_spec(3) [OF fin] in simp_all)
    then show False using at eq_states_rank(1) [OF fin c] class_ordering_spec(3) [OF fin] by simp
  qed
  then show ?thesis using False quotient_map_spec [OF fin n] by (simp add: new_id_def)
qed (simp add: new_id_def)

text \<open>A DFA with two pairs of equivalent states, on which the theorems are instantiated.\<close>

definition example_state :: "nat list \<Rightarrow> nat list \<Rightarrow> dstate" where
  "example_state nx rs = \<lparr>nexts = nx, daddy = 0, impl_id = 0, reports = rs, reports_eod = []\<rparr>"

definition example_dfa :: raw_dfa where
  "example_dfa =
     \<lparr>kind = NFA_OUTFIX,
      states = [example_state [0, 0] [], example_state [2, 3] [], example_state [4, 0] [],
                example_state [5, 0] [], example_state [0, 0] [7], example_state [0, 0] [7]],
      start_anchored = 1, start_floating = 0, alpha_size = 2, alpha_remap = replicate 257 0\<rparr>"

lemma example_dfa_wf: "wf_rdfa example_dfa"
  by code_simp

text \<open>
  C1. Minimisation of a well-formed DFA returns a well-formed DFA over the same alphabet which
  raises, from each of the two start states and after every word of symbols, exactly the reports
  and end-of-data reports of the input.
\<close>

theorem minimize_hopcroft_correct:
  assumes "wf_rdfa d"
  shows "\<exists>d'. minimize_hopcroft g d = Some d' \<and> wf_rdfa d' \<and>
    alpha_size d' = alpha_size d \<and> alpha_remap d' = alpha_remap d \<and>
    (\<forall>w. (\<forall>a \<in> set w. a < alpha_size d) \<longrightarrow>
      dfa_obs d' (dfa_run d' (start_anchored d') w) = dfa_obs d (dfa_run d (start_anchored d) w) \<and>
      dfa_obs d' (dfa_run d' (start_floating d') w) = dfa_obs d (dfa_run d (start_floating d) w))"
proof (cases rule: minimize_hopcroft_cases [OF assms, of g])
  case 1
  then show ?thesis using assms by simp
next
  case (2 info)
  have "start_anchored d < length (states d)" "start_floating d < length (states d)"
    using assms by (auto simp: wf_rdfa_def)
  then show ?thesis
    using 2(2,3) new_dfa_wf new_dfa_run new_dfa_starts new_dfa_sim(3) by auto
qed

theorem minimize_hopcroft_correct_witness:
  "\<exists>d'. minimize_hopcroft \<lparr>minimizeDFA = True, highlanderPruneDFA = False\<rparr> example_dfa = Some d' \<and>
    dfa_obs d' (dfa_run d' (start_anchored d') [1, 0]) = ([7], [])"
proof -
  have "dfa_obs example_dfa (dfa_run example_dfa (start_anchored example_dfa) [1, 0]) = ([7], [])"
    "\<forall>a \<in> set [1, 0]. a < alpha_size example_dfa"
    by code_simp+
  then show ?thesis
    using minimize_hopcroft_correct [OF example_dfa_wf] by metis
qed

text \<open>
  C2. With minimisation enabled the result is minimal: any two distinct states of it are told apart
  by the reports after some word of symbols. The result has no more states than the input.
\<close>

theorem minimize_hopcroft_minimal:
  assumes "wf_rdfa d" and "minimizeDFA g"
  shows "\<exists>d'. minimize_hopcroft g d = Some d' \<and> length (states d') \<le> length (states d) \<and>
    (\<forall>i < length (states d'). \<forall>j < length (states d'). dfa_equiv d' i j \<longrightarrow> i = j)"
proof (cases rule: minimize_hopcroft_cases [OF assms(1), of g])
  case 1
  then show ?thesis using assms by simp
next
  case (2 info)
  then show ?thesis using new_dfa_distinct new_dfa_size by blast
qed

theorem minimize_hopcroft_minimal_witness:
  "\<exists>d'. minimize_hopcroft \<lparr>minimizeDFA = True, highlanderPruneDFA = False\<rparr> example_dfa = Some d' \<and>
    (\<forall>i < length (states d'). \<forall>j < length (states d'). dfa_equiv d' i j \<longrightarrow> i = j) \<and> length (states d') = 4"
proof -
  have "map_option (\<lambda>d'. length (states d'))
      (minimize_hopcroft \<lparr>minimizeDFA = True, highlanderPruneDFA = False\<rparr> example_dfa) = Some 4"
    by code_simp
  then show ?thesis
    using minimize_hopcroft_minimal [OF example_dfa_wf, of "\<lparr>minimizeDFA = True, highlanderPruneDFA = False\<rparr>"]
    by auto
qed

text \<open>
  C3. Minimisation keeps the dead state: if state 0 of the input reports nothing and leads only to
  itself, then so does state 0 of the result.
\<close>

theorem minimize_hopcroft_dead_state:
  assumes wf: "wf_rdfa d" and dead: "dfa_obs d DEAD_STATE = ([], [])"
    "\<forall>a < alpha_size d. dfa_step d DEAD_STATE a = DEAD_STATE"
    and d': "minimize_hopcroft g d = Some d'"
  shows "dfa_obs d' DEAD_STATE = ([], []) \<and> (\<forall>a < alpha_size d'. dfa_step d' DEAD_STATE a = DEAD_STATE)"
proof (cases rule: minimize_hopcroft_cases [OF wf, of g])
  case 1
  then show ?thesis using dead d' by simp
next
  case (2 info)
  then have d'_eq: "d' = new_dfa d info" using d' by simp
  have "DEAD_STATE < length (states d)" using wf by (simp add: wf_rdfa_def DEAD_STATE_def)
  from new_dfa_sim [OF 2(2) this] new_id_dead [OF 2(2)] dead
  show ?thesis by (simp add: d'_eq DEAD_STATE_def)
qed

theorem minimize_hopcroft_dead_state_witness:
  "\<exists>d'. minimize_hopcroft \<lparr>minimizeDFA = True, highlanderPruneDFA = False\<rparr> example_dfa = Some d' \<and>
    dfa_obs d' DEAD_STATE = ([], []) \<and> (\<forall>a < alpha_size d'. dfa_step d' DEAD_STATE a = DEAD_STATE)"
proof -
  have dead: "dfa_obs example_dfa DEAD_STATE = ([], [])"
    "\<forall>a < alpha_size example_dfa. dfa_step example_dfa DEAD_STATE a = DEAD_STATE"
    and ret: "minimize_hopcroft \<lparr>minimizeDFA = True, highlanderPruneDFA = False\<rparr> example_dfa \<noteq> None"
    by code_simp+
  from ret obtain d' where
    "minimize_hopcroft \<lparr>minimizeDFA = True, highlanderPruneDFA = False\<rparr> example_dfa = Some d'" by auto
  then show ?thesis using minimize_hopcroft_dead_state [OF example_dfa_wf dead] by blast
qed

end
