(* ===== verification/RdfaMerge.thy ===== *)
theory RdfaMerge
  imports Determinise Alphabet McClellanUtil ReportManager DfaMin
begin

text \<open>
  Merging DFAs, \<^verbatim>\<open>nfa/rdfa_merge.cpp\<close>: the product automaton \<^verbatim>\<open>Automaton_Merge\<close> is
  handed to the subset construction of \<open>Determinise\<close> over the alphabet of \<open>Alphabet\<close>, and the
  result is minimised with \<open>DfaMin\<close> when the inputs share reports. A state set is the list of the
  states of the inputs. An exception (a report id the manager does not know) is an error value;
  \<open>None\<close> is a computation that does not end.
\<close>

section \<open>Model\<close>

definition MAX_DFA_STATES :: nat where "MAX_DFA_STATES = 16383"

definition populateAsFs :: "raw_dfa list \<Rightarrow> nat list \<times> nat list \<times> nat \<times> nat" where
  "populateAsFs nfas =
     (let as = map start_anchored nfas; fs = map start_floating nfas;
          fs_dead = list_all (\<lambda>f. f = 0) fs;
          fs_same = list_all2 (=) as fs;
          start_a = DEAD_STATE + 1
      in (as, fs, start_a,
          if fs_same then start_a else if fs_dead then DEAD_STATE else start_a + 1))"

text \<open>The loop over the collected reports; the key seen so far is \<^verbatim>\<open>INVALID_EKEY\<close> at first.\<close>

fun same_ekey :: "ReportManager \<Rightarrow> u32 \<Rightarrow> nat list \<Rightarrow> flat_error + bool" where
  "same_ekey rm key [] = Inr True"
| "same_ekey rm key (report_id # ids) =
     (case getReport rm report_id of
        Inl e \<Rightarrow> Inl e
      | Inr r \<Rightarrow>
          if \<not> isSimpleExhaustible r then Inr False
          else if key = INVALID_EKEY then same_ekey rm (ekey r) ids
          else if key \<noteq> ekey r then Inr False
          else same_ekey rm key ids)"

definition isPrunable :: "ReportManager option \<Rightarrow> Grey \<Rightarrow> raw_dfa list \<Rightarrow> flat_error + bool" where
  "isPrunable rm grey nfas =
     (case rm of
        None \<Rightarrow> Inr False
      | Some rm \<Rightarrow>
          if \<not> highlanderPruneDFA grey then Inr False
          else if \<not> generates_callbacks (kind (hd nfas)) then Inr False
          else same_ekey rm INVALID_EKEY
                 (foldl (\<lambda>rs d. flat_set_insert_range rs (all_reports d)) [] nfas))"

text \<open>
  \<^verbatim>\<open>canPrune\<close> is only asked about reports of the inputs after \<open>isPrunable\<close> has looked all of
  them up, so that its lookups cannot throw.
\<close>

definition am_canPrune :: "ReportManager option \<Rightarrow> Grey \<Rightarrow> bool \<Rightarrow> nat list \<Rightarrow> bool" where
  "am_canPrune rm grey prunable test_reports =
     (if \<not> highlanderPruneDFA grey \<or> \<not> prunable then False
      else case rm of
          None \<Rightarrow> False
        | Some rm \<Rightarrow>
            list_all (\<lambda>report_id. case getReport rm report_id of Inr r \<Rightarrow> isExternalReport r | Inl _ \<Rightarrow> False)
              test_reports)"

definition am_transition :: "raw_dfa list \<Rightarrow> nat \<Rightarrow> nat list \<Rightarrow> nat list \<Rightarrow> nat list list" where
  "am_transition nfas alphasize unalpha x =
     (let ts = map (\<lambda>j. getFullTransitionFromState (nfas ! j) (x ! j)) [0..<length nfas]
      in map (\<lambda>i. map (\<lambda>j. ts ! j ! (unalpha ! i)) [0..<length nfas]) [0..<alphasize])"

definition reports_i :: "raw_dfa list \<Rightarrow> (dstate \<Rightarrow> nat list) \<Rightarrow> nat list \<Rightarrow> nat list \<Rightarrow> nat list" where
  "reports_i nfas r_set x r =
     foldl (\<lambda>r i. flat_set_insert_range r (r_set (states (nfas ! i) ! (x ! i)))) r [0..<length nfas]"

definition am_initial :: "nat list \<Rightarrow> nat list \<Rightarrow> nat \<Rightarrow> nat \<Rightarrow> nat list list" where
  "am_initial as fs start_a start_f =
     (if start_f \<noteq> DEAD_STATE \<and> start_f \<noteq> start_a then [as, fs] else [as])"

text \<open>The members of the automaton, and the constructor: the automaton with its two start states.\<close>

definition am_auto ::
  "raw_dfa list \<Rightarrow> (nat list \<Rightarrow> bool) \<Rightarrow> nat list list \<Rightarrow> nat \<times> nat list \<times> nat list \<Rightarrow> nat list Auto" where
  "am_auto dfas canPrune init = (\<lambda>(alphasize, alpha, unalpha).
     \<lparr>au_alphasize = alphasize, au_alpha = alpha, au_unalpha = unalpha,
      au_dead = replicate (length dfas) 0, au_default = [], au_initial = init,
      au_reports = reports_i dfas reports, au_reportsEod = reports_i dfas reports_eod,
      au_canPrune = canPrune, au_transition = am_transition dfas alphasize unalpha\<rparr>)"

definition Automaton_Merge ::
  "raw_dfa list \<Rightarrow> ReportManager option \<Rightarrow> Grey \<Rightarrow> (flat_error + nat list Auto \<times> nat \<times> nat) option" where
  "Automaton_Merge dfas rm grey =
     map_option
       (\<lambda>alphabet.
          let (as, fs, start_a, start_f) = populateAsFs dfas
          in case isPrunable rm grey dfas of
               Inl e \<Rightarrow> Inl e
             | Inr prunable \<Rightarrow>
                 Inr (am_auto dfas (am_canPrune rm grey prunable) (am_initial as fs start_a start_f) alphabet,
                      start_a, start_f))
       (calculateAlphabet_remaps (map alpha_remap dfas))"

fun report_shared :: "nat list \<Rightarrow> nat list \<Rightarrow> nat list option" where
  "report_shared seen [] = Some seen"
| "report_shared seen (r # rs) =
     (case flat_set_insert seen r of (seen', it, inserted) \<Rightarrow> if \<not> inserted then None else report_shared seen' rs)"

definition shouldMinimize :: "raw_dfa list \<Rightarrow> bool" where
  "shouldMinimize dfas =
     (foldl (\<lambda>seen d. Option.bind seen (\<lambda>seen. report_shared seen (all_reports d))) (Some []) dfas = None)"

text \<open>
  The common body of \<^verbatim>\<open>mergeTwoDfas\<close> and \<^verbatim>\<open>mergeAllDfas\<close>: \<open>Inr None\<close> is the null
  pointer for a merge over the limit of states.
\<close>

definition merged_dfa :: "nfa_kind \<Rightarrow> nat list Auto \<Rightarrow> nat \<Rightarrow> nat \<Rightarrow> dstate list \<Rightarrow> raw_dfa" where
  "merged_dfa k n start_a start_f ds =
     \<lparr>kind = k, states = ds, start_anchored = start_a, start_floating = start_f,
      alpha_size = au_alphasize n, alpha_remap = au_alpha n\<rparr>"

definition mergeAllDfas ::
  "raw_dfa list \<Rightarrow> nat \<Rightarrow> ReportManager option \<Rightarrow> Grey \<Rightarrow> (flat_error + raw_dfa option) option" where
  "mergeAllDfas dfas max_states rm grey =
     Option.bind (Automaton_Merge dfas rm grey) (\<lambda>r.
       case r of
         Inl e \<Rightarrow> Some (Inl e)
       | Inr (n, start_a, start_f) \<Rightarrow>
           Option.bind (determinise n max_states) (\<lambda>(ok, ds, _).
             if \<not> ok then Some (Inr None)
             else let rdfa = merged_dfa (kind (hd dfas)) n start_a start_f ds
                  in if shouldMinimize dfas then map_option (\<lambda>d. Inr (Some d)) (minimize_hopcroft grey rdfa)
                     else Some (Inr (Some rdfa))))"

definition mergeTwoDfas ::
  "raw_dfa \<Rightarrow> raw_dfa \<Rightarrow> nat \<Rightarrow> ReportManager option \<Rightarrow> Grey \<Rightarrow> (flat_error + raw_dfa option) option" where
  "mergeTwoDfas d1 d2 max_states rm grey =
     Option.bind (Automaton_Merge [d1, d2] rm grey) (\<lambda>r.
       case r of
         Inl e \<Rightarrow> Some (Inl e)
       | Inr (n, start_a, start_f) \<Rightarrow>
           Option.bind (determinise n max_states) (\<lambda>(ok, ds, _).
             if ok
             then let rdfa = merged_dfa (kind d1) n start_a start_f ds
                  in if shouldMinimize [d1, d2] then map_option (\<lambda>d. Inr (Some d)) (minimize_hopcroft grey rdfa)
                     else Some (Inr (Some rdfa))
             else Some (Inr None)))"

text \<open>
  \<^verbatim>\<open>mergeDfas\<close>: a queue of DFAs from whose front two are merged; a merge goes to the back,
  of two that do not merge the larger is put out and the smaller goes to the back.
\<close>

function merge_queue ::
  "nat \<Rightarrow> ReportManager option \<Rightarrow> Grey \<Rightarrow> raw_dfa list \<Rightarrow> raw_dfa list \<Rightarrow> (flat_error + raw_dfa list) option" where
  "merge_queue max_states rm grey (d1 # d2 # q) out =
     (case mergeTwoDfas d1 d2 max_states rm grey of
        None \<Rightarrow> None
      | Some (Inl e) \<Rightarrow> Some (Inl e)
      | Some (Inr (Some rdfa)) \<Rightarrow> merge_queue max_states rm grey (q @ [rdfa]) out
      | Some (Inr None) \<Rightarrow>
          if length (states d1) < length (states d2)
          then merge_queue max_states rm grey (q @ [d1]) (out @ [d2])
          else merge_queue max_states rm grey (q @ [d2]) (out @ [d1]))"
| "merge_queue max_states rm grey [d] out = Some (Inr (out @ [d]))"
| "merge_queue max_states rm grey [] out = Some (Inr out)"
  by pat_completeness auto
termination
  by (relation "measure (\<lambda>(_, _, _, q, _). length q)") auto

definition mergeDfas ::
  "raw_dfa list \<Rightarrow> nat \<Rightarrow> ReportManager option \<Rightarrow> Grey \<Rightarrow> (flat_error + raw_dfa list) option" where
  "mergeDfas dfas max_states rm grey =
     (if length dfas \<le> 1 then Some (Inr dfas) else merge_queue max_states rm grey dfas [])"

section \<open>The product of the inputs\<close>

text \<open>Scanning characters, a top being character 256, from a state of one DFA and of several.\<close>

definition dfa_scan :: "raw_dfa \<Rightarrow> nat \<Rightarrow> nat list \<Rightarrow> nat" where
  "dfa_scan d s cs = dfa_run d s (map (\<lambda>c. alpha_remap d ! c) cs)"

definition dfas_scan :: "raw_dfa list \<Rightarrow> nat list \<Rightarrow> nat list \<Rightarrow> nat list" where
  "dfas_scan dfas x cs = map2 (\<lambda>d s. dfa_scan d s cs) dfas x"

definition dfas_reports :: "raw_dfa list \<Rightarrow> nat list \<Rightarrow> nat list \<times> nat list" where
  "dfas_reports dfas x =
     (sorted_list_of_set (\<Union>(d, s) \<in> set (zip dfas x). set (reports (states d ! s))),
      sorted_list_of_set (\<Union>(d, s) \<in> set (zip dfas x). set (reports_eod (states d ! s))))"

definition input_ok :: "raw_dfa \<Rightarrow> bool" where
  "input_ok d \<longleftrightarrow> wf_rdfa d \<and> dead_ok d \<and> remap_ok (alpha_remap d)"

definition tuple_ok :: "raw_dfa list \<Rightarrow> nat list \<Rightarrow> bool" where
  "tuple_ok dfas x \<longleftrightarrow> length x = length dfas \<and> (\<forall>i < length dfas. x ! i < length (states (dfas ! i)))"

lemma dfa_scan_simps [simp]:
  "dfa_scan d s [] = s" "dfa_scan d s (cs @ [c]) = dfa_step d (dfa_scan d s cs) (alpha_remap d ! c)"
  by (simp_all add: dfa_scan_def)

lemma dfa_scan_append: "dfa_scan d s (cs @ cs') = dfa_scan d (dfa_scan d s cs) cs'"
  by (simp add: dfa_scan_def)

lemma dfas_scan_nth [simp]:
  "length x = length dfas \<Longrightarrow> i < length dfas \<Longrightarrow> dfas_scan dfas x cs ! i = dfa_scan (dfas ! i) (x ! i) cs"
  "length x = length dfas \<Longrightarrow> length (dfas_scan dfas x cs) = length dfas"
  by (simp_all add: dfas_scan_def)

lemma wf_remap: "wf_rdfa d \<Longrightarrow> c < 257 \<Longrightarrow> alpha_remap d ! c < alpha_size d"
  by (simp add: wf_rdfa_def ALPHABET_SIZE_def)

lemma dfa_scan_bound:
  "wf_rdfa d \<Longrightarrow> s < length (states d) \<Longrightarrow> \<forall>c \<in> set cs. c < 257 \<Longrightarrow> dfa_scan d s cs < length (states d)"
  unfolding dfa_scan_def by (rule dfa_run_bound) (auto simp: wf_remap)

lemma dfas_scan_ok:
  assumes "\<forall>d \<in> set dfas. input_ok d" "tuple_ok dfas x" "\<forall>c \<in> set cs. c < 257"
  shows "tuple_ok dfas (dfas_scan dfas x cs)"
  using assms by (auto simp: tuple_ok_def input_ok_def intro!: dfa_scan_bound)

lemma reports_i_spec:
  assumes "length x = length dfas"
  shows "reports_i dfas f x [] = sorted_list_of_set (\<Union>(d, s) \<in> set (zip dfas x). set (f (states d ! s)))"
proof -
  have step: "flat_set_ok r \<Longrightarrow> flat_set_ok (foldl (\<lambda>r i. flat_set_insert_range r (g i)) r is) \<and>
      set (foldl (\<lambda>r i. flat_set_insert_range r (g i)) r is) = set r \<union> (\<Union>i \<in> set is. set (g i))"
    for r :: "nat list" and g and "is" :: "nat list"
    by (induction "is" arbitrary: r) (auto simp: flat_set_insert_range_spec)
  have "(\<Union>(d, s) \<in> set (zip dfas x). set (f (states d ! s))) =
      (\<Union>i \<in> set [0..<length dfas]. set (f (states (dfas ! i) ! (x ! i))))"
    using assms by (fastforce simp: set_zip)
  then show ?thesis
    using step [of "[]" "\<lambda>i. f (states (dfas ! i) ! (x ! i))" "[0..<length dfas]"]
      sorted_list_of_set.idem_if_sorted_distinct [of "reports_i dfas f x []"]
    by (simp add: reports_i_def flat_set_ok_def strict_sorted_iff)
qed

lemma set_dfas_reports:
  "set (fst (dfas_reports dfas x)) = (\<Union>(d, s) \<in> set (zip dfas x). set (reports (states d ! s)))"
  "set (snd (dfas_reports dfas x)) = (\<Union>(d, s) \<in> set (zip dfas x). set (reports_eod (states d ! s)))"
  by (simp_all add: dfas_reports_def split_beta)

lemma am_auto_simps [simp]:
  "au_alphasize (am_auto dfas cp ini (n, al, un)) = n" "au_alpha (am_auto dfas cp ini (n, al, un)) = al"
  "au_dead (am_auto dfas cp ini (n, al, un)) = replicate (length dfas) 0"
  "au_initial (am_auto dfas cp ini (n, al, un)) = ini" "au_canPrune (am_auto dfas cp ini (n, al, un)) = cp"
  "length (au_transition (am_auto dfas cp ini (n, al, un)) x) = n"
  by (simp_all add: am_auto_def am_transition_def Let_def)

lemma am_auto_obs: "length x = length dfas \<Longrightarrow> au_obs (am_auto dfas cp ini (n, al, un)) x = dfas_reports dfas x"
  by (simp add: am_auto_def au_obs_def dfas_reports_def reports_i_spec)

abbreviation merge_alphabet :: "raw_dfa list \<Rightarrow> nat \<Rightarrow> nat list \<Rightarrow> nat list \<Rightarrow> bool" where
  "merge_alphabet dfas \<equiv> alphabet_for (\<lambda>c d. \<forall>remap \<in> set (map alpha_remap dfas). remap ! c = remap ! d)"

lemma am_transition_scan:
  assumes al: "merge_alphabet dfas n al un" and x: "length x = length dfas" and c: "c < 257"
  shows "au_transition (am_auto dfas cp ini (n, al, un)) x ! (al ! c) = dfas_scan dfas x [c]"
proof -
  define e where "e = un ! (al ! c)"
  have "e < 257 \<and> (\<forall>d \<in> set dfas. alpha_remap d ! e = alpha_remap d ! c) \<and> al ! c < n"
  proof (cases "c < 256")
    case True
    have "al ! c < n - 1" using al True by (simp add: alphabet_for_def)
    then have "e < 256" "al ! e = al ! c" using al unfolding e_def alphabet_for_def by blast+
    then have "\<forall>remap \<in> set (map alpha_remap dfas). remap ! e = remap ! c"
      using al True unfolding alphabet_for_def by blast
    then show ?thesis using \<open>e < 256\<close> \<open>al ! c < n - 1\<close> by auto
  next
    case False
    then have "c = 256" using c by simp
    then show ?thesis using al unfolding e_def alphabet_for_def by auto
  qed
  then have e: "e < 257" "\<And>d. d \<in> set dfas \<Longrightarrow> alpha_remap d ! e = alpha_remap d ! c" "al ! c < n" by auto
  show ?thesis
  proof (rule nth_equalityI)
    fix i assume "i < length (au_transition (am_auto dfas cp ini (n, al, un)) x ! (al ! c))"
    then have i: "i < length dfas" using e(3) by (simp add: am_auto_def am_transition_def Let_def)
    show "au_transition (am_auto dfas cp ini (n, al, un)) x ! (al ! c) ! i = dfas_scan dfas x [c] ! i"
      using i e x by (simp add: am_auto_def am_transition_def Let_def getFullTransitionFromState_def successor_def
          ALPHABET_SIZE_def dfa_scan_def dfa_step_def flip: e_def)
  qed (use e x in \<open>simp add: am_auto_def am_transition_def Let_def\<close>)
qed

lemma am_run:
  assumes al: "merge_alphabet dfas n al un" and x: "length x = length dfas" and cs: "\<forall>c \<in> set cs. c < 257"
    and alive: "\<forall>k < length cs. \<not> au_pruned (am_auto dfas cp ini (n, al, un)) (dfas_scan dfas x (take k cs))"
  shows "foldl (au_step (am_auto dfas cp ini (n, al, un))) x (map (\<lambda>c. al ! c) cs) = dfas_scan dfas x cs"
  using cs alive
proof (induction cs rule: rev_induct)
  case Nil
  show ?case using x by (intro nth_equalityI) simp_all
next
  case (snoc c cs)
  let ?n = "am_auto dfas cp ini (n, al, un)"
  have "\<forall>k < length cs. \<not> au_pruned ?n (dfas_scan dfas x (take k cs))"
  proof (intro allI impI)
    fix k assume "k < length cs"
    then show "\<not> au_pruned ?n (dfas_scan dfas x (take k cs))"
      using snoc.prems(2) [rule_format, of k] by simp
  qed
  then have IH: "foldl (au_step ?n) x (map (\<lambda>c. al ! c) cs) = dfas_scan dfas x cs" using snoc by simp
  have "\<not> au_pruned ?n (dfas_scan dfas x cs)" using snoc.prems(2) by (metis append_eq_conv_conj length_append_singleton lessI)
  then have "au_step ?n (dfas_scan dfas x cs) (al ! c) = dfas_scan dfas (dfas_scan dfas x cs) [c]"
    using am_transition_scan [OF al, of "dfas_scan dfas x cs" c cp ini] x snoc.prems(1) by (simp add: au_step_def)
  also have "\<dots> = dfas_scan dfas x (cs @ [c])"
    using x by (intro nth_equalityI) (simp_all add: dfa_scan_append del: dfa_scan_simps)
  finally show ?case using IH by simp
qed

section \<open>The automaton can be determinised\<close>

text \<open>The initial tuples: distinct and none of them the dead one.\<close>

definition merge_param_ok ::
  "raw_dfa list \<times> (nat list \<Rightarrow> bool) \<times> nat list list \<times> nat \<times> nat list \<times> nat list \<Rightarrow> bool" where
  "merge_param_ok = (\<lambda>(dfas, cp, ini, n, al, un).
     merge_alphabet dfas n al un \<and> distinct (replicate (length dfas) 0 # ini) \<and> (\<forall>x \<in> set ini. length x = length dfas))"

lemma am_reach_length:
  assumes "merge_param_ok (dfas, cp, ini, n, al, un)" "au_reach (am_auto dfas cp ini (n, al, un)) x"
  shows "length x = length dfas"
  using assms(2)
proof (induction rule: au_reach.induct)
  case (reach_step x s)
  have "length (au_transition (am_auto dfas cp ini (n, al, un)) x ! s) = length dfas" if "s < n" for x
    using that by (simp add: am_auto_def am_transition_def Let_def)
  then show ?case using reach_step by (simp add: au_step_def)
qed (use assms(1) in \<open>simp_all add: merge_param_ok_def\<close>)

interpretation merge_det: determinisable "\<lambda>(dfas, cp, ini, alphabet). am_auto dfas cp ini alphabet" merge_param_ok
proof (unfold_locales, goal_cases)
  case (1 p)
  obtain dfas cp ini n al un where p: "p = (dfas, cp, ini, n, al, un)" by (cases p)
  have al: "merge_alphabet dfas n al un" using 1 by (simp add: p merge_param_ok_def)
  then show ?case using 1 by (auto simp: p merge_param_ok_def au_ok_def alphabet_for_def TOP_def)
next
  case (2 p x)
  obtain dfas cp ini n al un where p: "p = (dfas, cp, ini, n, al, un)" by (cases p)
  have "length x = length dfas" using am_reach_length 2 by (simp add: p)
  then show ?case by (simp add: p am_auto_obs dfas_reports_def flat_set_ok_def strict_sorted_iff)
next
  case (3 p)
  obtain dfas cp ini n al un where p: "p = (dfas, cp, ini, n, al, un)" by (cases p)
  have al: "merge_alphabet dfas n al un" using 3 by (simp add: p merge_param_ok_def)
  have "a < n" if a: "a \<in> set al" for a
  proof -
    obtain c where c: "c < 257" "a = al ! c" using a al by (auto simp: in_set_conv_nth alphabet_for_def)
    show ?thesis
    proof (cases "c < 256")
      case True
      then have "al ! c < n - 1" using al by (simp add: alphabet_for_def)
      then show ?thesis using c(2) by simp
    next
      case False
      then have "c = 256" using c(1) by simp
      then show ?thesis using c(2) al by (simp add: alphabet_for_def)
    qed
  qed
  then show ?case using al by (auto simp: p alphabet_for_def ALPHABET_SIZE_def)
qed

section \<open>Start states and pruning\<close>

lemma populateAsFs_spec:
  assumes "populateAsFs dfas = (as, fs, start_a, start_f)"
  shows "as = map start_anchored dfas" "fs = map start_floating dfas" "start_a = 1"
    and "if fs = as then start_f = 1 else if \<forall>f \<in> set fs. f = 0 then start_f = 0 else start_f = 2"
  using assms by (auto simp: populateAsFs_def Let_def DEAD_STATE_def list.rel_eq list_all_iff split: if_splits)

lemma start_tuples:
  assumes pop: "populateAsFs dfas = (as, fs, start_a, start_f)" and live: "\<exists>d \<in> set dfas. start_anchored d \<noteq> 0"
    and pre: "take (Suc (length ini)) sets = replicate (length dfas) 0 # ini" and ini: "ini = am_initial as fs start_a start_f"
  shows "distinct (replicate (length dfas) 0 # ini)" "\<forall>x \<in> set ini. length x = length dfas"
    and "start_a \<le> length ini" "start_f \<le> length ini" "length ini \<le> 2"
    and "sets ! start_a = as" "sets ! start_f = fs"
proof -
  note p = populateAsFs_spec [OF pop]
  have as0: "as \<noteq> replicate (length dfas) 0"
    using live unfolding p(1) by (metis image_eqI in_set_replicate set_map)
  have fs0: "fs = replicate (length dfas) 0" if "\<forall>f \<in> set fs. f = 0"
    using that p(2) by (intro replicate_eqI) auto
  have fs1: "fs \<noteq> replicate (length dfas) 0" if "\<not> (\<forall>f \<in> set fs. f = 0)" using that by (metis in_set_replicate)
  have len: "length as = length dfas" "length fs = length dfas" using p(1,2) by simp_all
  have nth: "j < Suc (length ini) \<Longrightarrow> sets ! j = (replicate (length dfas) 0 # ini) ! j" for j
    using nth_take [of j "Suc (length ini)" sets] pre by simp
  have i: "ini = (if fs \<noteq> as \<and> \<not> (\<forall>f \<in> set fs. f = 0) then [as, fs] else [as])"
    using p(3,4) by (auto simp: ini am_initial_def DEAD_STATE_def split: if_splits)
  show "distinct (replicate (length dfas) 0 # ini)" "\<forall>x \<in> set ini. length x = length dfas"
    "start_a \<le> length ini" "start_f \<le> length ini" "length ini \<le> 2"
    using as0 fs1 len p(3,4) i by (auto split: if_splits)
  show "sets ! start_a = as" "sets ! start_f = fs"
    using nth [of start_a] nth [of start_f] p(3,4) i fs0 by (auto split: if_splits)
qed

lemma same_ekey_simple:
  "same_ekey rm key ids = Inr True \<Longrightarrow> i \<in> set ids \<Longrightarrow> \<exists>r. getReport rm i = Inr r \<and> isSimpleExhaustible r"
  by (induction ids arbitrary: key) (auto split: sum.splits if_splits)

lemma merge_reports_spec:
  "set (foldl (\<lambda>rs d. flat_set_insert_range rs (all_reports d)) [] dfas) = (\<Union>d \<in> set dfas. set (all_reports d))"
proof -
  have "flat_set_ok xs \<Longrightarrow> flat_set_ok (foldl (\<lambda>rs d. flat_set_insert_range rs (all_reports d)) xs dfas) \<and>
      set (foldl (\<lambda>rs d. flat_set_insert_range rs (all_reports d)) xs dfas) = set xs \<union> (\<Union>d \<in> set dfas. set (all_reports d))"
    for xs by (induction dfas arbitrary: xs) (auto simp: flat_set_insert_range_spec)
  from this [of "[]"] show ?thesis by simp
qed

text \<open>With pruning on, exactly the tuples that report are cut off.\<close>

lemma am_pruned_iff:
  assumes pr: "isPrunable rm grey dfas = Inr prunable" and x: "tuple_ok dfas x"
  shows "au_pruned (am_auto dfas (am_canPrune rm grey prunable) ini (n, al, un)) x \<longleftrightarrow>
    prunable \<and> fst (dfas_reports dfas x) \<noteq> []"
proof (cases prunable)
  case False
  then show ?thesis by (simp add: au_pruned_def am_canPrune_def)
next
  case True
  let ?rs = "fst (dfas_reports dfas x)"
  obtain m where m: "rm = Some m" "highlanderPruneDFA grey"
    "same_ekey m INVALID_EKEY (foldl (\<lambda>rs d. flat_set_insert_range rs (all_reports d)) [] dfas) = Inr True"
    using pr True by (auto simp: isPrunable_def split: option.splits if_splits)
  have obs: "au_reports (am_auto dfas (am_canPrune rm grey prunable) ini (n, al, un)) x [] = ?rs"
    using am_auto_obs [of x dfas] x by (simp add: au_obs_def tuple_ok_def prod_eq_iff)
  have "\<exists>r. getReport m i = Inr r \<and> isSimpleExhaustible r" if "i \<in> set ?rs" for i
  proof (rule same_ekey_simple [OF m(3)])
    from that obtain d s where ds: "(d, s) \<in> set (zip dfas x)" "i \<in> set (reports (states d ! s))"
      by (auto simp: set_dfas_reports)
    then have "d \<in> set dfas" "states d ! s \<in> set (states d)"
      using x by (auto simp: tuple_ok_def set_zip)
    then show "i \<in> set (foldl (\<lambda>rs d. flat_set_insert_range rs (all_reports d)) [] dfas)"
      using ds(2) unfolding merge_reports_spec all_reports_spec(2) by blast
  qed
  then have "list_all (\<lambda>i. case getReport m i of Inr r \<Rightarrow> isExternalReport r | Inl _ \<Rightarrow> False) ?rs"
    by (fastforce simp: list_all_iff isSimpleExhaustible_iff split: sum.splits)
  then show ?thesis
    using True m obs by (simp add: au_pruned_def am_canPrune_def)
qed

section \<open>The reachable tuples\<close>

definition merge_tuples :: "raw_dfa list \<Rightarrow> nat list set" where
  "merge_tuples dfas = insert (replicate (length dfas) DEAD_STATE)
     {dfas_scan dfas (map st dfas) cs |st cs. st \<in> {start_anchored, start_floating} \<and> (\<forall>c \<in> set cs. c < ALPHABET_SIZE)}"

lemma dfa_scan_dead:
  "wf_rdfa d \<Longrightarrow> dead_ok d \<Longrightarrow> \<forall>c \<in> set cs. c < 257 \<Longrightarrow> dfa_scan d 0 cs = 0"
  by (induction cs rule: rev_induct) (auto simp: dead_ok_def DEAD_STATE_def wf_remap)

lemma dfas_scan_dead:
  assumes "\<forall>d \<in> set dfas. input_ok d" "\<forall>c \<in> set cs. c < 257"
  shows "dfas_scan dfas (replicate (length dfas) 0) cs = replicate (length dfas) 0"
  using assms by (intro nth_equalityI) (auto simp: input_ok_def intro!: dfa_scan_dead)

lemma dfas_scan_append:
  "length x = length dfas \<Longrightarrow> dfas_scan dfas (dfas_scan dfas x cs) cs' = dfas_scan dfas x (cs @ cs')"
  by (intro nth_equalityI) (simp_all add: dfa_scan_append)

lemma dfas_scan_Nil: "length x = length dfas \<Longrightarrow> dfas_scan dfas x [] = x"
  by (intro nth_equalityI) simp_all

lemma merge_tuples_cases:
  assumes "x \<in> merge_tuples dfas"
  obtains (dead) "x = replicate (length dfas) 0"
  | (scan) st cs where "x = dfas_scan dfas (map st dfas) cs" "st \<in> {start_anchored, start_floating}" "\<forall>c \<in> set cs. c < 257"
  using assms unfolding merge_tuples_def DEAD_STATE_def ALPHABET_SIZE_def by blast

lemma merge_tuplesI:
  "replicate (length dfas) 0 \<in> merge_tuples dfas"
  "st \<in> {start_anchored, start_floating} \<Longrightarrow> \<forall>c \<in> set cs. c < 257 \<Longrightarrow> dfas_scan dfas (map st dfas) cs \<in> merge_tuples dfas"
  unfolding merge_tuples_def DEAD_STATE_def ALPHABET_SIZE_def by blast+

lemma merge_tuples_scan:
  assumes ok: "\<forall>d \<in> set dfas. input_ok d" and x: "x \<in> merge_tuples dfas" and c: "c < 257"
  shows "dfas_scan dfas x [c] \<in> merge_tuples dfas"
  using x
proof (cases rule: merge_tuples_cases)
  case dead
  then show ?thesis using dfas_scan_dead [OF ok, of "[c]"] c merge_tuplesI(1) by simp
next
  case (scan st cs)
  then show ?thesis using merge_tuplesI(2) [of st "cs @ [c]" dfas] c by (simp add: dfas_scan_append)
qed

lemma start_tuple_ok:
  "\<forall>d \<in> set dfas. input_ok d \<Longrightarrow> st \<in> {start_anchored, start_floating} \<Longrightarrow> tuple_ok dfas (map st dfas)"
  by (auto simp: tuple_ok_def input_ok_def wf_rdfa_def)

lemma merge_tuples_ok:
  assumes ok: "\<forall>d \<in> set dfas. input_ok d" and x: "x \<in> merge_tuples dfas"
  shows "tuple_ok dfas x"
  using x
proof (cases rule: merge_tuples_cases)
  case dead
  then show ?thesis using ok by (auto simp: tuple_ok_def input_ok_def wf_rdfa_def)
next
  case (scan st cs)
  then show ?thesis using dfas_scan_ok [OF ok start_tuple_ok [OF ok]] by simp
qed

lemma finite_merge_tuples: "\<forall>d \<in> set dfas. input_ok d \<Longrightarrow> finite (merge_tuples dfas)"
proof (rule finite_subset)
  assume ok: "\<forall>d \<in> set dfas. input_ok d"
  show "merge_tuples dfas \<subseteq> {xs. set xs \<subseteq> {..<65536} \<and> length xs = length dfas}"
  proof
    fix x assume "x \<in> merge_tuples dfas"
    then have t: "tuple_ok dfas x" by (rule merge_tuples_ok [OF ok])
    have "x ! i < 65536" if "i < length x" for i
    proof -
      have i: "i < length dfas" using that t by (simp add: tuple_ok_def)
      then have "length (states (dfas ! i)) \<le> 65536" using ok nth_mem [OF i] unfolding input_ok_def wf_rdfa_def by blast
      moreover have "x ! i < length (states (dfas ! i))" using t i by (simp add: tuple_ok_def)
      ultimately show ?thesis by linarith
    qed
    then show "x \<in> {xs. set xs \<subseteq> {..<65536} \<and> length xs = length dfas}"
      using t by (auto simp: tuple_ok_def in_set_conv_nth)
  qed
qed (simp add: finite_lists_length_eq)

lemma alphabet_char:
  assumes "alphabet_for e n al un" "a < n"
  shows "un ! a < 257 \<and> al ! (un ! a) = a"
proof (cases "a < n - 1")
  case True
  then have "un ! a < 256 \<and> al ! (un ! a) = a" using assms(1) by (simp add: alphabet_for_def)
  then show ?thesis by simp
next
  case False
  then have "a = n - 1" using assms(2) by simp
  then show ?thesis using assms(1) by (simp add: alphabet_for_def)
qed

lemma am_reach_tuples:
  assumes ok: "\<forall>d \<in> set dfas. input_ok d" and al: "merge_alphabet dfas n al un"
    and ini: "set ini \<subseteq> {map start_anchored dfas, map start_floating dfas}"
    and reach: "au_reach (am_auto dfas cp ini (n, al, un)) x"
  shows "x \<in> merge_tuples dfas"
  using reach
proof (induction rule: au_reach.induct)
  case reach_dead
  then show ?case by (simp add: merge_tuplesI)
next
  case (reach_initial x)
  then obtain st where "st \<in> {start_anchored, start_floating}" "x = map st dfas" using ini by auto
  then show ?case using merge_tuplesI(2) [of st "[]" dfas] by (simp add: dfas_scan_Nil)
next
  case (reach_step x a)
  let ?n = "am_auto dfas cp ini (n, al, un)"
  have c: "un ! a < 257" "al ! (un ! a) = a" using alphabet_char [OF al] reach_step.hyps(2) by auto
  have "length x = length dfas" using merge_tuples_ok [OF ok reach_step.IH] by (simp add: tuple_ok_def)
  then have "au_transition ?n x ! a = dfas_scan dfas x [un ! a]" using am_transition_scan [OF al _ c(1)] c(2) by simp
  then show ?case
    using merge_tuples_scan [OF ok reach_step.IH c(1)] reach_step.IH
    by (auto simp: au_step_def merge_tuplesI)
qed

lemma am_reach_all:
  assumes ok: "\<forall>d \<in> set dfas. input_ok d" and al: "merge_alphabet dfas n al un"
    and np: "\<And>x. \<not> au_pruned (am_auto dfas cp ini (n, al, un)) x"
    and start: "\<And>st. st \<in> {start_anchored, start_floating} \<Longrightarrow> au_reach (am_auto dfas cp ini (n, al, un)) (map st dfas)"
  shows "x \<in> merge_tuples dfas \<Longrightarrow> au_reach (am_auto dfas cp ini (n, al, un)) x"
proof -
  let ?n = "am_auto dfas cp ini (n, al, un)"
  have scan: "au_reach ?n (dfas_scan dfas (map st dfas) cs)"
    if st: "st \<in> {start_anchored, start_floating}" and cs: "\<forall>c \<in> set cs. c < 257" for st cs
    using cs
  proof (induction cs rule: rev_induct)
    case (snoc c cs)
    have a: "al ! c < n"
    proof (cases "c < 256")
      case True
      then have "al ! c < n - 1" using al by (simp add: alphabet_for_def)
      then show ?thesis by simp
    next
      case False
      then have "c = 256" using snoc.prems by simp
      then show ?thesis using al by (simp add: alphabet_for_def)
    qed
    have "dfas_scan dfas (map st dfas) (cs @ [c]) = au_transition ?n (dfas_scan dfas (map st dfas) cs) ! (al ! c)"
      using am_transition_scan [OF al, of "dfas_scan dfas (map st dfas) cs" c] snoc.prems by (simp add: dfas_scan_append)
    also have "\<dots> = au_step ?n (dfas_scan dfas (map st dfas) cs) (al ! c)" using np by (simp add: au_step_def)
    finally show ?case using reach_step [of ?n _ "al ! c"] snoc a by simp
  qed (use start [OF st] in \<open>simp add: dfas_scan_Nil\<close>)
  show "x \<in> merge_tuples dfas \<Longrightarrow> au_reach ?n x"
    using scan reach_dead [of ?n] by (elim merge_tuples_cases) auto
qed

section \<open>The merged DFA\<close>

text \<open>
  With pruning on, the merged DFA follows the inputs up to and including the first report; the first
  character after it, a top not counted, kills the DFA.
\<close>

definition no_report_before :: "bool \<Rightarrow> raw_dfa list \<Rightarrow> nat list \<Rightarrow> nat list \<Rightarrow> bool" where
  "no_report_before prunable dfas x cs \<longleftrightarrow>
     (prunable \<longrightarrow> (\<forall>k < length cs. fst (dfas_reports dfas (dfas_scan dfas x (take k cs))) = []))"

definition report_before :: "bool \<Rightarrow> raw_dfa list \<Rightarrow> nat list \<Rightarrow> nat list \<Rightarrow> bool" where
  "report_before prunable dfas x cs \<longleftrightarrow>
     prunable \<and> (\<exists>k < length cs. fst (dfas_reports dfas (dfas_scan dfas x (take k cs))) \<noteq> [] \<and> (\<exists>c \<in> set (drop k cs). c \<noteq> TOP))"

definition merged_behaves :: "bool \<Rightarrow> raw_dfa list \<Rightarrow> raw_dfa \<Rightarrow> bool" where
  "merged_behaves prunable dfas d \<longleftrightarrow> (\<forall>st \<in> {start_anchored, start_floating}. \<forall>cs. (\<forall>c \<in> set cs. c < ALPHABET_SIZE) \<longrightarrow>
     (no_report_before prunable dfas (map st dfas) cs \<longrightarrow>
        dfa_obs d (dfa_scan d (st d) cs) = dfas_reports dfas (dfas_scan dfas (map st dfas) cs)) \<and>
     (report_before prunable dfas (map st dfas) cs \<longrightarrow> dfa_obs d (dfa_scan d (st d) cs) = ([], [])))"

lemma minimize_keeps:
  assumes wf: "wf_rdfa d"
  obtains d' where "minimize_hopcroft g d = Some d'" "wf_rdfa d'" "alpha_remap d' = alpha_remap d"
    "\<And>st cs. st \<in> {start_anchored, start_floating} \<Longrightarrow> \<forall>c \<in> set cs. c < 257 \<Longrightarrow>
      dfa_obs d' (dfa_scan d' (st d') cs) = dfa_obs d (dfa_scan d (st d) cs)"
    "dead_ok d \<Longrightarrow> dead_ok d'"
proof (cases rule: minimize_hopcroft_cases [OF wf, of g])
  case 1
  then show thesis using that [of d] wf by simp
next
  case (2 info)
  have s: "start_anchored d < length (states d)" "start_floating d < length (states d)"
    using wf by (auto simp: wf_rdfa_def)
  have z: "0 < length (states d)" using wf by (simp add: wf_rdfa_def)
  have remap: "alpha_remap (new_dfa d info) = alpha_remap d" using new_dfa_starts [OF 2(2)] by simp
  have "dfa_obs (new_dfa d info) (dfa_scan (new_dfa d info) (st (new_dfa d info)) cs) = dfa_obs d (dfa_scan d (st d) cs)"
    if "st \<in> {start_anchored, start_floating}" "\<forall>c \<in> set cs. c < 257" for st cs
    using that new_dfa_starts [OF 2(2)] new_dfa_run [OF 2(2)] s wf_remap [OF wf]
    by (auto simp: dfa_scan_def remap)
  moreover have "dead_ok (new_dfa d info)" if "dead_ok d"
    using new_dfa_sim [OF 2(2) z] new_id_dead [OF 2(2)] that by (simp add: dead_ok_def DEAD_STATE_def)
  ultimately show thesis using that [OF 2(3) new_dfa_wf [OF 2(2)] remap] by blast
qed

lemma dead_tuple_reports:
  assumes "\<forall>d \<in> set dfas. input_ok d"
  shows "dfas_reports dfas (replicate (length dfas) 0) = ([], [])"
proof -
  have "reports (states d ! s) = [] \<and> reports_eod (states d ! s) = []" if "(d, s) \<in> set (zip dfas (replicate (length dfas) 0))" for d s
  proof -
    have "d \<in> set dfas" "s = 0" using that by (auto simp: set_zip)
    then show ?thesis using assms by (auto simp: input_ok_def dead_ok_def dfa_obs_def DEAD_STATE_def)
  qed
  then have "(\<Union>(d, s) \<in> set (zip dfas (replicate (length dfas) 0)). set (reports (states d ! s))) = {}"
    "(\<Union>(d, s) \<in> set (zip dfas (replicate (length dfas) 0)). set (reports_eod (states d ! s))) = {}" by auto
  then show ?thesis unfolding dfas_reports_def by simp
qed

lemma am_step_dead:
  assumes ok: "\<forall>d \<in> set dfas. input_ok d" and al: "merge_alphabet dfas n al un"
    and auto: "N = am_auto dfas cp ini (n, al, un)"
    and np: "\<And>x. tuple_ok dfas x \<Longrightarrow> au_pruned N x \<longleftrightarrow> prunable \<and> fst (dfas_reports dfas x) \<noteq> []" and a: "a < n"
  shows "au_step N (replicate (length dfas) 0) a = replicate (length dfas) 0"
proof -
  have t: "tuple_ok dfas (replicate (length dfas) 0)" by (rule merge_tuples_ok [OF ok merge_tuplesI(1)])
  have "\<not> au_pruned N (replicate (length dfas) 0)" using np [OF t] dead_tuple_reports [OF ok] by simp
  moreover have c: "un ! a < 257" "al ! (un ! a) = a" using alphabet_char [OF al a] by auto
  ultimately show ?thesis
    using am_transition_scan [OF al _ c(1), of "replicate (length dfas) 0" cp ini] dfas_scan_dead [OF ok, of "[un ! a]"]
    by (simp add: au_step_def auto)
qed

lemma am_run_dead:
  assumes "\<And>a. a < n \<Longrightarrow> au_step N dead a = dead" "\<forall>a \<in> set w. a < n"
  shows "foldl (au_step N) dead w = dead"
  using assms(2) by (induction w) (simp_all add: assms(1))

text \<open>A tuple that is pruned is left only for the dead one, by the first character that is not a top.\<close>

lemma am_run_pruned:
  assumes "au_pruned N y" "\<And>a. a < n \<Longrightarrow> au_step N (au_dead N) a = au_dead N" "au_alpha N = al"
    and "alphabet_for e n al un" "\<forall>c \<in> set cs. c < 257" "\<exists>c \<in> set cs. c \<noteq> TOP"
  shows "foldl (au_step N) y (map (\<lambda>c. al ! c) cs) = au_dead N"
  using assms(5,6)
proof (induction cs)
  case (Cons c cs)
  have lt: "al ! c < n" if "c < 257" for c
  proof (cases "c < 256")
    case False
    then have "c = 256" using that by simp
    then show ?thesis using assms(4) by (simp add: alphabet_for_def)
  qed (use assms(4) in \<open>force simp: alphabet_for_def\<close>)
  show ?case
  proof (cases "c = TOP")
    case True
    then show ?thesis using Cons assms(1,3) by (simp add: au_step_def)
  next
    case False
    then have "c < 256" using Cons.prems(1) by (simp add: TOP_def)
    then have "al ! c < n - 1" "al ! TOP = n - 1" using assms(4) by (simp_all add: alphabet_for_def TOP_def)
    then have "al ! c \<noteq> al ! TOP" by linarith
    then have "au_step N y (al ! c) = au_dead N" using assms(1,3) by (simp add: au_step_def)
    then show ?thesis using am_run_dead [OF assms(2), where w = "map (\<lambda>c. al ! c) cs"] lt Cons.prems(1) by simp
  qed
qed simp

lemma merged_run:
  assumes ok: "\<forall>d \<in> set dfas. input_ok d" and al: "merge_alphabet dfas n al un"
    and auto: "N = am_auto dfas cp ini (n, al, un)"
    and np: "\<And>x. tuple_ok dfas x \<Longrightarrow> au_pruned N x \<longleftrightarrow> prunable \<and> fst (dfas_reports dfas x) \<noteq> []"
    and x: "tuple_ok dfas x" and cs: "\<forall>c \<in> set cs. c < 257"
  shows "no_report_before prunable dfas x cs \<Longrightarrow> foldl (au_step N) x (map (\<lambda>c. al ! c) cs) = dfas_scan dfas x cs"
    and "report_before prunable dfas x cs \<Longrightarrow> foldl (au_step N) x (map (\<lambda>c. al ! c) cs) = replicate (length dfas) 0"
proof -
  have lx: "length x = length dfas" using x by (simp add: tuple_ok_def)
  have scan: "tuple_ok dfas (dfas_scan dfas x (take j cs))" for j
    by (rule dfas_scan_ok [OF ok x]) (use cs in \<open>auto dest: in_set_takeD\<close>)
  have follow: "foldl (au_step N) x (map (\<lambda>c. al ! c) (take k cs)) = dfas_scan dfas x (take k cs)"
    if "\<forall>j < min k (length cs). \<not> (prunable \<and> fst (dfas_reports dfas (dfas_scan dfas x (take j cs))) \<noteq> [])" for k
    unfolding auto by (rule am_run [OF al lx])
      (use cs that np [OF scan] in \<open>auto simp: auto min_def dest: in_set_takeD split: if_splits\<close>)
  show "foldl (au_step N) x (map (\<lambda>c. al ! c) cs) = dfas_scan dfas x cs" if "no_report_before prunable dfas x cs"
    using follow [of "length cs"] that by (auto simp: no_report_before_def)
  show "foldl (au_step N) x (map (\<lambda>c. al ! c) cs) = replicate (length dfas) 0" if r: "report_before prunable dfas x cs"
  proof -
    let ?P = "\<lambda>k. fst (dfas_reports dfas (dfas_scan dfas x (take k cs))) \<noteq> []"
    obtain k' where k': "k' < length cs" "?P k'" "\<exists>c \<in> set (drop k' cs). c \<noteq> TOP" and pr: prunable
      using r by (auto simp: report_before_def)
    define k where "k = (LEAST k. ?P k)"
    have k: "?P k" "k \<le> k'" "\<And>j. j < k \<Longrightarrow> \<not> ?P j"
      unfolding k_def using LeastI [of ?P, OF k'(2)] Least_le [of ?P, OF k'(2)] not_less_Least [of _ ?P] by blast+
    have "\<exists>c \<in> set (drop k cs). c \<noteq> TOP" using k'(3) set_drop_subset_set_drop [OF k(2), of cs] by blast
    moreover have "au_pruned N (dfas_scan dfas x (take k cs))" using np [OF scan] k(1) pr by simp
    ultimately have "foldl (au_step N) (dfas_scan dfas x (take k cs)) (map (\<lambda>c. al ! c) (drop k cs)) = au_dead N"
      using am_step_dead [OF ok al auto np] cs
      by (intro am_run_pruned [OF _ _ _ al]) (auto simp: auto am_auto_def dest: in_set_dropD)
    moreover have "foldl (au_step N) x (map (\<lambda>c. al ! c) (take k cs)) = dfas_scan dfas x (take k cs)"
      using follow [of k] k(3) by simp
    ultimately have "foldl (au_step N) x (map (\<lambda>c. al ! c) (take k cs @ drop k cs)) = au_dead N"
      unfolding map_append foldl_append by simp
    then show ?thesis by (simp add: auto)
  qed
qed

lemma merged_dfa_spec:
  assumes ok: "\<forall>d \<in> set dfas. input_ok d" and al: "merge_alphabet dfas n al un"
    and auto: "N = am_auto dfas cp ini (n, al, un)" and res: "det_result N ds sets"
    and wf: "wf_rdfa (merged_dfa k N sa sf ds)"
    and np: "\<And>x. tuple_ok dfas x \<Longrightarrow> au_pruned N x \<longleftrightarrow> prunable \<and> fst (dfas_reports dfas x) \<noteq> []"
    and start: "sa < length sets" "sf < length sets" "sets ! sa = map start_anchored dfas" "sets ! sf = map start_floating dfas"
  shows "input_ok (merged_dfa k N sa sf ds)" "merged_behaves prunable dfas (merged_dfa k N sa sf ds)"
proof -
  let ?d = "merged_dfa k N sa sf ds"
  have sel: "states ?d = ds" "start_anchored ?d = sa" "start_floating ?d = sf" "alpha_size ?d = n" "alpha_remap ?d = al"
    by (simp_all add: merged_dfa_def auto)
  note D = det_resultD [OF res]
  have z: "0 < length sets" using D(5) by linarith
  have dead: "sets ! 0 = replicate (length dfas) 0" using D(4) by (simp add: auto)
  have obs_dead: "au_obs N (replicate (length dfas) 0) = ([], [])"
    using dead_tuple_reports [OF ok] by (simp add: auto am_auto_obs)
  then have obs0: "dfa_obs ?d 0 = ([], [])" using D(7) [OF z] by (simp add: dfa_obs_def sel dead)
  have step0: "dfa_step ?d 0 a = 0" if a: "a < n" for a
  proof -
    have "sets ! (nexts (ds ! 0) ! a) = sets ! 0"
      using D(10) [OF z, of a] a am_step_dead [OF ok al auto np a] by (simp add: auto dead)
    then have "nexts (ds ! 0) ! a = 0"
      using D(2) D(9) [OF z, of a] a z by (simp add: nth_eq_iff_index_eq auto)
    then show ?thesis by (simp add: dfa_step_def sel)
  qed
  have "remap_ok al"
    unfolding remap_ok_def
  proof
    fix c :: u8
    have "al ! unat c < n - 1" "n \<le> 257" using al by (simp_all add: alphabet_for_def)
    then show "al ! unat c < 256" by simp
  qed
  then show "input_ok ?d" using wf obs0 step0 by (simp add: input_ok_def dead_ok_def DEAD_STATE_def sel)
  have run: "(no_report_before prunable dfas x cs \<longrightarrow> dfa_obs ?d (dfa_scan ?d s cs) = dfas_reports dfas (dfas_scan dfas x cs)) \<and>
      (report_before prunable dfas x cs \<longrightarrow> dfa_obs ?d (dfa_scan ?d s cs) = ([], []))"
    if s: "s < length sets" "sets ! s = x" and x: "tuple_ok dfas x" and cs: "\<forall>c \<in> set cs. c < 257" for s x cs
  proof -
    have lx: "length x = length dfas" using x by (simp add: tuple_ok_def)
    have "\<forall>a \<in> set (map (\<lambda>c. al ! c) cs). a < alpha_size ?d" using wf_remap [OF wf] cs by (simp add: sel)
    moreover have "au_alphasize N = n" by (simp add: auto)
    ultimately have "dfa_obs ?d (dfa_scan ?d s cs) = au_obs N (foldl (au_step N) x (map (\<lambda>c. al ! c) cs))"
      using det_run_obs [of N ?d sets s "map (\<lambda>c. al ! c) cs"] res s by (simp add: sel dfa_scan_def)
    moreover have "au_obs N (dfas_scan dfas x cs) = dfas_reports dfas (dfas_scan dfas x cs)"
      using lx by (simp add: auto am_auto_obs)
    ultimately show ?thesis using merged_run [OF ok al auto np x cs] obs_dead by simp
  qed
  show "merged_behaves prunable dfas ?d"
    unfolding merged_behaves_def
    using run [OF start(1,3)] run [OF start(2,4)] start_tuple_ok [OF ok] by (auto simp: sel ALPHABET_SIZE_def)
qed

lemma mergeAllDfas_cases:
  assumes ok: "\<forall>d \<in> set dfas. input_ok d" and live: "\<exists>d \<in> set dfas. start_anchored d \<noteq> DEAD_STATE"
    and pr: "isPrunable rm grey dfas = Inr prunable" and max: "2 < max_states" "max_states \<le> MAX_DFA_STATES"
  shows "(\<exists>d. mergeAllDfas dfas max_states rm grey = Some (Inr (Some d)) \<and> input_ok d \<and> merged_behaves prunable dfas d \<and>
      (\<not> prunable \<longrightarrow> card (merge_tuples dfas) \<le> max_states)) \<or>
    (mergeAllDfas dfas max_states rm grey = Some (Inr None) \<and> max_states < card (merge_tuples dfas))"
proof -
  obtain n al un where alph: "calculateAlphabet_remaps (map alpha_remap dfas) = Some (n, al, un)" and al: "merge_alphabet dfas n al un"
    using calculateAlphabet_remaps_spec [of "map alpha_remap dfas"] ok by (auto simp: input_ok_def)
  obtain as fs sa sf where pop: "populateAsFs dfas = (as, fs, sa, sf)" by (metis prod_cases4)
  note p = populateAsFs_spec [OF pop]
  define ini where "ini = am_initial as fs sa sf"
  define N where "N = am_auto dfas (am_canPrune rm grey prunable) ini (n, al, un)"
  have auto: "Automaton_Merge dfas rm grey = Some (Inr (N, sa, sf))"
    using alph pop pr by (simp add: Automaton_Merge_def N_def ini_def)
  have live0: "\<exists>d \<in> set dfas. start_anchored d \<noteq> 0" using live by (simp add: DEAD_STATE_def)
  have st: "distinct (replicate (length dfas) 0 # ini)" "\<forall>x \<in> set ini. length x = length dfas"
    "sa \<le> length ini" "sf \<le> length ini" "length ini \<le> 2"
    using start_tuples(1-5) [OF pop live0 _ ini_def, of "replicate (length dfas) 0 # ini"] by simp_all
  have par: "merge_param_ok (dfas, am_canPrune rm grey prunable, ini, n, al, un)"
    using st(1,2) al by (simp add: merge_param_ok_def)
  have np: "au_pruned N x \<longleftrightarrow> prunable \<and> fst (dfas_reports dfas x) \<noteq> []" if "tuple_ok dfas x" for x
    unfolding N_def by (rule am_pruned_iff [OF pr that])
  have lim: "det_limit N max_states" using st(5) max by (simp add: det_limit_def N_def MAX_DFA_STATES_def)
  have sub: "{x. au_reach N x} \<subseteq> merge_tuples dfas"
    using am_reach_tuples [OF ok al, of ini] p(1,2) unfolding N_def by (auto simp: ini_def am_initial_def)
  note fin = finite_merge_tuples [OF ok]
  show ?thesis
  proof (cases "too_many N max_states")
    case True
    have "determinise N max_states = Some (False, [], None)"
      using determinise_cases [OF merge_det.autom_ok [OF par, simplified, folded N_def] lim] True by auto
    then have "mergeAllDfas dfas max_states rm grey = Some (Inr None)" by (simp add: mergeAllDfas_def auto)
    moreover have "max_states < card (merge_tuples dfas)"
      using True too_many_card [of N max_states] finite_subset [OF sub fin] card_mono [OF fin sub] by linarith
    ultimately show ?thesis by blast
  next
    case False
    let ?m = "merged_dfa (kind (hd dfas)) N sa sf"
    from merge_det.determinise_wf [OF par, simplified, folded N_def, OF lim False, of sa sf "kind (hd dfas)"] st(3,4)
    obtain ds sets where det: "determinise N max_states = Some (True, ds, Some sets)" "det_result N ds sets" "wf_rdfa (?m ds)"
      by (auto simp: N_def merged_dfa_def)
    have pre: "take (Suc (length ini)) sets = replicate (length dfas) 0 # ini" "Suc (length ini) \<le> length sets"
      using det(2) det_resultD(5) [OF det(2)] by (simp_all add: det_result_def N_def)
    note start = start_tuples(6,7) [OF pop live0 pre(1) ini_def]
    have sl: "sa < length sets" "sf < length sets" using st(3,4) pre(2) by linarith+
    note m = merged_dfa_spec [OF ok al N_def det(2,3) np sl start [unfolded p(1,2)]]
    have small: "card (merge_tuples dfas) \<le> max_states" if "\<not> prunable"
    proof -
      have never: "\<not> au_pruned N x" for x using that by (simp add: N_def au_pruned_def am_canPrune_def)
      have "au_reach N (map s dfas)" if "s \<in> {start_anchored, start_floating}" for s
      proof -
        have "sets ! sa \<in> set sets" "sets ! sf \<in> set sets" using sl by simp_all
        then show ?thesis using that det_resultD(3) [OF det(2)] start p(1,2) by auto
      qed
      from am_reach_all [OF ok al, of "am_canPrune rm grey prunable" ini, folded N_def, OF never this]
      have "{x. au_reach N x} = merge_tuples dfas" using sub by blast
      then show ?thesis using False too_many_card [of N max_states] by simp
    qed
    show ?thesis
    proof (cases "shouldMinimize dfas")
      case mn: True
      obtain d' where d': "minimize_hopcroft grey (?m ds) = Some d'" "wf_rdfa d'" "alpha_remap d' = alpha_remap (?m ds)"
        "\<And>st cs. st \<in> {start_anchored, start_floating} \<Longrightarrow> \<forall>c \<in> set cs. c < 257 \<Longrightarrow>
          dfa_obs d' (dfa_scan d' (st d') cs) = dfa_obs (?m ds) (dfa_scan (?m ds) (st (?m ds)) cs)"
        "dead_ok (?m ds) \<Longrightarrow> dead_ok d'"
        by (rule minimize_keeps [OF det(3), of grey]) blast
      have "mergeAllDfas dfas max_states rm grey = Some (Inr (Some d'))" using auto det(1) mn d'(1) by (simp add: mergeAllDfas_def)
      moreover have "input_ok d'" using m(1) d'(2,3,5) by (simp add: input_ok_def)
      moreover have "merged_behaves prunable dfas d'"
        using m(2) d'(4) unfolding merged_behaves_def ALPHABET_SIZE_def by simp
      ultimately show ?thesis using small by blast
    next
      case False
      then have "mergeAllDfas dfas max_states rm grey = Some (Inr (Some (?m ds)))" using auto det(1) by (simp add: mergeAllDfas_def)
      then show ?thesis using m small by blast
    qed
  qed
qed

lemma mergeTwoDfas_all: "mergeTwoDfas d1 d2 max_states rm grey = mergeAllDfas [d1, d2] max_states rm grey"
  unfolding mergeTwoDfas_def mergeAllDfas_def list.sel
  by (intro Option.bind_cong refl) (auto split: sum.splits intro!: Option.bind_cong)

section \<open>Merging a queue of DFAs\<close>

definition all_raise :: "(raw_dfa \<Rightarrow> nat) \<Rightarrow> raw_dfa list \<Rightarrow> nat list \<Rightarrow> nat set \<times> nat set" where
  "all_raise st dfas cs =
     (\<Union>d \<in> set dfas. set (reports (states d ! dfa_scan d (st d) cs)),
      \<Union>d \<in> set dfas. set (reports_eod (states d ! dfa_scan d (st d) cs)))"

definition live_dfa :: "raw_dfa \<Rightarrow> bool" where
  "live_dfa d \<longleftrightarrow> (\<exists>cs. (\<forall>c \<in> set cs. c < ALPHABET_SIZE) \<and> dfa_obs d (dfa_scan d (start_anchored d) cs) \<noteq> ([], []))"

lemma live_start: "input_ok d \<Longrightarrow> live_dfa d \<Longrightarrow> start_anchored d \<noteq> DEAD_STATE"
  using dfa_scan_dead [of d] unfolding live_dfa_def input_ok_def dead_ok_def DEAD_STATE_def ALPHABET_SIZE_def by metis

lemma zip_scan_starts:
  "set (zip dfas (dfas_scan dfas (map st dfas) cs)) = (\<lambda>d. (d, dfa_scan d (st d) cs)) ` set dfas"
  by (fastforce simp: set_zip dfas_scan_def in_set_conv_nth image_iff)

lemma all_raise_reports:
  "all_raise st dfas cs = (set (fst (dfas_reports dfas (dfas_scan dfas (map st dfas) cs))),
     set (snd (dfas_reports dfas (dfas_scan dfas (map st dfas) cs))))"
  by (simp add: all_raise_def set_dfas_reports zip_scan_starts)

lemma merged_raises:
  assumes "merged_behaves False dfas d" "st \<in> {start_anchored, start_floating}" "\<forall>c \<in> set cs. c < ALPHABET_SIZE"
  shows "all_raise st [d] cs = all_raise st dfas cs"
proof -
  have "dfa_obs d (dfa_scan d (st d) cs) = dfas_reports dfas (dfas_scan dfas (map st dfas) cs)"
    using assms unfolding merged_behaves_def no_report_before_def by blast
  then show ?thesis unfolding all_raise_reports [of st dfas] by (auto simp: all_raise_def dfa_obs_def prod_eq_iff)
qed

lemma all_raise_append: "all_raise st (xs @ ys) cs =
    (fst (all_raise st xs cs) \<union> fst (all_raise st ys cs), snd (all_raise st xs cs) \<union> snd (all_raise st ys cs))"
  by (simp add: all_raise_def)

lemma live_raise: "live_dfa d \<longleftrightarrow> (\<exists>cs. (\<forall>c \<in> set cs. c < ALPHABET_SIZE) \<and> all_raise start_anchored [d] cs \<noteq> ({}, {}))"
  by (simp add: live_dfa_def all_raise_def dfa_obs_def)

lemma merge_queue_spec:
  assumes "rm = None \<or> \<not> highlanderPruneDFA grey" "2 < max_states" "max_states \<le> MAX_DFA_STATES"
    and "\<forall>d \<in> set (q @ out). input_ok d" "\<forall>d \<in> set (q @ out). live_dfa d"
  shows "\<exists>res. merge_queue max_states rm grey q out = Some (Inr res) \<and> (\<forall>d \<in> set res. input_ok d \<and> live_dfa d) \<and>
    length res \<le> length (q @ out) \<and> (q @ out \<noteq> [] \<longrightarrow> res \<noteq> []) \<and>
    (\<forall>st \<in> {start_anchored, start_floating}. \<forall>cs. (\<forall>c \<in> set cs. c < ALPHABET_SIZE) \<longrightarrow>
      all_raise st res cs = all_raise st (q @ out) cs)"
  using assms
proof (induction max_states rm grey q out rule: merge_queue.induct)
  case (1 max_states rm grey d1 d2 q out)
  let ?ok = "\<lambda>d. input_ok d \<and> live_dfa d"
  have two: "\<forall>d \<in> set [d1, d2]. input_ok d" "\<exists>d \<in> set [d1, d2]. start_anchored d \<noteq> DEAD_STATE"
    using "1.prems"(4,5) live_start by auto
  have pr: "isPrunable rm grey [d1, d2] = Inr False" using "1.prems"(1) by (auto simp: isPrunable_def split: option.splits)
  have perm: "all_raise st (x # y # q @ out) cs = all_raise st ((q @ [x]) @ out @ [y]) cs"
    "all_raise st (x # y # q @ out) cs = all_raise st ((q @ [y]) @ out @ [x]) cs" for st x y cs
    by (auto simp: all_raise_def)
  from mergeAllDfas_cases [OF two pr "1.prems"(2,3)] consider
      (merged) d where "mergeTwoDfas d1 d2 max_states rm grey = Some (Inr (Some d))" "input_ok d" "merged_behaves False [d1, d2] d"
    | (over) "mergeTwoDfas d1 d2 max_states rm grey = Some (Inr None)"
    unfolding mergeTwoDfas_all by blast
  then show ?case
  proof cases
    case merged
    have raise: "all_raise st (d1 # d2 # q @ out) cs = all_raise st ((q @ [d]) @ out) cs"
      if "st \<in> {start_anchored, start_floating}" "\<forall>c \<in> set cs. c < ALPHABET_SIZE" for st cs
      using merged_raises [OF merged(3) that] by (auto simp: all_raise_def)
    obtain cs where "\<forall>c \<in> set cs. c < ALPHABET_SIZE" "all_raise start_anchored [d1] cs \<noteq> ({}, {})"
      using "1.prems"(5) live_raise [of d1] by auto
    then have "live_dfa d"
      unfolding live_raise using merged_raises [OF merged(3), of start_anchored cs]
      by (intro exI [of _ cs]) (auto simp: all_raise_def)
    then have "\<exists>res. merge_queue max_states rm grey (q @ [d]) out = Some (Inr res) \<and> (\<forall>d \<in> set res. ?ok d) \<and>
        length res \<le> length ((q @ [d]) @ out) \<and> ((q @ [d]) @ out \<noteq> [] \<longrightarrow> res \<noteq> []) \<and>
        (\<forall>st \<in> {start_anchored, start_floating}. \<forall>cs. (\<forall>c \<in> set cs. c < ALPHABET_SIZE) \<longrightarrow>
          all_raise st res cs = all_raise st ((q @ [d]) @ out) cs)"
      using merged "1.prems" by (intro "1.IH"(3)) auto
    then show ?thesis using merged(1) raise by auto
  next
    case over
    show ?thesis
    proof (cases "length (states d1) < length (states d2)")
      case True
      have "\<exists>res. merge_queue max_states rm grey (q @ [d1]) (out @ [d2]) = Some (Inr res) \<and> (\<forall>d \<in> set res. ?ok d) \<and>
          length res \<le> length ((q @ [d1]) @ out @ [d2]) \<and> ((q @ [d1]) @ out @ [d2] \<noteq> [] \<longrightarrow> res \<noteq> []) \<and>
          (\<forall>st \<in> {start_anchored, start_floating}. \<forall>cs. (\<forall>c \<in> set cs. c < ALPHABET_SIZE) \<longrightarrow>
            all_raise st res cs = all_raise st ((q @ [d1]) @ out @ [d2]) cs)"
        using over True "1.prems" by (intro "1.IH"(1)) auto
      then show ?thesis using over True by (auto simp: perm(1))
    next
      case False
      have "\<exists>res. merge_queue max_states rm grey (q @ [d2]) (out @ [d1]) = Some (Inr res) \<and> (\<forall>d \<in> set res. ?ok d) \<and>
          length res \<le> length ((q @ [d2]) @ out @ [d1]) \<and> ((q @ [d2]) @ out @ [d1] \<noteq> [] \<longrightarrow> res \<noteq> []) \<and>
          (\<forall>st \<in> {start_anchored, start_floating}. \<forall>cs. (\<forall>c \<in> set cs. c < ALPHABET_SIZE) \<longrightarrow>
            all_raise st res cs = all_raise st ((q @ [d2]) @ out @ [d1]) cs)"
        using over False "1.prems" by (intro "1.IH"(2)) auto
      then show ?thesis using over False by (auto simp: perm(2))
    qed
  qed
qed (auto simp: all_raise_def)

section \<open>Properties\<close>

text \<open>
  C11. Merging well-formed DFAs, one of which does not start dead, under a limit of more than two and at
  most 16383 states always returns. Either the result is a well-formed DFA, or there are more tuples of
  input states that a common sequence can reach than the limit allows and no DFA is returned; without
  pruning the merge fails only then and always then. From each of its two start states the merged DFA
  behaves as follows after a sequence of characters and tops. When the inputs are not prunable, it raises
  exactly the union of the reports and of the end-of-data reports of the inputs, after every sequence. When
  they are prunable (a report manager is given, pruning is switched on and every report is exhaustible
  with the same key), it does so after every sequence with no earlier report, that is, up to and including
  the first report; once a character has followed a report, it raises nothing any more.
\<close>

theorem mergeAllDfas_correct:
  assumes "\<forall>d \<in> set dfas. input_ok d" "\<exists>d \<in> set dfas. start_anchored d \<noteq> DEAD_STATE"
    and "isPrunable rm grey dfas = Inr prunable" "2 < max_states" "max_states \<le> MAX_DFA_STATES"
  shows "\<exists>r. mergeAllDfas dfas max_states rm grey = Some (Inr r) \<and>
    (r = None \<longrightarrow> max_states < card (merge_tuples dfas)) \<and>
    (\<not> prunable \<and> max_states < card (merge_tuples dfas) \<longrightarrow> r = None) \<and>
    (\<forall>d. r = Some d \<longrightarrow> input_ok d \<and>
      (\<forall>st \<in> {start_anchored, start_floating}. \<forall>cs. (\<forall>c \<in> set cs. c < ALPHABET_SIZE) \<longrightarrow>
        (no_report_before prunable dfas (map st dfas) cs \<longrightarrow>
          dfa_obs d (dfa_scan d (st d) cs) = dfas_reports dfas (dfas_scan dfas (map st dfas) cs)) \<and>
        (report_before prunable dfas (map st dfas) cs \<longrightarrow> dfa_obs d (dfa_scan d (st d) cs) = ([], []))))"
  using mergeAllDfas_cases [OF assms] unfolding merged_behaves_def
  by (elim disjE exE conjE) (auto simp: not_less)

definition example_dfa2 :: raw_dfa where
  "example_dfa2 = example_dfa\<lparr>start_anchored := 2\<rparr>"

lemma example_inputs: "\<forall>d \<in> set [example_dfa, example_dfa2]. input_ok d"
proof -
  have wf: "wf_rdfa example_dfa" "wf_rdfa example_dfa2" by code_simp+
  have dead: "dead_ok example_dfa" "dead_ok example_dfa2"
    by (auto simp: dead_ok_def dfa_obs_def dfa_step_def example_dfa2_def example_dfa_def example_state_def DEAD_STATE_def
        less_Suc_eq numeral_2_eq_2)
  have "remap_ok (replicate 257 0)" unfolding remap_ok_def
  proof
    fix c :: u8 show "replicate 257 (0 :: nat) ! unat c < 256" using unat_u8 [of c] by (simp del: unat_u8)
  qed
  then show ?thesis using wf dead by (simp add: input_ok_def example_dfa2_def example_dfa_def)
qed

text \<open>A DFA that keeps reporting, and a manager with its report, which is exhaustible.\<close>

definition example_loop :: raw_dfa where
  "example_loop =
     \<lparr>kind = NFA_OUTFIX, states = [example_state [0, 0] [], example_state [2, 2] [], example_state [2, 2] [0]],
      start_anchored = 1, start_floating = 0, alpha_size = 2, alpha_remap = replicate 257 0\<rparr>"

definition example_manager :: ReportManager where
  "example_manager = (new_ReportManager 9)\<lparr>reportIds := [makeECallback 7 0 0 False]\<rparr>"

lemma example_loop_ok: "input_ok example_loop"
proof -
  have wf: "wf_rdfa example_loop" by code_simp
  have dead: "dead_ok example_loop"
    by (auto simp: dead_ok_def dfa_obs_def dfa_step_def example_loop_def example_state_def DEAD_STATE_def less_Suc_eq numeral_2_eq_2)
  have "remap_ok (replicate 257 0)" unfolding remap_ok_def
  proof
    fix c :: u8 show "replicate 257 (0 :: nat) ! unat c < 256" using unat_u8 [of c] by (simp del: unat_u8)
  qed
  then show ?thesis using wf dead by (simp add: input_ok_def example_loop_def)
qed

text \<open>The number of tuples of two inputs is at most the product of the numbers of their states.\<close>

lemma merge_tuples_two:
  assumes "\<forall>d \<in> set [d1, d2]. input_ok d" "length (states d1) \<le> n" "length (states d2) \<le> n"
  shows "card (merge_tuples [d1, d2]) \<le> n ^ 2"
proof -
  have "merge_tuples [d1, d2] \<subseteq> {xs. set xs \<subseteq> {..<n} \<and> length xs = 2}"
  proof
    fix x assume "x \<in> merge_tuples [d1, d2]"
    then have x: "length x = 2" "\<forall>i < 2. x ! i < length (states ([d1, d2] ! i))"
      using merge_tuples_ok [OF assms(1)] by (simp_all add: tuple_ok_def)
    then obtain a b where ab: "x = [a, b]" by (auto simp: length_Suc_conv numeral_2_eq_2)
    then show "x \<in> {xs. set xs \<subseteq> {..<n} \<and> length xs = 2}"
      using x(2) [rule_format, of 0] x(2) [rule_format, of 1] assms(2,3) by simp
  qed
  then have "card (merge_tuples [d1, d2]) \<le> card {xs. set xs \<subseteq> {..<n} \<and> length xs = 2}"
    by (rule card_mono [OF finite_lists_length_eq [OF finite_lessThan]])
  then show ?thesis by (simp add: card_lists_length_eq)
qed

text \<open>
  Without pruning a report of one input is raised; with pruning the first report is raised and nothing after the
  next character, although the inputs go on reporting.
\<close>

theorem mergeAllDfas_correct_witness:
  "(\<exists>d. mergeAllDfas [example_dfa, example_dfa2] 100 None \<lparr>minimizeDFA = True, highlanderPruneDFA = True\<rparr> =
      Some (Inr (Some d)) \<and> fst (dfa_obs d (dfa_scan d (start_anchored d) [97, 98])) = [7]) \<and>
   (\<exists>d. mergeAllDfas [example_loop, example_loop] 100 (Some example_manager) \<lparr>minimizeDFA = True, highlanderPruneDFA = True\<rparr> =
      Some (Inr (Some d)) \<and> fst (dfa_obs d (dfa_scan d (start_anchored d) [97])) = [0] \<and>
      dfa_obs d (dfa_scan d (start_anchored d) [97, 98]) = ([], []))"
proof (rule conjI)
  let ?g = "\<lparr>minimizeDFA = True, highlanderPruneDFA = True\<rparr>"
  have lim: "(2 :: nat) < 100" "100 \<le> MAX_DFA_STATES" by (simp_all add: MAX_DFA_STATES_def)
  let ?ds = "[example_dfa, example_dfa2]"
  have live: "\<exists>d \<in> set ?ds. start_anchored d \<noteq> DEAD_STATE" by (simp add: example_dfa_def DEAD_STATE_def)
  have pr: "isPrunable None ?g ?ds = Inr False" by (simp add: isPrunable_def)
  have few: "\<not> 100 < card (merge_tuples ?ds)"
    using merge_tuples_two [OF example_inputs, of 6] by (simp add: example_dfa2_def example_dfa_def)
  from mergeAllDfas_correct [OF example_inputs live pr lim] few obtain d where
    d: "mergeAllDfas ?ds 100 None ?g = Some (Inr (Some d))" and
    obs: "\<And>cs. \<forall>c \<in> set cs. c < ALPHABET_SIZE \<Longrightarrow> no_report_before False ?ds (map start_anchored ?ds) cs \<Longrightarrow>
      dfa_obs d (dfa_scan d (start_anchored d) cs) = dfas_reports ?ds (dfas_scan ?ds (map start_anchored ?ds) cs)"
    by auto
  have run: "dfas_scan ?ds (map start_anchored ?ds) [97, 98] = [4, 0]" by code_simp
  have at: "reports (states example_dfa ! 4) = [7]" "reports (states example_dfa2 ! 0) = []" by code_simp+
  have "fst (dfas_reports ?ds [4, 0]) = [7]" by (simp add: dfas_reports_def at)
  then show "\<exists>d. mergeAllDfas ?ds 100 None ?g = Some (Inr (Some d)) \<and>
      fst (dfa_obs d (dfa_scan d (start_anchored d) [97, 98])) = [7]"
    using d obs [of "[97, 98]"] unfolding run by (simp add: ALPHABET_SIZE_def no_report_before_def)
next
  let ?g = "\<lparr>minimizeDFA = True, highlanderPruneDFA = True\<rparr>" and ?ds = "[example_loop, example_loop]"
  have lim: "(2 :: nat) < 100" "100 \<le> MAX_DFA_STATES" by (simp_all add: MAX_DFA_STATES_def)
  have ok: "\<forall>d \<in> set ?ds. input_ok d" using example_loop_ok by simp
  have live: "\<exists>d \<in> set ?ds. start_anchored d \<noteq> DEAD_STATE" by (simp add: example_loop_def DEAD_STATE_def)
  have pr: "isPrunable (Some example_manager) ?g ?ds = Inr True" by code_simp
  have few: "\<not> 100 < card (merge_tuples ?ds)"
    using merge_tuples_two [OF ok, of 3] by (simp add: example_loop_def)
  from mergeAllDfas_correct [OF ok live pr lim] few obtain d where
    d: "mergeAllDfas ?ds 100 (Some example_manager) ?g = Some (Inr (Some d))" and
    obs: "\<And>cs. \<forall>c \<in> set cs. c < ALPHABET_SIZE \<Longrightarrow> no_report_before True ?ds (map start_anchored ?ds) cs \<Longrightarrow>
      dfa_obs d (dfa_scan d (start_anchored d) cs) = dfas_reports ?ds (dfas_scan ?ds (map start_anchored ?ds) cs)"
    "\<And>cs. \<forall>c \<in> set cs. c < ALPHABET_SIZE \<Longrightarrow> report_before True ?ds (map start_anchored ?ds) cs \<Longrightarrow>
      dfa_obs d (dfa_scan d (start_anchored d) cs) = ([], [])"
    by auto
  have run: "dfas_scan ?ds (map start_anchored ?ds) [] = [1, 1]" "dfas_scan ?ds (map start_anchored ?ds) [97] = [2, 2]" by code_simp+
  have at: "reports (states example_loop ! 1) = []" "reports (states example_loop ! 2) = [0]" by code_simp+
  have rep: "fst (dfas_reports ?ds [1, 1]) = []" "fst (dfas_reports ?ds [2, 2]) = [0]" by (simp_all add: dfas_reports_def at del: One_nat_def)
  have "no_report_before True ?ds (map start_anchored ?ds) [97]" using run(1) rep(1) by (simp add: no_report_before_def)
  moreover have "report_before True ?ds (map start_anchored ?ds) [97, 98]"
    unfolding report_before_def using run(2) rep(2) by (intro conjI exI [of _ 1]) (simp_all add: TOP_def)
  ultimately show "\<exists>d. mergeAllDfas ?ds 100 (Some example_manager) ?g = Some (Inr (Some d)) \<and>
      fst (dfa_obs d (dfa_scan d (start_anchored d) [97])) = [0] \<and> dfa_obs d (dfa_scan d (start_anchored d) [97, 98]) = ([], [])"
    using d obs(1) [of "[97]"] obs(2) [of "[97, 98]"] rep(2) unfolding run(2) by (simp add: ALPHABET_SIZE_def)
qed

text \<open>
  C12. Merging a set of DFAs, each of which can report something, returns without pruning a set of
  well-formed DFAs, no larger and not empty, that together raise after every sequence of characters
  and tops the reports and end-of-data reports that the inputs raise together.
\<close>

theorem mergeDfas_correct:
  assumes "rm = None \<or> \<not> highlanderPruneDFA grey" "2 < max_states" "max_states \<le> MAX_DFA_STATES"
    and "\<forall>d \<in> set dfas. input_ok d \<and> live_dfa d"
  shows "\<exists>res. mergeDfas dfas max_states rm grey = Some (Inr res) \<and> (\<forall>d \<in> set res. input_ok d) \<and>
    length res \<le> length dfas \<and> (dfas \<noteq> [] \<longrightarrow> res \<noteq> []) \<and>
    (\<forall>st \<in> {start_anchored, start_floating}. \<forall>cs. (\<forall>c \<in> set cs. c < ALPHABET_SIZE) \<longrightarrow>
      (\<Union>d \<in> set res. set (reports (states d ! dfa_scan d (st d) cs))) =
        (\<Union>d \<in> set dfas. set (reports (states d ! dfa_scan d (st d) cs))) \<and>
      (\<Union>d \<in> set res. set (reports_eod (states d ! dfa_scan d (st d) cs))) =
        (\<Union>d \<in> set dfas. set (reports_eod (states d ! dfa_scan d (st d) cs))))"
proof (cases "length dfas \<le> 1")
  case True
  then show ?thesis using assms(4) by (simp add: mergeDfas_def)
next
  case False
  have "\<forall>d \<in> set (dfas @ []). input_ok d" "\<forall>d \<in> set (dfas @ []). live_dfa d" using assms(4) by auto
  from merge_queue_spec [OF assms(1-3) this] obtain res where
    "merge_queue max_states rm grey dfas [] = Some (Inr res)" "\<forall>d \<in> set res. input_ok d" "length res \<le> length dfas"
    "dfas \<noteq> [] \<longrightarrow> res \<noteq> []" "\<forall>st \<in> {start_anchored, start_floating}. \<forall>cs. (\<forall>c \<in> set cs. c < ALPHABET_SIZE) \<longrightarrow>
      all_raise st res cs = all_raise st dfas cs" by auto
  then show ?thesis using False unfolding all_raise_def prod.inject by (auto simp: mergeDfas_def)
qed

theorem mergeDfas_correct_witness:
  "\<exists>res. mergeDfas [example_dfa, example_dfa2] 100 None \<lparr>minimizeDFA = True, highlanderPruneDFA = True\<rparr> = Some (Inr res) \<and>
    (\<Union>d \<in> set res. set (reports (states d ! dfa_scan d (start_anchored d) [97, 98]))) = {7}"
proof -
  let ?ds = "[example_dfa, example_dfa2]" and ?g = "\<lparr>minimizeDFA = True, highlanderPruneDFA = True\<rparr>"
  have l: "dfa_obs example_dfa (dfa_scan example_dfa (start_anchored example_dfa) [97, 98]) \<noteq> ([], [])"
    "dfa_obs example_dfa2 (dfa_scan example_dfa2 (start_anchored example_dfa2) [97]) \<noteq> ([], [])" by code_simp+
  have "live_dfa example_dfa"
    unfolding live_dfa_def using l(1) by (intro exI [of _ "[97, 98]"]) (simp add: ALPHABET_SIZE_def)
  moreover have "live_dfa example_dfa2"
    unfolding live_dfa_def using l(2) by (intro exI [of _ "[97]"]) (simp add: ALPHABET_SIZE_def)
  ultimately have ok: "\<forall>d \<in> set ?ds. input_ok d \<and> live_dfa d" using example_inputs by simp
  have "(2 :: nat) < 100" "100 \<le> MAX_DFA_STATES" by (simp_all add: MAX_DFA_STATES_def)
  from mergeDfas_correct [OF _ this ok, of None ?g] obtain res where
    r: "mergeDfas ?ds 100 None ?g = Some (Inr res)"
    "\<And>cs. \<forall>c \<in> set cs. c < ALPHABET_SIZE \<Longrightarrow> (\<Union>d \<in> set res. set (reports (states d ! dfa_scan d (start_anchored d) cs))) =
        (\<Union>d \<in> set ?ds. set (reports (states d ! dfa_scan d (start_anchored d) cs)))" by auto
  have at: "reports (states example_dfa ! dfa_scan example_dfa (start_anchored example_dfa) [97, 98]) = [7]"
    "reports (states example_dfa2 ! dfa_scan example_dfa2 (start_anchored example_dfa2) [97, 98]) = []" by code_simp+
  show ?thesis using r(1) r(2) [of "[97, 98]"] by (auto simp: ALPHABET_SIZE_def at)
qed

end
