(* ===== verification/AccelMasks.thy ===== *)
theory AccelMasks
  imports CharReach "HOL-Library.List_Lexorder"
begin

text \<open>
  The masks of the vectorised character searches, \<^verbatim>\<open>nfa/trufflecompile.cpp\<close> and
  \<^verbatim>\<open>nfa/shufticompile.cpp\<close>. Truffle stores a class exactly in two (or one wide) tables
  indexed by the low bits of a byte. Shufti stores it in up to eight buckets, each a product of a set of
  low nibbles and a set of high nibbles; the two-byte variant does so for pairs of bytes. A byte is
  looked up in the tables the way the search kernels do it. \<^verbatim>\<open>std::map\<close> keeps its entries
  in the order of the keys, as the flat map does.
\<close>

unbundle bit_operations_syntax

section \<open>Truffle\<close>

definition or_at :: "u8 list \<Rightarrow> nat \<Rightarrow> u8 \<Rightarrow> u8 list" where
  "or_at xs i b = xs[i := xs ! i OR b]"

definition truffle_add :: "u8 list \<times> u8 list \<Rightarrow> u8 \<Rightarrow> u8 list \<times> u8 list" where
  "truffle_add masks v =
     (let (highclear, highset) = masks;
          low_nibble = unat (v AND 0xf);
          bits_456 = unat (drop_bit 4 (v AND 0x70))
      in if v AND 0x80 \<noteq> 0 then (highclear, or_at highset low_nibble (push_bit bits_456 1))
         else (or_at highclear low_nibble (push_bit bits_456 1), highset))"

definition truffleBuildMasks :: "charreach \<Rightarrow> (u8 list \<times> u8 list) option" where
  "truffleBuildMasks cr = map_option (foldl truffle_add (replicate 16 0, replicate 16 0)) (cr_chars cr)"

text \<open>The loops that take the bits of a word one by one, lowest first.\<close>

function lsb_loop :: "(nat \<Rightarrow> 's \<Rightarrow> 's) \<Rightarrow> u32 \<Rightarrow> 's \<Rightarrow> 's" where
  "lsb_loop f m s = (if m = 0 then s else let (pos, m') = findAndClearLSB m in lsb_loop f m' (f pos s))"
  by pat_completeness auto
termination
  by (relation "measure (\<lambda>(f, m, s). popcount m)")
    (auto simp: findAndClearLSB_def popcount_bit_list bit_list_clear_lsb)

declare lsb_loop.simps [simp del]

definition truffle_row :: "u8 list \<Rightarrow> u8 list \<Rightarrow> charreach \<Rightarrow> nat \<Rightarrow> charreach" where
  "truffle_row highclear highset cr i =
     (let cr1 = lsb_loop (\<lambda>pos cr. cr_set cr (of_nat (push_bit 4 pos OR i))) (ucast (highclear ! i)) cr
      in lsb_loop (\<lambda>pos cr. cr_set cr (of_nat (0x80 OR push_bit 4 pos OR i))) (ucast (highset ! i)) cr1)"

definition truffle2cr :: "u8 list \<Rightarrow> u8 list \<Rightarrow> charreach" where
  "truffle2cr highclear highset = foldl (truffle_row highclear highset) cr_new [0..<16]"

definition truffle_add_wide :: "u8 list \<Rightarrow> u8 \<Rightarrow> u8 list" where
  "truffle_add_wide shuf_mask v = or_at shuf_mask (unat (v AND 0x1f)) (push_bit (unat (drop_bit 5 (v AND 0xe0))) 1)"

definition truffleBuildMasksWide :: "charreach \<Rightarrow> u8 list option" where
  "truffleBuildMasksWide cr = map_option (foldl truffle_add_wide (replicate 32 0)) (cr_chars cr)"

definition truffle2crWide :: "u8 list \<Rightarrow> charreach" where
  "truffle2crWide shuf_mask =
     foldl (\<lambda>cr i. lsb_loop (\<lambda>pos cr. cr_set cr (of_nat (push_bit 5 pos OR i))) (ucast (shuf_mask ! i)) cr) cr_new [0..<32]"

section \<open>Truffle masks are exact\<close>

lemma lsb_loop_foldl: "lsb_loop f m s = foldl (\<lambda>s p. f p s) s (bit_list m)"
proof (induction f m s rule: lsb_loop.induct)
  case (1 f m s)
  then show ?case
    by (cases "m = 0") (simp_all add: lsb_loop.simps [of f m s] lsb_loop.simps [of f 0 s] findAndClearLSB_def bit_list_clear_lsb)
qed

lemma foldl_cr_set:
  "cr_ok cr \<Longrightarrow> cr_ok (foldl (\<lambda>cr p. cr_set cr (g p)) cr ps) \<and>
     cr_elems (foldl (\<lambda>cr p. cr_set cr (g p)) cr ps) = cr_elems cr \<union> g ` set ps"
proof (induction ps arbitrary: cr)
  case (Cons p ps)
  then show ?case using Cons.IH [of "cr_set cr (g p)"] by (simp add: cr_single)
qed simp

lemma lsb_loop_cr:
  assumes "cr_ok cr"
  shows "cr_ok (lsb_loop (\<lambda>p cr. cr_set cr (g p)) (ucast (b :: u8)) cr)"
    and "cr_elems (lsb_loop (\<lambda>p cr. cr_set cr (g p)) (ucast b) cr) = cr_elems cr \<union> g ` {p. bit b p}"
proof -
  have "{p. bit (ucast b :: u32) p} = {p. bit b p}"
    by (auto simp: bit_ucast_iff dest: bit_imp_le_length)
  then show "cr_ok (lsb_loop (\<lambda>p cr. cr_set cr (g p)) (ucast b) cr)"
    and "cr_elems (lsb_loop (\<lambda>p cr. cr_set cr (g p)) (ucast b) cr) = cr_elems cr \<union> g ` {p. bit b p}"
    using foldl_cr_set [OF assms, of g "bit_list (ucast b :: u32)"] by (simp_all add: lsb_loop_foldl bit_list_spec(1))
qed

text \<open>A table of bytes as a relation between rows and bit positions.\<close>

definition table_bit :: "u8 list \<Rightarrow> nat \<Rightarrow> nat \<Rightarrow> bool" where
  "table_bit t i p \<longleftrightarrow> bit (t ! i) p"

lemma table_bit_or_at:
  "i < length t \<Longrightarrow> p < 8 \<Longrightarrow> table_bit (or_at t i (2 ^ p)) j q \<longleftrightarrow> (j = i \<and> q = p) \<or> table_bit t j q"
  by (auto simp: table_bit_def or_at_def nth_list_update bit_simps)

lemma length_or_at [simp]: "length (or_at t i b) = length t"
  by (simp add: or_at_def)

lemma nat_shift_or: "i < 2 ^ n \<Longrightarrow> push_bit n p OR i = p * 2 ^ n + (i :: nat)"
proof -
  assume i: "i < 2 ^ n"
  have "\<not> bit (push_bit n (int p)) k \<or> \<not> bit (int i) k" for k
  proof (cases "k < n")
    case False
    then have "i < 2 ^ k" using i by (meson le_less_trans not_less power_increasing one_le_numeral order_less_le_trans)
    then have "\<not> bit i k" by (simp add: bit_iff_odd)
    then show ?thesis by (simp add: bit_of_nat_iff)
  qed (simp add: bit_push_bit_iff)
  then have "push_bit n (int p) OR int i = push_bit n (int p) + int i" by (simp add: disjunctive_add)
  then have "int (push_bit n p OR i) = int (p * 2 ^ n + i)" by (simp add: of_nat_or_eq push_bit_of_nat push_bit_eq_mult)
  then show ?thesis by (simp only: of_nat_eq_iff)
qed

lemma byte_masks:
  "unat (v AND 0xf) = unat v mod 16" "unat (drop_bit 4 (v AND 0x70)) = unat v div 16 mod 8"
  "v AND 0x80 \<noteq> 0 \<longleftrightarrow> 128 \<le> unat v" "unat (v AND 0x1f) = unat v mod 32"
  "unat (drop_bit 5 (v AND 0xe0)) = unat v div 32" "unat (drop_bit 4 v) = unat v div 16" for v :: u8
proof -
  have m: "(0xf :: u8) = mask 4" "(0x1f :: u8) = mask 5" "(7 :: u8) = mask 3" by (simp_all add: mask_eq_exp_minus_1)
  have dr: "unat (drop_bit k v) = unat v div 2 ^ k" for k
    unfolding unsigned_drop_bit_eq by (simp add: drop_bit_eq_div [where 'a = nat] take_bit_nat_eq_self)
  show "unat (v AND 0xf) = unat v mod 16" "unat (v AND 0x1f) = unat v mod 32"
    unfolding m unat_and_mask by simp_all
  have "drop_bit 4 (v AND 0x70) = drop_bit 4 v AND 7" by simp
  then show "unat (drop_bit 4 (v AND 0x70)) = unat v div 16 mod 8" by (simp only: m unat_and_mask dr) simp
  have "drop_bit 5 (v AND 0xe0) = drop_bit 5 v AND 7" by simp
  moreover have "unat v div 32 < 8" using unat_u8 [of v] by (intro less_mult_imp_div_less) simp
  ultimately show "unat (drop_bit 5 (v AND 0xe0)) = unat v div 32" by (simp only: m unat_and_mask dr) simp
  show "unat (drop_bit 4 v) = unat v div 16" using dr [of 4] by simp
  have "v AND 2 ^ 7 \<noteq> 0 \<longleftrightarrow> bit v 7" by (rule bit_nonzero)
  also have "\<dots> \<longleftrightarrow> bit (unat v) 7" by (simp add: bit_unsigned_iff)
  also have "\<dots> \<longleftrightarrow> odd (unat v div 128)" by (simp add: bit_iff_odd)
  also have "\<dots> \<longleftrightarrow> 128 \<le> unat v"
  proof -
    have "unat v div 128 < 2" by (rule less_mult_imp_div_less) simp
    then have "odd (unat v div 128) \<longleftrightarrow> unat v div 128 = 1" by (auto simp: less_2_cases_iff)
    also have "\<dots> \<longleftrightarrow> 128 \<le> unat v" using unat_u8 [of v] by linarith
    finally show ?thesis .
  qed
  finally show "v AND 0x80 \<noteq> 0 \<longleftrightarrow> 128 \<le> unat v" by simp
qed

text \<open>The lookup of a byte in truffle tables.\<close>

definition truffle_hit :: "u8 list \<Rightarrow> u8 list \<Rightarrow> u8 \<Rightarrow> bool" where
  "truffle_hit highclear highset c =
     table_bit (if unat c < 128 then highclear else highset) (unat c mod 16) (unat c div 16 mod 8)"

definition truffle_hit_wide :: "u8 list \<Rightarrow> u8 \<Rightarrow> bool" where
  "truffle_hit_wide shuf_mask c = table_bit shuf_mask (unat c mod 32) (unat c div 32)"

lemma byte_parts: "unat (c :: u8) = (if unat c < 128 then 0 else 128) + (unat c div 16 mod 8 * 16 + unat c mod 16)"
proof -
  have a: "unat c div 16 * 16 + unat c mod 16 = unat c" by simp
  have "unat c div 128 * 8 + unat c div 16 mod 8 = unat c div 16"
    using div_mult_mod_eq [of "unat c div 16" 8] div_mult2_eq [of "unat c" 16 8] by simp
  then have b: "unat c = unat c div 128 * 128 + (unat c div 16 mod 8 * 16 + unat c mod 16)" using a by linarith
  have "unat c div 128 < 2" using unat_u8 [of c] by (intro less_mult_imp_div_less) simp
  then have "unat c div 128 * 128 = (if unat c < 128 then 0 else 128)" by (simp add: div_nat_eqI)
  then show ?thesis using b by (simp only:)
qed

lemma byte_eq_parts:
  "c = d \<longleftrightarrow> (unat c < 128 \<longleftrightarrow> unat d < 128) \<and> unat c mod 16 = unat d mod 16 \<and> unat c div 16 mod 8 = unat d div 16 mod 8"
  for c d :: u8
  using byte_parts [of c] byte_parts [of d] by (auto simp: word_unat_eq_iff)

lemma truffle_add_spec:
  assumes "length hc = 16" "length hs = 16" "truffle_add (hc, hs) v = (hc', hs')"
  shows "length hc' = 16" "length hs' = 16" "truffle_hit hc' hs' c \<longleftrightarrow> c = v \<or> truffle_hit hc hs c"
proof -
  have lt: "unat v mod 16 < 16" "unat v div 16 mod 8 < 8" by simp_all
  show "length hc' = 16" "length hs' = 16" using assms by (auto simp: truffle_add_def Let_def split: if_splits)
  show "truffle_hit hc' hs' c \<longleftrightarrow> c = v \<or> truffle_hit hc hs c"
    using assms lt unfolding truffle_add_def Let_def byte_masks(1-5) byte_eq_parts [of c v]
    by (cases "128 \<le> unat v") (auto simp: truffle_hit_def table_bit_or_at not_le)
qed

lemma truffle_fold:
  "length hc = 16 \<Longrightarrow> length hs = 16 \<Longrightarrow> foldl truffle_add (hc, hs) vs = (hc', hs') \<Longrightarrow>
   length hc' = 16 \<and> length hs' = 16 \<and> (\<forall>c. truffle_hit hc' hs' c \<longleftrightarrow> c \<in> set vs \<or> truffle_hit hc hs c)"
proof (induction vs arbitrary: hc hs)
  case (Cons v vs)
  obtain hc1 hs1 where st: "truffle_add (hc, hs) v = (hc1, hs1)" by fastforce
  note spec = truffle_add_spec [OF Cons.prems(1,2) st]
  show ?case using Cons.IH [OF spec(1,2)] Cons.prems(3) st spec(3) by auto
qed simp

lemma table_zero [simp]: "\<not> table_bit (replicate n 0) i p" if "i < n"
  using that by (simp add: table_bit_def)

lemma truffle2cr_spec:
  "cr_ok (truffle2cr hc hs) \<and> cr_elems (truffle2cr hc hs) = {c. truffle_hit hc hs c}"
proof -
  let ?row = "\<lambda>i. (\<lambda>p. of_nat (push_bit 4 p OR i)) ` {p. bit (hc ! i) p} \<union> (\<lambda>p. of_nat (0x80 OR push_bit 4 p OR i)) ` {p. bit (hs ! i) p} :: u8 set"
  have row: "cr_ok (truffle_row hc hs cr i) \<and> cr_elems (truffle_row hc hs cr i) = cr_elems cr \<union> ?row i" if "cr_ok cr" for cr i
    using that by (simp add: truffle_row_def Let_def lsb_loop_cr Un_assoc)
  have rows: "cr_ok (foldl (truffle_row hc hs) cr is) \<and> cr_elems (foldl (truffle_row hc hs) cr is) = cr_elems cr \<union> (\<Union>i \<in> set is. ?row i)"
    if "cr_ok cr" for cr "is"
    using that
  proof (induction "is" arbitrary: cr)
    case (Cons i "is")
    then show ?case using row [OF Cons.prems, of i] Cons.IH [of "truffle_row hc hs cr i"] by auto
  qed simp
  have p8: "bit (b :: u8) p \<Longrightarrow> p < 8" for b p using bit_imp_le_length [of b p] by simp
  have val: "push_bit 4 p OR i = p * 16 + i" "0x80 OR (p * 16 + i) = 128 + (p * 16 + i)" if "p < 8" "i < 16" for p i :: nat
  proof -
    show "push_bit 4 p OR i = p * 16 + i" using nat_shift_or [of i 4 p] that by simp
    show "0x80 OR (p * 16 + i) = 128 + (p * 16 + i)" using nat_shift_or [of "p * 16 + i" 7 1] that by simp
  qed
  have "c \<in> (\<Union>i \<in> set [0..<16]. ?row i) \<longleftrightarrow> truffle_hit hc hs c" for c :: u8
  proof
    assume "c \<in> (\<Union>i \<in> set [0..<16]. ?row i)"
    then obtain i where "i < 16" "c \<in> ?row i" by auto
    then obtain p where ip: "i < 16" "(bit (hc ! i) p \<and> c = of_nat (push_bit 4 p OR i)) \<or> (bit (hs ! i) p \<and> c = of_nat (0x80 OR push_bit 4 p OR i))"
      by blast
    then have p: "p < 8" using p8 by blast
    have digits: "(p * 16 + i) mod 16 = i" "(p * 16 + i) div 16 mod 8 = p" "(128 + (p * 16 + i)) mod 16 = i" "(128 + (p * 16 + i)) div 16 mod 8 = p"
    proof -
      have "((8 + p) * 16 + i) mod 16 = i" "((8 + p) * 16 + i) div 16 = 8 + p" using ip(1) by (metis mod_mult_self3 mod_less, simp)
      moreover have "128 + (p * 16 + i) = (8 + p) * 16 + i" by simp
      ultimately show "(128 + (p * 16 + i)) mod 16 = i" "(128 + (p * 16 + i)) div 16 mod 8 = p" using p by (metis, metis mod_add_self1 mod_less)
    qed (use ip(1) p in simp_all)
    have lt: "p * 16 + i < 128" using p ip(1) by linarith
    consider "bit (hc ! i) p" "c = of_nat (p * 16 + i)" | "bit (hs ! i) p" "c = of_nat (128 + (p * 16 + i))"
      using ip(2) unfolding val [OF p ip(1)] by blast
    then show "truffle_hit hc hs c"
    proof cases
      case 1
      have "unat c = p * 16 + i" unfolding 1(2) using lt by (intro u8_of_nat_unat) simp
      then show ?thesis using 1(1) lt digits by (simp add: truffle_hit_def table_bit_def)
    next
      case 2
      have "unat c = 128 + (p * 16 + i)" unfolding 2(2) using lt by (intro u8_of_nat_unat) simp
      then show ?thesis using 2(1) digits unfolding truffle_hit_def table_bit_def by simp
    qed
  next
    assume hit: "truffle_hit hc hs c"
    let ?i = "unat c mod 16" and ?p = "unat c div 16 mod 8"
    have v: "of_nat (unat c) = c" by simp
    have "c = of_nat (push_bit 4 ?p OR ?i)" if "unat c < 128"
      using byte_parts [of c] that val(1) [of ?p ?i] v by simp
    moreover have "c = of_nat (0x80 OR push_bit 4 ?p OR ?i)" if "\<not> unat c < 128"
      using byte_parts [of c] that val [of ?p ?i] v by simp
    ultimately have "c \<in> ?row ?i" using hit by (auto simp: truffle_hit_def table_bit_def split: if_splits)
    then show "c \<in> (\<Union>i \<in> set [0..<16]. ?row i)" by (rule UN_I [rotated]) simp
  qed
  then show ?thesis using rows [OF cr_new_spec(2), of "[0..<16]"] cr_new_spec(1) unfolding truffle2cr_def by auto
qed

lemma truffle_add_wide_spec:
  assumes "length t = 32"
  shows "length (truffle_add_wide t v) = 32" "truffle_hit_wide (truffle_add_wide t v) c \<longleftrightarrow> c = v \<or> truffle_hit_wide t c"
proof -
  have lt: "unat v mod 32 < 32" "unat v div 32 < 8"
    using unat_u8 [of v] by (simp, intro less_mult_imp_div_less, simp)
  have eq: "c = v \<longleftrightarrow> unat c mod 32 = unat v mod 32 \<and> unat c div 32 = unat v div 32"
    by (metis div_mult_mod_eq word_unat_eq_iff)
  show "length (truffle_add_wide t v) = 32" using assms by (simp add: truffle_add_wide_def)
  show "truffle_hit_wide (truffle_add_wide t v) c \<longleftrightarrow> c = v \<or> truffle_hit_wide t c"
    using assms lt unfolding truffle_add_wide_def byte_masks(1-5) eq truffle_hit_wide_def by (simp add: table_bit_or_at)
qed

lemma truffle_fold_wide:
  "length t = 32 \<Longrightarrow> length (foldl truffle_add_wide t vs) = 32 \<and>
     (\<forall>c. truffle_hit_wide (foldl truffle_add_wide t vs) c \<longleftrightarrow> c \<in> set vs \<or> truffle_hit_wide t c)"
proof (induction vs arbitrary: t)
  case (Cons v vs)
  then show ?case using Cons.IH [of "truffle_add_wide t v"] truffle_add_wide_spec [OF Cons.prems, of v] by auto
qed simp

lemma truffle2crWide_spec: "cr_ok (truffle2crWide t) \<and> cr_elems (truffle2crWide t) = {c. truffle_hit_wide t c}"
proof -
  let ?g = "\<lambda>i p. of_nat (push_bit 5 p OR i) :: u8"
  let ?row = "\<lambda>cr i. lsb_loop (\<lambda>pos cr. cr_set cr (?g i pos)) (ucast (t ! i)) cr"
  have rows: "cr_ok (foldl ?row cr is) \<and> cr_elems (foldl ?row cr is) = cr_elems cr \<union> (\<Union>i \<in> set is. ?g i ` {p. bit (t ! i) p})"
    if "cr_ok cr" for cr "is"
    using that
  proof (induction "is" arbitrary: cr)
    case (Cons i "is")
    then show ?case using lsb_loop_cr [OF Cons.prems, of "?g i" "t ! i"] Cons.IH [of "?row cr i"] by auto
  qed simp
  have val: "push_bit 5 p OR i = p * 32 + i" if "i < 32" for p i :: nat using nat_shift_or [of i 5 p] that by simp
  have "c \<in> (\<Union>i \<in> set [0..<32]. ?g i ` {p. bit (t ! i) p}) \<longleftrightarrow> truffle_hit_wide t c" for c :: u8
  proof
    assume "c \<in> (\<Union>i \<in> set [0..<32]. ?g i ` {p. bit (t ! i) p})"
    then obtain i p where ip: "i < 32" "bit (t ! i) p" "c = ?g i p" by auto
    then have "p < 8" using bit_imp_le_length [of "t ! i" p] by simp
    then have "unat c = p * 32 + i" unfolding ip(3) val [OF ip(1)] using ip(1) by (intro u8_of_nat_unat) simp
    then show "truffle_hit_wide t c" using ip(1,2) by (simp add: truffle_hit_wide_def table_bit_def)
  next
    assume hit: "truffle_hit_wide t c"
    have "c = ?g (unat c mod 32) (unat c div 32)" using val [of "unat c mod 32" "unat c div 32"] by simp
    then show "c \<in> (\<Union>i \<in> set [0..<32]. ?g i ` {p. bit (t ! i) p})"
      using hit by (intro UN_I [of "unat c mod 32"]) (auto simp: truffle_hit_wide_def table_bit_def)
  qed
  then show ?thesis using rows [OF cr_new_spec(2), of "[0..<32]"] cr_new_spec(1) unfolding truffle2crWide_def by auto
qed

text \<open>
  C33. Truffle masks are an exact encoding of a class, in the two-table and in the wide form: looking
  a byte up in the masks tells whether the class holds it, and reading the masks back gives the class.
\<close>

theorem truffle_roundtrip:
  assumes "cr_ok cr"
  shows "\<exists>hc hs t. truffleBuildMasks cr = Some (hc, hs) \<and> truffle2cr hc hs = cr \<and>
    (\<forall>c. truffle_hit hc hs c \<longleftrightarrow> c \<in> cr_elems cr) \<and>
    truffleBuildMasksWide cr = Some t \<and> truffle2crWide t = cr \<and> (\<forall>c. truffle_hit_wide t c \<longleftrightarrow> c \<in> cr_elems cr)"
proof -
  let ?vs = "sorted_list_of_set (cr_elems cr)"
  obtain hc hs where b: "foldl truffle_add (replicate 16 0, replicate 16 0) ?vs = (hc, hs)" by fastforce
  let ?t = "foldl truffle_add_wide (replicate 32 0) ?vs"
  have hit: "truffle_hit hc hs c \<longleftrightarrow> c \<in> cr_elems cr" for c
    using truffle_fold [OF _ _ b] by (simp add: truffle_hit_def)
  have wide: "truffle_hit_wide ?t c \<longleftrightarrow> c \<in> cr_elems cr" for c
    using truffle_fold_wide [of "replicate 32 0" ?vs] by (simp add: truffle_hit_wide_def)
  have "truffle2cr hc hs = cr" "truffle2crWide ?t = cr"
    using truffle2cr_spec [of hc hs] truffle2crWide_spec [of ?t] hit wide assms by (simp_all add: cr_eq_iff)
  then show ?thesis
    using assms b hit wide by (auto simp: truffleBuildMasks_def truffleBuildMasksWide_def cr_chars_spec)
qed

theorem truffle_roundtrip_witness:
  "\<exists>hc hs. truffleBuildMasks (cr_set (cr_set cr_new 0x41) 0xe9) = Some (hc, hs) \<and>
    truffle2cr hc hs = cr_set (cr_set cr_new 0x41) 0xe9"
  using truffle_roundtrip [of "cr_set (cr_set cr_new 0x41) 0xe9"] by (auto simp: cr_single cr_new_spec)

section \<open>Shufti\<close>

text \<open>\<^verbatim>\<open>m[k].set(v)\<close> on a map whose values are classes, empty by default.\<close>

definition map_set :: "('k::linorder \<times> charreach) list \<Rightarrow> 'k \<Rightarrow> u8 \<Rightarrow> ('k \<times> charreach) list" where
  "map_set m k v =
     flat_map_assign m cr_new k (cr_set (case flat_map_lookup m k of None \<Rightarrow> cr_new | Some cr \<Rightarrow> cr) v)"

definition group_by_hi :: "u8 list \<Rightarrow> (u8 \<times> charreach) list" where
  "group_by_hi cs = foldl (\<lambda>by_hi i. map_set by_hi (drop_bit 4 i) (i AND 0xf)) [] cs"

definition group_by_lo_set :: "(u8 \<times> charreach) list \<Rightarrow> (charreach \<times> charreach) list" where
  "group_by_lo_set by_hi = foldl (\<lambda>by_lo_set it. map_set by_lo_set (snd it) (fst it)) [] by_hi"

definition set_bucket :: "nat \<Rightarrow> u8 list \<Rightarrow> u8 list \<Rightarrow> u8 list" where
  "set_bucket bit_index a js = foldl (\<lambda>a j. or_at a (unat j) (push_bit bit_index 1)) a js"

fun shufti_buckets :: "(charreach \<times> charreach) list \<Rightarrow> nat \<Rightarrow> u8 list \<Rightarrow> u8 list \<Rightarrow> (nat \<times> u8 list \<times> u8 list) option" where
  "shufti_buckets [] bit_index lo_a hi_a = Some (bit_index, lo_a, hi_a)"
| "shufti_buckets ((lo_nibbles, hi_nibbles) # entries) bit_index lo_a hi_a =
     Option.bind (cr_chars lo_nibbles) (\<lambda>los.
     Option.bind (cr_chars hi_nibbles) (\<lambda>his.
     shufti_buckets entries (bit_index + 1) (set_bucket bit_index lo_a los) (set_bucket bit_index hi_a his)))"

text \<open>The inner \<open>None\<close> is the result -1; the outer one would be a loop that does not end.\<close>

definition shuftiBuildMasks :: "charreach \<Rightarrow> (nat \<times> u8 list \<times> u8 list) option option" where
  "shuftiBuildMasks c =
     Option.bind (cr_chars c) (\<lambda>cs.
       let by_lo_set = group_by_lo_set (group_by_hi cs)
       in if length by_lo_set > 8 then Some None
          else map_option Some (shufti_buckets by_lo_set 0 (replicate 16 0) (replicate 16 0)))"

definition shufti_hit :: "u8 list \<Rightarrow> u8 list \<Rightarrow> u8 \<Rightarrow> bool" where
  "shufti_hit lo hi i \<longleftrightarrow> lo ! unat (i AND 0xf) AND hi ! unat (drop_bit 4 i) \<noteq> 0"

definition shufti2cr :: "u8 list \<Rightarrow> u8 list \<Rightarrow> charreach" where
  "shufti2cr lo hi = foldl (\<lambda>cr i. if shufti_hit lo hi (of_nat i) then cr_set cr (of_nat i) else cr) cr_new [0..<256]"

section \<open>Shufti masks are exact\<close>

text \<open>What a map filled by \<open>map_set\<close> holds.\<close>

definition grouped :: "('k::linorder \<times> charreach) list \<Rightarrow> ('k \<times> u8) set \<Rightarrow> bool" where
  "grouped m R \<longleftrightarrow> flat_map_ok m \<and>
     (\<forall>k cr. map_of m k = Some cr \<longrightarrow> cr_ok cr \<and> cr_elems cr = {v. (k, v) \<in> R}) \<and>
     dom (map_of m) = fst ` R"

lemma groupedD:
  assumes "grouped m R"
  shows "flat_map_ok m" "map_of m k = Some cr \<Longrightarrow> cr_ok cr" "map_of m k = Some cr \<Longrightarrow> cr_elems cr = {v. (k, v) \<in> R}"
    "dom (map_of m) = fst ` R" "distinct (map fst m)"
  using assms by (auto simp: grouped_def flat_map_ok_def strict_sorted_iff)

lemma grouped_map_set:
  assumes "grouped m R"
  shows "grouped (map_set m k v) (insert (k, v) R)"
proof -
  note g = groupedD [OF assms]
  let ?cr = "case map_of m k of None \<Rightarrow> cr_new | Some cr \<Rightarrow> cr"
  have ok: "flat_map_ok (map_set m k v)" unfolding map_set_def by (rule flat_map_assign_spec(1) [OF g(1)])
  have map: "map_of (map_set m k v) = (map_of m)(k \<mapsto> cr_set ?cr v)"
    unfolding map_set_def fmap.get_entries [OF g(1)] by (rule flat_map_assign_spec(2) [OF g(1)])
  have none: "{v. (k, v) \<in> R} = {}" if "map_of m k = None" using that g(4) by force
  have cr: "cr_ok ?cr" "cr_elems ?cr = {v. (k, v) \<in> R}"
    using g(2,3) [of k] none by (auto simp: cr_new_spec split: option.splits)
  have "cr_ok cr \<and> cr_elems cr = {w. (j, w) \<in> insert (k, v) R}" if "map_of (map_set m k v) j = Some cr" for j cr
    using that cr g(2,3) [of j cr] unfolding map by (cases "j = k") (auto simp: cr_single)
  moreover have "dom (map_of (map_set m k v)) = fst ` insert (k, v) R" unfolding map using g(4) by auto
  ultimately show ?thesis using ok by (simp add: grouped_def)
qed

lemma grouped_fold:
  "grouped m R \<Longrightarrow> grouped (foldl (\<lambda>m x. map_set m (f x) (g x)) m xs) (R \<union> (\<lambda>x. (f x, g x)) ` set xs)"
proof (induction xs arbitrary: m R)
  case (Cons x xs)
  then show ?case using Cons.IH [OF grouped_map_set [OF Cons.prems, of "f x" "g x"]] by simp
qed simp

lemma grouped_Nil: "grouped [] {}"
  by (simp add: grouped_def flat_map_ok_def)

lemma grouped_entry:
  assumes "grouped m R" "(k, cr) \<in> set m"
  shows "cr_ok cr" "cr_elems cr = {v. (k, v) \<in> R}" "\<exists>v. (k, v) \<in> R"
proof -
  have m: "map_of m k = Some cr" using assms(2) groupedD(5) [OF assms(1)] by simp
  then show "cr_ok cr" "cr_elems cr = {v. (k, v) \<in> R}" using groupedD(2,3) [OF assms(1)] by blast+
  have "k \<in> fst ` R" using m groupedD(4) [OF assms(1)] by (metis domI)
  then show "\<exists>v. (k, v) \<in> R" by force
qed

lemma grouped_length: "grouped m R \<Longrightarrow> length m = card (fst ` set m)"
  using groupedD(5) [of m R] distinct_card [of "map fst m"] by simp

lemma grouped_has: "grouped m R \<Longrightarrow> (k, v) \<in> R \<Longrightarrow> \<exists>cr. (k, cr) \<in> set m"
  using groupedD(4) [of m R] by (metis domD fst_conv image_eqI map_of_SomeD)

lemma shufti_groups:
  assumes "set cs = C"
  defines "E \<equiv> group_by_lo_set (group_by_hi cs)"
  shows "(L, H) \<in> set E \<Longrightarrow> cr_ok L \<and> cr_ok H \<and> (\<forall>x \<in> cr_elems L. unat x < 16) \<and> (\<forall>x \<in> cr_elems H. unat x < 16)"
    and "(\<exists>(L, H) \<in> set E. (c AND 0xf) \<in> cr_elems L \<and> drop_bit 4 c \<in> cr_elems H) \<longleftrightarrow> c \<in> C"
    and "length E \<le> card C"
proof -
  let ?B = "group_by_hi cs"
  let ?RB = "(\<lambda>i. (drop_bit 4 i, i AND 0xf)) ` C" and ?RE = "(\<lambda>it. (snd it, fst it)) ` set ?B"
  have gB: "grouped ?B ?RB"
    using grouped_fold [OF grouped_Nil, of "drop_bit 4" "\<lambda>i. i AND 0xf" cs] assms(1) by (simp add: group_by_hi_def)
  have gE: "grouped E ?RE"
    using grouped_fold [OF grouped_Nil, of snd fst ?B] by (simp add: group_by_lo_set_def E_def)
  have lt: "unat (i AND 0xf) < 16" "unat (drop_bit 4 i) < 16" for i :: u8
    using byte_masks(1,6) [of i] unat_u8 [of i] by (simp_all add: less_mult_imp_div_less)
  have RE: "(L, h) \<in> ?RE \<longleftrightarrow> (h, L) \<in> set ?B" for L h by force
  have key: "\<exists>h. (h, L) \<in> set ?B \<and> h \<in> cr_elems H" if "(L, H) \<in> set E" for L H
    using grouped_entry(2,3) [OF gE that] RE by blast
  show "cr_ok L \<and> cr_ok H \<and> (\<forall>x \<in> cr_elems L. unat x < 16) \<and> (\<forall>x \<in> cr_elems H. unat x < 16)" if LH: "(L, H) \<in> set E"
  proof -
    obtain h where h: "(h, L) \<in> set ?B" using key [OF LH] by blast
    have "unat x < 16" if "x \<in> cr_elems H" for x
    proof -
      have "(x, L) \<in> set ?B" using that grouped_entry(2) [OF gE LH] by auto
      then show ?thesis using grouped_entry(3) [OF gB, of x L] lt by auto
    qed
    then show ?thesis using grouped_entry [OF gE LH] grouped_entry [OF gB h] lt by auto
  qed
  have inj: "drop_bit 4 i = drop_bit 4 c \<and> i AND 0xf = c AND 0xf \<longleftrightarrow> i = c" for i c :: u8
  proof
    assume "drop_bit 4 i = drop_bit 4 c \<and> i AND 0xf = c AND 0xf"
    then have "unat i div 16 = unat c div 16" "unat i mod 16 = unat c mod 16" by (metis byte_masks(6), metis byte_masks(1))
    then show "i = c" by (metis div_mult_mod_eq word_unat_eq_iff)
  qed simp
  have C: "(drop_bit 4 c, c AND 0xf) \<in> ?RB \<longleftrightarrow> c \<in> C"
    using inj by (metis (mono_tags, lifting) Pair_inject imageE image_eqI)
  show "(\<exists>(L, H) \<in> set E. (c AND 0xf) \<in> cr_elems L \<and> drop_bit 4 c \<in> cr_elems H) \<longleftrightarrow> c \<in> C"
  proof
    assume "\<exists>(L, H) \<in> set E. (c AND 0xf) \<in> cr_elems L \<and> drop_bit 4 c \<in> cr_elems H"
    then obtain L H where LH: "(L, H) \<in> set E" "(c AND 0xf) \<in> cr_elems L" "drop_bit 4 c \<in> cr_elems H" by blast
    then have "(drop_bit 4 c, L) \<in> set ?B" using grouped_entry(2) [OF gE LH(1)] by auto
    then show "c \<in> C" using LH(2) grouped_entry(2) [OF gB] C by blast
  next
    assume "c \<in> C"
    then have R: "(drop_bit 4 c, c AND 0xf) \<in> ?RB" using C by blast
    then obtain L where L: "(drop_bit 4 c, L) \<in> set ?B" using grouped_has [OF gB] by blast
    then have "(L, drop_bit 4 c) \<in> ?RE" by force
    then obtain H where H: "(L, H) \<in> set E" using grouped_has [OF gE] by blast
    then have "drop_bit 4 c \<in> cr_elems H" using grouped_entry(2) [OF gE H] L by force
    moreover have "(c AND 0xf) \<in> cr_elems L" using grouped_entry(2) [OF gB L] R by blast
    ultimately show "\<exists>(L, H) \<in> set E. (c AND 0xf) \<in> cr_elems L \<and> drop_bit 4 c \<in> cr_elems H" using H by blast
  qed
  have fin: "finite C" using assms(1) by auto
  have "fst ` set E \<subseteq> snd ` set ?B" using key by force
  then have "card (fst ` set E) \<le> card (set ?B)" by (meson List.finite_set card_image_le card_mono finite_imageI order_trans)
  moreover have "fst ` set ?B \<subseteq> drop_bit 4 ` C" using grouped_entry(3) [OF gB] by force
  then have "card (fst ` set ?B) \<le> card C" using fin by (meson card_image_le card_mono finite_imageI order_trans)
  ultimately show "length E \<le> card C" using grouped_length [OF gE] grouped_length [OF gB] card_length [of ?B] by linarith
qed

lemma set_bucket_spec:
  assumes "length a = 16" "\<forall>j \<in> set js. unat j < 16" "k < 8"
  shows "length (set_bucket k a js) = 16 \<and>
    (\<forall>i b. table_bit (set_bucket k a js) i b \<longleftrightarrow> table_bit a i b \<or> (b = k \<and> (\<exists>j \<in> set js. i = unat j)))"
  using assms(1,2)
proof (induction js arbitrary: a)
  case Nil
  then show ?case by (simp add: set_bucket_def)
next
  case (Cons j js)
  let ?a = "or_at a (unat j) (2 ^ k)"
  have st: "set_bucket k a (j # js) = set_bucket k ?a js" by (simp add: set_bucket_def)
  have "table_bit ?a i b \<longleftrightarrow> (i = unat j \<and> b = k) \<or> table_bit a i b" for i b
    using Cons.prems assms(3) by (intro table_bit_or_at) simp_all
  then show ?case unfolding st using Cons.IH [of ?a] Cons.prems by auto
qed

lemma shufti_buckets_spec:
  assumes "\<forall>(L, H) \<in> set E. cr_ok L \<and> cr_ok H \<and> (\<forall>x \<in> cr_elems L. unat x < 16) \<and> (\<forall>x \<in> cr_elems H. unat x < 16)"
    and "n + length E \<le> 8" "length lo = 16" "length hi = 16"
  obtains lo' hi' where "shufti_buckets E n lo hi = Some (n + length E, lo', hi')" "length lo' = 16" "length hi' = 16"
    "\<And>i b. table_bit lo' i b \<longleftrightarrow> table_bit lo i b \<or> (\<exists>k < length E. b = n + k \<and> (\<exists>x \<in> cr_elems (fst (E ! k)). i = unat x))"
    "\<And>i b. table_bit hi' i b \<longleftrightarrow> table_bit hi i b \<or> (\<exists>k < length E. b = n + k \<and> (\<exists>x \<in> cr_elems (snd (E ! k)). i = unat x))"
  using assms
proof (induction E arbitrary: n lo hi thesis)
  case Nil
  then show ?case by simp
next
  case (Cons e E)
  obtain L H where e: "e = (L, H)" by (cases e)
  have ok: "cr_ok L" "cr_ok H" "\<forall>x \<in> cr_elems L. unat x < 16" "\<forall>x \<in> cr_elems H. unat x < 16" using Cons.prems(2) e by auto
  let ?lo = "set_bucket n lo (sorted_list_of_set (cr_elems L))" and ?hi = "set_bucket n hi (sorted_list_of_set (cr_elems H))"
  have n: "n < 8" using Cons.prems(3) by simp
  note lo = set_bucket_spec [OF Cons.prems(4) _ n, of "sorted_list_of_set (cr_elems L)"]
  note hi = set_bucket_spec [OF Cons.prems(5) _ n, of "sorted_list_of_set (cr_elems H)"]
  have lo1: "length ?lo = 16" "\<And>i b. table_bit ?lo i b \<longleftrightarrow> table_bit lo i b \<or> (b = n \<and> (\<exists>j \<in> cr_elems L. i = unat j))"
    using lo ok(3) by auto
  have hi1: "length ?hi = 16" "\<And>i b. table_bit ?hi i b \<longleftrightarrow> table_bit hi i b \<or> (b = n \<and> (\<exists>j \<in> cr_elems H. i = unat j))"
    using hi ok(4) by auto
  have rest: "\<forall>(L, H) \<in> set E. cr_ok L \<and> cr_ok H \<and> (\<forall>x \<in> cr_elems L. unat x < 16) \<and> (\<forall>x \<in> cr_elems H. unat x < 16)"
    "n + 1 + length E \<le> 8" using Cons.prems(2,3) by auto
  obtain lo' hi' where r: "shufti_buckets E (n + 1) ?lo ?hi = Some (n + 1 + length E, lo', hi')" "length lo' = 16" "length hi' = 16"
    "\<And>i b. table_bit lo' i b \<longleftrightarrow> table_bit ?lo i b \<or> (\<exists>k < length E. b = n + 1 + k \<and> (\<exists>x \<in> cr_elems (fst (E ! k)). i = unat x))"
    "\<And>i b. table_bit hi' i b \<longleftrightarrow> table_bit ?hi i b \<or> (\<exists>k < length E. b = n + 1 + k \<and> (\<exists>x \<in> cr_elems (snd (E ! k)). i = unat x))"
    using Cons.IH [OF _ rest lo1(1) hi1(1)] by blast
  have ex: "(\<exists>k < length (e # E). b = n + k \<and> P ((e # E) ! k)) \<longleftrightarrow> (b = n \<and> P e) \<or> (\<exists>k < length E. b = n + 1 + k \<and> P (E ! k))" for b P
    by (auto simp: less_Suc_eq_0_disj)
  show ?case
  proof (rule Cons.prems(1))
    show "shufti_buckets (e # E) n lo hi = Some (n + length (e # E), lo', hi')" using r(1) ok by (simp add: e cr_chars_spec)
    show "table_bit lo' i b \<longleftrightarrow> table_bit lo i b \<or> (\<exists>k < length (e # E). b = n + k \<and> (\<exists>x \<in> cr_elems (fst ((e # E) ! k)). i = unat x))" for i b
      unfolding ex [of b "\<lambda>e. \<exists>x \<in> cr_elems (fst e). i = unat x"] r(4) lo1(2) using e by auto
    show "table_bit hi' i b \<longleftrightarrow> table_bit hi i b \<or> (\<exists>k < length (e # E). b = n + k \<and> (\<exists>x \<in> cr_elems (snd ((e # E) ! k)). i = unat x))" for i b
      unfolding ex [of b "\<lambda>e. \<exists>x \<in> cr_elems (snd e). i = unat x"] r(5) hi1(2) using e by auto
  qed (use r in auto)
qed

lemma ex_nth: "(\<exists>k < length xs. P (xs ! k)) \<longleftrightarrow> (\<exists>x \<in> set xs. P x)"
  by (metis in_set_conv_nth)

lemma byte_and_nonzero: "a AND b \<noteq> 0 \<longleftrightarrow> (\<exists>k < 8. bit a k \<and> bit b k)" for a b :: u8
proof -
  have "a AND b \<noteq> 0 \<longleftrightarrow> (\<exists>k. bit (a AND b) k)" using bit_eqI [of "a AND b" 0] by auto
  also have "\<dots> \<longleftrightarrow> (\<exists>k < 8. bit a k \<and> bit b k)" using bit_imp_le_length [of a] by (auto simp: bit_and_iff)
  finally show ?thesis .
qed

lemma shufti2cr_spec: "cr_ok (shufti2cr lo hi) \<and> cr_elems (shufti2cr lo hi) = {c. shufti_hit lo hi c}"
proof -
  let ?f = "\<lambda>cr i. if shufti_hit lo hi (of_nat i) then cr_set cr (of_nat i) else cr"
  have "cr_ok (foldl ?f cr is) \<and> cr_elems (foldl ?f cr is) = cr_elems cr \<union> {c \<in> of_nat ` set is. shufti_hit lo hi c}"
    if "cr_ok cr" for cr "is"
    using that
  proof (induction "is" arbitrary: cr)
    case (Cons i "is")
    have "cr_ok (?f cr i)" using Cons.prems by (simp add: cr_single)
    then show ?case using Cons.IH [of "?f cr i"] Cons.prems by (auto simp: cr_single)
  qed simp
  moreover have "of_nat ` set [0..<256] = (UNIV :: u8 set)"
  proof (intro equalityI subsetI)
    fix c :: u8 show "c \<in> of_nat ` set [0..<256]" by (rule image_eqI [of _ _ "unat c"]) simp_all
  qed simp
  ultimately show ?thesis unfolding shufti2cr_def using cr_new_spec by (simp add: set_upt)
qed

text \<open>
  C34. Shufti masks are exact whenever they exist: for a class with at most eight distinct sets of low
  nibbles, \<^verbatim>\<open>shuftiBuildMasks\<close> succeeds, the two-table lookup of a byte hits exactly when the class
  holds it, and \<^verbatim>\<open>shufti2cr\<close> reads the class back; as the comment on the function says, a class of
  eight or fewer characters always has masks.
\<close>

theorem shufti_masks_exact:
  assumes "cr_ok cr"
  shows "(\<forall>r. shuftiBuildMasks cr = Some (Some r) \<longrightarrow> (case r of (n, lo, hi) \<Rightarrow> n \<le> 8 \<and> length lo = 16 \<and> length hi = 16 \<and>
        (\<forall>c. shufti_hit lo hi c \<longleftrightarrow> c \<in> cr_elems cr) \<and> shufti2cr lo hi = cr)) \<and>
    shuftiBuildMasks cr \<noteq> None \<and> (cr_count cr \<le> 8 \<longrightarrow> shuftiBuildMasks cr \<noteq> Some None)"
proof -
  let ?cs = "sorted_list_of_set (cr_elems cr)"
  let ?E = "group_by_lo_set (group_by_hi ?cs)"
  have cs: "set ?cs = cr_elems cr" by simp
  note E = shufti_groups [OF cs]
  have len: "cr_count cr \<le> 8 \<Longrightarrow> length ?E \<le> 8" using E(3) assms by (simp add: cr_count_spec)
  have build: "shuftiBuildMasks cr = (if length ?E > 8 then Some None
      else map_option Some (shufti_buckets ?E 0 (replicate 16 0) (replicate 16 0)))"
    using assms by (simp add: shuftiBuildMasks_def cr_chars_spec Let_def)
  show ?thesis
  proof (cases "length ?E > 8")
    case True
    then show ?thesis using build len by auto
  next
    case False
    then have le: "0 + length ?E \<le> 8" by simp
    have okE: "\<forall>(L, H) \<in> set ?E. cr_ok L \<and> cr_ok H \<and> (\<forall>x \<in> cr_elems L. unat x < 16) \<and> (\<forall>x \<in> cr_elems H. unat x < 16)"
      using E(1) by blast
    obtain lo hi where r: "shufti_buckets ?E 0 (replicate 16 0) (replicate 16 0) = Some (0 + length ?E, lo, hi)"
      "length lo = 16" "length hi = 16"
      and lo: "\<And>i b. table_bit lo i b \<longleftrightarrow> table_bit (replicate 16 0) i b \<or> (\<exists>k < length ?E. b = 0 + k \<and> (\<exists>x \<in> cr_elems (fst (?E ! k)). i = unat x))"
      and hi: "\<And>i b. table_bit hi i b \<longleftrightarrow> table_bit (replicate 16 0) i b \<or> (\<exists>k < length ?E. b = 0 + k \<and> (\<exists>x \<in> cr_elems (snd (?E ! k)). i = unat x))"
      by (rule shufti_buckets_spec [OF okE le, of "replicate 16 0" "replicate 16 0"]) simp_all
    have "shufti_hit lo hi c \<longleftrightarrow> c \<in> cr_elems cr" for c
    proof -
      let ?l = "c AND 0xf" and ?h = "drop_bit 4 c"
      have lt: "unat ?l < 16" "unat ?h < 16" using byte_masks(1,6) [of c] unat_u8 [of c] by (simp_all add: less_mult_imp_div_less)
      have "shufti_hit lo hi c \<longleftrightarrow> (\<exists>b < 8. table_bit lo (unat ?l) b \<and> table_bit hi (unat ?h) b)"
        unfolding shufti_hit_def byte_and_nonzero table_bit_def ..
      also have "\<dots> \<longleftrightarrow> (\<exists>k < length ?E. ?l \<in> cr_elems (fst (?E ! k)) \<and> ?h \<in> cr_elems (snd (?E ! k)))"
      proof -
        have eq: "table_bit lo (unat ?l) b \<and> table_bit hi (unat ?h) b \<longleftrightarrow>
            b < length ?E \<and> ?l \<in> cr_elems (fst (?E ! b)) \<and> ?h \<in> cr_elems (snd (?E ! b))" for b
          using lt by (auto simp: lo hi word_unat_eq_iff [symmetric])
        have "b < 8" if "b < length ?E" for b using that le by simp
        then show ?thesis unfolding eq by blast
      qed
      also have "\<dots> \<longleftrightarrow> (\<exists>e \<in> set ?E. ?l \<in> cr_elems (fst e) \<and> ?h \<in> cr_elems (snd e))"
        by (rule ex_nth)
      also have "\<dots> \<longleftrightarrow> (\<exists>(L, H) \<in> set ?E. ?l \<in> cr_elems L \<and> ?h \<in> cr_elems H)" by (simp add: case_prod_beta)
      also have "\<dots> \<longleftrightarrow> c \<in> cr_elems cr" by (rule E(2))
      finally show ?thesis .
    qed
    moreover from this have "shufti2cr lo hi = cr" using shufti2cr_spec [of lo hi] assms by (simp add: cr_eq_iff)
    ultimately show ?thesis using build r False by simp
  qed
qed

theorem shufti_masks_exact_witness:
  "shuftiBuildMasks (cr_set (cr_set cr_new 0x41) 0x61) \<noteq> Some None \<and> shuftiBuildMasks (cr_set (cr_set cr_new 0x41) 0x61) \<noteq> None"
  using shufti_masks_exact [of "cr_set (cr_set cr_new 0x41) 0x61"] by (simp add: cr_single cr_new_spec cr_count_spec card_insert_if)

section \<open>Two-byte shufti\<close>

definition MAX_BUCKETS :: nat where "MAX_BUCKETS = 8"

definition or_array :: "u16 list \<Rightarrow> u16 list \<Rightarrow> u16 list" where
  "or_array a b = [a ! 0 OR b ! 0, a ! 1 OR b ! 1, a ! 2 OR b ! 2, a ! 3 OR b ! 3]"

definition set_buckets_from_mask :: "u16 \<Rightarrow> nat \<Rightarrow> u8 list \<Rightarrow> u8 list" where
  "set_buckets_from_mask nibble_mask bucket byte_mask =
     lsb_loop (\<lambda>n bm. bm[n := bm ! n AND NOT (push_bit bucket 1)]) (ucast nibble_mask) byte_mask"

definition two_byte_mask :: "u8 \<times> u8 \<Rightarrow> u16 list" where
  "two_byte_mask p =
     [push_bit (unat (fst p AND 0xf)) 1, push_bit (unat (drop_bit 4 (fst p))) 1,
      push_bit (unat (snd p AND 0xf)) 1, push_bit (unat (drop_bit 4 (snd p))) 1]"

definition one_byte_mask :: "u8 \<Rightarrow> u16 list" where
  "one_byte_mask it = [push_bit (unat (it AND 0xf)) 1, push_bit (unat (drop_bit 4 it)) 1, 0xffff, 0xffff]"

definition merge_step :: "nat \<Rightarrow> (u16 list \<times> u16 list) list \<Rightarrow> u16 list \<Rightarrow> (u16 list \<times> u16 list) list" where
  "merge_step i new_masks a =
     (let key = a[i := 0]
      in case flat_map_lookup new_masks key of
           None \<Rightarrow> flat_map_assign new_masks [] key a
         | Some old \<Rightarrow> flat_map_assign new_masks [] key (or_array old a))"

definition merge_masks :: "u16 list list \<Rightarrow> nat \<Rightarrow> u16 list list" where
  "merge_masks nibble_masks i = map snd (foldl (merge_step i) [] nibble_masks)"

fun fill_double :: "u16 list list \<Rightarrow> nat \<Rightarrow> u8 list \<times> u8 list \<times> u8 list \<times> u8 list \<Rightarrow> u8 list \<times> u8 list \<times> u8 list \<times> u8 list" where
  "fill_double [] i masks = masks"
| "fill_double (a # as) i (lo1, hi1, lo2, hi2) =
     fill_double as (i + 1)
       (set_buckets_from_mask (a ! 0) i lo1, set_buckets_from_mask (a ! 1) i hi1,
        set_buckets_from_mask (a ! 2) i lo2, set_buckets_from_mask (a ! 3) i hi2)"

text \<open>The tables are \<open>None\<close> inside when too many buckets are needed.\<close>

definition shuftiBuildDoubleMasks ::
  "charreach \<Rightarrow> (u8 \<times> u8) list \<Rightarrow> (u8 list \<times> u8 list \<times> u8 list \<times> u8 list) option option" where
  "shuftiBuildDoubleMasks onechar twochar =
     Option.bind (cr_chars onechar) (\<lambda>ones.
       let nibble_masks = foldl merge_masks (map two_byte_mask twochar @ map one_byte_mask ones) [0..<4]
       in if length nibble_masks > MAX_BUCKETS then Some None
          else Some (Some (fill_double nibble_masks 0
                 (replicate 16 0xff, replicate 16 0xff, replicate 16 0xff, replicate 16 0xff))))"

text \<open>
  What \<^verbatim>\<open>blockDoubleMask\<close> of \<^verbatim>\<open>nfa/x86/shufti.hpp\<close> computes in one lane: \<open>x\<close> is the byte before
  \<open>y\<close>, whose lookups the kernel shifts into the lane of \<open>y\<close>, and the lane matches unless all bits are set.
\<close>

definition double_hit :: "u8 list \<times> u8 list \<times> u8 list \<times> u8 list \<Rightarrow> u8 \<Rightarrow> u8 \<Rightarrow> bool" where
  "double_hit masks x y =
     (let (mask1_lo, mask1_hi, mask2_lo, mask2_hi) = masks;
          c1 = mask1_lo ! unat (x AND 0xf) OR mask1_hi ! unat (drop_bit 4 x);
          c2 = mask2_lo ! unat (y AND 0xf) OR mask2_hi ! unat (drop_bit 4 y)
      in c1 OR c2 \<noteq> 0xff)"

text \<open>The pairs of bytes that a quadruple of nibble masks stands for.\<close>

definition nibble_of :: "u8 \<times> u8 \<Rightarrow> nat \<Rightarrow> nat" where
  "nibble_of p j = [unat (fst p) mod 16, unat (fst p) div 16, unat (snd p) mod 16, unat (snd p) div 16] ! j"

lemma nibble_of_simps:
  "nibble_of p 0 = unat (fst p) mod 16" "nibble_of p 1 = unat (fst p) div 16"
  "nibble_of p 2 = unat (snd p) mod 16" "nibble_of p 3 = unat (snd p) div 16"
  by (simp_all add: nibble_of_def)

lemma nth_four: "[a, b, c, d] ! 0 = a" "[a, b, c, d] ! 1 = b" "[a, b, c, d] ! 2 = c" "[a, b, c, d] ! 3 = d"
  by simp_all

definition mask_pairs :: "u16 list \<Rightarrow> (u8 \<times> u8) set" where
  "mask_pairs a = {p. \<forall>j < 4. bit (a ! j) (nibble_of p j)}"

lemma less_4: "(\<forall>j < 4. P j) \<longleftrightarrow> P 0 \<and> P 1 \<and> P 2 \<and> P (3 :: nat)"
  by (auto simp: numeral_eq_Suc less_Suc_eq)

lemma nth_or_array: "j < 4 \<Longrightarrow> or_array a b ! j = a ! j OR b ! j"
  by (auto simp: or_array_def numeral_eq_Suc less_Suc_eq)

lemma mask_pairs_or:
  assumes "length a = 4" "length b = 4" "a[i := 0] = b[i := 0]" "i < 4"
  shows "mask_pairs (or_array a b) = mask_pairs a \<union> mask_pairs b" "(or_array a b)[i := 0] = a[i := 0]" "length (or_array a b) = 4"
proof -
  have same: "a ! j = b ! j" if "j \<noteq> i" for j using arg_cong [OF assms(3), of "\<lambda>xs. xs ! j"] that by simp
  have "p \<in> mask_pairs (or_array a b) \<longleftrightarrow> p \<in> mask_pairs a \<or> p \<in> mask_pairs b" for p
  proof -
    have "p \<in> mask_pairs (or_array a b) \<longleftrightarrow> (\<forall>j < 4. bit (a ! j) (nibble_of p j) \<or> bit (b ! j) (nibble_of p j))"
      by (simp add: mask_pairs_def nth_or_array bit_or_iff)
    also have "\<dots> \<longleftrightarrow> p \<in> mask_pairs a \<or> p \<in> mask_pairs b"
      using same assms(4) unfolding mask_pairs_def by (auto) metis+
    finally show ?thesis .
  qed
  then show "mask_pairs (or_array a b) = mask_pairs a \<union> mask_pairs b" by blast
  show len: "length (or_array a b) = 4" by (simp add: or_array_def)
  show "(or_array a b)[i := 0] = a[i := 0]"
  proof (rule nth_equalityI)
    fix j assume "j < length ((or_array a b)[i := 0])"
    then show "(or_array a b)[i := 0] ! j = a[i := 0] ! j"
      using len assms(1) same [of j] by (cases "j = i") (simp_all add: nth_or_array)
  qed (simp add: len assms(1))
qed

definition cover :: "u16 list set \<Rightarrow> (u8 \<times> u8) set" where
  "cover S = (\<Union>a \<in> S. mask_pairs a)"

definition merged :: "nat \<Rightarrow> (u16 list \<times> u16 list) list \<Rightarrow> bool" where
  "merged i m \<longleftrightarrow> flat_map_ok m \<and> (\<forall>k w. map_of m k = Some w \<longrightarrow> length w = 4 \<and> w[i := 0] = k)"

lemma merge_step_spec:
  assumes "merged i m" "length a = 4" "i < 4"
  shows "merged i (merge_step i m a)" "cover (ran (map_of (merge_step i m a))) = cover (ran (map_of m)) \<union> mask_pairs a"
proof -
  have ok: "flat_map_ok m" and ent: "\<And>k w. map_of m k = Some w \<Longrightarrow> length w = 4 \<and> w[i := 0] = k"
    using assms(1) by (auto simp: merged_def)
  let ?k = "a[i := 0]"
  have look: "flat_map_lookup m ?k = map_of m ?k" by (rule fmap.get_entries [OF ok])
  note put = flat_map_assign_spec [OF ok]
  have "merged i (merge_step i m a) \<and> cover (ran (map_of (merge_step i m a))) = cover (ran (map_of m)) \<union> mask_pairs a"
  proof (cases "map_of m ?k")
    case None
    then show ?thesis
      using ent put assms(2) by (auto simp: merge_step_def look merged_def cover_def ran_map_upd)
  next
    case (Some old)
    note old = ent [OF Some]
    note union = mask_pairs_or [of old a i]
    have st: "merge_step i m a = flat_map_assign m [] ?k (or_array old a)" by (simp add: merge_step_def look Some)
    have "merged i (merge_step i m a)"
      unfolding st merged_def put(2) using put(1) ent old union assms(2,3) by auto
    moreover have "p \<in> cover (ran (map_of (merge_step i m a))) \<longleftrightarrow> p \<in> cover (ran (map_of m)) \<union> mask_pairs a" for p
    proof -
      have "p \<in> cover (ran (map_of (merge_step i m a))) \<longleftrightarrow>
          p \<in> mask_pairs (or_array old a) \<or> (\<exists>k w. k \<noteq> ?k \<and> map_of m k = Some w \<and> p \<in> mask_pairs w)"
        unfolding st put(2) cover_def ran_def by auto
      also have "\<dots> \<longleftrightarrow> p \<in> cover (ran (map_of m)) \<union> mask_pairs a"
      proof -
        have "p \<in> cover (ran (map_of m)) \<longleftrightarrow> (\<exists>k w. map_of m k = Some w \<and> p \<in> mask_pairs w)"
          unfolding cover_def ran_def by auto
        also have "\<dots> \<longleftrightarrow> p \<in> mask_pairs old \<or> (\<exists>k w. k \<noteq> ?k \<and> map_of m k = Some w \<and> p \<in> mask_pairs w)"
          using Some by (metis option.inject)
        finally show ?thesis using union old assms(2,3) by auto
      qed
      finally show ?thesis .
    qed
    ultimately show ?thesis by blast
  qed
  then show "merged i (merge_step i m a)" "cover (ran (map_of (merge_step i m a))) = cover (ran (map_of m)) \<union> mask_pairs a" by auto
qed

lemma merge_masks_spec:
  assumes "\<forall>a \<in> set nm. length a = 4" "i < 4"
  shows "\<forall>a \<in> set (merge_masks nm i). length a = 4" "cover (set (merge_masks nm i)) = cover (set nm)"
proof -
  have fold: "merged i (foldl (merge_step i) m xs) \<and> cover (ran (map_of (foldl (merge_step i) m xs))) = cover (ran (map_of m)) \<union> cover (set xs)"
    if "merged i m" "\<forall>a \<in> set xs. length a = 4" for m xs
    using that
  proof (induction xs arbitrary: m)
    case (Cons a xs)
    note st = merge_step_spec [OF Cons.prems(1) _ assms(2), of a]
    show ?case using Cons.IH [of "merge_step i m a"] Cons.prems(2) st by (auto simp: cover_def)
  qed (simp add: cover_def)
  let ?m = "foldl (merge_step i) [] nm"
  have m: "merged i ?m" "cover (ran (map_of ?m)) = cover (set nm)"
    using fold [of "[]" nm] assms(1) by (auto simp: merged_def flat_map_ok_def cover_def)
  have "distinct (map fst ?m)" using m(1) by (auto simp: merged_def flat_map_ok_def strict_sorted_iff)
  then have ran: "ran (map_of ?m) = set (merge_masks nm i)" by (simp add: ran_distinct merge_masks_def)
  show "cover (set (merge_masks nm i)) = cover (set nm)" using m(2) ran by simp
  show "\<forall>a \<in> set (merge_masks nm i). length a = 4" using m(1) unfolding ran [symmetric] merged_def ran_def by blast
qed

text \<open>Merging leaves one mask per mask without its component \<open>i\<close>, so the number of masks never grows.\<close>

lemma length_merge_masks:
  assumes "\<forall>a \<in> set nm. length a = 4" "i < 4"
  shows "length (merge_masks nm i) = card ((\<lambda>a. a[i := 0]) ` set nm)"
proof -
  have fold: "merged i (foldl (merge_step i) m xs) \<and>
      dom (map_of (foldl (merge_step i) m xs)) = dom (map_of m) \<union> (\<lambda>a. a[i := 0]) ` set xs"
    if "merged i m" "\<forall>a \<in> set xs. length a = 4" for m xs
    using that
  proof (induction xs arbitrary: m)
    case (Cons a xs)
    have ok: "flat_map_ok m" using Cons.prems(1) by (simp add: merged_def)
    have "dom (map_of (merge_step i m a)) = insert (a[i := 0]) (dom (map_of m))"
      by (simp add: merge_step_def Let_def flat_map_assign_spec(2) [OF ok] split: option.split)
    then show ?case
      using Cons.IH [of "merge_step i m a"] merge_step_spec(1) [OF Cons.prems(1) _ assms(2), of a] Cons.prems(2) by auto
  qed simp
  let ?m = "foldl (merge_step i) [] nm"
  have m: "merged i ?m" "dom (map_of ?m) = (\<lambda>a. a[i := 0]) ` set nm"
    using fold [of "[]" nm] assms(1) by (auto simp: merged_def flat_map_ok_def)
  have "distinct (map fst ?m)" using m(1) by (auto simp: merged_def flat_map_ok_def strict_sorted_iff)
  then have "length ?m = card (fst ` set ?m)" using distinct_card [of "map fst ?m"] by simp
  then show ?thesis using m(2) by (simp add: merge_masks_def dom_map_of_conv_image_fst)
qed

lemma length_merge_masks_le:
  "\<forall>a \<in> set nm. length a = 4 \<Longrightarrow> i < 4 \<Longrightarrow> length (merge_masks nm i) \<le> length nm"
  using length_merge_masks card_image_le [OF List.finite_set, of "\<lambda>a. a[i := 0]" nm] card_length [of nm] by simp

lemma merge_all_spec:
  assumes "\<forall>a \<in> set nm. length a = 4"
  shows "\<forall>a \<in> set (foldl merge_masks nm [0..<4]). length a = 4" "cover (set (foldl merge_masks nm [0..<4])) = cover (set nm)"
    "length (foldl merge_masks nm [0..<4]) \<le> card ((\<lambda>a. a[0 := 0]) ` set nm)"
proof -
  have upt: "[0..<4] = [0, 1, 2, 3 :: nat]" by (simp add: upt_rec)
  note m0 = merge_masks_spec [OF assms, of 0]
  note m1 = merge_masks_spec [OF m0(1), of 1]
  note m2 = merge_masks_spec [OF m1(1), of 2]
  note m3 = merge_masks_spec [OF m2(1), of 3]
  show "\<forall>a \<in> set (foldl merge_masks nm [0..<4]). length a = 4" "cover (set (foldl merge_masks nm [0..<4])) = cover (set nm)"
    using m0 m1 m2 m3 by (simp_all add: upt)
  show "length (foldl merge_masks nm [0..<4]) \<le> card ((\<lambda>a. a[0 := 0]) ` set nm)"
    using length_merge_masks [OF assms, of 0] length_merge_masks_le [OF m0(1), of 1]
      length_merge_masks_le [OF m1(1), of 2] length_merge_masks_le [OF m2(1), of 3]
    by (simp add: upt)
qed

lemma buckets_from_mask_spec:
  assumes "length bm = 16" "k < 8"
  shows "length (set_buckets_from_mask m k bm) = 16"
    and "n < 16 \<Longrightarrow> table_bit (set_buckets_from_mask m k bm) n b \<longleftrightarrow> table_bit bm n b \<and> \<not> (b = k \<and> bit m n)"
proof -
  let ?f = "\<lambda>bm n. bm[n := bm ! n AND NOT (2 ^ k)] :: u8 list"
  have fold: "length (foldl ?f bm ns) = 16 \<and> (\<forall>n < 16. \<forall>b. table_bit (foldl ?f bm ns) n b \<longleftrightarrow> table_bit bm n b \<and> \<not> (b = k \<and> n \<in> set ns))"
    if "length bm = 16" for bm ns
    using that
  proof (induction ns arbitrary: bm)
    case (Cons m ns)
    have "table_bit (?f bm m) n b \<longleftrightarrow> table_bit bm n b \<and> \<not> (b = k \<and> n = m)" if "n < 16" for n b
    proof (cases "n = m")
      case True
      then have "?f bm m ! n = bm ! n AND NOT (2 ^ k)" using that Cons.prems by simp
      then show ?thesis using True assms(2) by (auto simp: table_bit_def bit_simps dest: bit_imp_le_length)
    qed (simp add: table_bit_def)
    then show ?case using Cons.IH [of "?f bm m"] Cons.prems by auto
  qed simp
  have "{p. bit (ucast m :: u32) p} = {p. bit m p}" by (auto simp: bit_ucast_iff dest: bit_imp_le_length)
  then show "length (set_buckets_from_mask m k bm) = 16"
    and "n < 16 \<Longrightarrow> table_bit (set_buckets_from_mask m k bm) n b \<longleftrightarrow> table_bit bm n b \<and> \<not> (b = k \<and> bit m n)"
    using fold [OF assms(1), of "bit_list (ucast m :: u32)"]
    by (auto simp: set_buckets_from_mask_def lsb_loop_foldl bit_list_spec(1))
qed

text \<open>The four tables are filled independently.\<close>

fun fill_one :: "nat \<Rightarrow> u16 list list \<Rightarrow> nat \<Rightarrow> u8 list \<Rightarrow> u8 list" where
  "fill_one j [] i t = t"
| "fill_one j (a # as) i t = fill_one j as (i + 1) (set_buckets_from_mask (a ! j) i t)"

lemma fill_double_one:
  "fill_double as i (lo1, hi1, lo2, hi2) = (fill_one 0 as i lo1, fill_one 1 as i hi1, fill_one 2 as i lo2, fill_one 3 as i hi2)"
  by (induction as arbitrary: i lo1 hi1 lo2 hi2) simp_all

lemma fill_one_spec:
  assumes "i + length as \<le> 8" "length t = 16" "n < 16"
  shows "table_bit (fill_one j as i t) n b \<longleftrightarrow> table_bit t n b \<and> \<not> (\<exists>k < length as. b = i + k \<and> bit (as ! k ! j) n)"
  using assms
proof (induction as arbitrary: i t)
  case (Cons a as)
  let ?t = "set_buckets_from_mask (a ! j) i t"
  have i: "i < 8" "i + 1 + length as \<le> 8" using Cons.prems(1) by simp_all
  note st = buckets_from_mask_spec [OF Cons.prems(2) i(1)]
  have ex: "(\<exists>k < length (a # as). b = i + k \<and> bit ((a # as) ! k ! j) n) \<longleftrightarrow>
      (b = i \<and> bit (a ! j) n) \<or> (\<exists>k < length as. b = i + 1 + k \<and> bit (as ! k ! j) n)"
    by (auto simp: less_Suc_eq_0_disj)
  show ?case unfolding ex fill_one.simps Cons.IH [OF i(2) st(1) Cons.prems(3)] st(2) [OF Cons.prems(3)] by blast
qed simp

lemma byte_not_ff: "x \<noteq> 0xff \<longleftrightarrow> (\<exists>b < 8. \<not> bit x b)" for x :: u8
proof -
  have "(0xff :: u8) = - 1" by simp
  then have ff: "bit (0xff :: u8) b \<longleftrightarrow> b < 8" for b by (simp only: bit_minus_1_iff possible_bit_word) simp
  show ?thesis
  proof
    assume "x \<noteq> 0xff"
    then show "\<exists>b < 8. \<not> bit x b" using bit_eqI [of x "0xff"] ff bit_imp_le_length [of x] by fastforce
  next
    assume "\<exists>b < 8. \<not> bit x b"
    then show "x \<noteq> 0xff" using ff by blast
  qed
qed

lemma table_ff: "n < 16 \<Longrightarrow> table_bit (replicate 16 0xff) n b \<longleftrightarrow> b < 8"
proof -
  have "(0xff :: u8) = - 1" by simp
  then have "bit (0xff :: u8) b \<longleftrightarrow> b < 8" by (simp only: bit_minus_1_iff possible_bit_word) simp
  then show "n < 16 \<Longrightarrow> ?thesis" by (simp only: table_bit_def nth_replicate)
qed

lemma double_hit_cover:
  assumes "length as \<le> 8"
  shows "double_hit (fill_double as 0 (replicate 16 0xff, replicate 16 0xff, replicate 16 0xff, replicate 16 0xff)) x y \<longleftrightarrow>
    (x, y) \<in> cover (set as)"
proof -
  have lt: "unat x mod 16 < 16" "unat x div 16 < 16" "unat y mod 16 < 16" "unat y div 16 < 16"
    using unat_u8 [of x] unat_u8 [of y] by (simp_all add: less_mult_imp_div_less)
  let ?ff = "replicate 16 (0xff :: u8)"
  have le: "0 + length as \<le> 8" and len: "length ?ff = 16" using assms by simp_all
  have bit: "bit (fill_one j as 0 ?ff ! n) b \<longleftrightarrow> b < 8 \<and> \<not> (b < length as \<and> bit (as ! b ! j) n)" if "n < 16" for j n b
    using fill_one_spec [OF le len that, of j b] table_ff [OF that, of b] by (auto simp: table_bit_def)
  have "double_hit (fill_double as 0 (?ff, ?ff, ?ff, ?ff)) x y \<longleftrightarrow>
      (\<exists>b < 8. b < length as \<and> bit (as ! b ! 0) (unat x mod 16) \<and> bit (as ! b ! 1) (unat x div 16) \<and>
         bit (as ! b ! 2) (unat y mod 16) \<and> bit (as ! b ! 3) (unat y div 16))"
    unfolding fill_double_one double_hit_def Let_def prod.case byte_masks(1,6) byte_not_ff bit_or_iff bit [OF lt(1)] bit [OF lt(2)] bit [OF lt(3)] bit [OF lt(4)]
    by blast
  also have "\<dots> \<longleftrightarrow> (\<exists>b < length as. (x, y) \<in> mask_pairs (as ! b))"
  proof -
    have "b < 8" if "b < length as" for b using that assms by simp
    then show ?thesis unfolding mask_pairs_def less_4 mem_Collect_eq nibble_of_simps fst_conv snd_conv by blast
  qed
  also have "\<dots> \<longleftrightarrow> (x, y) \<in> cover (set as)" unfolding ex_nth [of as "\<lambda>a. (x, y) \<in> mask_pairs a"] cover_def by blast
  finally show ?thesis .
qed

lemma mask_pairs_two: "mask_pairs (two_byte_mask p) = {p}"
proof -
  have b: "bit (push_bit n 1 :: u16) m \<longleftrightarrow> m = n \<and> n < 16" for n m by (auto simp: bit_simps dest: bit_imp_le_length)
  have lt: "unat (v AND 0xf) < 16" "unat (drop_bit 4 v) < 16" for v :: u8
    using byte_masks(1,6) [of v] unat_u8 [of v] by (simp_all add: less_mult_imp_div_less)
  have "q \<in> mask_pairs (two_byte_mask p) \<longleftrightarrow>
      unat (fst q) mod 16 = unat (fst p) mod 16 \<and> unat (fst q) div 16 = unat (fst p) div 16 \<and>
      unat (snd q) mod 16 = unat (snd p) mod 16 \<and> unat (snd q) div 16 = unat (snd p) div 16" for q
    unfolding mask_pairs_def less_4 two_byte_mask_def mem_Collect_eq nibble_of_simps nth_four b byte_masks(1,6)
    using lt [unfolded byte_masks(1,6)] by blast
  then have "q \<in> mask_pairs (two_byte_mask p) \<longleftrightarrow> q = p" for q
    by (metis div_mult_mod_eq word_unat_eq_iff prod_eq_iff)
  then show ?thesis by blast
qed

lemma mask_pairs_one: "mask_pairs (one_byte_mask v) = {p. fst p = v}"
proof -
  have b: "bit (push_bit n 1 :: u16) m \<longleftrightarrow> m = n \<and> n < 16" for n m by (auto simp: bit_simps dest: bit_imp_le_length)
  have "(0xffff :: u16) = - 1" by simp
  then have ff: "bit (0xffff :: u16) m \<longleftrightarrow> m < 16" for m by (simp only: bit_minus_1_iff possible_bit_word) simp
  have lt: "unat (u :: u8) mod 16 < 16" "unat u div 16 < 16" for u
    using unat_u8 [of u] by (simp_all add: less_mult_imp_div_less)
  have "q \<in> mask_pairs (one_byte_mask v) \<longleftrightarrow> unat (fst q) mod 16 = unat v mod 16 \<and> unat (fst q) div 16 = unat v div 16" for q
    unfolding mask_pairs_def less_4 one_byte_mask_def mem_Collect_eq nibble_of_simps nth_four b ff byte_masks(1,6)
    using lt by blast
  then have "q \<in> mask_pairs (one_byte_mask v) \<longleftrightarrow> fst q = v" for q by (metis div_mult_mod_eq word_unat_eq_iff)
  then show ?thesis by blast
qed

text \<open>
  The masks that the first merge can leave: a literal counts by the high nibble of its first byte and its second
  byte, a character of the class by its high nibble.
\<close>

lemma first_merge_bound:
  "card ((\<lambda>a. a[0 := 0]) ` set (map two_byte_mask two @ map one_byte_mask one)) \<le>
     card ((\<lambda>(x, y). (drop_bit 4 x, y)) ` set two) + card (drop_bit 4 ` set one)"
proof -
  let ?k = "\<lambda>a. a[0 := 0] :: u16 list" and ?h = "\<lambda>(x :: u8, y :: u8). (drop_bit 4 x, y)"
  define two_key where "two_key p = ?k (two_byte_mask (push_bit 4 (fst p), snd p))" for p
  define one_key where "one_key h = ?k (one_byte_mask (push_bit 4 h))" for h
  have hi: "drop_bit 4 (push_bit 4 (drop_bit 4 x)) = drop_bit 4 x" for x :: u8
    by (rule bit_eqI) (auto simp: bit_simps dest: bit_imp_le_length)
  have keys: "?k (two_byte_mask p) = two_key (?h p)" "?k (one_byte_mask v) = one_key (drop_bit 4 v)" for p v
    by (simp_all add: two_key_def one_key_def two_byte_mask_def one_byte_mask_def hi case_prod_beta)
  have "?k ` set (map two_byte_mask two @ map one_byte_mask one) = two_key ` ?h ` set two \<union> one_key ` drop_bit 4 ` set one"
    unfolding set_append set_map image_Un image_image keys ..
  then have "card (?k ` set (map two_byte_mask two @ map one_byte_mask one)) \<le>
      card (two_key ` ?h ` set two) + card (one_key ` drop_bit 4 ` set one)"
    by (metis card_Un_le)
  also have "\<dots> \<le> card (?h ` set two) + card (drop_bit 4 ` set one)"
    by (intro add_mono card_image_le finite_imageI List.finite_set)
  finally show ?thesis .
qed

text \<open>
  C35. Two-byte masks. \<^verbatim>\<open>shuftiBuildDoubleMasks\<close> finds masks at least whenever the two-byte literals,
  counted without the low nibble of their first byte, and the high nibbles of the one-byte class are together no more
  than eight, so in particular for eight or fewer literals and characters in all. Whenever it finds masks, merged
  quadruples of nibble masks included, the four-table lookup of two consecutive bytes hits exactly when the first byte is in
  the one-byte class or the pair is one of the two-byte literals.
\<close>

theorem shufti_double_exact:
  assumes "cr_ok onechar"
  shows "\<exists>r. shuftiBuildDoubleMasks onechar twochar = Some r \<and>
    (card ((\<lambda>(x, y). (drop_bit 4 x, y)) ` set twochar) + card (drop_bit 4 ` cr_elems onechar) \<le> 8 \<longrightarrow> r \<noteq> None) \<and>
    (\<forall>masks. r = Some masks \<longrightarrow> (\<forall>x y. double_hit masks x y \<longleftrightarrow> x \<in> cr_elems onechar \<or> (x, y) \<in> set twochar))"
proof -
  let ?ones = "sorted_list_of_set (cr_elems onechar)"
  let ?nm = "map two_byte_mask twochar @ map one_byte_mask ?ones"
  let ?as = "foldl merge_masks ?nm [0..<4]"
  let ?ff = "replicate 16 (0xff :: u8)"
  have four: "\<forall>a \<in> set ?nm. length a = 4" by (auto simp: two_byte_mask_def one_byte_mask_def)
  have "cover (set ?nm) = set twochar \<union> {p. fst p \<in> cr_elems onechar}"
    by (auto simp: cover_def mask_pairs_two mask_pairs_one)
  then have cov: "cover (set ?as) = set twochar \<union> {p. fst p \<in> cr_elems onechar}" using merge_all_spec(2) [OF four] by simp
  have few: "length ?as \<le> card ((\<lambda>(x, y). (drop_bit 4 x, y)) ` set twochar) + card (drop_bit 4 ` cr_elems onechar)"
    using merge_all_spec(3) [OF four] first_merge_bound [of twochar ?ones] by simp
  have build: "shuftiBuildDoubleMasks onechar twochar =
      Some (if length ?as > 8 then None else Some (fill_double ?as 0 (?ff, ?ff, ?ff, ?ff)))"
    using assms by (simp add: shuftiBuildDoubleMasks_def cr_chars_spec Let_def MAX_BUCKETS_def)
  show ?thesis
  proof (cases "length ?as > 8")
    case True
    then show ?thesis using few by (simp add: build)
  next
    case False
    then have "length ?as \<le> 8" by simp
    from double_hit_cover [OF this] cov
    have "double_hit (fill_double ?as 0 (?ff, ?ff, ?ff, ?ff)) x y \<longleftrightarrow> x \<in> cr_elems onechar \<or> (x, y) \<in> set twochar" for x y by auto
    then show ?thesis unfolding build if_not_P [OF False] by blast
  qed
qed

text \<open>
  A class of one character and a literal have masks that tell them apart from other pairs.
\<close>

theorem shufti_double_exact_witness:
  "\<exists>masks. shuftiBuildDoubleMasks (cr_set cr_new 0x41) [(0x61, 0x62)] = Some (Some masks) \<and>
     double_hit masks 0x61 0x62 \<and> double_hit masks 0x41 0x00 \<and> \<not> double_hit masks 0x61 0x61 \<and> \<not> double_hit masks 0x42 0x62"
proof -
  have "cr_ok (cr_set cr_new 0x41)" and e: "cr_elems (cr_set cr_new 0x41) = {0x41}" by (simp_all add: cr_single cr_new_spec)
  from shufti_double_exact [OF this(1), of "[(0x61, 0x62)]"] obtain masks where
    "shuftiBuildDoubleMasks (cr_set cr_new 0x41) [(0x61, 0x62)] = Some (Some masks)"
    "\<And>x y. double_hit masks x y \<longleftrightarrow> x \<in> {0x41} \<or> (x, y) \<in> {(0x61, 0x62)}"
    by (auto simp: e)
  then show ?thesis by auto
qed

end
