(* ===== verification/Depth.thy ===== *)
theory Depth
  imports VS_Prelude
begin

text \<open>
  Depths, \<^verbatim>\<open>util/depth.h\<close> and \<^verbatim>\<open>util/depth.cpp\<close>: a 32-bit value that is
  a finite count below \<open>2 ^ 31 - 1\<close>, the infinite depth or the unreachable one. Operations that cannot
  represent their result throw; here they return the error. The abstraction reads a depth as a count
  extended by two top elements, over which arithmetic is exact; a range of depths denotes the set of
  counts between its ends.
\<close>

section \<open>Model\<close>

datatype depth_error = DepthOverflowError

datatype depth = Depth (val: u32)

type_synonym 'a depth_result = "depth_error + 'a"

definition val_infinity :: u32 where "val_infinity = push_bit 31 1 - 1"
definition val_unreachable :: u32 where "val_unreachable = push_bit 31 1"

definition depth_max_value :: u32 where "depth_max_value = val_infinity - 1"

definition depth_new :: "u32 \<Rightarrow> depth depth_result" where
  "depth_new v = (if v > depth_max_value then Inl DepthOverflowError else Inr (Depth v))"

definition depth_unreachable :: depth where "depth_unreachable = Depth val_unreachable"
definition depth_infinity :: depth where "depth_infinity = Depth val_infinity"

definition is_finite :: "depth \<Rightarrow> bool" where "is_finite d \<longleftrightarrow> val d < val_infinity"
definition is_infinite :: "depth \<Rightarrow> bool" where "is_infinite d \<longleftrightarrow> val d = val_infinity"
definition is_unreachable :: "depth \<Rightarrow> bool" where "is_unreachable d \<longleftrightarrow> val d = val_unreachable"
definition is_reachable :: "depth \<Rightarrow> bool" where "is_reachable d \<longleftrightarrow> \<not> is_unreachable d"

definition depth_to_u32 :: "depth \<Rightarrow> u32 depth_result" where
  "depth_to_u32 d = (if \<not> is_finite d then Inl DepthOverflowError else Inr (val d))"

instantiation depth :: linorder
begin

definition less_depth :: "depth \<Rightarrow> depth \<Rightarrow> bool" where "less_depth a b \<longleftrightarrow> val a < val b"
definition less_eq_depth :: "depth \<Rightarrow> depth \<Rightarrow> bool" where "less_eq_depth a b \<longleftrightarrow> val a \<le> val b"

instance
  by standard (auto simp: less_depth_def less_eq_depth_def intro: depth.expand)

end

definition depth_less_u64 :: "depth \<Rightarrow> u64a \<Rightarrow> bool" where
  "depth_less_u64 d x = (if \<not> is_finite d then False else ucast (val d) < x)"

definition depth_le_u64 :: "depth \<Rightarrow> u64a \<Rightarrow> bool" where
  "depth_le_u64 d x = (if \<not> is_finite d then False else ucast (val d) \<le> x)"

definition depth_eq_u64 :: "depth \<Rightarrow> u64a \<Rightarrow> bool" where
  "depth_eq_u64 d x = (if \<not> is_finite d then False else ucast (val d) = x)"

definition depth_gt_u64 :: "depth \<Rightarrow> u64a \<Rightarrow> bool" where "depth_gt_u64 d x \<longleftrightarrow> \<not> depth_le_u64 d x"
definition depth_ge_u64 :: "depth \<Rightarrow> u64a \<Rightarrow> bool" where "depth_ge_u64 d x \<longleftrightarrow> \<not> depth_less_u64 d x"

text \<open>The sum of two 32-bit values is a 32-bit value, widened only afterwards.\<close>

definition depth_add :: "depth \<Rightarrow> depth \<Rightarrow> depth depth_result" where
  "depth_add a d =
     (if is_unreachable a \<or> is_unreachable d then Inr depth_unreachable
      else if is_infinite a \<or> is_infinite d then Inr depth_infinity
      else let rv = (ucast (val a + val d) :: u64a)
           in if rv \<ge> ucast val_infinity then Inl DepthOverflowError else depth_new (ucast rv))"

definition depth_sub :: "depth \<Rightarrow> depth \<Rightarrow> depth depth_result" where
  "depth_sub a d =
     (if \<not> is_finite d then Inl DepthOverflowError
      else if is_unreachable a then Inr depth_unreachable
      else if is_infinite a then Inr depth_infinity
      else if val a < val d then Inl DepthOverflowError
      else depth_new (val a - val d))"

text \<open>The signed operand is converted to an unsigned one before the operation.\<close>

definition depth_add_s32 :: "depth \<Rightarrow> 32 word \<Rightarrow> depth depth_result" where
  "depth_add_s32 a d =
     (if is_unreachable a then Inr depth_unreachable
      else if is_infinite a then Inr depth_infinity
      else let rv = (ucast (val a + d) :: u64a)
           in if rv \<ge> ucast val_infinity then Inl DepthOverflowError else depth_new (ucast rv))"

definition depth_sub_s32 :: "depth \<Rightarrow> 32 word \<Rightarrow> depth depth_result" where
  "depth_sub_s32 a d =
     (if is_unreachable a then Inr depth_unreachable
      else if is_infinite a then Inr depth_infinity
      else let rv = (ucast (val a - d) :: u64a)
           in if rv \<ge> ucast val_infinity then Inl DepthOverflowError else depth_new (ucast rv))"

record DepthMinMax =
  dmin :: depth
  dmax :: depth

definition new_DepthMinMax :: DepthMinMax where
  "new_DepthMinMax = \<lparr>dmin = depth_infinity, dmax = Depth 0\<rparr>"

definition DepthMinMax_less :: "DepthMinMax \<Rightarrow> DepthMinMax \<Rightarrow> bool" where
  "DepthMinMax_less a b = (if dmin a \<noteq> dmin b then dmin a < dmin b else dmax a < dmax b)"

definition unionDepthMinMax :: "DepthMinMax \<Rightarrow> DepthMinMax \<Rightarrow> DepthMinMax" where
  "unionDepthMinMax a b =
     \<lparr>dmin = (if is_unreachable (dmin a) then dmin b
              else if is_unreachable (dmin b) then dmin a
              else min (dmin a) (dmin b)),
      dmax = (if is_infinite (dmax a) \<or> is_infinite (dmax b) then depth_infinity
              else if is_unreachable (dmax a) then dmax b
              else if is_unreachable (dmax b) then dmax a
              else max (dmax a) (dmax b))\<rparr>"

section \<open>Abstraction\<close>

datatype xdepth = Fin nat | Inf | Unreach

definition depth_ok :: "depth \<Rightarrow> bool" where
  "depth_ok d \<longleftrightarrow> val d \<le> val_unreachable"

definition abs_depth :: "depth \<Rightarrow> xdepth" where
  "abs_depth d = (if is_finite d then Fin (unat (val d)) else if is_infinite d then Inf else Unreach)"

text \<open>The largest finite depth.\<close>

definition max_finite :: nat where "max_finite = 2147483646"

definition xresult :: "int \<Rightarrow> xdepth depth_result" where
  "xresult n = (if 0 \<le> n \<and> n \<le> int max_finite then Inr (Fin (nat n)) else Inl DepthOverflowError)"

fun xadd :: "xdepth \<Rightarrow> xdepth \<Rightarrow> xdepth depth_result" where
  "xadd Unreach _ = Inr Unreach"
| "xadd _ Unreach = Inr Unreach"
| "xadd Inf _ = Inr Inf"
| "xadd _ Inf = Inr Inf"
| "xadd (Fin m) (Fin n) = xresult (int m + int n)"

fun xsub :: "xdepth \<Rightarrow> xdepth \<Rightarrow> xdepth depth_result" where
  "xsub x (Fin n) = (case x of Unreach \<Rightarrow> Inr Unreach | Inf \<Rightarrow> Inr Inf | Fin m \<Rightarrow> xresult (int m - int n))"
| "xsub _ _ = Inl DepthOverflowError"

fun xshift :: "xdepth \<Rightarrow> int \<Rightarrow> xdepth depth_result" where
  "xshift Unreach _ = Inr Unreach"
| "xshift Inf _ = Inr Inf"
| "xshift (Fin m) n = xresult (int m + n)"

definition abs_result :: "depth depth_result \<Rightarrow> xdepth depth_result" where
  "abs_result r = (case r of Inl e \<Rightarrow> Inl e | Inr d \<Rightarrow> Inr (abs_depth d))"

definition result_ok :: "depth depth_result \<Rightarrow> bool" where
  "result_ok r = (case r of Inl _ \<Rightarrow> True | Inr d \<Rightarrow> depth_ok d)"

lemma val_consts: "val_infinity = 2147483647" "val_unreachable = 2147483648" "depth_max_value = 2147483646"
  by (simp_all add: val_infinity_def val_unreachable_def depth_max_value_def)

lemmas depth_defs = is_finite_def is_infinite_def is_unreachable_def depth_unreachable_def depth_infinity_def val_consts

lemma unat_ucast_u64: "unat (ucast (w :: u32) :: u64a) = unat w"
  by transfer (simp add: take_bit_take_bit)

lemma unat_ucast_u32: "unat (ucast (w :: u64a) :: u32) = unat w mod 2 ^ 32"
  by (simp add: unsigned_ucast_eq take_bit_eq_mod)

lemma depth_cases:
  assumes "depth_ok d"
  obtains (fin) n where "d = Depth (of_nat n)" "n \<le> max_finite" "unat (of_nat n :: u32) = n" "abs_depth d = Fin n"
      "is_finite d" "\<not> is_infinite d" "\<not> is_unreachable d"
    | (inf) "d = depth_infinity" "abs_depth d = Inf" "\<not> is_finite d" "is_infinite d" "\<not> is_unreachable d"
    | (unr) "d = depth_unreachable" "abs_depth d = Unreach" "\<not> is_finite d" "\<not> is_infinite d" "is_unreachable d"
proof -
  have le: "unat (val d) \<le> 2147483648" using assms by (simp add: depth_ok_def val_consts word_le_nat_alt)
  consider "unat (val d) < 2147483647" | "unat (val d) = 2147483647" | "unat (val d) = 2147483648" using le by linarith
  then show thesis
  proof cases
    case 1
    then show thesis
      by (intro fin [of "unat (val d)"])
        (auto simp: depth_defs abs_depth_def max_finite_def word_less_nat_alt word_unat_eq_iff)
  next
    case 2
    then have "val d = 2147483647" by (simp add: word_unat_eq_iff)
    then show thesis by (intro inf) (auto simp: depth_defs abs_depth_def intro: depth.expand)
  next
    case 3
    then have "val d = 2147483648" by (simp add: word_unat_eq_iff)
    then show thesis by (intro unr) (auto simp: depth_defs abs_depth_def intro: depth.expand)
  qed
qed

text \<open>The check both additions and both subtractions make on a 32-bit value.\<close>

lemma depth_check:
  fixes w :: u32
  assumes "w = word_of_int n" "- (2 ^ 31) \<le> n" "n < 2 ^ 32 - 1"
  defines "r \<equiv> (let rv = (ucast w :: u64a) in if rv \<ge> ucast val_infinity then Inl DepthOverflowError else depth_new (ucast rv))"
  shows "abs_result r = xresult n" "result_ok r"
proof -
  have rt: "unat (ucast w :: u64a) = unat w"
    using unsigned_less [of w] by (simp add: unat_ucast_u64)
  have "unat w < 2 ^ LENGTH(32)" by (rule unsigned_less)
  then have cast: "ucast (ucast w :: u64a) = w" by (simp add: word_unat_eq_iff unat_ucast_u32 rt)
  have small: "(ucast w :: u64a) \<ge> ucast val_infinity \<longleftrightarrow> \<not> unat w \<le> max_finite"
    by (simp add: word_le_nat_alt rt val_consts max_finite_def) linarith
  have r: "r = (if unat w \<le> max_finite then Inr (Depth w) else Inl DepthOverflowError)"
    unfolding r_def Let_def small cast
    by (simp add: depth_new_def val_consts max_finite_def word_less_nat_alt)
  define k where "k = unat w"
  have n: "int k = n mod 2 ^ 32"
    using assms(1) unfolding k_def by (simp add: uint_word_of_int flip: uint_nat)
  have "k \<le> max_finite \<longleftrightarrow> 0 \<le> n \<and> n \<le> int max_finite"
  proof (cases "0 \<le> n")
    case True
    then show ?thesis using n assms(3) by (simp add: max_finite_def) linarith
  next
    case False
    then have "n mod 2 ^ 32 = n + 2 ^ 32" using assms(2) by (subst mod_add_self2 [symmetric], subst mod_pos_pos_trivial) simp_all
    then show ?thesis using n False assms(2) by (simp add: max_finite_def)
  qed
  moreover have "k = nat n" if "0 \<le> n" using n that assms(3) by simp
  ultimately show "abs_result r = xresult n" "result_ok r"
    unfolding r k_def abs_result_def result_ok_def xresult_def
    by (auto simp: abs_depth_def is_finite_def depth_ok_def val_consts max_finite_def word_less_nat_alt word_le_nat_alt)
qed

lemma abs_result_simps [simp]: "abs_result (Inl e) = Inl e" "abs_result (Inr d) = Inr (abs_depth d)"
  "result_ok (Inl e)" "result_ok (Inr d) = depth_ok d"
  by (simp_all add: abs_result_def result_ok_def)

lemma depth_consts [simp]: "abs_depth depth_infinity = Inf" "abs_depth depth_unreachable = Unreach"
  "depth_ok depth_infinity" "depth_ok depth_unreachable"
  by (simp_all add: abs_depth_def depth_ok_def depth_defs)

lemma depth_add_spec:
  assumes "depth_ok a" "depth_ok d"
  shows "abs_result (depth_add a d) = xadd (abs_depth a) (abs_depth d)" "result_ok (depth_add a d)"
proof -
  have "abs_result (depth_add a d) = xadd (abs_depth a) (abs_depth d) \<and> result_ok (depth_add a d)"
    using assms(1)
  proof (cases rule: depth_cases)
    case (fin m)
    show ?thesis using assms(2)
    proof (cases rule: depth_cases)
      case d: (fin n)
      have "val a + val d = word_of_int (int m + int n)" using fin(1) d(1) by simp
      from depth_check [OF this] fin d show ?thesis
        by (simp add: depth_add_def max_finite_def)
    qed (use fin in \<open>auto simp: depth_add_def\<close>)
  next
    case inf
    show ?thesis using assms(2) by (cases rule: depth_cases) (use inf in \<open>auto simp: depth_add_def\<close>)
  next
    case unr
    show ?thesis using assms(2) by (cases rule: depth_cases) (use unr in \<open>auto simp: depth_add_def\<close>)
  qed
  then show "abs_result (depth_add a d) = xadd (abs_depth a) (abs_depth d)" "result_ok (depth_add a d)" by auto
qed

lemma depth_new_small: "n \<le> max_finite \<Longrightarrow> depth_new (of_nat n) = Inr (Depth (of_nat n))"
  by (simp add: depth_new_def val_consts max_finite_def word_less_nat_alt u32_unat_of_nat)

lemma abs_depth_small: "n \<le> max_finite \<Longrightarrow> abs_depth (Depth (of_nat n)) = Fin n \<and> depth_ok (Depth (of_nat n))"
  by (simp add: abs_depth_def depth_ok_def depth_defs max_finite_def word_less_nat_alt word_le_nat_alt u32_unat_of_nat)

lemma depth_sub_spec:
  assumes "depth_ok a" "depth_ok d"
  shows "abs_result (depth_sub a d) = xsub (abs_depth a) (abs_depth d) \<and> result_ok (depth_sub a d)"
  using assms(2)
proof (cases rule: depth_cases)
  case d: (fin n)
  show ?thesis using assms(1)
  proof (cases rule: depth_cases)
    case (fin m)
    show ?thesis
    proof (cases "m < n")
      case True
      then show ?thesis using fin d by (simp add: depth_sub_def word_less_nat_alt xresult_def)
    next
      case False
      then have "val a - val d = of_nat (m - n)" using fin(1) d(1) by (simp add: of_nat_diff)
      then have "depth_sub a d = Inr (Depth (of_nat (m - n)))"
        using fin d False depth_new_small [of "m - n"] by (simp add: depth_sub_def word_less_nat_alt)
      then show ?thesis using fin d False abs_depth_small [of "m - n"] by (simp add: xresult_def)
    qed
  qed (use d in \<open>auto simp: depth_sub_def\<close>)
qed (auto simp: depth_sub_def)

lemma depth_shift_spec:
  assumes "depth_ok a"
  shows "abs_result (depth_add_s32 a d) = xshift (abs_depth a) (sint d) \<and> result_ok (depth_add_s32 a d)"
    and "abs_result (depth_sub_s32 a d) = xshift (abs_depth a) (- sint d) \<and> result_ok (depth_sub_s32 a d)"
proof -
  have s: "- (2 ^ 31) \<le> sint d" "sint d < 2 ^ 31"
    using sint_greater_eq [of d] sint_less [of d] by simp_all
  have d: "d = word_of_int (sint d)" by simp
  have "(abs_result (depth_add_s32 a d) = xshift (abs_depth a) (sint d) \<and> result_ok (depth_add_s32 a d)) \<and>
    (abs_result (depth_sub_s32 a d) = xshift (abs_depth a) (- sint d) \<and> result_ok (depth_sub_s32 a d))"
    using assms
  proof (cases rule: depth_cases)
    case (fin m)
    have "val a + d = word_of_int (int m + sint d)" "val a - d = word_of_int (int m + - sint d)"
      using fin(1) by simp_all
    from depth_check [OF this(1)] depth_check [OF this(2)] fin s show ?thesis
      by (simp add: depth_add_s32_def depth_sub_s32_def max_finite_def)
  qed (simp_all add: depth_add_s32_def depth_sub_s32_def)
  then show "abs_result (depth_add_s32 a d) = xshift (abs_depth a) (sint d) \<and> result_ok (depth_add_s32 a d)"
    and "abs_result (depth_sub_s32 a d) = xshift (abs_depth a) (- sint d) \<and> result_ok (depth_sub_s32 a d)"
    by auto
qed

section \<open>Ranges\<close>

text \<open>The counts that lie in a range; an unreachable end makes the range empty.\<close>

definition range_counts :: "DepthMinMax \<Rightarrow> nat set" where
  "range_counts r = {n. (case abs_depth (dmin r) of Fin m \<Rightarrow> m \<le> n | _ \<Rightarrow> False) \<and>
     (case abs_depth (dmax r) of Fin m \<Rightarrow> n \<le> m | Inf \<Rightarrow> True | Unreach \<Rightarrow> False)}"

definition range_ok :: "DepthMinMax \<Rightarrow> bool" where
  "range_ok r \<longleftrightarrow> depth_ok (dmin r) \<and> depth_ok (dmax r)"

fun xmin :: "xdepth \<Rightarrow> xdepth \<Rightarrow> xdepth" where
  "xmin Unreach y = y"
| "xmin x Unreach = x"
| "xmin Inf y = y"
| "xmin x Inf = x"
| "xmin (Fin m) (Fin n) = Fin (min m n)"

fun xmax :: "xdepth \<Rightarrow> xdepth \<Rightarrow> xdepth" where
  "xmax Inf _ = Inf"
| "xmax _ Inf = Inf"
| "xmax Unreach y = y"
| "xmax x Unreach = x"
| "xmax (Fin m) (Fin n) = Fin (max m n)"

lemma less_eq_depth_abs:
  assumes "depth_ok a" "depth_ok b"
  shows "a \<le> b \<longleftrightarrow> (case (abs_depth a, abs_depth b) of (Fin m, Fin n) \<Rightarrow> m \<le> n | (Fin _, _) \<Rightarrow> True
    | (Inf, Fin _) \<Rightarrow> False | (Inf, _) \<Rightarrow> True | (Unreach, y) \<Rightarrow> y = Unreach)"
  using assms(1)
proof (cases rule: depth_cases)
  case (fin m)
  show ?thesis using assms(2)
    by (cases rule: depth_cases)
      (use fin in \<open>auto simp: less_eq_depth_def word_le_nat_alt depth_defs max_finite_def\<close>)
next
  case inf
  show ?thesis using assms(2)
    by (cases rule: depth_cases) (use inf in \<open>auto simp: less_eq_depth_def word_le_nat_alt depth_defs max_finite_def\<close>)
next
  case unr
  show ?thesis using assms(2)
    by (cases rule: depth_cases) (use unr in \<open>auto simp: less_eq_depth_def word_le_nat_alt depth_defs max_finite_def\<close>)
qed

lemma is_abs:
  assumes "depth_ok a"
  shows "is_unreachable a \<longleftrightarrow> abs_depth a = Unreach" "is_infinite a \<longleftrightarrow> abs_depth a = Inf"
  using assms by (cases rule: depth_cases; simp)+

lemma union_abs:
  assumes "range_ok a" "range_ok b"
  shows "abs_depth (dmin (unionDepthMinMax a b)) = xmin (abs_depth (dmin a)) (abs_depth (dmin b))"
    and "abs_depth (dmax (unionDepthMinMax a b)) = xmax (abs_depth (dmax a)) (abs_depth (dmax b))"
    and "range_ok (unionDepthMinMax a b)"
proof -
  have ok: "depth_ok (dmin a)" "depth_ok (dmin b)" "depth_ok (dmax a)" "depth_ok (dmax b)"
    using assms by (simp_all add: range_ok_def)
  show "abs_depth (dmin (unionDepthMinMax a b)) = xmin (abs_depth (dmin a)) (abs_depth (dmin b))"
    using less_eq_depth_abs [OF ok(1,2)]
    by (cases "abs_depth (dmin a)"; cases "abs_depth (dmin b)") (simp_all add: unionDepthMinMax_def is_abs ok min_def)
  show "abs_depth (dmax (unionDepthMinMax a b)) = xmax (abs_depth (dmax a)) (abs_depth (dmax b))"
    using less_eq_depth_abs [OF ok(3,4)]
    by (cases "abs_depth (dmax a)"; cases "abs_depth (dmax b)") (simp_all add: unionDepthMinMax_def is_abs ok max_def)
  show "range_ok (unionDepthMinMax a b)" using ok by (simp add: range_ok_def unionDepthMinMax_def min_def max_def)
qed

definition xrange :: "xdepth \<Rightarrow> xdepth \<Rightarrow> nat set" where
  "xrange lo hi = {n. (case lo of Fin m \<Rightarrow> m \<le> n | _ \<Rightarrow> False) \<and> (case hi of Fin m \<Rightarrow> n \<le> m | Inf \<Rightarrow> True | Unreach \<Rightarrow> False)}"

lemma range_counts_xrange: "range_counts r = xrange (abs_depth (dmin r)) (abs_depth (dmax r))"
  by (simp add: range_counts_def xrange_def)

lemma xrange_simps [simp]: "xrange (Fin m) (Fin n) = {m..n}" "xrange (Fin m) Inf = {m..}"
  "xrange Inf hi = {}" "xrange Unreach hi = {}" "xrange lo Unreach = {}"
  by (auto simp: xrange_def)

lemma xrange_union_upper: "xrange l1 h1 \<union> xrange l2 h2 \<subseteq> xrange (xmin l1 l2) (xmax h1 h2)"
  by (cases l1; cases h1; cases l2; cases h2) auto

lemma xrange_least_elem: "xrange l h \<noteq> {} \<Longrightarrow> \<exists>a. l = Fin a \<and> a \<in> xrange l h"
  by (cases l; cases h) auto

lemma xrange_bound:
  assumes "xrange l h \<noteq> {}" "\<And>n. n \<in> xrange l h \<Longrightarrow> n \<le> q"
  shows "case h of Fin b \<Rightarrow> b \<le> q | _ \<Rightarrow> False"
proof -
  obtain a where a: "l = Fin a" "a \<in> xrange l h" using xrange_least_elem [OF assms(1)] by blast
  show ?thesis
  proof (cases h)
    case (Fin b)
    then show ?thesis using a assms(2) [of b] by simp
  next
    case Inf
    then show ?thesis using a assms(2) [of "Suc (a + q)"] by simp
  qed (use a in auto)
qed

lemma xrange_union_least:
  assumes "xrange l1 h1 \<noteq> {}" "xrange l2 h2 \<noteq> {}" "xrange l1 h1 \<union> xrange l2 h2 \<subseteq> xrange l h"
  shows "xrange (xmin l1 l2) (xmax h1 h2) \<subseteq> xrange l h"
proof
  fix x assume x: "x \<in> xrange (xmin l1 l2) (xmax h1 h2)"
  obtain a where a: "l1 = Fin a" "a \<in> xrange l1 h1" using xrange_least_elem [OF assms(1)] by blast
  obtain c where c: "l2 = Fin c" "c \<in> xrange l2 h2" using xrange_least_elem [OF assms(2)] by blast
  have sub: "xrange l1 h1 \<subseteq> xrange l h" "xrange l2 h2 \<subseteq> xrange l h" using assms(3) by auto
  have "min a c \<in> xrange l h" using a(2) c(2) sub by (simp add: min_def subset_iff)
  moreover have "min a c \<le> x" using x a(1) c(1) by (simp add: xrange_def)
  moreover have "case h of Fin q \<Rightarrow> x \<le> q | Inf \<Rightarrow> True | Unreach \<Rightarrow> False"
  proof (cases h)
    case (Fin q)
    have "case h1 of Fin b \<Rightarrow> b \<le> q | _ \<Rightarrow> False"
      by (rule xrange_bound [OF assms(1)]) (use sub(1) Fin in \<open>auto simp: xrange_def subset_iff\<close>)
    moreover have "case h2 of Fin b \<Rightarrow> b \<le> q | _ \<Rightarrow> False"
      by (rule xrange_bound [OF assms(2)]) (use sub(2) Fin in \<open>auto simp: xrange_def subset_iff\<close>)
    ultimately show ?thesis using x Fin by (auto simp: xrange_def split: xdepth.splits)
  qed (use a(2) sub(1) in \<open>auto simp: xrange_def\<close>)
  ultimately show "x \<in> xrange l h" by (auto simp: xrange_def split: xdepth.splits)
qed

text \<open>
  C24. Depth arithmetic is exact or throws. Over counts extended by the infinite and the unreachable depth,
  the sum and the difference of depths, and the sum and difference with a signed 32-bit offset, are the
  mathematical ones when the result is a representable count, an overflow error when it is negative or too large,
  and they respect the special values; no operation yields a value outside the three kinds of depth, although
  the intermediate values are 32-bit and wrap.
\<close>

theorem depth_arithmetic_exact:
  assumes "depth_ok a" "depth_ok d"
  shows "abs_result (depth_add a d) = xadd (abs_depth a) (abs_depth d) \<and> result_ok (depth_add a d) \<and>
    abs_result (depth_sub a d) = xsub (abs_depth a) (abs_depth d) \<and> result_ok (depth_sub a d) \<and>
    abs_result (depth_add_s32 a i) = xshift (abs_depth a) (sint i) \<and> result_ok (depth_add_s32 a i) \<and>
    abs_result (depth_sub_s32 a i) = xshift (abs_depth a) (- sint i) \<and> result_ok (depth_sub_s32 a i)"
  using depth_add_spec [OF assms] depth_sub_spec [OF assms] depth_shift_spec [OF assms(1)] by blast

theorem depth_arithmetic_exact_witness:
  "abs_result (depth_add (Depth 2147483646) (Depth 1)) = Inl DepthOverflowError \<and>
   abs_result (depth_add_s32 (Depth 5) (- 7)) = Inl DepthOverflowError \<and>
   abs_result (depth_sub_s32 (Depth 5) (- 7)) = Inr (Fin 12)"
proof -
  have ok: "depth_ok (Depth 2147483646)" "depth_ok (Depth 1)" "depth_ok (Depth 5)"
    and abs: "abs_depth (Depth 2147483646) = Fin 2147483646" "abs_depth (Depth 1) = Fin 1" "abs_depth (Depth 5) = Fin 5"
    by (simp_all add: depth_ok_def abs_depth_def depth_defs)
  have i: "sint (- 7 :: 32 word) = - 7" by simp
  show ?thesis
    using depth_arithmetic_exact [OF ok(1,2), of 0] depth_arithmetic_exact [OF ok(3,2), of "- 7"]
    by (simp add: abs i xresult_def max_finite_def)
qed

text \<open>
  The union of two depth ranges contains every count of both, keeps the invariant, and for nonempty
  ranges is the smallest range that does.
\<close>

lemma unionDepthMinMax_hull:
  assumes "range_ok a" "range_ok b"
  shows "range_ok (unionDepthMinMax a b) \<and>
    range_counts a \<union> range_counts b \<subseteq> range_counts (unionDepthMinMax a b) \<and>
    (\<forall>r. range_counts a \<noteq> {} \<and> range_counts b \<noteq> {} \<and> range_counts a \<union> range_counts b \<subseteq> range_counts r \<longrightarrow>
      range_counts (unionDepthMinMax a b) \<subseteq> range_counts r)"
  unfolding range_counts_xrange union_abs(1,2) [OF assms]
  using union_abs(3) [OF assms] xrange_union_upper xrange_union_least by blast

lemma unionDepthMinMax_hull_witness:
  "range_counts (unionDepthMinMax \<lparr>dmin = Depth 2, dmax = Depth 3\<rparr> \<lparr>dmin = Depth 7, dmax = Depth 9\<rparr>) \<supseteq> {2..3} \<union> {7..9}"
proof -
  have abs: "abs_depth (Depth 2) = Fin 2" "abs_depth (Depth 3) = Fin 3" "abs_depth (Depth 7) = Fin 7" "abs_depth (Depth 9) = Fin 9"
    by (simp_all add: abs_depth_def depth_defs)
  show ?thesis
    using unionDepthMinMax_hull [of "\<lparr>dmin = Depth 2, dmax = Depth 3\<rparr>" "\<lparr>dmin = Depth 7, dmax = Depth 9\<rparr>"]
    by (simp add: range_ok_def depth_ok_def depth_defs range_counts_xrange abs)
qed

end
