(* ===== verification/Database.thy ===== *)
theory Database
  imports Crc32
begin

text \<open>
  Databases as the API hands them out, \<^verbatim>\<open>database.h\<close>, \<^verbatim>\<open>database.c\<close>, \<^verbatim>\<open>dbCreate\<close> of
  \<^verbatim>\<open>compiler/compiler.cpp\<close> and \<^verbatim>\<open>allocator.h\<close>: a header in front of the bytecode,
  its serialised form, and the checks on both. A database lies at an address; the record holds the fields of its
  header and, as a list of bytes, what follows the field \<^verbatim>\<open>bytecode\<close>, that is the padding and the
  flexible array. The layout is the one of a 64-bit little-endian target: the list starts at offset 40 and the
  array at offset 104, the size of the header. An access outside the memory that a pointer refers to is the outer
  \<open>None\<close>. A null pointer is \<open>None\<close> or the address 0. The version number and the instruction sets come
  from the build and are parameters, as is the allocator, which returns an address.
\<close>

unbundle bit_operations_syntax

section \<open>Model\<close>

datatype hs_error = HS_SUCCESS | HS_INVALID | HS_NOMEM | HS_SCAN_TERMINATED | HS_COMPILER_ERROR | HS_DB_VERSION_ERROR
  | HS_DB_PLATFORM_ERROR | HS_DB_MODE_ERROR | HS_BAD_ALIGN | HS_BAD_ALLOC | HS_SCRATCH_IN_USE | HS_ARCH_ERROR
  | HS_INSUFFICIENT_SPACE | HS_UNKNOWN_ERROR

record build =
  HS_DB_VERSION :: u32
  HAVE_AVX2 :: bool
  HAVE_AVX512 :: bool
  HAVE_AVX512VBMI :: bool

definition HS_DB_MAGIC :: u32 where "HS_DB_MAGIC = 0xdbdbdbdb"

definition HS_PLATFORM_NOAVX2 :: u64a where "HS_PLATFORM_NOAVX2 = push_bit 13 4"
definition HS_PLATFORM_NOAVX512 :: u64a where "HS_PLATFORM_NOAVX512 = push_bit 13 8"
definition HS_PLATFORM_NOAVX512VBMI :: u64a where "HS_PLATFORM_NOAVX512VBMI = push_bit 13 0x10"

definition hs_current_platform :: "build \<Rightarrow> u64a" where
  "hs_current_platform b =
     (if \<not> HAVE_AVX2 b then HS_PLATFORM_NOAVX2 else 0) OR
     (if \<not> HAVE_AVX512 b then HS_PLATFORM_NOAVX512 else 0) OR
     (if \<not> HAVE_AVX512VBMI b then HS_PLATFORM_NOAVX512VBMI else 0) OR 0"

definition hs_current_platform_no_avx2 :: u64a where
  "hs_current_platform_no_avx2 = HS_PLATFORM_NOAVX2 OR HS_PLATFORM_NOAVX512 OR HS_PLATFORM_NOAVX512VBMI"
definition hs_current_platform_no_avx512 :: u64a where
  "hs_current_platform_no_avx512 = HS_PLATFORM_NOAVX512 OR HS_PLATFORM_NOAVX512VBMI"
definition hs_current_platform_no_avx512vbmi :: u64a where
  "hs_current_platform_no_avx512vbmi = HS_PLATFORM_NOAVX512VBMI"

record hs_database =
  magic :: u32
  version :: u32
  db_length :: u32
  platform :: u64a
  crc32 :: u32
  reserved0 :: u32
  reserved1 :: u32
  bytecode :: u32
  tail :: "u8 list"

definition sizeof_hs_database :: nat where "sizeof_hs_database = 104"
definition offsetof_bytes :: nat where "offsetof_bytes = 104"
definition offsetof_padding :: nat where "offsetof_padding = 40"

definition ISALIGNED_N :: "nat \<Rightarrow> nat \<Rightarrow> bool" where
  "ISALIGNED_N p n \<longleftrightarrow> p mod n = 0"

definition hs_check_alloc :: "nat \<Rightarrow> hs_error" where
  "hs_check_alloc mem = (if mem = 0 then HS_NOMEM else if \<not> ISALIGNED_N mem 8 then HS_BAD_ALLOC else HS_SUCCESS)"

definition db_correctly_aligned :: "nat \<Rightarrow> bool" where
  "db_correctly_aligned db = ISALIGNED_N db 8"

text \<open>What may be read from the bytecode pointer on.\<close>

definition hs_get_bytecode :: "hs_database \<Rightarrow> u8 list option" where
  "hs_get_bytecode db =
     (if offsetof_padding \<le> unat (bytecode db) \<and> unat (bytecode db) \<le> offsetof_padding + length (tail db)
      then Some (drop (unat (bytecode db) - offsetof_padding) (tail db)) else None)"

definition validDatabase :: "build \<Rightarrow> hs_database option \<Rightarrow> hs_error" where
  "validDatabase b db = (case db of None \<Rightarrow> HS_INVALID
     | Some db \<Rightarrow> if magic db \<noteq> HS_DB_MAGIC then HS_INVALID
         else if version db \<noteq> HS_DB_VERSION b then HS_DB_VERSION_ERROR else HS_SUCCESS)"

definition hs_free_database :: "hs_database option \<Rightarrow> hs_error" where
  "hs_free_database db = (case db of Some db \<Rightarrow> if magic db \<noteq> HS_DB_MAGIC then HS_INVALID else HS_SUCCESS
     | None \<Rightarrow> HS_SUCCESS)"

definition memcpy :: "u8 list \<Rightarrow> nat \<Rightarrow> u8 list \<Rightarrow> u8 list option" where
  "memcpy dst p src = (if p + length src \<le> length dst
     then Some (take p dst @ src @ drop (p + length src) dst) else None)"

definition le32 :: "u32 \<Rightarrow> u8 list" where
  "le32 w = map (\<lambda>i. ucast (drop_bit (8 * i) w)) [0..<4]"

fun write_fields :: "u8 list \<Rightarrow> nat \<Rightarrow> u8 list list \<Rightarrow> u8 list option" where
  "write_fields out p [] = Some out"
| "write_fields out p (f # fs) = Option.bind (memcpy out p f) (\<lambda>out. write_fields out (p + length f) fs)"

definition memread :: "u8 list \<Rightarrow> nat \<Rightarrow> u8 list option" where
  "memread src n = (if n \<le> length src then Some (take n src) else None)"

definition hs_serialize_database ::
  "build \<Rightarrow> (nat \<Rightarrow> nat) \<Rightarrow> (nat \<times> hs_database) option \<Rightarrow> bool \<Rightarrow> bool \<Rightarrow> (hs_error \<times> u8 list option) option" where
  "hs_serialize_database b misc_alloc db_ptr have_bytes have_length =
     (case db_ptr of None \<Rightarrow> Some (HS_INVALID, None)
      | Some (addr, db) \<Rightarrow>
          if \<not> have_bytes \<or> \<not> have_length then Some (HS_INVALID, None)
          else if \<not> db_correctly_aligned addr then Some (HS_BAD_ALIGN, None)
          else let ret = validDatabase b (Some db)
               in if ret \<noteq> HS_SUCCESS then Some (ret, None)
                  else let len = sizeof_hs_database + unat (db_length db);
                           ret = hs_check_alloc (misc_alloc len)
                       in if ret \<noteq> HS_SUCCESS then Some (ret, None)
                          else Option.bind (hs_get_bytecode db) (\<lambda>bc.
                               Option.bind (memread bc (unat (db_length db))) (\<lambda>src.
                               Option.bind (write_fields (replicate len 0) 0
                                  [le32 (magic db), le32 (version db), le32 (db_length db), le_bytes (platform db),
                                   le32 (crc32 db), le32 (reserved0 db), le32 (reserved1 db), src])
                                 (\<lambda>out. Some (HS_SUCCESS, Some out)))))"

definition db_check_platform :: "build \<Rightarrow> u64a \<Rightarrow> hs_error" where
  "db_check_platform b p =
     (if p \<noteq> hs_current_platform b
         \<and> p \<noteq> (hs_current_platform b OR hs_current_platform_no_avx2)
         \<and> p \<noteq> (hs_current_platform b OR hs_current_platform_no_avx512)
         \<and> p \<noteq> (hs_current_platform b OR hs_current_platform_no_avx512vbmi)
      then HS_DB_PLATFORM_ERROR else HS_SUCCESS)"

text \<open>The header fields are read from the stream one after the other; the rest of the stream follows them.\<close>

definition db_decode_header :: "build \<Rightarrow> u8 list option \<Rightarrow> nat \<Rightarrow> (hs_error \<times> (hs_database \<times> u8 list) option) option" where
  "db_decode_header b bytes len =
     (case bytes of None \<Rightarrow> Some (HS_INVALID, None)
      | Some buf \<Rightarrow>
          if len < sizeof_hs_database then Some (HS_INVALID, None)
          else Option.bind (read_u32 buf 0) (\<lambda>mg.
               if mg \<noteq> HS_DB_MAGIC then Some (HS_INVALID, None)
               else Option.bind (read_u32 buf 4) (\<lambda>vs.
               if vs \<noteq> HS_DB_VERSION b then Some (HS_DB_VERSION_ERROR, None)
               else Option.bind (read_u32 buf 8) (\<lambda>ln.
               if len \<noteq> sizeof_hs_database + unat ln then Some (HS_INVALID, None)
               else Option.bind (read_u64 buf 12) (\<lambda>pl.
                    Option.bind (read_u32 buf 20) (\<lambda>crc.
                    Option.bind (read_u32 buf 24) (\<lambda>r0.
                    Option.bind (read_u32 buf 28) (\<lambda>r1.
                    Some (HS_SUCCESS,
                      Some (\<lparr>magic = mg, version = vs, db_length = ln, platform = pl, crc32 = crc, reserved0 = r0,
                             reserved1 = r1, bytecode = 0, tail = []\<rparr>, drop 32 buf))))))))))"

definition db_check_crc :: "nat \<Rightarrow> hs_database \<Rightarrow> hs_error option" where
  "db_check_crc addr db =
     Option.bind (hs_get_bytecode db) (\<lambda>bc.
     Option.bind (Crc32c_ComputeBuf 0 (addr + unat (bytecode db)) bc (ucast (db_length db))) (\<lambda>crc.
     Some (if crc \<noteq> crc32 db then HS_INVALID else HS_SUCCESS)))"

text \<open>
  A fresh database of \<^verbatim>\<open>sizeof(struct hs_database) + length\<close> zeroed bytes at an address, with the
  bytecode copied to the cache line boundary at or before the array.
\<close>

definition place_bytecode :: "nat \<Rightarrow> hs_database \<Rightarrow> u8 list \<Rightarrow> nat \<Rightarrow> hs_database option" where
  "place_bytecode addr db src len =
     (let shift = (addr + offsetof_bytes) mod 64;
          bc = offsetof_bytes - shift
      in Option.bind (memread src len) (\<lambda>src.
         map_option (\<lambda>tl. db\<lparr>bytecode := of_nat bc, tail := tl\<rparr>) (memcpy (tail db) (bc - offsetof_padding) src)))"

definition db_copy_bytecode :: "u8 list \<Rightarrow> nat \<Rightarrow> hs_database \<Rightarrow> hs_database option" where
  "db_copy_bytecode serialized addr db = place_bytecode addr db serialized (unat (db_length db))"

definition zero_tail :: "nat \<Rightarrow> u8 list" where
  "zero_tail dblength = replicate (dblength - offsetof_padding) 0"

definition load_database :: "hs_database \<Rightarrow> u8 list \<Rightarrow> nat \<Rightarrow> (hs_error \<times> hs_database option) option" where
  "load_database header rest addr =
     Option.bind (db_copy_bytecode rest addr (header\<lparr>tail := zero_tail (sizeof_hs_database + unat (db_length header))\<rparr>)) (\<lambda>db.
     Option.bind (db_check_crc addr db) (\<lambda>ret.
     Some (if ret \<noteq> HS_SUCCESS then HS_INVALID else HS_SUCCESS, Some db)))"

definition hs_deserialize_database_at ::
  "build \<Rightarrow> u8 list option \<Rightarrow> nat \<Rightarrow> nat \<Rightarrow> (hs_error \<times> hs_database option) option" where
  "hs_deserialize_database_at b bytes len db =
     (if bytes = None \<or> db = 0 then Some (HS_INVALID, None)
      else if \<not> ISALIGNED_N db 8 then Some (HS_BAD_ALIGN, None)
      else Option.bind (db_decode_header b bytes len) (\<lambda>(ret, hdr).
           case hdr of None \<Rightarrow> Some (ret, None)
           | Some (header, rest) \<Rightarrow>
               let ret = db_check_platform b (platform header)
               in if ret \<noteq> HS_SUCCESS then Some (ret, None) else load_database header rest db))"

definition hs_deserialize_database ::
  "build \<Rightarrow> (nat \<Rightarrow> nat) \<Rightarrow> u8 list option \<Rightarrow> nat \<Rightarrow> bool \<Rightarrow> (hs_error \<times> (nat \<times> hs_database) option) option" where
  "hs_deserialize_database b database_alloc bytes len have_db =
     (if bytes = None \<or> \<not> have_db then Some (HS_INVALID, None)
      else Option.bind (db_decode_header b bytes len) (\<lambda>(ret, hdr).
           case hdr of None \<Rightarrow> Some (ret, None)
           | Some (header, rest) \<Rightarrow>
               let ret = db_check_platform b (platform header)
               in if ret \<noteq> HS_SUCCESS then Some (ret, None)
                  else let addr = database_alloc (sizeof_hs_database + unat (db_length header));
                           ret = hs_check_alloc addr
                       in if ret \<noteq> HS_SUCCESS then Some (ret, None)
                          else Option.bind (load_database header rest addr) (\<lambda>(ret, db).
                               Some (if ret \<noteq> HS_SUCCESS then (HS_INVALID, None) else (HS_SUCCESS, map_option (Pair addr) db)))))"

definition hs_database_size :: "build \<Rightarrow> hs_database option \<Rightarrow> bool \<Rightarrow> hs_error \<times> nat option" where
  "hs_database_size b db have_size =
     (if \<not> have_size then (HS_INVALID, None)
      else let ret = validDatabase b db
           in if ret \<noteq> HS_SUCCESS then (ret, None)
              else (HS_SUCCESS, map_option (\<lambda>db. sizeof_hs_database + unat (db_length db)) db))"

definition hs_serialized_database_size :: "build \<Rightarrow> u8 list option \<Rightarrow> nat \<Rightarrow> bool \<Rightarrow> (hs_error \<times> nat option) option" where
  "hs_serialized_database_size b bytes len have_size =
     Option.bind (db_decode_header b bytes len) (\<lambda>(ret, hdr).
       case hdr of None \<Rightarrow> Some (ret, None)
       | Some (header, rest) \<Rightarrow>
           if \<not> have_size then Some (HS_INVALID, None)
           else Some (HS_SUCCESS, Some (sizeof_hs_database + unat (db_length header))))"

definition dbIsValid :: "build \<Rightarrow> nat \<Rightarrow> hs_database \<Rightarrow> hs_error option" where
  "dbIsValid b addr db =
     (if magic db \<noteq> HS_DB_MAGIC then Some HS_INVALID
      else if version db \<noteq> HS_DB_VERSION b then Some HS_DB_VERSION_ERROR
      else if db_check_platform b (platform db) \<noteq> HS_SUCCESS then Some HS_DB_PLATFORM_ERROR
      else if \<not> ISALIGNED_N (addr + unat (bytecode db)) 16 then Some HS_INVALID
      else Option.bind (db_check_crc addr db) (\<lambda>rv. Some (if rv \<noteq> HS_SUCCESS then rv else HS_SUCCESS)))"

definition dbCreate :: "build \<Rightarrow> (nat \<Rightarrow> nat) \<Rightarrow> u8 list \<Rightarrow> nat \<Rightarrow> u64a \<Rightarrow> (nat \<times> hs_database) option option" where
  "dbCreate b database_alloc in_bytecode len plat =
     (let db_len = sizeof_hs_database + len;
          addr = database_alloc db_len
      in if hs_check_alloc addr \<noteq> HS_SUCCESS then Some None
         else Option.bind (place_bytecode addr
                \<lparr>magic = HS_DB_MAGIC, version = HS_DB_VERSION b, db_length = of_nat len, platform = plat, crc32 = 0,
                 reserved0 = 0, reserved1 = 0, bytecode = 0, tail = zero_tail db_len\<rparr> in_bytecode len) (\<lambda>db.
              Option.bind (hs_get_bytecode db) (\<lambda>bc.
              Option.bind (Crc32c_ComputeBuf 0 (addr + unat (bytecode db)) bc (ucast (db_length db))) (\<lambda>crc.
              Some (Some (addr, db\<lparr>crc32 := crc\<rparr>))))))"

section \<open>Byte order\<close>

lemma le32_bytes:
  "le32 w = [ucast w, ucast (drop_bit 8 w), ucast (drop_bit 16 w), ucast (drop_bit 24 w)]"
  by (simp add: le32_def upt_rec)

lemma length_le [simp]: "length (le32 w) = 4" "length (le_bytes v) = 8"
  by (simp_all add: le32_def le_bytes_def)

lemma word_le32:
  "(ucast (ucast w :: u8) OR push_bit 8 (ucast (ucast (drop_bit 8 w) :: u8)) OR push_bit 16 (ucast (ucast (drop_bit 16 w) :: u8))
    OR push_bit 24 (ucast (ucast (drop_bit 24 w) :: u8))) = (w :: u32)"
proof (rule bit_eqI, goal_cases)
  case (1 n)
  then show ?case by (cases "24 \<le> n"; cases "16 \<le> n"; cases "8 \<le> n") (auto simp: bit_simps dest: bit_imp_le_length)
qed

lemma nth_mid: "length xs = p \<Longrightarrow> i < length ys \<Longrightarrow> (xs @ ys @ zs) ! (p + i) = ys ! i"
  by (simp add: nth_append)

lemma read_u32_mid:
  assumes "length xs = p"
  shows "read_u32 (xs @ le32 w @ zs) p = Some w"
  using assms nth_mid [OF assms, of 0 "le32 w" zs] nth_mid [OF assms, of 1 "le32 w" zs]
    nth_mid [OF assms, of 2 "le32 w" zs] nth_mid [OF assms, of 3 "le32 w" zs]
  by (simp add: read_u32_def word_le32 le32_bytes)

lemma le_bytes_halves: "le_bytes v = le32 (ucast v) @ le32 (ucast (drop_bit 32 v))"
proof -
  have "[0..<8] = [0, 1, 2, 3, 4, 5, 6, 7 :: nat]" by (simp add: upt_rec)
  then show ?thesis
    unfolding le_bytes_def le32_bytes by simp (intro conjI bit_eqI; auto simp: bit_simps dest: bit_imp_le_length)
qed

lemma read_u64_mid:
  assumes "length xs = p"
  shows "read_u64 (xs @ le_bytes v @ zs) p = Some v"
proof -
  have "read_u32 (xs @ le_bytes v @ zs) p = Some (ucast v)"
    unfolding le_bytes_halves using read_u32_mid [OF assms] by simp
  moreover have "read_u32 (xs @ le_bytes v @ zs) (p + 4) = Some (ucast (drop_bit 32 v))"
    unfolding le_bytes_halves using read_u32_mid [of "xs @ le32 (ucast v)" "p + 4"] assms by simp
  moreover have "ucast (ucast v :: u32) OR push_bit 32 (ucast (ucast (drop_bit 32 v) :: u32)) = v"
    by (rule bit_eqI) (auto simp: bit_simps dest: bit_imp_le_length)
  ultimately show ?thesis by (simp add: read_u64_def)
qed

section \<open>Memory\<close>

lemma write_fields_spec:
  "p + length (concat fs) \<le> length out \<Longrightarrow>
   write_fields out p fs = Some (take p out @ concat fs @ drop (p + length (concat fs)) out)"
proof (induction fs arbitrary: out p)
  case (Cons f fs)
  let ?out = "take p out @ f @ drop (p + length f) out"
  have "p + length f \<le> length out" using Cons.prems by simp
  then have w: "memcpy out p f = Some ?out" by (simp add: memcpy_def)
  have "write_fields ?out (p + length f) fs =
      Some (take (p + length f) ?out @ concat fs @ drop (p + length f + length (concat fs)) ?out)"
    by (rule Cons.IH) (use Cons.prems in simp)
  with w show ?case using Cons.prems by (simp add: add.commute add.left_commute)
qed simp

definition db_bytes :: "hs_database \<Rightarrow> u8 list" where
  "db_bytes db = take (unat (db_length db)) (drop (unat (bytecode db) - offsetof_padding) (tail db))"

definition db_placed :: "nat \<Rightarrow> hs_database \<Rightarrow> bool" where
  "db_placed addr db \<longleftrightarrow> offsetof_padding \<le> unat (bytecode db) \<and>
     unat (bytecode db) - offsetof_padding + unat (db_length db) \<le> length (tail db) \<and>
     (addr + unat (bytecode db)) mod 64 = 0"

text \<open>A database that is what it should be.\<close>

definition db_ok :: "build \<Rightarrow> nat \<Rightarrow> hs_database \<Rightarrow> bool" where
  "db_ok b addr db \<longleftrightarrow> magic db = HS_DB_MAGIC \<and> version db = HS_DB_VERSION b \<and>
     db_check_platform b (platform db) = HS_SUCCESS \<and> db_placed addr db \<and> crc32 db = crc_ref 0 (db_bytes db)"

lemma unat_ucast_size: "unat (ucast (w :: u32) :: u64a) = unat w"
  by transfer (simp add: take_bit_take_bit)

lemma roundup_aligned: "p mod 64 = 0 \<Longrightarrow> ROUNDUP_PTR p 4 - p = 0"
proof -
  assume "p mod 64 = 0"
  then obtain k where "p = 64 * k" by (metis mod_0_imp_dvd dvdE)
  then show ?thesis by (simp add: ROUNDUP_PTR_def)
qed

lemma placed_bytes:
  assumes "db_placed addr db"
  shows "hs_get_bytecode db = Some (drop (unat (bytecode db) - offsetof_padding) (tail db))"
    and "unat (db_length db) \<le> length (drop (unat (bytecode db) - offsetof_padding) (tail db))"
    and "length (db_bytes db) = unat (db_length db)"
proof -
  have "unat (bytecode db) - offsetof_padding + unat (db_length db) \<le> length (tail db)" "offsetof_padding \<le> unat (bytecode db)"
    using assms unfolding db_placed_def by blast+
  then show "hs_get_bytecode db = Some (drop (unat (bytecode db) - offsetof_padding) (tail db))"
    and "unat (db_length db) \<le> length (drop (unat (bytecode db) - offsetof_padding) (tail db))"
    and "length (db_bytes db) = unat (db_length db)"
    unfolding hs_get_bytecode_def db_bytes_def length_take length_drop by simp_all
qed

lemma placed_crc:
  assumes "db_placed addr db"
  shows "Option.bind (hs_get_bytecode db) (\<lambda>bc. Crc32c_ComputeBuf 0 (addr + unat (bytecode db)) bc (ucast (db_length db)))
    = Some (crc_ref 0 (db_bytes db))"
proof -
  let ?bc = "drop (unat (bytecode db) - offsetof_padding) (tail db)"
  note placed_bytes(1,2) [OF assms]
  moreover have "Crc32c_ComputeBuf 0 (addr + unat (bytecode db)) ?bc (ucast (db_length db)) = Some (crc_ref 0 (db_bytes db))"
    unfolding Crc32c_ComputeBuf_def crc32c_sb8_64_bit_def Let_def db_bytes_def
    using sb8.driver [of "ROUNDUP_PTR (addr + unat (bytecode db)) 4 - (addr + unat (bytecode db))" "ucast (db_length db)" ?bc 0]
      assms placed_bytes(2) [OF assms]
    by (simp add: unat_ucast_size roundup_aligned db_placed_def)
  ultimately show ?thesis by simp
qed

lemma placed_check_crc:
  assumes "db_placed addr db"
  shows "db_check_crc addr db = Some (if crc_ref 0 (db_bytes db) \<noteq> crc32 db then HS_INVALID else HS_SUCCESS)"
  using placed_crc [OF assms] by (auto simp: db_check_crc_def bind_eq_Some_conv)

lemma dbIsValid_ok: "db_ok b addr db \<Longrightarrow> dbIsValid b addr db = Some HS_SUCCESS"
proof -
  assume ok: "db_ok b addr db"
  then have pl: "db_placed addr db" by (simp add: db_ok_def)
  then have "(addr + unat (bytecode db)) mod 64 mod 16 = 0" by (simp add: db_placed_def)
  then have "(addr + unat (bytecode db)) mod 16 = 0" using mod_mod_cancel [of 16 64 "addr + unat (bytecode db)"] by simp
  then show ?thesis using ok placed_check_crc [OF pl] by (simp add: dbIsValid_def db_ok_def ISALIGNED_N_def)
qed

section \<open>Creation and loading\<close>

lemma place_bytecode_spec:
  assumes "tail db = zero_tail (sizeof_hs_database + unat (db_length db))" "unat (db_length db) \<le> length src"
  obtains db' where "place_bytecode addr db src (unat (db_length db)) = Some db'" "db_placed addr db'"
    "db_bytes db' = take (unat (db_length db)) src" "\<exists>bc tl. db' = db\<lparr>bytecode := bc, tail := tl\<rparr>"
proof -
  let ?n = "unat (db_length db)" and ?shift = "(addr + 104) mod 64"
  define off where "off = 104 - ?shift"
  have sh: "?shift < 64" by simp
  then have off: "40 < off" "off \<le> 104" by (auto simp: off_def)
  then have off32: "unat (of_nat off :: u32) = off" by (simp add: u32_unat_of_nat)
  have len: "length (tail db) = 64 + ?n" using assms(1) by (simp add: zero_tail_def sizeof_hs_database_def offsetof_padding_def)
  let ?tl = "take (off - 40) (tail db) @ take ?n src @ drop (off - 40 + ?n) (tail db)"
  let ?db = "db\<lparr>bytecode := of_nat off, tail := ?tl\<rparr>"
  have lsrc: "length (take ?n src) = ?n" using assms(2) by simp
  have "(addr + off) mod 64 = 0"
  proof -
    have "addr + off = (addr + 104) - ?shift" using sh by (simp add: off_def)
    then show ?thesis by (simp add: minus_mod_eq_div_mult)
  qed
  then have placed: "db_placed addr ?db"
    using off len lsrc by (simp add: db_placed_def offsetof_padding_def off32)
  have "memcpy (tail db) (off - 40) (take ?n src) = Some ?tl"
    using len off lsrc by (simp add: memcpy_def)
  then have "place_bytecode addr db src ?n = Some ?db"
    using assms(2) by (simp add: place_bytecode_def memread_def Let_def off_def offsetof_bytes_def offsetof_padding_def)
  moreover have "db_bytes ?db = take ?n src"
    using len off lsrc by (simp add: db_bytes_def off32 offsetof_padding_def)
  ultimately show ?thesis using placed that by blast
qed

lemma load_database_spec:
  assumes "unat (db_length hdr) \<le> length rest"
  obtains db where "load_database hdr rest addr =
      Some (if crc32 hdr = crc_ref 0 (take (unat (db_length hdr)) rest) then HS_SUCCESS else HS_INVALID, Some db)"
    "db_placed addr db" "db_bytes db = take (unat (db_length hdr)) rest"
    "\<exists>bc tl. db = hdr\<lparr>bytecode := bc, tail := tl\<rparr>"
proof -
  let ?hdr = "hdr\<lparr>tail := zero_tail (sizeof_hs_database + unat (db_length hdr))\<rparr>"
  obtain db where db: "place_bytecode addr ?hdr rest (unat (db_length ?hdr)) = Some db" "db_placed addr db"
    "db_bytes db = take (unat (db_length ?hdr)) rest" and ex: "\<exists>bc tl. db = ?hdr\<lparr>bytecode := bc, tail := tl\<rparr>"
    by (rule place_bytecode_spec [of ?hdr rest addr]) (use assms in simp_all)
  from ex have eq: "\<exists>bc tl. db = hdr\<lparr>bytecode := bc, tail := tl\<rparr>" "crc32 db = crc32 hdr" by auto
  have "load_database hdr rest addr =
      Some (if crc32 hdr = crc_ref 0 (take (unat (db_length hdr)) rest) then HS_SUCCESS else HS_INVALID, Some db)"
    using db eq(2) placed_check_crc [OF db(2)] by (auto simp: load_database_def db_copy_bytecode_def)
  then show ?thesis using that db eq by simp
qed

lemma decode_header_total:
  assumes "length buf = len"
  shows "\<exists>r. db_decode_header b (Some buf) len = Some r \<and>
    (\<forall>hdr rest. snd r = Some (hdr, rest) \<longrightarrow> fst r = HS_SUCCESS \<and> magic hdr = HS_DB_MAGIC \<and>
       version hdr = HS_DB_VERSION b \<and> len = sizeof_hs_database + unat (db_length hdr) \<and> rest = drop 32 buf) \<and>
    (snd r = None \<longrightarrow> fst r \<noteq> HS_SUCCESS)"
proof (cases "len < sizeof_hs_database")
  case False
  then have "104 \<le> length buf" using assms by (simp add: sizeof_hs_database_def)
  then have "\<exists>w. read_u32 buf 0 = Some w" "\<exists>w. read_u32 buf 4 = Some w" "\<exists>w. read_u32 buf 8 = Some w"
    "\<exists>w. read_u64 buf 12 = Some w" "\<exists>w. read_u32 buf 20 = Some w" "\<exists>w. read_u32 buf 24 = Some w" "\<exists>w. read_u32 buf 28 = Some w"
    by (simp_all add: read_u32_def read_u64_def)
  then show ?thesis using False by (auto simp: db_decode_header_def)
qed (simp add: db_decode_header_def)

lemma decode_serialized:
  fixes db :: hs_database
  defines "hdr \<equiv> [le32 (magic db), le32 (version db), le32 (db_length db), le_bytes (platform db),
      le32 (crc32 db), le32 (reserved0 db), le32 (reserved1 db)]"
  assumes "magic db = HS_DB_MAGIC" "version db = HS_DB_VERSION b" "len = sizeof_hs_database + unat (db_length db)"
  shows "db_decode_header b (Some (concat hdr @ rest)) len = Some (HS_SUCCESS, Some (db\<lparr>bytecode := 0, tail := []\<rparr>, rest))"
proof -
  let ?buf = "concat hdr @ rest"
  have "read_u32 ?buf 0 = Some (magic db)"
    using read_u32_mid [of "[]" 0 "magic db"] by (simp add: hdr_def)
  moreover have "read_u32 ?buf 4 = Some (version db)"
    using read_u32_mid [of "concat (take 1 hdr)" 4 "version db"] by (simp add: hdr_def)
  moreover have "read_u32 ?buf 8 = Some (db_length db)"
    using read_u32_mid [of "concat (take 2 hdr)" 8 "db_length db"] by (simp add: hdr_def)
  moreover have "read_u64 ?buf 12 = Some (platform db)"
    using read_u64_mid [of "concat (take 3 hdr)" 12 "platform db"] by (simp add: hdr_def)
  moreover have "read_u32 ?buf 20 = Some (crc32 db)"
    using read_u32_mid [of "concat (take 4 hdr)" 20 "crc32 db"] by (simp add: hdr_def)
  moreover have "read_u32 ?buf 24 = Some (reserved0 db)"
    using read_u32_mid [of "concat (take 5 hdr)" 24 "reserved0 db"] by (simp add: hdr_def)
  moreover have "read_u32 ?buf 28 = Some (reserved1 db)"
    using read_u32_mid [of "concat (take 6 hdr)" 28 "reserved1 db"] by (simp add: hdr_def)
  moreover have "drop 32 ?buf = rest" by (simp add: hdr_def)
  ultimately show ?thesis using assms(2-) by (simp add: db_decode_header_def)
qed

section \<open>Properties\<close>

definition alloc_ok :: "(nat \<Rightarrow> nat) \<Rightarrow> nat \<Rightarrow> bool" where
  "alloc_ok alloc n \<longleftrightarrow> alloc n \<noteq> 0 \<and> alloc n mod 8 = 0"

lemma check_alloc_ok: "alloc_ok alloc n \<Longrightarrow> hs_check_alloc (alloc n) = HS_SUCCESS"
  by (simp add: alloc_ok_def hs_check_alloc_def ISALIGNED_N_def)

lemma serialize_ok:
  assumes "db_ok b addr db" "addr mod 8 = 0" "alloc_ok alloc (sizeof_hs_database + unat (db_length db))"
  shows "hs_serialize_database b alloc (Some (addr, db)) True True = Some (HS_SUCCESS, Some (concat
    [le32 (magic db), le32 (version db), le32 (db_length db), le_bytes (platform db), le32 (crc32 db),
     le32 (reserved0 db), le32 (reserved1 db)] @ db_bytes db @ replicate 72 0))"
proof -
  let ?n = "unat (db_length db)"
  have pl: "db_placed addr db" using assms(1) by (simp add: db_ok_def)
  let ?bc = "drop (unat (bytecode db) - offsetof_padding) (tail db)"
  note bc = placed_bytes [OF pl]
  have src: "memread ?bc ?n = Some (db_bytes db)" using bc(2) by (simp add: memread_def db_bytes_def)
  have rep: "drop (32 + ?n) (replicate (sizeof_hs_database + ?n) (0 :: u8)) = replicate 72 0"
    by (simp add: sizeof_hs_database_def)
  have valid: "validDatabase b (Some db) = HS_SUCCESS" using assms(1) by (simp add: db_ok_def validDatabase_def)
  let ?fs = "[le32 (magic db), le32 (version db), le32 (db_length db), le_bytes (platform db), le32 (crc32 db),
     le32 (reserved0 db), le32 (reserved1 db), db_bytes db]"
  have "write_fields (replicate (sizeof_hs_database + ?n) 0) 0 ?fs = Some (concat ?fs @ replicate 72 0)"
    by (subst write_fields_spec) (use rep bc(3) in \<open>simp_all add: sizeof_hs_database_def\<close>)
  then show ?thesis
    using assms(2) valid check_alloc_ok [OF assms(3)] bc(1) src
    by (simp add: hs_serialize_database_def db_correctly_aligned_def ISALIGNED_N_def Let_def del: write_fields.simps)
qed

text \<open>
  C28. Serialisation round-trips. A valid database serialises to the size its header announces, and
  deserialising those bytes at any aligned address succeeds and yields a valid database with the same header
  fields and the same bytecode, aligned to a cache line there.
\<close>

theorem serialize_roundtrip:
  assumes "db_ok b addr db" "addr mod 8 = 0" "alloc_ok alloc (sizeof_hs_database + unat (db_length db))"
    and "addr' mod 8 = 0" "addr' \<noteq> 0"
  shows "\<exists>out db'. hs_serialize_database b alloc (Some (addr, db)) True True = Some (HS_SUCCESS, Some out) \<and>
    hs_database_size b (Some db) True = (HS_SUCCESS, Some (length out)) \<and>
    hs_serialized_database_size b (Some out) (length out) True = Some (HS_SUCCESS, Some (length out)) \<and>
    hs_deserialize_database_at b (Some out) (length out) addr' = Some (HS_SUCCESS, Some db') \<and>
    db_ok b addr' db' \<and> db_bytes db' = db_bytes db \<and> (\<exists>bc tl. db' = db\<lparr>bytecode := bc, tail := tl\<rparr>)"
proof -
  let ?n = "unat (db_length db)"
  let ?hdr = "concat [le32 (magic db), le32 (version db), le32 (db_length db), le_bytes (platform db), le32 (crc32 db),
     le32 (reserved0 db), le32 (reserved1 db)]"
  let ?rest = "db_bytes db @ replicate 72 0"
  let ?out = "?hdr @ ?rest"
  have ok: "magic db = HS_DB_MAGIC" "version db = HS_DB_VERSION b" "db_check_platform b (platform db) = HS_SUCCESS"
    "crc32 db = crc_ref 0 (db_bytes db)" "db_placed addr db" using assms(1) by (simp_all add: db_ok_def)
  have nb: "length (db_bytes db) = ?n" by (rule placed_bytes(3) [OF ok(5)])
  then have lo: "length ?out = sizeof_hs_database + ?n" by (simp add: sizeof_hs_database_def)
  have dec: "db_decode_header b (Some ?out) (length ?out) = Some (HS_SUCCESS, Some (db\<lparr>bytecode := 0, tail := []\<rparr>, ?rest))"
    by (rule decode_serialized [OF ok(1,2) lo])
  obtain db' where db': "load_database (db\<lparr>bytecode := 0, tail := []\<rparr>) ?rest addr' = Some (HS_SUCCESS, Some db')"
    "db_placed addr' db'" "db_bytes db' = db_bytes db" "\<exists>bc tl. db' = db\<lparr>bytecode := bc, tail := tl\<rparr>"
    by (rule load_database_spec [of "db\<lparr>bytecode := 0, tail := []\<rparr>" ?rest addr']) (use nb ok(4) in auto)
  have "hs_deserialize_database_at b (Some ?out) (length ?out) addr' = Some (HS_SUCCESS, Some db')"
    using assms(4,5) dec db'(1) ok(3) by (simp add: hs_deserialize_database_at_def ISALIGNED_N_def)
  moreover have "db_ok b addr' db'" using db'(2-4) ok by (auto simp: db_ok_def)
  moreover have "hs_database_size b (Some db) True = (HS_SUCCESS, Some (length ?out))"
    using lo ok by (simp add: hs_database_size_def validDatabase_def)
  moreover have "hs_serialized_database_size b (Some ?out) (length ?out) True = Some (HS_SUCCESS, Some (length ?out))"
    using lo dec by (simp add: hs_serialized_database_size_def)
  ultimately show ?thesis using serialize_ok [OF assms(1-3)] db'(3,4) by blast
qed

definition example_build :: build where
  "example_build = \<lparr>HS_DB_VERSION = 0x05040b00, HAVE_AVX2 = True, HAVE_AVX512 = False, HAVE_AVX512VBMI = False\<rparr>"

definition example_db :: hs_database where
  "example_db = \<lparr>magic = HS_DB_MAGIC, version = 0x05040b00, db_length = 2, platform = hs_current_platform_no_avx512,
     crc32 = crc_ref 0 [7, 9], reserved0 = 0, reserved1 = 0, bytecode = 64, tail = replicate 24 0 @ [7, 9] @ replicate 40 0\<rparr>"

lemma example_platform: "db_check_platform example_build hs_current_platform_no_avx512 = HS_SUCCESS"
  by (simp add: db_check_platform_def example_build_def hs_current_platform_def hs_current_platform_no_avx512_def
      HS_PLATFORM_NOAVX512_def HS_PLATFORM_NOAVX512VBMI_def)

lemma example_db_ok: "db_ok example_build 4096 example_db"
  using example_platform
  by (simp add: db_ok_def db_placed_def db_bytes_def example_db_def offsetof_padding_def)
    (simp add: example_build_def)

theorem serialize_roundtrip_witness:
  "\<exists>out db'. hs_serialize_database example_build (\<lambda>_. 8192) (Some (4096, example_db)) True True = Some (HS_SUCCESS, Some out) \<and>
    hs_deserialize_database_at example_build (Some out) (length out) 1000 = Some (HS_SUCCESS, Some db') \<and>
    db_bytes db' = [7, 9]"
proof -
  have "db_bytes example_db = [7, 9]" by (simp add: db_bytes_def example_db_def offsetof_padding_def)
  then show ?thesis
    using serialize_roundtrip [OF example_db_ok, of "\<lambda>_. 8192" 1000] by (auto simp: alloc_ok_def)
qed

text \<open>
  C30. What \<^verbatim>\<open>dbCreate\<close> makes from the first \<open>len\<close> bytes of a bytecode, with \<open>len\<close> below
  \<open>2\<^sup>32\<close> because the header stores the length in 32 bits. When the allocation fails the check
  of its alignment, there is no database. When the allocator gives aligned memory, \<^verbatim>\<open>dbCreate\<close>
  stays inside it, the database holds those bytes and the target platform, and on a build of any
  version \<^verbatim>\<open>dbIsValid\<close> answers a version error when the versions differ and otherwise exactly
  what the check of the target platform answers: it accepts the database where the platform check
  accepts the target, and gives a platform error when the database was compiled for another platform.
\<close>

theorem dbCreate_valid:
  assumes "len \<le> length bc" "len < 2 ^ 32"
  shows "let addr = alloc (sizeof_hs_database + len) in
    (hs_check_alloc addr \<noteq> HS_SUCCESS \<longrightarrow> dbCreate b alloc bc len plat = Some None) \<and>
    (alloc_ok alloc (sizeof_hs_database + len) \<longrightarrow>
      (\<exists>db. dbCreate b alloc bc len plat = Some (Some (addr, db)) \<and>
        db_bytes db = take len bc \<and> platform db = plat \<and>
        (db_check_platform b plat = HS_SUCCESS \<longrightarrow> db_ok b addr db) \<and>
        (\<forall>b'. dbIsValid b' addr db =
           Some (if HS_DB_VERSION b' \<noteq> HS_DB_VERSION b then HS_DB_VERSION_ERROR else db_check_platform b' plat))))"
proof -
  let ?a = "alloc (sizeof_hs_database + len)"
  let ?db = "\<lparr>magic = HS_DB_MAGIC, version = HS_DB_VERSION b, db_length = of_nat len, platform = plat, crc32 = 0,
     reserved0 = 0, reserved1 = 0, bytecode = 0, tail = zero_tail (sizeof_hs_database + len)\<rparr>"
  have n: "unat (db_length ?db) = len" using assms(2) by (simp add: u32_unat_of_nat)
  obtain db where db: "place_bytecode ?a ?db bc (unat (db_length ?db)) = Some db" "db_placed ?a db"
    "db_bytes db = take (unat (db_length ?db)) bc" "\<exists>c tl. db = ?db\<lparr>bytecode := c, tail := tl\<rparr>"
    by (rule place_bytecode_spec [of ?db bc ?a]) (use n assms(1) in simp_all)
  let ?r = "db\<lparr>crc32 := crc_ref 0 (db_bytes db)\<rparr>"
  have made: "dbCreate b alloc bc len plat = Some (Some (?a, ?r))" if "alloc_ok alloc (sizeof_hs_database + len)"
    using check_alloc_ok [OF that] db(1) n placed_crc [OF db(2)]
    by (auto simp: dbCreate_def Let_def bind_eq_Some_conv)
  have r: "db_placed ?a ?r" "db_bytes ?r = take len bc" "platform ?r = plat" "magic ?r = HS_DB_MAGIC"
    "version ?r = HS_DB_VERSION b" "crc32 ?r = crc_ref 0 (db_bytes ?r)"
    using db n by (auto simp: db_placed_def db_bytes_def)
  have ok: "db_ok b' ?a ?r" if "HS_DB_VERSION b' = HS_DB_VERSION b" "db_check_platform b' plat = HS_SUCCESS" for b'
    using r that by (simp add: db_ok_def)
  have valid: "dbIsValid b' ?a ?r =
      Some (if HS_DB_VERSION b' \<noteq> HS_DB_VERSION b then HS_DB_VERSION_ERROR else db_check_platform b' plat)" for b'
  proof (cases "HS_DB_VERSION b' = HS_DB_VERSION b \<and> db_check_platform b' plat = HS_SUCCESS")
    case True
    then show ?thesis using dbIsValid_ok [OF ok] by simp
  next
    case False
    then show ?thesis using r(3-5) by (auto simp: dbIsValid_def db_check_platform_def)
  qed
  show ?thesis
    unfolding Let_def
  proof (intro conjI impI)
    assume "hs_check_alloc ?a \<noteq> HS_SUCCESS"
    then show "dbCreate b alloc bc len plat = Some None" by (simp add: dbCreate_def)
  next
    assume "alloc_ok alloc (sizeof_hs_database + len)"
    with made r ok valid show "\<exists>db. dbCreate b alloc bc len plat = Some (Some (?a, db)) \<and>
        db_bytes db = take len bc \<and> platform db = plat \<and>
        (db_check_platform b plat = HS_SUCCESS \<longrightarrow> db_ok b ?a db) \<and>
        (\<forall>b'. dbIsValid b' ?a db =
           Some (if HS_DB_VERSION b' \<noteq> HS_DB_VERSION b then HS_DB_VERSION_ERROR else db_check_platform b' plat))"
      by (intro exI [of _ ?r]) simp
  qed
qed

text \<open>
  On a build without AVX512, a database compiled for that platform is accepted and one compiled for a platform with
  every feature is refused; an address that is not aligned gives no database.
\<close>

theorem dbCreate_valid_witness:
  "(\<exists>db. dbCreate example_build (\<lambda>_. 8192) [1, 2, 3] 3 hs_current_platform_no_avx512 = Some (Some (8192, db)) \<and>
    dbIsValid example_build 8192 db = Some HS_SUCCESS \<and> db_bytes db = [1, 2, 3]) \<and>
   (\<exists>db. dbCreate example_build (\<lambda>_. 8192) [1, 2, 3] 3 0 = Some (Some (8192, db)) \<and>
    dbIsValid example_build 8192 db = Some HS_DB_PLATFORM_ERROR) \<and>
   dbCreate example_build (\<lambda>_. 8195) [1, 2, 3] 3 0 = Some None"
proof -
  have al: "alloc_ok (\<lambda>_. 8192) (sizeof_hs_database + 3)" by (simp add: alloc_ok_def)
  have bad: "hs_check_alloc 8195 \<noteq> HS_SUCCESS" by code_simp
  have pl: "db_check_platform example_build 0 = HS_DB_PLATFORM_ERROR" by code_simp
  note t = dbCreate_valid [of 3 "[1, 2, 3]" _ example_build, simplified Let_def]
  show ?thesis
    using t [of "\<lambda>_. 8192" hs_current_platform_no_avx512] t [of "\<lambda>_. 8192" 0] t [of "\<lambda>_. 8195" 0] al bad pl example_platform
    by force
qed

text \<open>
  C29. Deserialisation is safe on arbitrary input: whatever the bytes are, it reads only the input and writes
  only the announced size, and when it reports success the database is valid and its bytecode is the part of the
  input behind the header, with the checksum the header states.
\<close>

theorem deserialize_safe:
  assumes "addr mod 8 = 0" "addr \<noteq> 0"
  shows "\<exists>ret res. hs_deserialize_database_at b (Some buf) (length buf) addr = Some (ret, res) \<and>
    (ret = HS_SUCCESS \<longrightarrow> (\<exists>db. res = Some db \<and> db_ok b addr db \<and>
       db_bytes db = take (unat (db_length db)) (drop 32 buf) \<and> length buf = sizeof_hs_database + unat (db_length db)))"
proof -
  obtain r where r: "db_decode_header b (Some buf) (length buf) = Some r"
    and some: "\<And>hdr rest. snd r = Some (hdr, rest) \<Longrightarrow> fst r = HS_SUCCESS \<and> magic hdr = HS_DB_MAGIC \<and>
       version hdr = HS_DB_VERSION b \<and> length buf = sizeof_hs_database + unat (db_length hdr) \<and> rest = drop 32 buf"
    and none: "snd r = None \<Longrightarrow> fst r \<noteq> HS_SUCCESS"
    using decode_header_total [of buf, OF refl, of b] by (elim exE conjE) (rule that; blast)
  show ?thesis
  proof (cases "snd r")
    case None
    then show ?thesis using r none assms by (cases r) (auto simp: hs_deserialize_database_at_def ISALIGNED_N_def)
  next
    case (Some hr)
    obtain hdr rest where hr: "hr = (hdr, rest)" by (cases hr)
    have h: "magic hdr = HS_DB_MAGIC" "version hdr = HS_DB_VERSION b"
      "length buf = sizeof_hs_database + unat (db_length hdr)" "rest = drop 32 buf" using some Some hr by blast+
    have "unat (db_length hdr) \<le> length rest" using h(3,4) by (simp add: sizeof_hs_database_def)
    then obtain db where db: "load_database hdr rest addr =
        Some (if crc32 hdr = crc_ref 0 (take (unat (db_length hdr)) rest) then HS_SUCCESS else HS_INVALID, Some db)"
      "db_placed addr db" "db_bytes db = take (unat (db_length hdr)) rest" "\<exists>bc tl. db = hdr\<lparr>bytecode := bc, tail := tl\<rparr>"
      by (rule load_database_spec)
    have eqs: "magic db = magic hdr" "version db = version hdr" "platform db = platform hdr" "crc32 db = crc32 hdr"
      "db_length db = db_length hdr" using db(4) by auto
    have res: "hs_deserialize_database_at b (Some buf) (length buf) addr =
      (if db_check_platform b (platform hdr) \<noteq> HS_SUCCESS then Some (db_check_platform b (platform hdr), None)
       else load_database hdr rest addr)"
      using r Some hr assms by (cases r) (simp add: hs_deserialize_database_at_def ISALIGNED_N_def Let_def)
    show ?thesis
      unfolding res db(1) using db(2,3) eqs h by (auto simp: db_ok_def)
  qed
qed

theorem deserialize_safe_witness:
  "\<exists>ret res. hs_deserialize_database_at example_build (Some (replicate 200 0xdb)) 200 64 = Some (ret, res)"
  using deserialize_safe [of 64 example_build "replicate 200 0xdb"] by auto

text \<open>
  C31. The platform check accepts exactly the less capable platforms: on a build whose instruction sets are
  nested (AVX512VBMI implies AVX512 implies AVX2), a platform word is accepted if and only if it is one of the four
  nested feature sets and lacks every feature the build lacks.
\<close>

theorem platform_check_nested:
  assumes "HAVE_AVX512VBMI b \<longrightarrow> HAVE_AVX512 b" "HAVE_AVX512 b \<longrightarrow> HAVE_AVX2 b"
  shows "db_check_platform b p = HS_SUCCESS \<longleftrightarrow>
    p \<in> {0, hs_current_platform_no_avx512vbmi, hs_current_platform_no_avx512, hs_current_platform_no_avx2} \<and>
    hs_current_platform b AND p = hs_current_platform b"
  using assms
  by (cases "HAVE_AVX2 b"; cases "HAVE_AVX512 b"; cases "HAVE_AVX512VBMI b")
    (auto simp: db_check_platform_def hs_current_platform_def hs_current_platform_no_avx2_def
      hs_current_platform_no_avx512_def hs_current_platform_no_avx512vbmi_def HS_PLATFORM_NOAVX2_def
      HS_PLATFORM_NOAVX512_def HS_PLATFORM_NOAVX512VBMI_def)

theorem platform_check_nested_witness: "db_check_platform example_build 0 \<noteq> HS_SUCCESS"
  using platform_check_nested [of example_build 0]
  by (simp add: example_build_def hs_current_platform_def HS_PLATFORM_NOAVX512_def HS_PLATFORM_NOAVX512VBMI_def)

end
