(* ===== verification/Utf8Validate.thy ===== *)
theory Utf8Validate
  imports VS_Prelude
begin

text \<open>
  Validation of UTF-8 patterns, \<^verbatim>\<open>parser/utf8_validate.cpp\<close> with the constants of
  \<^verbatim>\<open>util/unicode_def.h\<close>, against an encoder of Unicode scalar values. The expression is the list
  of its bytes; \<open>None\<close> stands for the null pointer.
\<close>

unbundle bit_operations_syntax

section \<open>Model\<close>

definition UTF_CONT_BYTE_HEADER :: u8 where "UTF_CONT_BYTE_HEADER = 0x80"
definition UTF_TWO_BYTE_HEADER :: u8 where "UTF_TWO_BYTE_HEADER = 0xc0"
definition UTF_THREE_BYTE_HEADER :: u8 where "UTF_THREE_BYTE_HEADER = 0xe0"
definition UTF_FOUR_BYTE_HEADER :: u8 where "UTF_FOUR_BYTE_HEADER = 0xf0"
definition UTF_CONT_BYTE_VALUE_MASK :: u8 where "UTF_CONT_BYTE_VALUE_MASK = 0x3f"

definition hasValidContBytes :: "u8 list \<Rightarrow> nat \<Rightarrow> nat \<Rightarrow> bool" where
  "hasValidContBytes s p num = list_all (\<lambda>i. s ! (p + i) AND 0xc0 = UTF_CONT_BYTE_HEADER) [0..<num]"

definition isAllowedCodepoint :: "u32 \<Rightarrow> bool" where
  "isAllowedCodepoint val =
     (if val \<ge> 0xd800 \<and> val \<le> 0xdfff then False else if val > 0x10ffff then False else True)"

definition cont_value :: "u8 \<Rightarrow> u32" where
  "cont_value b = ucast (b AND UTF_CONT_BYTE_VALUE_MASK)"

text \<open>One turn of the loop at position \<open>i\<close>: how far it advances, or \<open>None\<close> for a break.\<close>

definition utf8_step :: "u8 list \<Rightarrow> nat \<Rightarrow> nat \<Rightarrow> nat option" where
  "utf8_step s len i =
     (if s ! i \<le> 0x7f then Some 1
      else if s ! i AND 0xe0 = UTF_TWO_BYTE_HEADER then
        if i + 2 > len then None
        else if \<not> hasValidContBytes s (i + 1) 1 then None
        else let val = push_bit 6 (ucast (s ! i AND 0x1f)) OR cont_value (s ! (i + 1))
             in if val < push_bit 7 1 then None
                else if \<not> isAllowedCodepoint val then None else Some 2
      else if s ! i AND 0xf0 = UTF_THREE_BYTE_HEADER then
        if i + 3 > len then None
        else if \<not> hasValidContBytes s (i + 1) 2 then None
        else let val = push_bit 12 (ucast (s ! i AND 0xf)) OR push_bit 6 (cont_value (s ! (i + 1)))
                       OR cont_value (s ! (i + 2))
             in if val < push_bit 11 1 then None
                else if \<not> isAllowedCodepoint val then None else Some 3
      else if s ! i AND 0xf8 = UTF_FOUR_BYTE_HEADER then
        if i + 4 > len then None
        else if \<not> hasValidContBytes s (i + 1) 3 then None
        else let val = push_bit 18 (ucast (s ! i AND 0xf)) OR push_bit 12 (cont_value (s ! (i + 1)))
                       OR push_bit 6 (cont_value (s ! (i + 2))) OR cont_value (s ! (i + 3))
             in if val < push_bit 16 1 then None
                else if \<not> isAllowedCodepoint val then None else Some 4
      else None)"

lemma utf8_step_pos: "utf8_step s len i = Some n \<Longrightarrow> 0 < n"
  by (auto simp: utf8_step_def Let_def split: if_splits)

function utf8_loop :: "u8 list \<Rightarrow> nat \<Rightarrow> nat \<Rightarrow> nat" where
  "utf8_loop s len i =
     (if i < len then (case utf8_step s len i of None \<Rightarrow> i | Some n \<Rightarrow> utf8_loop s len (i + n)) else i)"
  by pat_completeness auto
termination by (relation "measure (\<lambda>(s, len, i). len - i)") (auto dest: utf8_step_pos)

declare utf8_loop.simps [simp del]

definition isValidUtf8 :: "u8 list option \<Rightarrow> nat \<Rightarrow> bool" where
  "isValidUtf8 expression len = (case expression of None \<Rightarrow> True | Some s \<Rightarrow> utf8_loop s len 0 = len)"

section \<open>The encoder\<close>

definition scalar_value :: "nat \<Rightarrow> bool" where
  "scalar_value cp \<longleftrightarrow> cp \<le> 0x10ffff \<and> \<not> (0xd800 \<le> cp \<and> cp \<le> 0xdfff)"

definition utf8_encode :: "nat \<Rightarrow> u8 list" where
  "utf8_encode cp =
     (if cp < 0x80 then [of_nat cp]
      else if cp < 0x800 then [of_nat (0xc0 + cp div 64), of_nat (0x80 + cp mod 64)]
      else if cp < 0x10000 then [of_nat (0xe0 + cp div 4096), of_nat (0x80 + cp div 64 mod 64), of_nat (0x80 + cp mod 64)]
      else [of_nat (0xf0 + cp div 262144), of_nat (0x80 + cp div 4096 mod 64), of_nat (0x80 + cp div 64 mod 64),
            of_nat (0x80 + cp mod 64)])"

section \<open>Bytes as numbers\<close>

lemma unat_byte: "unat (b :: u8) < 256"
  using unsigned_less [of b, where 'a = nat] by simp

lemma unat_of_byte: "n < 256 \<Longrightarrow> unat (of_nat n :: u8) = n"
  by (simp add: unat_of_nat take_bit_nat_eq_self)

lemma head_masks: "(0xc0 :: u8) = NOT (mask 6)" "(0xe0 :: u8) = NOT (mask 5)" "(0xf0 :: u8) = NOT (mask 4)" "(0xf8 :: u8) = NOT (mask 3)"
  "(0x3f :: u8) = mask 6" "(0x1f :: u8) = mask 5" "(0xf :: u8) = mask 4"
  by (simp_all add: mask_eq_exp_minus_1)

lemma head_tests:
  "b AND 0xc0 = UTF_CONT_BYTE_HEADER \<longleftrightarrow> unat b div 64 = 2"
  "b AND 0xe0 = UTF_TWO_BYTE_HEADER \<longleftrightarrow> unat b div 32 = 6"
  "b AND 0xf0 = UTF_THREE_BYTE_HEADER \<longleftrightarrow> unat b div 16 = 14"
  "b AND 0xf8 = UTF_FOUR_BYTE_HEADER \<longleftrightarrow> unat b div 8 = 30"
proof -
  have eq: "unat (0x80 :: u8) = 128" "unat (0xc0 :: u8) = 192" "unat (0xe0 :: u8) = 224" "unat (0xf0 :: u8) = 240" by simp_all
  show "b AND 0xc0 = UTF_CONT_BYTE_HEADER \<longleftrightarrow> unat b div 64 = 2"
    unfolding word_unat_eq_iff UTF_CONT_BYTE_HEADER_def eq(1) unfolding head_masks(1) unat_and_not_mask by auto
  show "b AND 0xe0 = UTF_TWO_BYTE_HEADER \<longleftrightarrow> unat b div 32 = 6"
    unfolding word_unat_eq_iff UTF_TWO_BYTE_HEADER_def eq(2) unfolding head_masks(2) unat_and_not_mask by auto
  show "b AND 0xf0 = UTF_THREE_BYTE_HEADER \<longleftrightarrow> unat b div 16 = 14"
    unfolding word_unat_eq_iff UTF_THREE_BYTE_HEADER_def eq(3) unfolding head_masks(3) unat_and_not_mask by auto
  show "b AND 0xf8 = UTF_FOUR_BYTE_HEADER \<longleftrightarrow> unat b div 8 = 30"
    unfolding word_unat_eq_iff UTF_FOUR_BYTE_HEADER_def eq(4) unfolding head_masks(4) unat_and_not_mask by auto
qed

lemma unat_cast: "unat (ucast (b :: u8) :: u32) = unat b"
  by transfer (simp add: take_bit_take_bit)

lemma low_values:
  "unat (cont_value b) = unat b mod 64" "unat (ucast (b AND 0x1f) :: u32) = unat b mod 32"
  "unat (ucast (b AND 0xf) :: u32) = unat b mod 16"
  unfolding cont_value_def UTF_CONT_BYTE_VALUE_MASK_def unat_cast unfolding head_masks unat_and_mask by simp_all

lemma unat_shift_or:
  fixes x y :: u32
  assumes "unat x < 2 ^ a" "a + k \<le> 32" "unat y < 2 ^ k"
  shows "unat (push_bit k x OR y) = unat x * 2 ^ k + unat y"
proof -
  have "unat x * 2 ^ k < 2 ^ 32"
  proof -
    have "unat x * 2 ^ k < 2 ^ a * 2 ^ k" using assms(1) by simp
    also have "\<dots> \<le> 2 ^ 32" using assms(2) by (metis power_add power_increasing_iff one_less_numeral_iff semiring_norm(76))
    finally show ?thesis .
  qed
  then have "unat (push_bit k x) = unat x * 2 ^ k"
    unfolding unsigned_push_bit_eq push_bit_eq_mult [of k "unat x"] by (simp add: take_bit_nat_eq_self)
  moreover have "\<not> bit (push_bit k x) j \<or> \<not> bit y j" for j
  proof (cases "j < k")
    case False
    then have "unat y < 2 ^ j" using assms(3) by (meson le_less_trans not_less power_increasing one_le_numeral order_less_le_trans)
    then have "\<not> bit (unat y) j" by (simp add: bit_iff_odd)
    then show ?thesis by (simp add: bit_unsigned_iff)
  qed (simp add: bit_simps)
  ultimately show ?thesis using unat_disjoint_or [of "push_bit k x" y] by simp
qed

lemma code_point_values:
  fixes b0 b1 b2 b3 :: u8
  defines "v2 \<equiv> \<lambda>b0 b1. push_bit 6 (ucast (b0 AND 0x1f)) OR cont_value b1"
    and "v3 \<equiv> \<lambda>b0 b1 b2. push_bit 12 (ucast (b0 AND 0xf)) OR push_bit 6 (cont_value b1) OR cont_value b2"
    and "v4 \<equiv> \<lambda>b0 b1 b2 b3. push_bit 18 (ucast (b0 AND 0xf)) OR push_bit 12 (cont_value b1) OR push_bit 6 (cont_value b2) OR cont_value b3"
  shows "unat (v2 b0 b1) = unat b0 mod 32 * 64 + unat b1 mod 64"
    and "unat (v3 b0 b1 b2) = unat b0 mod 16 * 4096 + (unat b1 mod 64 * 64 + unat b2 mod 64)"
    and "unat (v4 b0 b1 b2 b3) = unat b0 mod 16 * 262144 + (unat b1 mod 64 * 4096 + (unat b2 mod 64 * 64 + unat b3 mod 64))"
proof -
  have lt: "x mod 64 < 64" "x mod 32 < 32" "x mod 16 < 16" for x :: nat by simp_all
  show "unat (v2 b0 b1) = unat b0 mod 32 * 64 + unat b1 mod 64"
    unfolding v2_def by (subst unat_shift_or [where a = 5]) (simp_all add: low_values)
  have two: "unat (push_bit 6 (cont_value x) OR cont_value y) = unat x mod 64 * 64 + unat y mod 64" for x y
    by (subst unat_shift_or [where a = 6]) (simp_all add: low_values)
  have two_lt: "unat x mod 64 * 64 + unat y mod 64 < 4096" for x y :: u8
    using lt(1) [of "unat x"] lt(1) [of "unat y"] by linarith
  show "unat (v3 b0 b1 b2) = unat b0 mod 16 * 4096 + (unat b1 mod 64 * 64 + unat b2 mod 64)"
    unfolding v3_def by (subst unat_shift_or [where a = 4]) (simp_all add: low_values two two_lt)
  have three: "unat (push_bit 12 (cont_value x) OR push_bit 6 (cont_value y) OR cont_value z) =
      unat x mod 64 * 4096 + (unat y mod 64 * 64 + unat z mod 64)" for x y z
    by (subst unat_shift_or [where a = 6]) (simp_all add: low_values two two_lt)
  have three_lt: "unat x mod 64 * 4096 + (unat y mod 64 * 64 + unat z mod 64) < 262144" for x y z :: u8
    using lt(1) [of "unat x"] two_lt [of y z] by linarith
  show "unat (v4 b0 b1 b2 b3) = unat b0 mod 16 * 262144 + (unat b1 mod 64 * 4096 + (unat b2 mod 64 * 64 + unat b3 mod 64))"
    unfolding v4_def by (subst unat_shift_or [where a = 4]) (simp_all add: low_values three three_lt)
qed

lemma allowed_scalar: "isAllowedCodepoint val \<longleftrightarrow> scalar_value (unat val)"
  by (auto simp: isAllowedCodepoint_def scalar_value_def word_le_nat_alt word_less_nat_alt)

text \<open>The turn of the loop over numbers.\<close>

fun cont :: "nat \<Rightarrow> bool" where
  "cont b = (b div 64 = 2)"

definition num_step :: "(nat \<Rightarrow> nat) \<Rightarrow> nat \<Rightarrow> nat option" where
  "num_step b len =
     (if b 0 < 128 then Some 1
      else if b 0 div 32 = 6 then
        if len < 2 then None else if \<not> cont (b 1) then None
        else if b 0 mod 32 * 64 + b 1 mod 64 < 128 then None
        else if \<not> scalar_value (b 0 mod 32 * 64 + b 1 mod 64) then None else Some 2
      else if b 0 div 16 = 14 then
        if len < 3 then None else if \<not> (cont (b 1) \<and> cont (b 2)) then None
        else if b 0 mod 16 * 4096 + (b 1 mod 64 * 64 + b 2 mod 64) < 2048 then None
        else if \<not> scalar_value (b 0 mod 16 * 4096 + (b 1 mod 64 * 64 + b 2 mod 64)) then None else Some 3
      else if b 0 div 8 = 30 then
        if len < 4 then None else if \<not> (cont (b 1) \<and> cont (b 2) \<and> cont (b 3)) then None
        else if b 0 mod 16 * 262144 + (b 1 mod 64 * 4096 + (b 2 mod 64 * 64 + b 3 mod 64)) < 65536 then None
        else if \<not> scalar_value (b 0 mod 16 * 262144 + (b 1 mod 64 * 4096 + (b 2 mod 64 * 64 + b 3 mod 64))) then None
        else Some 4
      else None)"

lemma cont_bytes:
  "hasValidContBytes s p 1 \<longleftrightarrow> cont (unat (s ! p))"
  "hasValidContBytes s p 2 \<longleftrightarrow> cont (unat (s ! p)) \<and> cont (unat (s ! (p + 1)))"
  "hasValidContBytes s p 3 \<longleftrightarrow> cont (unat (s ! p)) \<and> cont (unat (s ! (p + 1))) \<and> cont (unat (s ! (p + 2)))"
proof -
  have upt: "[0..<2] = [0, 1 :: nat]" "[0..<3] = [0, 1, 2 :: nat]" by (simp_all add: upt_rec)
  show "hasValidContBytes s p 1 \<longleftrightarrow> cont (unat (s ! p))"
    "hasValidContBytes s p 2 \<longleftrightarrow> cont (unat (s ! p)) \<and> cont (unat (s ! (p + 1)))"
    "hasValidContBytes s p 3 \<longleftrightarrow> cont (unat (s ! p)) \<and> cont (unat (s ! (p + 1))) \<and> cont (unat (s ! (p + 2)))"
    by (simp_all add: hasValidContBytes_def upt head_tests)
qed

lemma utf8_step_num: "utf8_step s len i = num_step (\<lambda>k. unat (s ! (i + k))) (len - i)" if "i < len"
proof -
  have lim: "(push_bit 7 1 :: u32) = 128" "(push_bit 11 1 :: u32) = 2048" "(push_bit 16 1 :: u32) = 65536" by simp_all
  have le: "b \<le> (0x7f :: u8) \<longleftrightarrow> unat b < 128" for b by (auto simp: word_le_nat_alt)
  have lens: "i + 2 > len \<longleftrightarrow> len - i < 2" "i + 3 > len \<longleftrightarrow> len - i < 3" "i + 4 > len \<longleftrightarrow> len - i < 4"
    using that by auto
  have less: "v < (128 :: u32) \<longleftrightarrow> unat v < 128" "v < (2048 :: u32) \<longleftrightarrow> unat v < 2048" "v < (65536 :: u32) \<longleftrightarrow> unat v < 65536" for v
    by (simp_all add: word_less_nat_alt)
  have idx: "i + 0 = i" "i + 1 + 1 = i + 2" "i + 1 + 2 = i + 3" by simp_all
  show ?thesis
    unfolding utf8_step_def num_step_def lim le lens less cont_bytes head_tests Let_def allowed_scalar code_point_values idx ..
qed

section \<open>Steps and code points\<close>

definition num_encode :: "nat \<Rightarrow> nat list" where
  "num_encode cp =
     (if cp < 0x80 then [cp]
      else if cp < 0x800 then [0xc0 + cp div 64, 0x80 + cp mod 64]
      else if cp < 0x10000 then [0xe0 + cp div 4096, 0x80 + cp div 64 mod 64, 0x80 + cp mod 64]
      else [0xf0 + cp div 262144, 0x80 + cp div 4096 mod 64, 0x80 + cp div 64 mod 64, 0x80 + cp mod 64])"

lemma utf8_encode_num: "utf8_encode cp = map of_nat (num_encode cp)"
  by (simp add: utf8_encode_def num_encode_def)

lemma num_encode_byte: "scalar_value cp \<Longrightarrow> x \<in> set (num_encode cp) \<Longrightarrow> x < 256"
proof -
  assume "scalar_value cp"
  then have "cp \<le> 1114111" by (simp add: scalar_value_def)
  then have "cp < 0x800 \<Longrightarrow> cp div 64 < 32" "cp < 0x10000 \<Longrightarrow> cp div 4096 < 16" "cp div 262144 < 16" by linarith+
  moreover have "y mod 64 < 64" for y :: nat by simp
  ultimately show "x \<in> set (num_encode cp) \<Longrightarrow> x < 256"
    by (auto simp: num_encode_def split: if_splits)
qed

lemma digits64:
  assumes "y < (64 :: nat)"
  shows "(x * 64 + y) div 64 = x" "(x * 64 + y) mod 64 = y"
  using assms by simp_all

lemma digits_2:
  fixes x y z :: nat
  assumes "y < 64" "z < 64"
  defines "n \<equiv> x * 4096 + (y * 64 + z)"
  shows "n div 4096 = (x :: nat) \<and> n div 64 mod 64 = y \<and> n mod 64 = z"
proof -
  have eq: "n = (x * 64 + y) * 64 + z" by (simp add: n_def)
  have n: "n div 64 = x * 64 + y" "n mod 64 = z" unfolding eq by (rule digits64 [OF assms(2)])+
  have "n div 4096 = n div 64 div 64" using div_mult2_eq [of n 64 64] by simp
  then show ?thesis using n digits64 [OF assms(1), of x] by simp
qed

lemma digits_3:
  fixes x w y z :: nat
  assumes "w < 64" "y < 64" "z < 64"
  defines "n \<equiv> x * 262144 + (w * 4096 + (y * 64 + z))"
  shows "n div 262144 = (x :: nat) \<and> n div 4096 mod 64 = w \<and> n div 64 mod 64 = y \<and> n mod 64 = z"
proof -
  have eq: "n = (x * 64 + w) * 4096 + (y * 64 + z)" by (simp add: n_def)
  have n: "n div 4096 = x * 64 + w" "n div 64 mod 64 = y" "n mod 64 = z"
    unfolding eq using digits_2 [OF assms(2,3), of "x * 64 + w"] by blast+
  have "n div 262144 = n div 4096 div 64" using div_mult2_eq [of n 4096 64] by simp
  then show ?thesis using n digits64 [OF assms(1), of x] by simp
qed

lemma split_byte: "b div m = q \<Longrightarrow> q * m + b mod m = (b :: nat)"
  by (metis div_mult_mod_eq)

lemma euclid: "q < m \<Longrightarrow> (c * m + q) div m = c \<and> (c * m + q) mod m = (q :: nat)"
  by simp

lemma heads:
  "q < 32 \<Longrightarrow> (192 + q) div 32 = 6 \<and> (192 + q) mod 32 = (q :: nat)"
  "q < 16 \<Longrightarrow> (224 + q) div 16 = 14 \<and> (224 + q) div 32 = 7 \<and> (224 + q) mod 16 = (q :: nat)"
  "q < 8 \<Longrightarrow> (240 + q) div 8 = 30 \<and> (240 + q) div 16 = 15 \<and> (240 + q) div 32 = 7 \<and> (240 + q) mod 16 = (q :: nat)"
  using euclid [of q 32 6] euclid [of q 32 7] euclid [of q 16 14] euclid [of q 16 15] euclid [of q 8 30] by simp_all

lemma num_step_encode:
  assumes "num_step b len = Some n" "0 < len"
  shows "n \<le> len \<and> (\<exists>cp. scalar_value cp \<and> num_encode cp = map b [0..<n])"
proof -
  have lt: "b k mod 64 < 64" for k by simp
  have upt: "[0..<2] = [0, 1 :: nat]" "[0..<3] = [0, 1, 2 :: nat]" "[0..<4] = [0, 1, 2, 3 :: nat]" by (simp_all add: upt_rec)
  have c: "cont (b k) \<Longrightarrow> 128 + b k mod 64 = b k" for k using split_byte [of "b k" 64 2] by simp
  consider "b 0 < 128" | "\<not> b 0 < 128" "b 0 div 32 = 6" | "\<not> b 0 < 128" "b 0 div 32 \<noteq> 6" "b 0 div 16 = 14"
    | "\<not> b 0 < 128" "b 0 div 32 \<noteq> 6" "b 0 div 16 \<noteq> 14" "b 0 div 8 = 30"
    using assms(1) by (auto simp: num_step_def split: if_splits)
  then show ?thesis
  proof cases
    case 1
    then have "n = 1" using assms(1) by (simp add: num_step_def)
    with 1 assms(2) show ?thesis by (intro conjI exI [of _ "b 0"]) (simp_all add: scalar_value_def num_encode_def)
  next
    case 2
    let ?v = "b 0 mod 32 * 64 + b 1 mod 64"
    have n: "n = 2" "2 \<le> len" "cont (b 1)" "128 \<le> ?v" "scalar_value ?v"
      using assms(1) 2 by (auto simp: num_step_def split: if_splits)
    have "?v < 2048" using lt [of 1] mod_less_divisor [of 32 "b 0"] by linarith
    then have "num_encode ?v = [b 0, b 1]"
      using n(4) digits64 [OF lt [of 1], of "b 0 mod 32"] split_byte [OF 2(2)] c [OF n(3)] by (simp add: num_encode_def)
    then show ?thesis using n upt by (intro conjI exI [of _ ?v]) simp_all
  next
    case 3
    let ?v = "b 0 mod 16 * 4096 + (b 1 mod 64 * 64 + b 2 mod 64)"
    have n: "n = 3" "3 \<le> len" "cont (b 1)" "cont (b 2)" "2048 \<le> ?v" "scalar_value ?v"
      using assms(1) 3 by (auto simp: num_step_def split: if_splits)
    have "?v < 65536" using lt [of 1] lt [of 2] mod_less_divisor [of 16 "b 0"] by linarith
    then have "num_encode ?v = [b 0, b 1, b 2]"
      using n(5) digits_2 [OF lt [of 1] lt [of 2], of "b 0 mod 16"] split_byte [OF 3(3)] c [OF n(3)] c [OF n(4)]
      by (simp add: num_encode_def)
    then show ?thesis using n upt by (intro conjI exI [of _ ?v]) simp_all
  next
    case 4
    let ?v = "b 0 mod 16 * 262144 + (b 1 mod 64 * 4096 + (b 2 mod 64 * 64 + b 3 mod 64))"
    have "num_step b len = (if len < 4 then None else if \<not> (cont (b 1) \<and> cont (b 2) \<and> cont (b 3)) then None
        else if ?v < 65536 then None else if \<not> scalar_value ?v then None else Some 4)"
      unfolding num_step_def if_not_P [OF 4(1)] if_not_P [OF 4(2)] if_not_P [OF 4(3)] if_P [OF 4(4)] ..
    then have n: "n = 4" "4 \<le> len" "cont (b 1)" "cont (b 2)" "cont (b 3)" "\<not> ?v < 65536" "scalar_value ?v"
      using assms(1) by (simp_all del: cont.simps split: if_split_asm)
    have "b 0 = 240 + b 0 mod 8" using split_byte [OF 4(4)] by linarith
    moreover have "b 0 mod 8 < 8" by simp
    ultimately obtain m where m: "b 0 = 240 + m" "m < 8" by blast
    have "240 + b 0 mod 16 = b 0" unfolding m(1) using heads(3) [OF m(2)] by simp
    then have "num_encode ?v = [b 0, b 1, b 2, b 3]"
      using n(6) digits_3 [OF lt [of 1] lt [of 2] lt [of 3], of "b 0 mod 16"] c [OF n(3)] c [OF n(4)] c [OF n(5)]
      by (simp add: num_encode_def)
    then show ?thesis using n upt by (intro conjI exI [of _ ?v]) simp_all
  qed
qed

lemma encode_num_step:
  assumes "scalar_value cp" "num_encode cp = map b [0..<n]" "n \<le> len"
  shows "num_step b len = Some n"
proof -
  have upt: "[0..<2] = [0, 1 :: nat]" "[0..<3] = [0, 1, 2 :: nat]" "[0..<4] = [0, 1, 2, 3 :: nat]" by (simp_all add: upt_rec)
  have n: "length (num_encode cp) = n" using arg_cong [OF assms(2), of length] by simp
  have nth: "b k = num_encode cp ! k" if "k < length (num_encode cp)" for k using that n assms(2) by simp
  have d64: "cp div 64 * 64 + cp mod 64 = cp" by simp
  have d4096: "cp div 4096 * 4096 + (cp div 64 mod 64 * 64 + cp mod 64) = cp"
  proof -
    have "cp div 4096 = cp div 64 div 64" using div_mult2_eq [of cp 64 64] by simp
    then show ?thesis using div_mult_mod_eq [of "cp div 64" 64] d64 by linarith
  qed
  have d262144: "cp div 262144 * 262144 + (cp div 4096 mod 64 * 4096 + (cp div 64 mod 64 * 64 + cp mod 64)) = cp"
  proof -
    have "cp div 262144 = cp div 4096 div 64" using div_mult2_eq [of cp 4096 64] by simp
    then show ?thesis using div_mult_mod_eq [of "cp div 4096" 64] d4096 by linarith
  qed
  have cont: "cont (128 + y mod 64)" "(128 + y mod 64) mod 64 = y mod 64" for y
  proof -
    have "y mod 64 < 64" by simp
    then have "(2 * 64 + y mod 64) div 64 = 2" "(2 * 64 + y mod 64) mod 64 = y mod 64" using digits64 by blast+
    then show "cont (128 + y mod 64)" "(128 + y mod 64) mod 64 = y mod 64" by simp_all
  qed
  have le: "cp \<le> 1114111" using assms(1) by (simp add: scalar_value_def)
  consider "cp < 0x80" | "0x80 \<le> cp" "cp < 0x800" | "0x800 \<le> cp" "cp < 0x10000" | "0x10000 \<le> cp" by linarith
  then show ?thesis
  proof cases
    case 1
    then have "n = 1" "b 0 = cp" using n assms(2) by (auto simp: num_encode_def)
    then show ?thesis using 1 by (simp add: num_step_def)
  next
    case 2
    then have b: "n = 2" "b 0 = 192 + cp div 64" "b 1 = 128 + cp mod 64" using n nth [of 0] nth [of 1] nth [of 2] nth [of 3] by (auto simp: num_encode_def)
    have "cp div 64 < 32" using 2 by linarith
    then have "b 0 div 32 = 6" "b 0 mod 32 = cp div 64" "\<not> b 0 < 128" unfolding b(2) using heads(1) by simp_all
    then show ?thesis using b 2 assms(1,3) cont [of cp] d64 by (simp add: num_step_def del: cont.simps)
  next
    case 3
    then have b: "n = 3" "b 0 = 224 + cp div 4096" "b 1 = 128 + cp div 64 mod 64" "b 2 = 128 + cp mod 64"
      using n nth [of 0] nth [of 1] nth [of 2] nth [of 3] by (auto simp: num_encode_def)
    have "cp div 4096 < 16" using 3 by linarith
    then have "b 0 div 16 = 14" "b 0 div 32 \<noteq> 6" "b 0 mod 16 = cp div 4096" "\<not> b 0 < 128" unfolding b(2) using heads(2) by simp_all
    then show ?thesis using b 3 assms(1,3) cont [of cp] cont [of "cp div 64"] d4096 by (simp add: num_step_def del: cont.simps)
  next
    case 4
    then have b: "n = 4" "b 0 = 240 + cp div 262144" "b 1 = 128 + cp div 4096 mod 64" "b 2 = 128 + cp div 64 mod 64" "b 3 = 128 + cp mod 64"
      using n nth [of 0] nth [of 1] nth [of 2] nth [of 3] by (auto simp: num_encode_def)
    have "cp div 262144 < 8" using le by linarith
    then have h: "\<not> b 0 < 128" "b 0 div 32 \<noteq> 6" "b 0 div 16 \<noteq> 14" "b 0 div 8 = 30" "b 0 mod 16 = cp div 262144"
      unfolding b(2) using heads(3) by simp_all
    have m: "b 1 mod 64 = cp div 4096 mod 64" "b 2 mod 64 = cp div 64 mod 64" "b 3 mod 64 = cp mod 64"
      "cont (b 1)" "cont (b 2)" "cont (b 3)"
      unfolding b using cont by blast+
    show ?thesis
      unfolding num_step_def if_not_P [OF h(1)] if_not_P [OF h(2)] if_not_P [OF h(3)] if_P [OF h(4)] h(5) m(1-3) d262144
      using m(4-6) 4 assms(1,3) b(1) by (simp del: cont.simps)
  qed
qed

lemma map_unat_of_nat: "\<forall>x \<in> set xs. x < 256 \<Longrightarrow> map unat (map (of_nat :: nat \<Rightarrow> u8) xs) = xs"
  by (simp add: map_idI unat_of_byte)

lemma utf8_step_iff:
  assumes "i < len" "len \<le> length s"
  shows "utf8_step s len i = Some n \<longleftrightarrow>
    n \<le> len - i \<and> (\<exists>cp. scalar_value cp \<and> utf8_encode cp = take n (drop i s))"
proof -
  have bytes: "map (\<lambda>k. unat (s ! (i + k))) [0..<n] = map unat (take n (drop i s))" if "n \<le> len - i"
    using that assms by (auto simp: list_eq_iff_nth_eq)
  have enc: "num_encode cp = map unat (take n (drop i s)) \<longleftrightarrow> utf8_encode cp = take n (drop i s)" if "scalar_value cp" for cp
  proof -
    have eq: "map unat (utf8_encode cp) = num_encode cp"
      unfolding utf8_encode_num by (rule map_unat_of_nat) (use num_encode_byte [OF that] in blast)
    show ?thesis
    proof
      assume "num_encode cp = map unat (take n (drop i s))"
      then show "utf8_encode cp = take n (drop i s)"
        using eq inj_mapD [of "unat :: u8 \<Rightarrow> nat"] by (simp add: inj_def word_unat_eq_iff)
    qed (use eq in metis)
  qed
  show ?thesis
    unfolding utf8_step_num [OF assms(1)]
    using num_step_encode [of "\<lambda>k. unat (s ! (i + k))" "len - i" n] encode_num_step [of _ "\<lambda>k. unat (s ! (i + k))" n "len - i"]
      assms(1) bytes enc by (metis zero_less_diff)
qed

lemma encode_nonempty: "utf8_encode cp \<noteq> []"
  by (simp add: utf8_encode_def)

lemma utf8_loop_le: "i \<le> len \<Longrightarrow> len \<le> length s \<Longrightarrow> utf8_loop s len i \<le> len"
proof (induction s len i rule: utf8_loop.induct)
  case (1 s len i)
  show ?case
  proof (cases "i < len \<and> utf8_step s len i \<noteq> None")
    case True
    then obtain n where n: "utf8_step s len i = Some n" by auto
    then have "i + n \<le> len" using utf8_step_iff [of i len s n] True 1(3) by linarith
    then show ?thesis using 1 True n by (simp add: utf8_loop.simps [of s len i])
  qed (use 1(2) in \<open>auto simp: utf8_loop.simps [of s len i] split: option.splits\<close>)
qed

lemma utf8_loop_sound:
  "i \<le> len \<Longrightarrow> len \<le> length s \<Longrightarrow> utf8_loop s len i = len \<Longrightarrow>
   \<exists>cps. (\<forall>cp \<in> set cps. scalar_value cp) \<and> drop i (take len s) = concat (map utf8_encode cps)"
proof (induction s len i rule: utf8_loop.induct)
  case (1 s len i)
  show ?case
  proof (cases "i < len")
    case True
    then obtain n where n: "utf8_step s len i = Some n"
      using 1(4) by (auto simp: utf8_loop.simps [of s len i] split: option.splits)
    then obtain cp where cp: "n \<le> len - i" "scalar_value cp" "utf8_encode cp = take n (drop i s)"
      using utf8_step_iff [OF True 1(3)] by blast
    have le: "i + n \<le> len" using cp(1) True by linarith
    obtain cps where cps: "\<forall>cp \<in> set cps. scalar_value cp" "drop (i + n) (take len s) = concat (map utf8_encode cps)"
      using 1(1) [OF True n] 1(3,4) n le by (auto simp: utf8_loop.simps [of s len i] True)
    have "drop i (take len s) = take n (drop i (take len s)) @ drop (i + n) (take len s)"
      by (metis append_take_drop_id drop_drop add.commute)
    also have "take n (drop i (take len s)) = utf8_encode cp" using cp le by (simp add: take_drop min_def add.commute)
    finally show ?thesis using cps cp(2) by (intro exI [of _ "cp # cps"]) simp
  next
    case False
    then show ?thesis using 1(2) by (intro exI [of _ "[]"]) simp
  qed
qed

lemma utf8_loop_complete:
  "i \<le> len \<Longrightarrow> len \<le> length s \<Longrightarrow> \<forall>cp \<in> set cps. scalar_value cp \<Longrightarrow>
   drop i (take len s) = concat (map utf8_encode cps) \<Longrightarrow> utf8_loop s len i = len"
proof (induction cps arbitrary: i)
  case Nil
  then have "i = len" by simp
  then show ?case by (simp add: utf8_loop.simps)
next
  case (Cons cp cps)
  let ?n = "length (utf8_encode cp)"
  have eq: "drop i (take len s) = utf8_encode cp @ concat (map utf8_encode cps)" using Cons.prems(4) by simp
  have len: "len - i = ?n + length (concat (map utf8_encode cps))"
    using arg_cong [OF eq, of length] Cons.prems(1,2) by simp
  have i: "i < len" using len encode_nonempty [of cp] by (cases "utf8_encode cp") auto
  have "take ?n (drop i (take len s)) = utf8_encode cp" using eq by simp
  moreover have "i + ?n \<le> len" using len i by linarith
  ultimately have "take ?n (drop i s) = utf8_encode cp" by (simp add: take_drop min_def add.commute)
  then have step: "utf8_step s len i = Some ?n"
    using utf8_step_iff [OF i Cons.prems(2), of ?n] len Cons.prems(3) by auto
  have "drop (i + ?n) (take len s) = concat (map utf8_encode cps)"
    using eq by (metis append_eq_conv_conj drop_drop add.commute)
  then have "utf8_loop s len (i + ?n) = len" using Cons.IH [of "i + ?n"] Cons.prems(2,3) len i by simp
  then show ?case using i step by (simp add: utf8_loop.simps [of s len i])
qed

text \<open>
  C32. \<^verbatim>\<open>isValidUtf8\<close> accepts exactly the UTF-8 encodings: the first \<open>len\<close> bytes pass if
  and only if they are the concatenated shortest encodings of Unicode scalar values. Overlong forms, surrogates,
  values above 0x10ffff, stray continuation bytes and truncated sequences are all rejected; the loop ends
  on every input.
\<close>

theorem isValidUtf8_iff:
  assumes "len \<le> length s"
  shows "isValidUtf8 (Some s) len \<longleftrightarrow>
    (\<exists>cps. (\<forall>cp \<in> set cps. scalar_value cp) \<and> take len s = concat (map utf8_encode cps))"
  using utf8_loop_sound [of 0 len s] utf8_loop_complete [of 0 len s] assms by (auto simp: isValidUtf8_def)

theorem isValidUtf8_iff_witness:
  "isValidUtf8 (Some (utf8_encode 0x20ac @ utf8_encode 0x1f600)) 7"
proof -
  have "length (utf8_encode 0x20ac @ utf8_encode 0x1f600) = 7" by (simp add: utf8_encode_def)
  moreover have "scalar_value 0x20ac" "scalar_value 0x1f600" by (simp_all add: scalar_value_def)
  ultimately show ?thesis
    by (subst isValidUtf8_iff) (auto intro!: exI [of _ "[0x20ac, 0x1f600]"])
qed

end
