(* ===== verification/ByteMemory.thy ===== *)
theory ByteMemory
  imports VS_Prelude
begin

text \<open>
  Byte-addressed memory with the unaligned accesses of \<^verbatim>\<open>util/unaligned.h\<close> and the partial ones
  of \<^verbatim>\<open>util/partial_store.h\<close>, for a little-endian target. A memory maps every address to a byte and
  a pointer is an address, so that pointer arithmetic is arithmetic on natural numbers. Structures that
  live in such a memory are reasoned about through \<open>mbit\<close>, the memory behind a pointer as an array of
  bits.
\<close>

section \<open>Model\<close>

type_synonym memory = "nat \<Rightarrow> u8"

definition load_le :: "nat \<Rightarrow> memory \<Rightarrow> nat \<Rightarrow> 'a::len word" where
  "load_le n mem a = foldr (\<lambda>i v. push_bit (8 * i) (ucast (mem (a + i))) OR v) [0..<n] 0"

definition store_le :: "nat \<Rightarrow> memory \<Rightarrow> nat \<Rightarrow> 'a::len word \<Rightarrow> memory" where
  "store_le n mem a v = (\<lambda>x. if a \<le> x \<and> x < a + n then ucast (drop_bit (8 * (x - a)) v) else mem x)"

definition unaligned_load_u16 :: "memory \<Rightarrow> nat \<Rightarrow> u16" where
  "unaligned_load_u16 mem ptr = load_le 2 mem ptr"

definition unaligned_load_u32 :: "memory \<Rightarrow> nat \<Rightarrow> u32" where
  "unaligned_load_u32 mem ptr = load_le 4 mem ptr"

definition unaligned_load_u64a :: "memory \<Rightarrow> nat \<Rightarrow> u64a" where
  "unaligned_load_u64a mem ptr = load_le 8 mem ptr"

definition unaligned_store_u16 :: "memory \<Rightarrow> nat \<Rightarrow> u16 \<Rightarrow> memory" where
  "unaligned_store_u16 mem ptr v = store_le 2 mem ptr v"

definition unaligned_store_u32 :: "memory \<Rightarrow> nat \<Rightarrow> u32 \<Rightarrow> memory" where
  "unaligned_store_u32 mem ptr v = store_le 4 mem ptr v"

definition unaligned_store_u64a :: "memory \<Rightarrow> nat \<Rightarrow> u64a \<Rightarrow> memory" where
  "unaligned_store_u64a mem ptr v = store_le 8 mem ptr v"

text \<open>The switches on the number of bytes; more than the width of the value is excluded by an assertion.\<close>

definition partial_store_u32 :: "memory \<Rightarrow> nat \<Rightarrow> u32 \<Rightarrow> nat \<Rightarrow> memory" where
  "partial_store_u32 mem ptr v numBytes =
     (if numBytes = 4 then unaligned_store_u32 mem ptr v
      else if numBytes = 3 then (unaligned_store_u16 mem ptr (ucast v))(ptr + 2 := ucast (drop_bit 16 v))
      else if numBytes = 2 then unaligned_store_u16 mem ptr (ucast v)
      else if numBytes = 1 then mem(ptr := ucast v)
      else mem)"

definition partial_load_u32 :: "memory \<Rightarrow> nat \<Rightarrow> nat \<Rightarrow> u32" where
  "partial_load_u32 mem ptr numBytes =
     (if numBytes = 4 then unaligned_load_u32 mem ptr
      else if numBytes = 3 then ucast (unaligned_load_u16 mem ptr) OR push_bit 16 (ucast (mem (ptr + 2)))
      else if numBytes = 2 then ucast (unaligned_load_u16 mem ptr)
      else if numBytes = 1 then ucast (mem ptr)
      else 0)"

definition partial_store_u64a :: "memory \<Rightarrow> nat \<Rightarrow> u64a \<Rightarrow> nat \<Rightarrow> memory" where
  "partial_store_u64a mem ptr v numBytes =
     (if numBytes = 8 then unaligned_store_u64a mem ptr v
      else if numBytes = 7 then
        (unaligned_store_u16 (unaligned_store_u32 mem ptr (ucast v)) (ptr + 4) (ucast (drop_bit 32 v)))
          (ptr + 6 := ucast (drop_bit 48 v))
      else if numBytes = 6 then
        unaligned_store_u16 (unaligned_store_u32 mem ptr (ucast v)) (ptr + 4) (ucast (drop_bit 32 v))
      else if numBytes = 5 then (unaligned_store_u32 mem ptr (ucast v))(ptr + 4 := ucast (drop_bit 32 v))
      else if numBytes = 4 then unaligned_store_u32 mem ptr (ucast v)
      else if numBytes = 3 then (unaligned_store_u16 mem ptr (ucast v))(ptr + 2 := ucast (drop_bit 16 v))
      else if numBytes = 2 then unaligned_store_u16 mem ptr (ucast v)
      else if numBytes = 1 then mem(ptr := ucast v)
      else mem)"

definition partial_load_u64a :: "memory \<Rightarrow> nat \<Rightarrow> nat \<Rightarrow> u64a" where
  "partial_load_u64a mem ptr numBytes =
     (if numBytes = 8 then unaligned_load_u64a mem ptr
      else if numBytes = 7 then
        ucast (unaligned_load_u32 mem ptr) OR push_bit 32 (ucast (unaligned_load_u16 mem (ptr + 4)))
          OR push_bit 48 (ucast (mem (ptr + 6)))
      else if numBytes = 6 then
        ucast (unaligned_load_u32 mem ptr) OR push_bit 32 (ucast (unaligned_load_u16 mem (ptr + 4)))
      else if numBytes = 5 then
        ucast (unaligned_load_u32 mem ptr) OR push_bit 32 (ucast (mem (ptr + 4)))
      else if numBytes = 4 then ucast (unaligned_load_u32 mem ptr)
      else if numBytes = 3 then ucast (unaligned_load_u16 mem ptr) OR push_bit 16 (ucast (mem (ptr + 2)))
      else if numBytes = 2 then ucast (unaligned_load_u16 mem ptr)
      else if numBytes = 1 then ucast (mem ptr)
      else 0)"

lemmas unaligned_defs = unaligned_load_u16_def unaligned_load_u32_def unaligned_load_u64a_def
  unaligned_store_u16_def unaligned_store_u32_def unaligned_store_u64a_def

section \<open>Memory as an array of bits\<close>

definition mbit :: "memory \<Rightarrow> nat \<Rightarrow> nat \<Rightarrow> bool" where
  "mbit mem a i = bit (mem (a + i div 8)) (i mod 8)"

lemma bit_foldr_or:
  "bit (foldr (\<lambda>i v. f i OR v) is 0) j \<longleftrightarrow> (\<exists>i\<in>set is. bit (f i) j)" for f :: "nat \<Rightarrow> 'a::len word"
  by (induction "is") (auto simp: bit_simps)

lemma bit_load_le:
  "bit (load_le n mem a :: 'a::len word) j \<longleftrightarrow> j < LENGTH('a) \<and> j < 8 * n \<and> mbit mem a j"
proof -
  have "bit (push_bit (8 * i) (ucast (mem (a + i)) :: 'a word)) j
        \<longleftrightarrow> j < LENGTH('a) \<and> i = j div 8 \<and> bit (mem (a + i)) (j mod 8)" for i
  proof
    assume l: "bit (push_bit (8 * i) (ucast (mem (a + i)) :: 'a word)) j"
    then have b: "8 * i \<le> j" "j < LENGTH('a)" "bit (mem (a + i)) (j - 8 * i)" 
      by (auto simp: bit_simps bit_imp_le_length)
    then have "j - 8 * i < 8" using bit_imp_le_length [of "mem (a + i)" "j - 8 * i"] by simp
    then have "i = j div 8" using b(1) by linarith
    then show "j < LENGTH('a) \<and> i = j div 8 \<and> bit (mem (a + i)) (j mod 8)"
      using b by (simp add: minus_mult_div_eq_mod)
  qed (auto simp: bit_simps minus_mult_div_eq_mod)
  then show ?thesis
    unfolding load_le_def bit_foldr_or mbit_def by (auto simp: less_mult_imp_div_less mult.commute)
qed

lemma mbit_add: "mbit mem (a + b) j = mbit mem a (8 * b + j)"
  by (simp add: mbit_def add.assoc)

lemma bit_byte: "bit (mem (a + b)) j \<longleftrightarrow> j < 8 \<and> mbit mem a (8 * b + j)" "bit (mem a) j \<longleftrightarrow> j < 8 \<and> mbit mem a j"
  for mem :: memory
  using bit_imp_le_length [of "mem (a + b)" j] bit_imp_le_length [of "mem a" j] by (auto simp: mbit_def)

lemma mbit_eqI: "(\<And>i. mbit m a i = mbit m' a i) \<Longrightarrow> a \<le> x \<Longrightarrow> m x = m' x"
proof (rule bit_word_eqI)
  fix n assume i: "\<And>i. mbit m a i = mbit m' a i" and x: "a \<le> x" and n: "n < LENGTH(8)"
  show "bit (m x) n = bit (m' x) n" using i [of "8 * (x - a) + n"] x n by (simp add: mbit_def)
qed

lemma mbit_store_le:
  "mbit (store_le n mem (a + b) v) a i =
     (if 8 * b \<le> i \<and> i < 8 * (b + n) then bit v (i - 8 * b) else mbit mem a i)" for v :: "'a::len word"
proof -
  have iff: "a + b \<le> a + i div 8 \<and> a + i div 8 < a + b + n \<longleftrightarrow> 8 * b \<le> i \<and> i < 8 * (b + n)"
    by (auto simp: less_eq_div_iff_mult_less_eq div_less_iff_less_mult algebra_simps)
  have "8 * (a + i div 8 - (a + b)) + i mod 8 = i - 8 * b" if "8 * b \<le> i"
    using that by (simp add: diff_mult_distrib2)
  then show ?thesis unfolding mbit_def store_le_def iff by (simp add: bit_simps)
qed

lemma store_le_frame: "x < a \<or> a + n \<le> x \<Longrightarrow> store_le n mem a v x = mem x"
  by (auto simp: store_le_def)

lemma mbit_upd:
  "mbit (mem(a + b := w)) a i = (if i div 8 = b then bit w (i mod 8) else mbit mem a i)"
  by (auto simp: mbit_def)

section \<open>Partial accesses\<close>

lemma partial_store_u32_eq: "n \<le> 4 \<Longrightarrow> partial_store_u32 mem a v n = store_le n mem a v"
proof
  fix x assume "n \<le> 4"
  then consider "n = 4" | "n = 3" | "n = 2" | "n = 1" | "n = 0" by linarith
  then show "partial_store_u32 mem a v n x = store_le n mem a v x"
    by cases (auto simp: partial_store_u32_def unaligned_defs store_le_def bit_simps intro!: bit_word_eqI
        dest!: le_Suc_ex)
qed

lemma partial_store_u64a_eq: "n \<le> 8 \<Longrightarrow> partial_store_u64a mem a v n = store_le n mem a v"
proof
  fix x assume "n \<le> 8"
  then consider "n = 8" | "n = 7" | "n = 6" | "n = 5" | "n = 4" | "n = 3" | "n = 2" | "n = 1" | "n = 0" by linarith
  then show "partial_store_u64a mem a v n x = store_le n mem a v x"
    by cases (auto simp: partial_store_u64a_def unaligned_defs store_le_def bit_simps add.assoc intro!: bit_word_eqI
        dest!: le_Suc_ex)
qed

lemma partial_load_u32_eq: "n \<le> 4 \<Longrightarrow> partial_load_u32 mem a n = load_le n mem a"
proof -
  assume "n \<le> 4"
  then consider "n = 4" | "n = 3" | "n = 2" | "n = 1" | "n = 0" by linarith
  then show ?thesis
    by cases (auto simp: partial_load_u32_def unaligned_defs bit_load_le bit_byte mbit_add bit_simps not_less
        simp del: add_2_eq_Suc' intro!: bit_word_eqI dest!: le_Suc_ex)
qed

lemma partial_load_u64a_eq: "n \<le> 8 \<Longrightarrow> partial_load_u64a mem a n = load_le n mem a"
proof -
  assume "n \<le> 8"
  then consider "n = 8" | "n = 7" | "n = 6" | "n = 5" | "n = 4" | "n = 3" | "n = 2" | "n = 1" | "n = 0" by linarith
  then show ?thesis
    by cases (auto simp: partial_load_u64a_def unaligned_defs bit_load_le bit_byte mbit_add bit_simps not_less
        simp del: add_2_eq_Suc' intro!: bit_word_eqI dest!: le_Suc_ex,
      linarith, linarith, rule ccontr, auto simp: not_less dest!: le_Suc_ex)
qed

lemma load_store_le:
  "load_le n (store_le n mem a v) a = v AND mask (8 * n)" for v :: "'a::len word"
  using mbit_store_le [of n mem a 0 v]
  by (intro bit_word_eqI) (auto simp: bit_load_le bit_simps)

section \<open>Properties\<close>

text \<open>
  C36. Partial stores and loads: storing the low \<open>n\<close> bytes of a value and loading \<open>n\<close> bytes gives the
  value cut to these bytes, for every \<open>n\<close> the switch knows, although store and load split the bytes
  into accesses of different widths; no other byte of memory changes.
\<close>

theorem partial_store_roundtrip:
  assumes "n \<le> 8" "m \<le> 4"
  shows "partial_load_u64a (partial_store_u64a mem p v n) p n = v AND mask (8 * n) \<and>
    partial_load_u32 (partial_store_u32 mem p w m) p m = w AND mask (8 * m) \<and>
    (\<forall>a. a \<notin> {p..<p + n} \<longrightarrow> partial_store_u64a mem p v n a = mem a) \<and>
    (\<forall>a. a \<notin> {p..<p + m} \<longrightarrow> partial_store_u32 mem p w m a = mem a)"
  by (auto simp: partial_store_u64a_eq partial_load_u64a_eq partial_store_u32_eq partial_load_u32_eq
      load_store_le store_le_frame assms)

theorem partial_store_roundtrip_witness:
  "partial_load_u64a (partial_store_u64a (\<lambda>_. 0xaa) 3 0x1122334455667788 5) 3 5 = 0x4455667788"
  using partial_store_roundtrip [of 5 0 "\<lambda>_. 0xaa" 3 "0x1122334455667788" 0] by (simp add: mask_eq_exp_minus_1)

end
