(* ===== verification/Multibit.thy ===== *)
theory Multibit
  imports ByteMemory BitField
begin

text \<open>
  The multibit of \<^verbatim>\<open>util/multibit.h\<close>, \<^verbatim>\<open>util/multibit.c\<close> and the sizing in
  \<^verbatim>\<open>util/multibit_build.cpp\<close>: a set of keys below \<open>total_bits\<close> in a byte memory, a flat bit vector up
  to 256 keys and a pyramid of 64-bit blocks above, in which a set bit of an inner block says that the
  child block holds valid data. Blocks that no set bit leads to are garbage. Keys and sizes are 32-bit
  in the code; the model keeps them as natural numbers and writes the truncation out where a left shift
  could overflow. This theory holds the layout, the operations on single keys and the tests, with the
  abstraction of a multibit to the set of its keys; \<open>MultibitIterate\<close> holds iteration and ranges.
\<close>

section \<open>Model: blocks and layout\<close>

definition MMB_INVALID :: nat where
  "MMB_INVALID = 0xffffffff"

definition MMB_MAX_BITS :: nat where
  "MMB_MAX_BITS = 2 ^ 31"

definition MMB_KEY_BITS :: nat where
  "MMB_KEY_BITS = 64"

definition MMB_KEY_MASK :: nat where
  "MMB_KEY_MASK = 63"

definition MMB_KEY_SHIFT :: nat where
  "MMB_KEY_SHIFT = 6"

definition MMB_FLAT_MAX_BITS :: nat where
  "MMB_FLAT_MAX_BITS = 256"

text \<open>Rounding to a multiple of a power of two.\<close>

definition ROUNDUP_N :: "nat \<Rightarrow> nat \<Rightarrow> nat" where
  "ROUNDUP_N a n = (a + (n - 1)) div n * n"

definition ROUNDDOWN_N :: "nat \<Rightarrow> nat \<Rightarrow> nat" where
  "ROUNDDOWN_N a n = a div n * n"

definition mmbit_keyshift_lut :: "nat list" where
  "mmbit_keyshift_lut =
     [30, 30, 24, 24, 24, 24, 24, 24, 18, 18, 18, 18, 18, 18, 12, 12, 12, 12, 12, 12, 6, 6, 6, 6, 6, 6,
      0, 0, 0, 0, 0, 0]"

definition mmbit_maxlevel_from_keyshift_lut :: "nat list" where
  "mmbit_maxlevel_from_keyshift_lut =
     [0, 0, 0, 0, 0, 0, 1, 1, 1, 1, 1, 1, 2, 2, 2, 2, 2, 2, 3, 3, 3, 3, 3, 3, 4, 4, 4, 4, 4, 4, 5, 5]"

definition mmbit_maxlevel_direct_lut :: "nat list" where
  "mmbit_maxlevel_direct_lut =
     [5, 5, 4, 4, 4, 4, 4, 4, 3, 3, 3, 3, 3, 3, 2, 2, 2, 2, 2, 2, 1, 1, 1, 1, 1, 1, 0, 0, 0, 0, 0, 0]"

definition mmbit_root_offset_from_level :: "nat list" where
  "mmbit_root_offset_from_level =
     [0, 1, 1 + 2 ^ 6, 1 + 2 ^ 6 + 2 ^ 12, 1 + 2 ^ 6 + 2 ^ 12 + 2 ^ 18, 1 + 2 ^ 6 + 2 ^ 12 + 2 ^ 18 + 2 ^ 24,
      1 + 2 ^ 6 + 2 ^ 12 + 2 ^ 18 + 2 ^ 24 + 2 ^ 30]"

definition mmb_load :: "memory \<Rightarrow> nat \<Rightarrow> u64a" where
  "mmb_load mem p = unaligned_load_u64a mem p"

definition mmb_store :: "memory \<Rightarrow> nat \<Rightarrow> u64a \<Rightarrow> memory" where
  "mmb_store mem p v = unaligned_store_u64a mem p v"

definition mmb_store_partial :: "memory \<Rightarrow> nat \<Rightarrow> u64a \<Rightarrow> nat \<Rightarrow> memory" where
  "mmb_store_partial mem p v block_bits = partial_store_u64a mem p v (ROUNDUP_N block_bits 8 div 8)"

definition mmb_single_bit :: "nat \<Rightarrow> u64a" where
  "mmb_single_bit b = push_bit b 1"

definition mmb_mask_zero_to :: "nat \<Rightarrow> u64a" where
  "mmb_mask_zero_to b = (if b = MMB_KEY_BITS then - 1 else mmb_single_bit b - 1)"

definition mmb_mask_zero_to_nocheck :: "nat \<Rightarrow> u64a" where
  "mmb_mask_zero_to_nocheck b = mmb_single_bit b - 1"

definition mmb_test :: "u64a \<Rightarrow> nat \<Rightarrow> bool" where
  "mmb_test v b = (drop_bit b v AND 1 \<noteq> 0)"

definition mmb_set :: "u64a \<Rightarrow> nat \<Rightarrow> u64a" where
  "mmb_set v b = v OR mmb_single_bit b"

definition mmb_clear :: "u64a \<Rightarrow> nat \<Rightarrow> u64a" where
  "mmb_clear v b = v AND NOT (mmb_single_bit b)"

definition mmb_ctz :: "u64a \<Rightarrow> nat" where
  "mmb_ctz v = ctz v"

definition mmbit_keyshift :: "nat \<Rightarrow> nat" where
  "mmbit_keyshift total_bits = mmbit_keyshift_lut ! clz (of_nat (total_bits - 1) :: u32)"

definition mmbit_maxlevel :: "nat \<Rightarrow> nat" where
  "mmbit_maxlevel total_bits = mmbit_maxlevel_direct_lut ! clz (of_nat (total_bits - 1) :: u32)"

definition mmbit_maxlevel_from_keyshift :: "nat \<Rightarrow> nat" where
  "mmbit_maxlevel_from_keyshift ks = mmbit_maxlevel_from_keyshift_lut ! ks"

definition mmbit_get_ks :: "nat \<Rightarrow> nat \<Rightarrow> nat" where
  "mmbit_get_ks max_level level = (max_level - level) * MMB_KEY_SHIFT"

definition mmbit_get_key_val :: "nat \<Rightarrow> nat \<Rightarrow> nat \<Rightarrow> nat" where
  "mmbit_get_key_val max_level level key = drop_bit (mmbit_get_ks max_level level) key AND MMB_KEY_MASK"

definition mmbit_get_level_root :: "nat \<Rightarrow> nat \<Rightarrow> nat" where
  "mmbit_get_level_root bits level = bits + mmbit_root_offset_from_level ! level * 8"

definition mmbit_get_block_ptr :: "nat \<Rightarrow> nat \<Rightarrow> nat \<Rightarrow> nat \<Rightarrow> nat" where
  "mmbit_get_block_ptr bits max_level level key =
     mmbit_get_level_root bits level + drop_bit (mmbit_get_ks max_level level + MMB_KEY_SHIFT) key * 8"

definition mmbit_get_byte_ptr :: "nat \<Rightarrow> nat \<Rightarrow> nat \<Rightarrow> nat \<Rightarrow> nat" where
  "mmbit_get_byte_ptr bits max_level level key =
     mmbit_get_level_root bits level + drop_bit (mmbit_get_ks max_level level + MMB_KEY_SHIFT - 3) key"

definition mmbit_get_key_val_byte :: "nat \<Rightarrow> nat \<Rightarrow> nat \<Rightarrow> nat" where
  "mmbit_get_key_val_byte max_level level key = drop_bit (mmbit_get_ks max_level level) key AND 7"

text \<open>
  A block of a flat multibit. The wider cases load a whole word that ends at the last byte of the
  block, from before the pointer, and shift the foreign bytes out. The invariant keeps at least eight
  bytes before the pointer, so that the subtraction is exact.
\<close>

definition mmbit_get_flat_block :: "memory \<Rightarrow> nat \<Rightarrow> nat \<Rightarrow> u64a" where
  "mmbit_get_flat_block mem bits n_bits =
     (let n_bytes = ROUNDUP_N n_bits 8 div 8
      in if n_bytes = 1 then ucast (mem bits)
         else if n_bytes = 2 then ucast (unaligned_load_u16 mem bits)
         else if n_bytes = 3 \<or> n_bytes = 4 then
           ucast (drop_bit ((4 - n_bytes) * 8) (load_le 4 mem (bits + n_bytes - 4) :: u32))
         else drop_bit ((8 - n_bytes) * 8) (load_le 8 mem (bits + n_bytes - 8) :: u64a))"

definition mmbit_is_flat_model :: "nat \<Rightarrow> bool" where
  "mmbit_is_flat_model total_bits = (total_bits \<le> MMB_FLAT_MAX_BITS)"

definition mmbit_flat_size :: "nat \<Rightarrow> nat" where
  "mmbit_flat_size total_bits = ROUNDUP_N total_bits 8 div 8"

definition mmbit_flat_select_byte :: "nat \<Rightarrow> nat" where
  "mmbit_flat_select_byte key = key div 8"

text \<open>The size of the structure in bytes.\<close>

datatype mmb_error = ResourceLimitError

function mmbit_size_loop :: "nat \<Rightarrow> nat \<Rightarrow> nat \<Rightarrow> nat" where
  "mmbit_size_loop total_bits current_level blocks =
     (if 0 < current_level \<and> current_level * MMB_KEY_BITS < total_bits
      then mmbit_size_loop total_bits (current_level * 2 ^ MMB_KEY_SHIFT) (blocks + current_level)
      else blocks)"
  by auto
termination by (relation "measure (\<lambda>(t, c, _). t - c)") (auto simp: MMB_KEY_BITS_def MMB_KEY_SHIFT_def)

definition mmbit_size :: "nat \<Rightarrow> mmb_error + nat" where
  "mmbit_size total_bits =
     (if total_bits > MMB_MAX_BITS then Inl ResourceLimitError
      else if total_bits \<le> MMB_FLAT_MAX_BITS then Inr (ROUNDUP_N total_bits 8 div 8)
      else Inr ((mmbit_size_loop total_bits 1 0 + (total_bits + MMB_KEY_BITS - 1) div MMB_KEY_BITS) * 8))"

section \<open>Model: single keys and tests\<close>

definition memset :: "memory \<Rightarrow> nat \<Rightarrow> u8 \<Rightarrow> nat \<Rightarrow> memory" where
  "memset mem p v n = (\<lambda>x. if p \<le> x \<and> x < p + n then v else mem x)"

definition mmbit_clear :: "memory \<Rightarrow> nat \<Rightarrow> nat \<Rightarrow> memory" where
  "mmbit_clear mem bits total_bits =
     (if total_bits = 0 then mem
      else if mmbit_is_flat_model total_bits then memset mem bits 0 (mmbit_flat_size total_bits)
      else mmb_store mem bits 0)"

definition mmbit_set_flat :: "memory \<Rightarrow> nat \<Rightarrow> nat \<Rightarrow> bool \<times> memory" where
  "mmbit_set_flat mem bits key =
     (let p = bits + mmbit_flat_select_byte key; m = push_bit (key mod 8) 1
      in (mem p AND m \<noteq> 0, mem(p := mem p OR m)))"

text \<open>The loops over the levels end at \<open>max_level\<close>, which the post-increment tests for equality.\<close>

function mmbit_set_loop :: "memory \<Rightarrow> nat \<Rightarrow> nat \<Rightarrow> nat \<Rightarrow> nat \<Rightarrow> bool \<times> memory" where
  "mmbit_set_loop mem bits max_level key level =
     (let byte_ptr = mmbit_get_byte_ptr bits max_level level key;
          keymask = push_bit (mmbit_get_key_val_byte max_level level key) 1;
          byte = mem byte_ptr
      in if byte AND keymask = 0 then
           (False, foldl (\<lambda>mem level. mmb_store mem (mmbit_get_block_ptr bits max_level level key)
                             (mmb_single_bit (mmbit_get_key_val max_level level key)))
                     (mem(byte_ptr := byte OR keymask)) [Suc level..<Suc max_level])
         else if level < max_level then mmbit_set_loop mem bits max_level key (Suc level)
         else (True, mem))"
  by auto
termination by (relation "measure (\<lambda>(_, _, max_level, _, level). max_level - level)") auto

definition mmbit_set_big :: "memory \<Rightarrow> nat \<Rightarrow> nat \<Rightarrow> nat \<Rightarrow> bool \<times> memory" where
  "mmbit_set_big mem bits total_bits key = mmbit_set_loop mem bits (mmbit_maxlevel total_bits) key 0"

definition mmbit_set :: "memory \<Rightarrow> nat \<Rightarrow> nat \<Rightarrow> nat \<Rightarrow> bool \<times> memory" where
  "mmbit_set mem bits total_bits key =
     (if mmbit_is_flat_model total_bits then mmbit_set_flat mem bits key
      else mmbit_set_big mem bits total_bits key)"

definition mmbit_isset_flat :: "memory \<Rightarrow> nat \<Rightarrow> nat \<Rightarrow> bool" where
  "mmbit_isset_flat mem bits key = (mem (bits + mmbit_flat_select_byte key) AND push_bit (key mod 8) 1 \<noteq> 0)"

function mmbit_isset_loop :: "memory \<Rightarrow> nat \<Rightarrow> nat \<Rightarrow> nat \<Rightarrow> nat \<Rightarrow> bool" where
  "mmbit_isset_loop mem bits max_level key level =
     (let block = mmb_load mem (mmbit_get_block_ptr bits max_level level key)
      in if \<not> mmb_test block (mmbit_get_key_val max_level level key) then False
         else if level < max_level then mmbit_isset_loop mem bits max_level key (Suc level)
         else True)"
  by auto
termination by (relation "measure (\<lambda>(_, _, max_level, _, level). max_level - level)") auto

definition mmbit_isset_big :: "memory \<Rightarrow> nat \<Rightarrow> nat \<Rightarrow> nat \<Rightarrow> bool" where
  "mmbit_isset_big mem bits total_bits key = mmbit_isset_loop mem bits (mmbit_maxlevel total_bits) key 0"

definition mmbit_isset :: "memory \<Rightarrow> nat \<Rightarrow> nat \<Rightarrow> nat \<Rightarrow> bool" where
  "mmbit_isset mem bits total_bits key =
     (if mmbit_is_flat_model total_bits then mmbit_isset_flat mem bits key
      else mmbit_isset_big mem bits total_bits key)"

definition mmbit_unset_flat :: "memory \<Rightarrow> nat \<Rightarrow> nat \<Rightarrow> memory" where
  "mmbit_unset_flat mem bits key =
     (let p = bits + mmbit_flat_select_byte key in mem(p := mem p AND NOT (push_bit (key mod 8) 1)))"

function mmbit_unset_loop :: "memory \<Rightarrow> nat \<Rightarrow> nat \<Rightarrow> nat \<Rightarrow> nat \<Rightarrow> memory" where
  "mmbit_unset_loop mem bits max_level key level =
     (let block_ptr = mmbit_get_block_ptr bits max_level level key;
          key_val = mmbit_get_key_val max_level level key;
          block = mmb_load mem block_ptr
      in if \<not> mmb_test block key_val then mem
         else if level < max_level then mmbit_unset_loop mem bits max_level key (Suc level)
         else mmb_store mem block_ptr (mmb_clear block key_val))"
  by auto
termination by (relation "measure (\<lambda>(_, _, max_level, _, level). max_level - level)") auto

definition mmbit_unset_big :: "memory \<Rightarrow> nat \<Rightarrow> nat \<Rightarrow> nat \<Rightarrow> memory" where
  "mmbit_unset_big mem bits total_bits key = mmbit_unset_loop mem bits (mmbit_maxlevel total_bits) key 0"

definition mmbit_unset :: "memory \<Rightarrow> nat \<Rightarrow> nat \<Rightarrow> nat \<Rightarrow> memory" where
  "mmbit_unset mem bits total_bits key =
     (if mmbit_is_flat_model total_bits then mmbit_unset_flat mem bits key
      else mmbit_unset_big mem bits total_bits key)"

declare mmbit_size_loop.simps [simp del] mmbit_set_loop.simps [simp del] mmbit_isset_loop.simps [simp del]
  mmbit_unset_loop.simps [simp del]

section \<open>Blocks as words\<close>

lemmas mmb_consts = MMB_INVALID_def MMB_MAX_BITS_def MMB_KEY_BITS_def MMB_KEY_MASK_def MMB_KEY_SHIFT_def
  MMB_FLAT_MAX_BITS_def

named_theorems mmb_bits \<open>bits of the blocks the operations build\<close>

lemma nat_and_mask: "n AND 63 = n mod 64" "n AND 7 = n mod 8" for n :: nat
  using take_bit_eq_mask [of 6 n] take_bit_eq_mask [of 3 n] by (simp_all add: take_bit_eq_mod mask_eq_exp_minus_1)

lemma bit_single_bit [mmb_bits]: "bit (mmb_single_bit b) j \<longleftrightarrow> j = b \<and> b < 64"
  by (auto simp: mmb_single_bit_def bit_exp_iff)

lemma mask_zero_to [mmb_bits]:
  "b \<le> 64 \<Longrightarrow> bit (mmb_mask_zero_to b) j \<longleftrightarrow> j < b"
  "b < 64 \<Longrightarrow> bit (mmb_mask_zero_to_nocheck b) j \<longleftrightarrow> j < b"
proof -
  have m: "mmb_single_bit b - 1 = mask b" by (simp add: mmb_single_bit_def mask_eq_exp_minus_1)
  show "b < 64 \<Longrightarrow> bit (mmb_mask_zero_to_nocheck b) j \<longleftrightarrow> j < b"
    unfolding mmb_mask_zero_to_nocheck_def m by (auto simp: bit_mask_iff)
  show "b \<le> 64 \<Longrightarrow> bit (mmb_mask_zero_to b) j \<longleftrightarrow> j < b"
    unfolding mmb_mask_zero_to_def m by (auto simp: bit_mask_iff mmb_consts)
qed

lemma mmb_test_bit [mmb_bits]: "mmb_test v b \<longleftrightarrow> bit v b"
  by (simp add: mmb_test_def and_one_eq mod2_eq_if bit_iff_odd_drop_bit)

lemma bit_mmb_clear [mmb_bits]: "bit (mmb_clear v b) j \<longleftrightarrow> bit v j \<and> j \<noteq> b"
  using bit_imp_le_length [of v j] by (auto simp: mmb_clear_def bit_simps bit_single_bit)

lemma bit_mmb_load [mmb_bits]: "bit (mmb_load mem (bits + 8 * w)) j \<longleftrightarrow> j < 64 \<and> mbit mem bits (64 * w + j)"
  by (auto simp: mmb_load_def unaligned_defs bit_load_le mbit_add)

lemma mbit_mmb_store [mmb_bits]:
  "mbit (mmb_store mem (bits + 8 * w) v) bits i = (if i div 64 = w then bit v (i mod 64) else mbit mem bits i)"
proof -
  have "8 * (8 * w) \<le> i \<and> i < 8 * (8 * w + 8) \<longleftrightarrow> i div 64 = w" by auto
  moreover have "i - 8 * (8 * w) = i mod 64" if "i div 64 = w" using that by (auto simp: minus_mult_div_eq_mod)
  ultimately show ?thesis unfolding mmb_store_def unaligned_defs mbit_store_le by simp
qed

lemma mmb_ctz_spec:
  assumes "v \<noteq> 0"
  shows "bit v (mmb_ctz v)" "\<And>j. bit v j \<Longrightarrow> mmb_ctz v \<le> j" "mmb_ctz v < 64"
  using lowest_bit(1,2) [OF assms] bit_imp_le_length [of v "ctz v"] by (simp_all add: mmb_ctz_def)

lemma byte_test: "mem p AND push_bit k 1 \<noteq> 0 \<longleftrightarrow> bit (mem p) k" for mem :: memory
  by (simp add: and_exp_eq_0_iff_not_bit)

section \<open>The geometry of the pyramid\<close>

primrec root_of :: "nat \<Rightarrow> nat" where
  "root_of 0 = 0"
| "root_of (Suc level) = root_of level + 64 ^ level"

lemma root_offset: "level \<le> 6 \<Longrightarrow> mmbit_root_offset_from_level ! level = root_of level"
proof -
  have "list_all (\<lambda>level. mmbit_root_offset_from_level ! level = root_of level) [0..<7]" by code_simp
  then show "level \<le> 6 \<Longrightarrow> ?thesis" by (simp add: list_all_iff)
qed

lemma root_of_mono: "l < l' \<Longrightarrow> root_of l + 64 ^ l \<le> root_of l'"
  using lift_Suc_mono_le [of root_of "Suc l" l'] by simp

lemma block_unique:
  assumes "root_of l + b = root_of l' + b'" "b < 64 ^ l" "b' < 64 ^ l'"
  shows "l = l' \<and> b = b'"
  using assms root_of_mono [of l l'] root_of_mono [of l' l] by (cases l l' rule: linorder_cases) auto

text \<open>The part of a key that a level decides on.\<close>

definition prefix :: "nat \<Rightarrow> nat \<Rightarrow> nat \<Rightarrow> nat" where
  "prefix ml l key = key div 64 ^ (ml - l)"

lemma prefix_last [simp]: "prefix ml ml key = key"
  by (simp add: prefix_def)

lemma prefix_Suc: "l < ml \<Longrightarrow> prefix ml (Suc l) key div 64 = prefix ml l key"
proof -
  assume "l < ml"
  then have "ml - l = Suc (ml - Suc l)" by simp
  then show ?thesis by (simp add: prefix_def div_mult2_eq [symmetric] mult.commute)
qed

lemma prefix_less: "l \<le> ml \<Longrightarrow> key < 64 ^ Suc ml \<Longrightarrow> prefix ml l key < 64 ^ Suc l"
proof -
  assume "l \<le> ml" "key < 64 ^ Suc ml"
  moreover have "Suc ml = Suc l + (ml - l)" using \<open>l \<le> ml\<close> by simp
  ultimately show ?thesis unfolding prefix_def by (metis less_mult_imp_div_less power_add)
qed

lemma shift_key: "drop_bit (n * 6) key = key div 64 ^ n" for key :: nat
  using power_mult [of "2 :: nat" 6 n] by (simp add: drop_bit_eq_div mult.commute)

lemma block_ptr_eq:
  "l \<le> ml \<Longrightarrow> ml \<le> 6 \<Longrightarrow> mmbit_get_block_ptr bits ml l key = bits + 8 * (root_of l + prefix ml l key div 64)"
proof -
  assume "l \<le> ml" "ml \<le> 6"
  then have r: "mmbit_root_offset_from_level ! l = root_of l" by (intro root_offset) simp
  have "drop_bit (mmbit_get_ks ml l + MMB_KEY_SHIFT) key = prefix ml l key div 64"
    using shift_key [of "Suc (ml - l)" key]
    by (simp add: mmbit_get_ks_def mmb_consts prefix_def add.commute div_mult2_eq [symmetric] mult.commute)
  then show ?thesis by (simp add: mmbit_get_block_ptr_def mmbit_get_level_root_def r algebra_simps)
qed

lemma key_val_eq: "mmbit_get_key_val ml l key = prefix ml l key mod 64"
  by (simp add: mmbit_get_key_val_def mmbit_get_ks_def mmb_consts shift_key nat_and_mask prefix_def)

lemma byte_ptr_eq:
  "l \<le> ml \<Longrightarrow> ml \<le> 6 \<Longrightarrow> mmbit_get_byte_ptr bits ml l key = bits + (8 * root_of l + prefix ml l key div 8)"
proof -
  assume "l \<le> ml" "ml \<le> 6"
  then have r: "mmbit_root_offset_from_level ! l = root_of l" by (intro root_offset) simp
  have "drop_bit (mmbit_get_ks ml l + MMB_KEY_SHIFT - 3) key = drop_bit 3 (drop_bit ((ml - l) * 6) key)"
    by (simp add: mmbit_get_ks_def mmb_consts)
  then have "drop_bit (mmbit_get_ks ml l + MMB_KEY_SHIFT - 3) key = prefix ml l key div 8"
    by (simp only: shift_key) (simp add: drop_bit_eq_div prefix_def)
  then show ?thesis by (simp add: mmbit_get_byte_ptr_def mmbit_get_level_root_def r algebra_simps)
qed

lemma key_val_byte_eq: "mmbit_get_key_val_byte ml l key = prefix ml l key mod 8"
  by (simp add: mmbit_get_key_val_byte_def mmbit_get_ks_def mmb_consts shift_key nat_and_mask prefix_def)

text \<open>The number of levels: the last one has room for all keys and the one above has not.\<close>

lemma level_tables:
  "n < 32 \<Longrightarrow> mmbit_maxlevel_direct_lut ! n = (31 - n) div 6"
  "n < 32 \<Longrightarrow> mmbit_keyshift_lut ! n = (31 - n) div 6 * 6"
  "n \<le> 5 \<Longrightarrow> mmbit_maxlevel_from_keyshift_lut ! (n * 6) = n"
proof -
  have "list_all (\<lambda>n. mmbit_maxlevel_direct_lut ! n = (31 - n) div 6 \<and> mmbit_keyshift_lut ! n = (31 - n) div 6 * 6) [0..<32]"
    by code_simp
  then show "n < 32 \<Longrightarrow> mmbit_maxlevel_direct_lut ! n = (31 - n) div 6"
    "n < 32 \<Longrightarrow> mmbit_keyshift_lut ! n = (31 - n) div 6 * 6"
    by (simp_all add: list_all_iff)
  have "list_all (\<lambda>n. mmbit_maxlevel_from_keyshift_lut ! (n * 6) = n) [0..<6]" by code_simp
  then show "n \<le> 5 \<Longrightarrow> mmbit_maxlevel_from_keyshift_lut ! (n * 6) = n" by (simp add: list_all_iff)
qed

lemma highest_bit_bounds:
  fixes m :: "'a::len word"
  assumes "bit m h" "\<And>i. bit m i \<Longrightarrow> i \<le> h"
  shows "2 ^ h \<le> unat m" "unat m < 2 ^ Suc h"
proof -
  have "bit (unat m) h" using assms(1) by (simp add: bit_unsigned_iff bit_imp_le_length)
  then show "2 ^ h \<le> unat m" by (metis bit_iff_odd div_less even_zero not_le)
  have "m AND mask (Suc h) = m"
    using assms(2) by (intro bit_word_eqI) (auto simp: bit_simps less_Suc_eq_le)
  then have "unat m = unat m mod 2 ^ Suc h" using unat_and_mask [of m "Suc h"] by simp
  then show "unat m < 2 ^ Suc h" by (metis mod_less_divisor zero_less_numeral zero_less_power)
qed

lemma maxlevel_spec:
  assumes "1 < N" "N \<le> MMB_MAX_BITS"
  defines "ml \<equiv> mmbit_maxlevel N"
  shows "64 ^ ml < N" "N \<le> 64 ^ Suc ml" "ml \<le> 5"
    "mmbit_keyshift N = ml * 6" "mmbit_maxlevel_from_keyshift (mmbit_keyshift N) = ml"
proof -
  define m where "m = (of_nat (N - 1) :: u32)"
  have un: "unat m = N - 1" using assms(2) unfolding m_def by (intro u32_unat_of_nat) (simp add: mmb_consts)
  then have nz: "m \<noteq> 0" using assms(1) by auto
  define h where "h = 31 - clz m"
  have lt: "clz m < 32" using clz_last [OF nz] by simp
  have "bit m h" "\<And>i. bit m i \<Longrightarrow> i \<le> h" using highest_bit(1,2) [OF nz] by (simp_all add: h_def)
  then have h: "2 ^ h \<le> N - 1" "N - 1 < 2 ^ Suc h" using highest_bit_bounds [of m h] un by simp_all
  have ml: "ml = h div 6" "mmbit_keyshift N = ml * 6"
    using level_tables(1,2) [OF lt] by (simp_all add: ml_def mmbit_maxlevel_def mmbit_keyshift_def m_def h_def)
  then show "mmbit_keyshift N = ml * 6" "ml \<le> 5" by (auto simp: h_def)
  then show "mmbit_maxlevel_from_keyshift (mmbit_keyshift N) = ml"
    using level_tables(3) by (simp add: mmbit_maxlevel_from_keyshift_def)
  have e: "64 ^ k = (2 :: nat) ^ (6 * k)" for k by (simp add: power_mult)
  have "(2 :: nat) ^ (6 * ml) \<le> 2 ^ h" "(2 :: nat) ^ Suc h \<le> 2 ^ (6 * Suc ml)"
    unfolding ml by (intro power_increasing; simp; linarith)+
  then have "2 ^ (6 * ml) < N" "N \<le> 2 ^ (6 * Suc ml)" using h assms(1) by linarith+
  then show "64 ^ ml < N" "N \<le> 64 ^ Suc ml" unfolding e .
qed

section \<open>The set a multibit stands for\<close>

definition lbit :: "memory \<Rightarrow> nat \<Rightarrow> nat \<Rightarrow> nat \<Rightarrow> bool" where
  "lbit mem bits l p = mbit mem bits (64 * root_of l + p)"

text \<open>A prefix is on when the bits of all levels down to its own are set.\<close>

primrec on :: "memory \<Rightarrow> nat \<Rightarrow> nat \<Rightarrow> nat \<Rightarrow> bool" where
  "on mem bits 0 p = (p < 64 \<and> lbit mem bits 0 p)"
| "on mem bits (Suc l) p = (on mem bits l (p div 64) \<and> lbit mem bits (Suc l) p)"

definition mmb_elems :: "nat \<Rightarrow> nat \<Rightarrow> memory \<Rightarrow> nat set" where
  "mmb_elems bits N mem =
     (if mmbit_is_flat_model N then {k. k < N \<and> mbit mem bits k} else {k. on mem bits (mmbit_maxlevel N) k})"

text \<open>
  The invariant: bits behind the last key are clear in a flat multibit, and no valid block of a pyramid
  leads beyond the last key. The loads of small blocks require that memory extends before the pointer.
\<close>

definition mmb_ok :: "nat \<Rightarrow> nat \<Rightarrow> memory \<Rightarrow> bool" where
  "mmb_ok bits N mem \<longleftrightarrow> 8 \<le> bits \<and> N \<le> MMB_MAX_BITS \<and>
     (if mmbit_is_flat_model N then \<forall>k. N \<le> k \<longrightarrow> k < 8 * mmbit_flat_size N \<longrightarrow> \<not> mbit mem bits k
      else \<forall>l p. l \<le> mmbit_maxlevel N \<longrightarrow> on mem bits l p \<longrightarrow> p * 64 ^ (mmbit_maxlevel N - l) < N)"

lemma on_less: "on mem bits l p \<Longrightarrow> p < 64 ^ Suc l"
proof (induction l arbitrary: p)
  case (Suc l)
  then have "p div 64 < 64 ^ Suc l" by simp
  then show ?case by (simp add: div_less_iff_less_mult)
qed simp

lemma on_lbit: "on mem bits l p \<Longrightarrow> lbit mem bits l p"
  by (cases l) auto

lemma on_prefix: "on mem bits ml key \<Longrightarrow> l \<le> ml \<Longrightarrow> on mem bits l (prefix ml l key)"
proof (induction "ml - l" arbitrary: l)
  case (Suc n)
  then have "l < ml" by simp
  moreover have "on mem bits (Suc l) (prefix ml (Suc l) key)" using Suc.hyps(2) Suc.prems by (intro Suc.hyps(1)) auto
  ultimately show ?case by (simp add: prefix_Suc)
qed simp

lemma on_cong: "(\<And>j q. j \<le> l \<Longrightarrow> q < 64 ^ Suc j \<Longrightarrow> lbit mem' bits j q = lbit mem bits j q) \<Longrightarrow>
  on mem' bits l p = on mem bits l p"
proof (induction l arbitrary: p)
  case (Suc l)
  have "on mem' bits l (p div 64) = on mem bits l (p div 64)" using Suc.prems by (intro Suc.IH) simp
  moreover have "lbit mem' bits (Suc l) p = lbit mem bits (Suc l) p" if "on mem bits l (p div 64)"
    using on_less [OF that] Suc.prems by (simp add: div_less_iff_less_mult mult.commute)
  ultimately show ?case by auto
qed auto

text \<open>Reading and writing at the position of a prefix.\<close>

lemma test_block:
  assumes "l \<le> ml" "ml \<le> 6"
  shows "mmb_test (mmb_load mem (mmbit_get_block_ptr bits ml l key)) (mmbit_get_key_val ml l key)
    = lbit mem bits l (prefix ml l key)"
proof -
  have "64 * (root_of l + prefix ml l key div 64) + prefix ml l key mod 64 = 64 * root_of l + prefix ml l key" by simp
  then show ?thesis unfolding block_ptr_eq [OF assms] key_val_eq mmb_bits lbit_def by (simp add: add.commute)
qed

lemma pos_byte: "(64 * r + p) div 8 = 8 * r + p div 8" "(64 * r + p) mod 8 = p mod 8" for r p :: nat
proof -
  have "64 * r + p = 8 * (8 * r) + p" by simp
  then show "(64 * r + p) div 8 = 8 * r + p div 8" "(64 * r + p) mod 8 = p mod 8"
    by (metis div_mult_self4 zero_neq_numeral, metis mod_mult_self4)
qed

lemma test_byte:
  assumes "l \<le> ml" "ml \<le> 6"
  shows "mem (mmbit_get_byte_ptr bits ml l key) AND push_bit (mmbit_get_key_val_byte ml l key) 1 = 0
    \<longleftrightarrow> \<not> lbit mem bits l (prefix ml l key)"
  unfolding byte_ptr_eq [OF assms] key_val_byte_eq lbit_def mbit_def pos_byte
  by (simp add: and_exp_eq_0_iff_not_bit)

lemma bit_load_lbit:
  "bit (mmb_load mem (bits + 8 * (root_of l + b))) j \<longleftrightarrow> j < 64 \<and> lbit mem bits l (64 * b + j)"
  unfolding bit_mmb_load lbit_def by (simp add: add.assoc)

lemma load_lbit: "q div 64 = b \<Longrightarrow> bit (mmb_load mem (bits + 8 * (root_of l + b))) (q mod 64) = lbit mem bits l q"
  unfolding bit_load_lbit by (metis mod_less_divisor mult_div_mod_eq zero_less_numeral)

lemma lbit_store:
  assumes "b < 64 ^ l" "q < 64 ^ Suc j"
  shows "lbit (mmb_store mem (bits + 8 * (root_of l + b)) v) bits j q
    = (if j = l \<and> q div 64 = b then bit v (q mod 64) else lbit mem bits j q)"
proof -
  have "(64 * root_of j + q) div 64 = root_of l + b \<longleftrightarrow> j = l \<and> q div 64 = b"
    using block_unique [of j "q div 64" l b] assms by (auto simp: less_mult_imp_div_less mult.commute)
  moreover have "(64 * root_of j + q) mod 64 = q mod 64" by simp
  ultimately show ?thesis unfolding lbit_def mbit_mmb_store by simp
qed

lemma pos_unique:
  assumes "64 * root_of l + p = 64 * root_of j + q" "p < 64 ^ Suc l" "q < 64 ^ Suc j"
  shows "j = l \<and> q = p"
proof -
  have "(64 * root_of l + p) div 64 = (64 * root_of j + q) div 64" using assms(1) by simp
  then have "root_of l + p div 64 = root_of j + q div 64" by simp
  then have "l = j" using block_unique [of l "p div 64" j "q div 64"] assms(2,3)
    by (simp add: less_mult_imp_div_less mult.commute)
  then show ?thesis using assms(1) by simp
qed

lemma mbit_set_byte:
  assumes "a = bits + i div 8"
  shows "mbit (mem(a := mem a OR push_bit (i mod 8) 1)) bits k = (mbit mem bits k \<or> k = i)"
proof -
  have "k = i" if "k div 8 = i div 8" "k mod 8 = i mod 8" using that by (metis div_mult_mod_eq)
  then show ?thesis unfolding assms mbit_def by (auto simp: bit_simps)
qed

lemma mbit_clear_byte:
  assumes "a = bits + i div 8"
  shows "mbit (mem(a := mem a AND NOT (push_bit (i mod 8) 1))) bits k = (mbit mem bits k \<and> k \<noteq> i)"
proof -
  have "k = i" if "k div 8 = i div 8" "k mod 8 = i mod 8" using that by (metis div_mult_mod_eq)
  then show ?thesis unfolding assms mbit_def by (auto simp: bit_simps)
qed

lemma lbit_set_byte:
  assumes "p < 64 ^ Suc l" "q < 64 ^ Suc j" and a: "a = bits + (8 * root_of l + p div 8)"
  shows "lbit (mem(a := mem a OR push_bit (p mod 8) 1)) bits j q = (lbit mem bits j q \<or> j = l \<and> q = p)"
proof -
  have "lbit (mem(a := mem a OR push_bit (p mod 8) 1)) bits j q
    \<longleftrightarrow> lbit mem bits j q \<or> 64 * root_of j + q = 64 * root_of l + p"
    using mbit_set_byte [of a bits "64 * root_of l + p" mem "64 * root_of j + q"]
    unfolding a lbit_def pos_byte by simp
  then show ?thesis using pos_unique [of l p j q] assms(1,2) by auto
qed

section \<open>Operations on single keys\<close>

text \<open>The loops over the levels stop at the first level whose bit is clear.\<close>

lemma all_from:
  "level \<le> ml \<Longrightarrow> (\<forall>l. level \<le> l \<longrightarrow> l \<le> ml \<longrightarrow> P l) = (P level \<and> (\<forall>l. Suc level \<le> l \<longrightarrow> l \<le> ml \<longrightarrow> P l))"
  for level ml :: nat
  by (metis Suc_leI Suc_leD le_neq_implies_less order_refl)

lemma isset_loop_spec:
  "level \<le> ml \<Longrightarrow> ml \<le> 6 \<Longrightarrow>
   mmbit_isset_loop mem bits ml key level = (\<forall>l. level \<le> l \<longrightarrow> l \<le> ml \<longrightarrow> lbit mem bits l (prefix ml l key))"
proof (induction "ml - level" arbitrary: level)
  case 0
  then have "level = ml" by simp
  then show ?case using test_block [OF _ 0(3), of ml mem bits key]
    by (subst mmbit_isset_loop.simps) (auto simp: Let_def)
next
  case (Suc n)
  then have "level < ml" "n = ml - Suc level" by simp_all
  then show ?case
    using test_block [OF Suc(3,4), of mem bits key] Suc(1) [of "Suc level"] Suc(4) unfolding all_from [OF Suc(3)]
    by (subst mmbit_isset_loop.simps) (simp add: Let_def)
qed

lemma on_iff: "key < 64 ^ Suc ml \<Longrightarrow> on mem bits ml key = (\<forall>l\<le>ml. lbit mem bits l (prefix ml l key))"
proof
  assume k: "key < 64 ^ Suc ml" and all: "\<forall>l\<le>ml. lbit mem bits l (prefix ml l key)"
  have "l \<le> ml \<Longrightarrow> on mem bits l (prefix ml l key)" for l
  proof (induction l)
    case 0
    then show ?case using all prefix_less [OF _ k, of 0] by simp
  next
    case (Suc l)
    then show ?case using all by (simp add: prefix_Suc)
  qed
  from this [of ml] show "on mem bits ml key" by simp
qed (use on_prefix on_lbit in blast)

text \<open>Setting a key: the bits that change, level by level.\<close>

definition set_effect :: "memory \<Rightarrow> memory \<Rightarrow> nat \<Rightarrow> nat \<Rightarrow> nat \<Rightarrow> nat \<Rightarrow> bool" where
  "set_effect mem mem' bits ml key lev \<longleftrightarrow> (\<forall>j q. j \<le> ml \<longrightarrow> q < 64 ^ Suc j \<longrightarrow>
     lbit mem' bits j q = (if j < lev then lbit mem bits j q
       else if j = lev then lbit mem bits j q \<or> q = prefix ml j key
       else if q div 64 = prefix ml (j - 1) key then q = prefix ml j key else lbit mem bits j q))"

lemma fill_levels:
  assumes "ml \<le> 6" "key < 64 ^ Suc ml" "lev \<le> ml"
    and first: "\<And>j q. j \<le> ml \<Longrightarrow> q < 64 ^ Suc j \<Longrightarrow> lbit mem1 bits j q = (lbit mem bits j q \<or> j = lev \<and> q = prefix ml j key)"
  shows "set_effect mem (foldl (\<lambda>mem level. mmb_store mem (mmbit_get_block_ptr bits ml level key)
           (mmb_single_bit (mmbit_get_key_val ml level key))) mem1 [Suc lev..<Suc ml]) bits ml key lev"
proof -
  define st where "st = (\<lambda>mem level. mmb_store mem (mmbit_get_block_ptr bits ml level key)
           (mmb_single_bit (mmbit_get_key_val ml level key)))"
  have step: "lbit (foldl st mem1 [Suc lev..<k]) bits j q =
      (if lev < j \<and> j < k \<and> q div 64 = prefix ml (j - 1) key then q = prefix ml j key else lbit mem1 bits j q)"
    if "Suc lev \<le> k" "k \<le> Suc ml" "j \<le> ml" "q < 64 ^ Suc j" for k j q
    using that(1,2)
  proof (induction k rule: dec_induct)
    case (step k)
    have k: "k \<le> ml" "0 < k" using step by simp_all
    have p: "prefix ml k key < 64 ^ Suc k" by (rule prefix_less [OF k(1) assms(2)])
    have pk: "prefix ml k key div 64 = prefix ml (k - 1) key" using prefix_Suc [of "k - 1" ml key] k by simp
    have b: "prefix ml k key div 64 < 64 ^ k" using p by (simp add: less_mult_imp_div_less mult.commute)
    have eq: "q mod 64 = prefix ml k key mod 64 \<longleftrightarrow> q = prefix ml k key" if "q div 64 = prefix ml k key div 64"
      using that by (metis div_mult_mod_eq)
    have st: "st M k = mmb_store M (bits + 8 * (root_of k + prefix ml k key div 64))
        (mmb_single_bit (prefix ml k key mod 64))" for M
      by (simp only: st_def block_ptr_eq [OF k(1) assms(1)] key_val_eq)
    have "lbit (st M k) bits j q = (if j = k \<and> q div 64 = prefix ml k key div 64
        then q mod 64 = prefix ml k key mod 64 else lbit M bits j q)" for M
      unfolding st lbit_store [OF b that(4)] bit_single_bit by simp
    moreover have "foldl st mem1 [Suc lev..<Suc k] = st (foldl st mem1 [Suc lev..<k]) k" using step.hyps by simp
    ultimately have "lbit (foldl st mem1 [Suc lev..<Suc k]) bits j q =
        (if j = k \<and> q div 64 = prefix ml k key div 64 then q mod 64 = prefix ml k key mod 64
         else lbit (foldl st mem1 [Suc lev..<k]) bits j q)" by simp
    then show ?case using step.IH step.prems step.hyps eq by (auto simp: pk)
  qed auto
  show ?thesis unfolding set_effect_def st_def [symmetric]
    using step [of "Suc ml"] first assms(3) by (auto simp: less_Suc_eq_le)
qed

lemma set_effect_on:
  assumes eff: "set_effect mem mem' bits ml key lev" and k: "key < 64 ^ Suc ml" and lev: "lev \<le> ml"
    and below: "\<And>l. l < lev \<Longrightarrow> lbit mem bits l (prefix ml l key)" and clear: "\<not> lbit mem bits lev (prefix ml lev key)"
  shows "L \<le> ml \<Longrightarrow> on mem' bits L p = (on mem bits L p \<or> p = prefix ml L key)"
proof -
  have pre: "on mem bits l (prefix ml l key) \<longleftrightarrow> l < lev" if "l \<le> ml" for l
    using that
  proof (induction l)
    case 0
    then show ?case using below [of 0] clear prefix_less [OF _ k, of 0] by (cases "lev = 0") auto
  next
    case (Suc l)
    then show ?case using below [of "Suc l"] clear by (cases "Suc l = lev") (auto simp: prefix_Suc)
  qed
  show "L \<le> ml \<Longrightarrow> on mem' bits L p = (on mem bits L p \<or> p = prefix ml L key)"
  proof (induction L arbitrary: p)
    case 0
    have "lbit mem' bits 0 q = (lbit mem bits 0 q \<or> q = prefix ml 0 key)" if "q < 64" for q
      using eff that pre [of 0] unfolding set_effect_def by (cases "lev = 0") (auto dest: on_lbit)
    then show ?case using prefix_less [OF _ k, of 0] by auto
  next
    case (Suc L)
    note p = prefix_Suc [of L ml key] pre [of L] pre [of "Suc L"]
    consider "p < 64 ^ Suc (Suc L)" | "\<not> p < 64 ^ Suc (Suc L)" by blast
    then show ?case
    proof cases
      case 1
      then have "lbit mem' bits (Suc L) p = (if Suc L < lev then lbit mem bits (Suc L) p
          else if Suc L = lev then lbit mem bits (Suc L) p \<or> p = prefix ml (Suc L) key
          else if p div 64 = prefix ml L key then p = prefix ml (Suc L) key else lbit mem bits (Suc L) p)"
        using eff Suc.prems unfolding set_effect_def by (metis diff_Suc_1)
      then show ?thesis using Suc.IH [of "p div 64"] Suc.prems p by (auto split: if_splits)
    next
      case 2
      then show ?thesis using on_less [of mem' bits "Suc L" p] on_less [of mem bits "Suc L" p]
          prefix_less [OF Suc.prems k] by blast
    qed
  qed
qed

lemma set_loop_spec:
  assumes "ml \<le> 6" "key < 64 ^ Suc ml"
  shows "level \<le> ml \<Longrightarrow> (\<And>l. l < level \<Longrightarrow> lbit mem bits l (prefix ml l key)) \<Longrightarrow>
    fst (mmbit_set_loop mem bits ml key level) = on mem bits ml key \<and>
    (\<forall>L\<le>ml. \<forall>p. on (snd (mmbit_set_loop mem bits ml key level)) bits L p = (on mem bits L p \<or> p = prefix ml L key))"
proof (induction "ml - level" arbitrary: level rule: less_induct)
  case less
  note t = test_byte [OF less(2) assms(1), of mem bits key]
  let ?p = "prefix ml level key"
  have pl: "?p < 64 ^ Suc level" by (rule prefix_less [OF less(2) assms(2)])
  show ?case
  proof (cases "lbit mem bits level ?p")
    case False
    have "lbit (mem(mmbit_get_byte_ptr bits ml level key := mem (mmbit_get_byte_ptr bits ml level key)
            OR push_bit (mmbit_get_key_val_byte ml level key) 1)) bits j q
        = (lbit mem bits j q \<or> j = level \<and> q = prefix ml j key)" if "q < 64 ^ Suc j" for j q
      using lbit_set_byte [where bits = bits and mem = mem, OF pl that refl] unfolding byte_ptr_eq [OF less(2) assms(1)] key_val_byte_eq
      by auto
    then have "set_effect mem (snd (mmbit_set_loop mem bits ml key level)) bits ml key level"
      using fill_levels [OF assms less(2)] False t by (subst mmbit_set_loop.simps) (simp add: Let_def)
    moreover have "\<not> on mem bits ml key" using on_prefix [of mem bits ml key level] on_lbit False less(2) by blast
    ultimately show ?thesis using set_effect_on [OF _ assms(2) less(2,3) False] False t
      by (subst mmbit_set_loop.simps) (simp add: Let_def)
  next
    case True
    show ?thesis
    proof (cases "level = ml")
      case eq: True
      have "lbit mem bits l (prefix ml l key)" if "l \<le> ml" for l using that less(3) True eq by (cases "l = ml") auto
      then have o: "on mem bits ml key" using on_iff [OF assms(2)] by blast
      then have "on mem bits L (prefix ml L key)" if "L \<le> ml" for L using on_prefix that by blast
      then show ?thesis using True eq o t by (subst (1 2) mmbit_set_loop.simps) (auto simp: Let_def)
    next
      case neq: False
      then have "level < ml" using less(2) by simp
      moreover have "lbit mem bits l (prefix ml l key)" if "l < Suc level" for l
        using that less(3) True less_Suc_eq by auto
      moreover have "mmbit_set_loop mem bits ml key level = mmbit_set_loop mem bits ml key (Suc level)"
        using True t \<open>level < ml\<close> by (subst mmbit_set_loop.simps) (simp add: Let_def)
      ultimately show ?thesis using less(1) [of "Suc level"] by simp
    qed
  qed
qed

lemma unset_loop_spec:
  assumes "ml \<le> 6" "key < 64 ^ Suc ml"
  shows "level \<le> ml \<Longrightarrow> (\<And>l. l < level \<Longrightarrow> lbit mem bits l (prefix ml l key)) \<Longrightarrow>
    (\<forall>L\<le>ml. \<forall>p. on (mmbit_unset_loop mem bits ml key level) bits L p = (on mem bits L p \<and> (L = ml \<longrightarrow> p \<noteq> key)))"
proof (induction "ml - level" arbitrary: level rule: less_induct)
  case less
  note t = test_block [OF less(2) assms(1), of mem bits key]
  show ?case
  proof (cases "lbit mem bits level (prefix ml level key)")
    case False
    then have "\<not> on mem bits ml key" using on_prefix [of mem bits ml key level] on_lbit less(2) by blast
    then show ?thesis using False t by (subst mmbit_unset_loop.simps) (auto simp: Let_def)
  next
    case True
    show ?thesis
    proof (cases "level = ml")
      case eq: True
      have b: "key div 64 < 64 ^ ml" using assms(2) by (simp add: less_mult_imp_div_less mult.commute)
      have "mmbit_unset_loop mem bits ml key level = mmb_store mem (bits + 8 * (root_of ml + key div 64))
          (mmb_clear (mmb_load mem (bits + 8 * (root_of ml + key div 64))) (key mod 64))"
        using True t unfolding eq
        by (subst mmbit_unset_loop.simps) (simp only: Let_def block_ptr_eq [OF order_refl assms(1)] key_val_eq
          prefix_last if_False simp_thms less_irrefl)
      moreover have "q = key" if "q div 64 = key div 64" "q mod 64 = key mod 64" for q
        using that by (metis div_mult_mod_eq)
      ultimately have l: "lbit (mmbit_unset_loop mem bits ml key level) bits j q = (lbit mem bits j q \<and> (j = ml \<longrightarrow> q \<noteq> key))"
        if "q < 64 ^ Suc j" for j q
        using load_lbit [of q "key div 64" mem bits ml] by (simp only: lbit_store [OF b that] bit_mmb_clear) auto
      show ?thesis
      proof (intro allI impI)
        fix L p assume L: "L \<le> ml"
        show "on (mmbit_unset_loop mem bits ml key level) bits L p = (on mem bits L p \<and> (L = ml \<longrightarrow> p \<noteq> key))"
        proof (cases L)
          case 0
          then show ?thesis using l [of p 0] by auto
        next
          case (Suc L')
          have "on (mmbit_unset_loop mem bits ml key level) bits L' q = on mem bits L' q" for q
            using l L Suc by (intro on_cong) auto
          moreover have "p < 64 ^ Suc L" if "on mem bits L' (p div 64)"
            using on_less [OF that] Suc by (simp add: div_less_iff_less_mult)
          ultimately show ?thesis using Suc l [of p L] by auto
        qed
      qed
    next
      case neq: False
      then have "level < ml" using less(2) by simp
      moreover have "lbit mem bits l (prefix ml l key)" if "l < Suc level" for l
        using that less(3) True less_Suc_eq by auto
      moreover have "mmbit_unset_loop mem bits ml key level = mmbit_unset_loop mem bits ml key (Suc level)"
        using True t \<open>level < ml\<close> by (subst mmbit_unset_loop.simps) (simp add: Let_def)
      ultimately show ?thesis using less(1) [of "Suc level"] by simp
    qed
  qed
qed

section \<open>The memory a multibit occupies\<close>

lemma flat_size_eq: "mmbit_flat_size N = (N + 7) div 8"
  by (simp add: mmbit_flat_size_def ROUNDUP_N_def)

lemma size_loop: "i \<le> ml \<Longrightarrow> 64 ^ ml < N \<Longrightarrow> N \<le> 64 ^ Suc ml \<Longrightarrow> mmbit_size_loop N (64 ^ i) (root_of i) = root_of ml"
proof (induction "ml - i" arbitrary: i)
  case 0
  then show ?case by (subst mmbit_size_loop.simps) (simp add: mmb_consts mult.commute)
next
  case (Suc n)
  have "64 ^ i * 64 = (64 :: nat) ^ Suc i" by simp
  also have "\<dots> \<le> 64 ^ ml" using Suc by (intro power_increasing) auto
  finally have "64 ^ i * 64 < N" using Suc.prems by simp
  moreover have "mmbit_size_loop N (64 ^ Suc i) (root_of (Suc i)) = root_of ml" using Suc by (intro Suc(1)) auto
  ultimately show ?case by (subst mmbit_size_loop.simps) (simp add: mmb_consts mult.commute)
qed

lemma mmbit_size_spec:
  "N \<le> MMB_MAX_BITS \<Longrightarrow> mmbit_size N = Inr (if mmbit_is_flat_model N then mmbit_flat_size N
     else 8 * (root_of (mmbit_maxlevel N) + (N + 63) div 64))"
  using size_loop [of 0 "mmbit_maxlevel N" N] maxlevel_spec [of N]
  by (auto simp: mmbit_size_def mmbit_is_flat_model_def mmbit_flat_size_def mmb_consts)

abbreviation mmb_region :: "nat \<Rightarrow> nat \<Rightarrow> nat set" where
  "mmb_region bits N \<equiv> {bits..<bits + (case mmbit_size N of Inl _ \<Rightarrow> 0 | Inr n \<Rightarrow> n)}"

lemma big_model:
  assumes "mmb_ok bits N mem" "\<not> mmbit_is_flat_model N"
  shows "64 ^ mmbit_maxlevel N < N" "N \<le> 64 ^ Suc (mmbit_maxlevel N)" "mmbit_maxlevel N \<le> 6" "N \<le> MMB_MAX_BITS" "1 < N"
proof -
  show *: "N \<le> MMB_MAX_BITS" "1 < N" using assms by (auto simp: mmb_ok_def mmbit_is_flat_model_def mmb_consts)
  show "64 ^ mmbit_maxlevel N < N" "N \<le> 64 ^ Suc (mmbit_maxlevel N)" "mmbit_maxlevel N \<le> 6"
    using maxlevel_spec [OF *(2,1)] by simp_all
qed

lemma block_in_region:
  assumes "N \<le> 64 ^ Suc ml" "key < N" "l \<le> ml"
  shows "root_of l + prefix ml l key div 64 < root_of ml + (N + 63) div 64"
proof (cases "l = ml")
  case True
  have "key div 64 < (N + 63) div 64" using assms(2) by linarith
  then show ?thesis using True by simp
next
  case False
  have "prefix ml l key < 64 ^ Suc l" using assms by (intro prefix_less) auto
  then have "prefix ml l key div 64 < 64 ^ l" by (simp add: less_mult_imp_div_less mult.commute)
  then show ?thesis using root_of_mono [of l ml] False assms(3) by simp
qed

lemma store_frame: "a \<notin> {p..<p + 8} \<Longrightarrow> mmb_store mem p v a = mem a"
  by (auto simp: mmb_store_def unaligned_defs store_le_frame)

lemma big_store_frame:
  assumes "mmb_ok bits N mem" "\<not> mmbit_is_flat_model N" "w < root_of (mmbit_maxlevel N) + (N + 63) div 64"
    "a \<notin> mmb_region bits N"
  shows "mmb_store mem' (bits + 8 * w) v a = mem' a"
proof (rule store_frame)
  have "8 * Suc w \<le> 8 * (root_of (mmbit_maxlevel N) + (N + 63) div 64)" using assms(3) by simp
  then show "a \<notin> {bits + 8 * w..<bits + 8 * w + 8}"
    using assms(2,4) mmbit_size_spec [OF big_model(4) [OF assms(1,2)]] by auto
qed

lemma block_store_frame:
  assumes "mmb_ok bits N mem0" "\<not> mmbit_is_flat_model N" "key < N" "a \<notin> mmb_region bits N" "l \<le> mmbit_maxlevel N"
  shows "mmb_store mem (mmbit_get_block_ptr bits (mmbit_maxlevel N) l key) v a = mem a"
    and "a \<noteq> mmbit_get_byte_ptr bits (mmbit_maxlevel N) l key"
proof -
  note big = big_model [OF assms(1,2)]
  have lt: "root_of l + prefix (mmbit_maxlevel N) l key div 64 < root_of (mmbit_maxlevel N) + (N + 63) div 64"
    by (rule block_in_region [OF big(2) assms(3,5)])
  show "mmb_store mem (mmbit_get_block_ptr bits (mmbit_maxlevel N) l key) v a = mem a"
    unfolding block_ptr_eq [OF assms(5) big(3)] by (rule big_store_frame [OF assms(1,2) lt assms(4)])
  have "8 * root_of l + prefix (mmbit_maxlevel N) l key div 8 < 8 * (root_of (mmbit_maxlevel N) + (N + 63) div 64)"
    using lt div_mult2_eq [of "prefix (mmbit_maxlevel N) l key" 8 8] by simp
  then show "a \<noteq> mmbit_get_byte_ptr bits (mmbit_maxlevel N) l key"
    unfolding byte_ptr_eq [OF assms(5) big(3)] using assms(2,4) mmbit_size_spec [OF big(4)] by auto
qed

lemma set_loop_frame:
  assumes ok: "mmb_ok bits N mem0" "\<not> mmbit_is_flat_model N" and key: "key < N" and a: "a \<notin> mmb_region bits N"
  shows "level \<le> mmbit_maxlevel N \<Longrightarrow> snd (mmbit_set_loop mem bits (mmbit_maxlevel N) key level) a = mem a"
proof (induction "mmbit_maxlevel N - level" arbitrary: level rule: less_induct)
  case less
  note fr = block_store_frame [OF ok key a]
  have "foldl (\<lambda>mem level. mmb_store mem (mmbit_get_block_ptr bits (mmbit_maxlevel N) level key)
          (mmb_single_bit (mmbit_get_key_val (mmbit_maxlevel N) level key))) m ls a = m a"
    if "set ls \<subseteq> {..mmbit_maxlevel N}" for ls m
    using that fr(1) by (induction ls arbitrary: m) auto
  moreover have "set [Suc level..<Suc (mmbit_maxlevel N)] \<subseteq> {..mmbit_maxlevel N}" by auto
  ultimately show ?case
    using fr(2) [OF less(2)] less(1) [of "Suc level"]
    by (subst mmbit_set_loop.simps) (auto simp: Let_def simp del: upt_Suc)
qed

lemma unset_loop_frame:
  assumes ok: "mmb_ok bits N mem0" "\<not> mmbit_is_flat_model N" and key: "key < N" and a: "a \<notin> mmb_region bits N"
  shows "level \<le> mmbit_maxlevel N \<Longrightarrow> mmbit_unset_loop mem bits (mmbit_maxlevel N) key level a = mem a"
proof (induction "mmbit_maxlevel N - level" arbitrary: level rule: less_induct)
  case less
  then show ?case using block_store_frame(1) [OF ok key a less(2)] less(1) [of "Suc level"]
    by (subst mmbit_unset_loop.simps) (auto simp: Let_def)
qed

section \<open>The operations refine those on sets\<close>

lemma flat_isset: "mmbit_isset_flat mem bits key = mbit mem bits key"
  by (simp add: mmbit_isset_flat_def mmbit_flat_select_byte_def mbit_def and_exp_eq_0_iff_not_bit)

lemma mbit_set_flat: "mbit (snd (mmbit_set_flat mem bits key)) bits k = (mbit mem bits k \<or> k = key)"
  using mbit_set_byte [of _ bits key mem k] by (simp add: mmbit_set_flat_def mmbit_flat_select_byte_def Let_def)

lemma mbit_unset_flat: "mbit (mmbit_unset_flat mem bits key) bits k = (mbit mem bits k \<and> k \<noteq> key)"
  using mbit_clear_byte [of _ bits key mem k] by (simp add: mmbit_unset_flat_def mmbit_flat_select_byte_def Let_def)

lemma mmbit_isset_spec:
  assumes "mmb_ok bits N mem" "key < N"
  shows "mmbit_isset mem bits N key \<longleftrightarrow> key \<in> mmb_elems bits N mem"
proof (cases "mmbit_is_flat_model N")
  case False
  note big = big_model [OF assms(1) False]
  have "key < 64 ^ Suc (mmbit_maxlevel N)" using assms(2) big(2) by simp
  then show ?thesis using isset_loop_spec [OF _ big(3), of 0 mem bits key] on_iff [of key "mmbit_maxlevel N" mem bits] False
    by (simp add: mmbit_isset_def mmbit_isset_big_def mmb_elems_def)
qed (use assms in \<open>simp add: mmbit_isset_def flat_isset mmb_elems_def\<close>)

lemma mmbit_set_spec:
  assumes "mmb_ok bits N mem" "key < N"
  shows "fst (mmbit_set mem bits N key) \<longleftrightarrow> key \<in> mmb_elems bits N mem"
    and "mmb_elems bits N (snd (mmbit_set mem bits N key)) = insert key (mmb_elems bits N mem)"
    and "mmb_ok bits N (snd (mmbit_set mem bits N key))"
    and "a \<notin> mmb_region bits N \<Longrightarrow> snd (mmbit_set mem bits N key) a = mem a"
proof -
  let ?g1 = "fst (mmbit_set mem bits N key) \<longleftrightarrow> key \<in> mmb_elems bits N mem"
  let ?g2 = "mmb_elems bits N (snd (mmbit_set mem bits N key)) = insert key (mmb_elems bits N mem)"
  let ?g3 = "mmb_ok bits N (snd (mmbit_set mem bits N key))"
  let ?g4 = "a \<notin> mmb_region bits N \<longrightarrow> snd (mmbit_set mem bits N key) a = mem a"
  have "?g1 \<and> ?g2 \<and> ?g3 \<and> ?g4"
  proof (cases "mmbit_is_flat_model N")
    case True
    have "bits + key div 8 \<in> mmb_region bits N"
      using assms True mmbit_size_spec [of N] by (simp add: mmb_ok_def flat_size_eq)
    then show ?thesis
      using True assms mbit_set_flat [of mem bits key]
      by (auto simp: mmbit_set_def mmb_elems_def mmb_ok_def)
         (auto simp: mmbit_set_flat_def Let_def mmbit_flat_select_byte_def mbit_def and_exp_eq_0_iff_not_bit)
  next
    case False
    note big = big_model [OF assms(1) False]
    have k: "key < 64 ^ Suc (mmbit_maxlevel N)" using assms(2) big(2) by simp
    have "prefix (mmbit_maxlevel N) l key * 64 ^ (mmbit_maxlevel N - l) \<le> key" for l
      by (simp add: prefix_def)
    then have "prefix (mmbit_maxlevel N) l key * 64 ^ (mmbit_maxlevel N - l) < N" for l
      using assms(2) le_less_trans by blast
    then show ?thesis
      using set_loop_spec [OF big(3) k, of 0 mem bits] set_loop_frame [OF assms(1) False assms(2), of a 0 mem] False assms(1)
      by (auto simp: mmbit_set_def mmbit_set_big_def mmb_elems_def mmb_ok_def)
  qed
  then show ?g1 ?g2 ?g3 "a \<notin> mmb_region bits N \<Longrightarrow> snd (mmbit_set mem bits N key) a = mem a" by blast+
qed

lemma mmbit_unset_spec:
  assumes "mmb_ok bits N mem" "key < N"
  shows "mmb_elems bits N (mmbit_unset mem bits N key) = mmb_elems bits N mem - {key}"
    and "mmb_ok bits N (mmbit_unset mem bits N key)"
    and "a \<notin> mmb_region bits N \<Longrightarrow> mmbit_unset mem bits N key a = mem a"
proof -
  let ?g2 = "mmb_elems bits N (mmbit_unset mem bits N key) = mmb_elems bits N mem - {key}"
  let ?g3 = "mmb_ok bits N (mmbit_unset mem bits N key)"
  let ?g4 = "a \<notin> mmb_region bits N \<longrightarrow> mmbit_unset mem bits N key a = mem a"
  have "?g2 \<and> ?g3 \<and> ?g4"
  proof (cases "mmbit_is_flat_model N")
    case True
    have "bits + key div 8 \<in> mmb_region bits N"
      using assms True mmbit_size_spec [of N] by (simp add: mmb_ok_def flat_size_eq)
    then show ?thesis
      using True assms mbit_unset_flat [of mem bits key]
      by (auto simp: mmbit_unset_def mmb_elems_def mmb_ok_def)
         (auto simp: mmbit_unset_flat_def Let_def mmbit_flat_select_byte_def)
  next
    case False
    note big = big_model [OF assms(1) False]
    have k: "key < 64 ^ Suc (mmbit_maxlevel N)" using assms(2) big(2) by simp
    show ?thesis
      using unset_loop_spec [OF big(3) k, of 0 mem bits] unset_loop_frame [OF assms(1) False assms(2), of a 0 mem] False assms(1)
      by (auto simp: mmbit_unset_def mmbit_unset_big_def mmb_elems_def mmb_ok_def)
  qed
  then show ?g2 ?g3 "a \<notin> mmb_region bits N \<Longrightarrow> mmbit_unset mem bits N key a = mem a" by blast+
qed

lemma mmbit_clear_spec:
  assumes "8 \<le> bits" "N \<le> MMB_MAX_BITS"
  shows "mmb_elems bits N (mmbit_clear mem bits N) = {}" "mmb_ok bits N (mmbit_clear mem bits N)"
    and "a \<notin> mmb_region bits N \<Longrightarrow> mmbit_clear mem bits N a = mem a"
proof -
  let ?m = "mmbit_clear mem bits N"
  have "mmb_elems bits N ?m = {} \<and> mmb_ok bits N ?m \<and> (a \<notin> mmb_region bits N \<longrightarrow> ?m a = mem a)"
  proof (cases "mmbit_is_flat_model N")
    case True
    have "\<not> mbit ?m bits k" if "k < 8 * mmbit_flat_size N" for k
      using that True by (auto simp: mmbit_clear_def memset_def mbit_def flat_size_eq div_less_iff_less_mult mult.commute)
    moreover have "N \<le> 8 * mmbit_flat_size N" by (simp add: flat_size_eq)
    moreover have "a \<notin> mmb_region bits N \<Longrightarrow> ?m a = mem a"
      using True mmbit_size_spec [OF assms(2)] by (auto simp: mmbit_clear_def memset_def)
    ultimately show ?thesis using True assms by (auto simp: mmb_elems_def mmb_ok_def)
  next
    case False
    have m: "?m = mmb_store mem (bits + 8 * (root_of 0 + 0)) 0"
      using False by (simp add: mmbit_clear_def mmbit_is_flat_model_def mmb_consts)
    have "\<not> on ?m bits l p" for l p
      by (induction l arbitrary: p) (simp_all only: on.simps m lbit_store, auto simp: lbit_store [where l = 0 and b = 0, simplified])
    moreover have "a \<notin> {bits..<bits + 8}" if "a \<notin> mmb_region bits N"
    proof -
      have "8 \<le> 8 * (root_of (mmbit_maxlevel N) + (N + 63) div 64)"
        using False by (simp add: mmbit_is_flat_model_def mmb_consts)
      then show ?thesis using that False mmbit_size_spec [OF assms(2)] by auto
    qed
    ultimately show ?thesis using False assms store_frame [of a bits mem 0] m by (auto simp: mmb_elems_def mmb_ok_def)
  qed
  then show "mmb_elems bits N ?m = {}" "mmb_ok bits N ?m" "a \<notin> mmb_region bits N \<Longrightarrow> ?m a = mem a" by blast+
qed

lemma mmb_okD: "mmb_ok bits N mem \<Longrightarrow> 8 \<le> bits" "mmb_ok bits N mem \<Longrightarrow> N \<le> MMB_MAX_BITS"
  by (simp_all add: mmb_ok_def)

lemma mmbit_clear_ok:
  assumes "mmb_ok bits N mem"
  shows "mmb_elems bits N (mmbit_clear mem bits N) = {}" "mmb_ok bits N (mmbit_clear mem bits N)"
    and "a \<notin> mmb_region bits N \<Longrightarrow> mmbit_clear mem bits N a = mem a"
  using mmbit_clear_spec [OF mmb_okD [OF assms]] by auto

text \<open>What a client of a set of bounded keys relies on, and sequences of updates on such a set.\<close>

datatype set_op = SetKey nat | UnsetKey nat | ClearAll

primrec op_keys :: "set_op \<Rightarrow> nat set" where
  "op_keys (SetKey k) = {k}"
| "op_keys (UnsetKey k) = {k}"
| "op_keys ClearAll = {}"

primrec apply_op :: "('s \<Rightarrow> nat \<Rightarrow> 's) \<Rightarrow> ('s \<Rightarrow> nat \<Rightarrow> 's) \<Rightarrow> ('s \<Rightarrow> 's) \<Rightarrow> 's \<Rightarrow> set_op \<Rightarrow> 's" where
  "apply_op ins del clr s (SetKey k) = ins s k"
| "apply_op ins del clr s (UnsetKey k) = del s k"
| "apply_op ins del clr s ClearAll = clr s"

abbreviation apply_set_op :: "nat set \<Rightarrow> set_op \<Rightarrow> nat set" where
  "apply_set_op \<equiv> apply_op (\<lambda>A k. insert k A) (\<lambda>A k. A - {k}) (\<lambda>_. {})"

locale bounded_set =
  fixes bound :: nat
    and ins :: "'s \<Rightarrow> nat \<Rightarrow> 's"
    and del :: "'s \<Rightarrow> nat \<Rightarrow> 's"
    and clr :: "'s \<Rightarrow> 's"
    and isin :: "'s \<Rightarrow> nat \<Rightarrow> bool"
    and elems :: "'s \<Rightarrow> nat set"
    and ok :: "'s \<Rightarrow> bool"
    and same_outside :: "'s \<Rightarrow> 's \<Rightarrow> bool"
  assumes elems_ins: "ok s \<Longrightarrow> k < bound \<Longrightarrow> elems (ins s k) = insert k (elems s)"
    and elems_del: "ok s \<Longrightarrow> k < bound \<Longrightarrow> elems (del s k) = elems s - {k}"
    and elems_clr: "ok s \<Longrightarrow> elems (clr s) = {}"
    and isin_iff: "ok s \<Longrightarrow> k < bound \<Longrightarrow> isin s k \<longleftrightarrow> k \<in> elems s"
    and ok_ins: "ok s \<Longrightarrow> k < bound \<Longrightarrow> ok (ins s k)"
    and ok_del: "ok s \<Longrightarrow> k < bound \<Longrightarrow> ok (del s k)"
    and ok_clr: "ok s \<Longrightarrow> ok (clr s)"
    and frame_ins: "ok s \<Longrightarrow> k < bound \<Longrightarrow> same_outside s (ins s k)"
    and frame_del: "ok s \<Longrightarrow> k < bound \<Longrightarrow> same_outside s (del s k)"
    and frame_clr: "ok s \<Longrightarrow> same_outside s (clr s)"
    and frame_refl: "same_outside s s"
    and frame_trans: "same_outside s t \<Longrightarrow> same_outside t u \<Longrightarrow> same_outside s u"
begin

lemma apply_op_refines:
  assumes "ok s" "op_keys x \<subseteq> {..<bound}"
  shows "elems (apply_op ins del clr s x) = apply_set_op (elems s) x"
    "ok (apply_op ins del clr s x)" "same_outside s (apply_op ins del clr s x)"
  using assms by (cases x; simp add: elems_ins elems_del elems_clr ok_ins ok_del ok_clr frame_ins frame_del frame_clr)+

lemma script_refines:
  "ok s \<Longrightarrow> (\<Union>x\<in>set xs. op_keys x) \<subseteq> {..<bound} \<Longrightarrow>
   elems (foldl (apply_op ins del clr) s xs) = foldl apply_set_op (elems s) xs \<and>
   ok (foldl (apply_op ins del clr) s xs) \<and> same_outside s (foldl (apply_op ins del clr) s xs)"
proof (induction xs arbitrary: s)
  case (Cons x xs)
  have x: "op_keys x \<subseteq> {..<bound}" using Cons.prems by simp
  note a = apply_op_refines [OF Cons.prems(1) x]
  show ?case using Cons.IH [OF a(2)] Cons.prems a frame_trans by auto
qed (simp add: frame_refl)

end

interpretation mmb: bounded_set N "\<lambda>mem k. snd (mmbit_set mem bits N k)" "\<lambda>mem k. mmbit_unset mem bits N k"
  "\<lambda>mem. mmbit_clear mem bits N" "\<lambda>mem k. mmbit_isset mem bits N k" "mmb_elems bits N" "mmb_ok bits N"
  "\<lambda>mem mem'. \<forall>a. a \<notin> mmb_region bits N \<longrightarrow> mem' a = mem a" for bits N
  by unfold_locales
    (simp_all add: mmbit_set_spec mmbit_unset_spec mmbit_isset_spec mmbit_clear_ok del: atLeastLessThan_iff)

section \<open>Properties\<close>

text \<open>
  C40. A multibit refines a set of keys: from memory with arbitrary content, clearing it and then any
  sequence of set, unset and clear calls with keys in range leaves a multibit that satisfies the
  invariant and stands for the set the same operations give on sets. \<^verbatim>\<open>mmbit_isset\<close> and the
  result of \<^verbatim>\<open>mmbit_set\<close> answer membership, and no byte outside the \<^verbatim>\<open>mmbit_size\<close> bytes
  behind the pointer changes, for the flat layout and for the pyramid.
\<close>

theorem mmbit_refines_sets:
  assumes "8 \<le> bits" "N \<le> MMB_MAX_BITS" "(\<Union>x\<in>set xs. op_keys x) \<subseteq> {..<N}"
    and "mem' = foldl (apply_op (\<lambda>mem k. snd (mmbit_set mem bits N k)) (\<lambda>mem k. mmbit_unset mem bits N k)
           (\<lambda>mem. mmbit_clear mem bits N)) (mmbit_clear mem bits N) xs"
  shows "mmb_elems bits N mem' = foldl apply_set_op {} xs \<and> mmb_ok bits N mem' \<and>
    (\<forall>k<N. mmbit_isset mem' bits N k = (k \<in> mmb_elems bits N mem') \<and>
           fst (mmbit_set mem' bits N k) = (k \<in> mmb_elems bits N mem')) \<and>
    (\<forall>a. a < bits \<or> (\<exists>size. mmbit_size N = Inr size \<and> bits + size \<le> a) \<longrightarrow> mem' a = mem a)"
proof -
  note clr = mmbit_clear_spec [where mem = mem, OF assms(1,2)]
  note run = mmb.script_refines [OF clr(2) assms(3), folded assms(4)]
  have "mem' a = mem a" if "a < bits \<or> (\<exists>size. mmbit_size N = Inr size \<and> bits + size \<le> a)" for a
  proof -
    have "a \<notin> mmb_region bits N" using that by auto
    then show ?thesis using run clr(3) by metis
  qed
  moreover have "mmb_elems bits N mem' = foldl apply_set_op {} xs" "mmb_ok bits N mem'"
    using run clr(1) by simp_all
  ultimately show ?thesis using mmbit_isset_spec mmbit_set_spec(1) by blast
qed

theorem mmbit_refines_sets_witness:
  "mmbit_isset (snd (mmbit_set (mmbit_clear (\<lambda>_. 0xff) 8 1000) 8 1000 700)) 8 1000 700"
  using mmbit_refines_sets [of 8 1000 "[SetKey 700]" _ "\<lambda>_. 0xff", OF _ _ _ refl]
  by (simp add: mmb_consts)

end
