(* ===== verification/MultibitIterate.thy ===== *)
theory MultibitIterate
  imports Multibit
begin

text \<open>
  Iteration over a multibit and the tests for any and all keys,
  \<^verbatim>\<open>util/multibit.h\<close>. The walk over the pyramid is a loop that moves up and
  down the levels, a partial function whose result is shown to exist.
\<close>

section \<open>Model: iteration\<close>

function mmbit_flat_scan :: "memory \<Rightarrow> nat \<Rightarrow> nat \<Rightarrow> nat \<Rightarrow> nat" where
  "mmbit_flat_scan mem bits total_bits start =
     (if start < total_bits div MMB_KEY_BITS then
        let block = mmb_load mem (bits + start * 8)
        in if block \<noteq> 0 then start * MMB_KEY_BITS + mmb_ctz block
           else mmbit_flat_scan mem bits total_bits (Suc start)
      else if total_bits mod MMB_KEY_BITS \<noteq> 0 then
        let start_key = start * MMB_KEY_BITS;
            block_size = min MMB_KEY_BITS (total_bits - start_key);
            block = mmbit_get_flat_block mem (bits + start * 8) block_size
        in if block \<noteq> 0 then start_key + mmb_ctz block else MMB_INVALID
      else MMB_INVALID)"
  by auto
termination by (relation "measure (\<lambda>(_, _, n, start). n div MMB_KEY_BITS - start)") auto

definition mmbit_iterate_flat :: "memory \<Rightarrow> nat \<Rightarrow> nat \<Rightarrow> nat \<Rightarrow> nat" where
  "mmbit_iterate_flat mem bits total_bits it_in =
     (if total_bits \<le> MMB_KEY_BITS then
        let block = mmbit_get_flat_block mem bits total_bits;
            block = (if it_in \<noteq> MMB_INVALID then block AND NOT (mmb_mask_zero_to (Suc it_in)) else block)
        in if block \<noteq> 0 then mmb_ctz block else MMB_INVALID
      else if it_in \<noteq> MMB_INVALID then
        let it_in = Suc it_in;
            start = ROUNDUP_N it_in MMB_KEY_BITS div MMB_KEY_BITS - 1;
            start_key = start * MMB_KEY_BITS;
            block_size = min MMB_KEY_BITS (total_bits - start_key);
            block = mmbit_get_flat_block mem (bits + start * 8) block_size
                      AND NOT (mmb_mask_zero_to (it_in - start_key))
        in if block \<noteq> 0 then start_key + mmb_ctz block
           else if start_key + MMB_KEY_BITS \<ge> total_bits then MMB_INVALID
           else mmbit_flat_scan mem bits total_bits (Suc start)
      else mmbit_flat_scan mem bits total_bits 0)"

text \<open>
  The walk over the pyramid: \<open>key\<close> is the index of a block on \<open>level\<close> and \<open>key_rem\<close> the first of its
  bits to look at.
\<close>

partial_function (option) mmbit_iterate_loop ::
    "memory \<Rightarrow> nat \<Rightarrow> nat \<Rightarrow> nat \<Rightarrow> nat \<Rightarrow> nat \<Rightarrow> nat option" where
  "mmbit_iterate_loop mem bits max_level level key key_rem =
     (let block = mmb_load mem (mmbit_get_level_root bits level + key * 8) AND NOT (mmb_mask_zero_to_nocheck key_rem)
      in if key_rem < MMB_KEY_BITS \<and> block \<noteq> 0 then
           let key = (push_bit MMB_KEY_SHIFT key + mmb_ctz block) mod 2 ^ 32
           in if level = max_level then Some key
              else mmbit_iterate_loop mem bits max_level (Suc level) key 0
         else if level = 0 then Some MMB_INVALID
         else mmbit_iterate_loop mem bits max_level (level - 1) (drop_bit MMB_KEY_SHIFT key)
                (Suc (key AND MMB_KEY_MASK)))"

definition mmbit_iterate_big :: "memory \<Rightarrow> nat \<Rightarrow> nat \<Rightarrow> nat \<Rightarrow> nat option" where
  "mmbit_iterate_big mem bits total_bits it_in =
     (let max_level = mmbit_maxlevel total_bits
      in if it_in \<noteq> MMB_INVALID then
           mmbit_iterate_loop mem bits max_level max_level (drop_bit MMB_KEY_SHIFT it_in)
             (Suc (it_in AND MMB_KEY_MASK))
         else mmbit_iterate_loop mem bits max_level 0 0 0)"

definition mmbit_iterate :: "memory \<Rightarrow> nat \<Rightarrow> nat \<Rightarrow> nat \<Rightarrow> nat option" where
  "mmbit_iterate mem bits total_bits it_in =
     (if total_bits = 0 then Some MMB_INVALID
      else if it_in = total_bits - 1 then Some MMB_INVALID
      else if mmbit_is_flat_model total_bits then Some (mmbit_iterate_flat mem bits total_bits it_in)
      else mmbit_iterate_big mem bits total_bits it_in)"

section \<open>Model: any and all\<close>

function mmbit_any_loop :: "memory \<Rightarrow> nat \<Rightarrow> nat \<Rightarrow> bool" where
  "mmbit_any_loop mem p lst =
     (if p < lst then if mmb_load mem p \<noteq> 0 then True else mmbit_any_loop mem (p + 8) lst
      else mmb_load mem lst \<noteq> 0)"
  by auto
termination by (relation "measure (\<lambda>(_, p, lst). lst - p)") auto

definition mmbit_any_flat :: "memory \<Rightarrow> nat \<Rightarrow> nat \<Rightarrow> bool" where
  "mmbit_any_flat mem bits total_bits =
     (if total_bits \<le> MMB_KEY_BITS then mmbit_get_flat_block mem bits total_bits \<noteq> 0
      else mmbit_any_loop mem bits (bits + mmbit_flat_size total_bits - 8))"

definition mmbit_any :: "memory \<Rightarrow> nat \<Rightarrow> nat \<Rightarrow> bool" where
  "mmbit_any mem bits total_bits =
     (if total_bits = 0 then False
      else if mmbit_is_flat_model total_bits then mmbit_any_flat mem bits total_bits
      else mmb_load mem bits \<noteq> 0)"

definition mmbit_any_precise :: "memory \<Rightarrow> nat \<Rightarrow> nat \<Rightarrow> bool option" where
  "mmbit_any_precise mem bits total_bits =
     (if total_bits = 0 then Some False
      else if mmbit_is_flat_model total_bits then Some (mmbit_any_flat mem bits total_bits)
      else map_option (\<lambda>key. key \<noteq> MMB_INVALID) (mmbit_iterate_big mem bits total_bits MMB_INVALID))"

function mmbit_all_bytes :: "memory \<Rightarrow> nat \<Rightarrow> nat \<Rightarrow> bool" where
  "mmbit_all_bytes mem bits total_bits =
     (if total_bits > 8 then if mem bits \<noteq> 0xff then False else mmbit_all_bytes mem (Suc bits) (total_bits - 8)
      else let m = ucast (mmb_mask_zero_to_nocheck total_bits) in mem bits AND m = m)"
  by auto
termination by (relation "measure (\<lambda>(_, _, n). n)") auto

function mmbit_all_flat :: "memory \<Rightarrow> nat \<Rightarrow> nat \<Rightarrow> bool" where
  "mmbit_all_flat mem bits total_bits =
     (if total_bits > MMB_KEY_BITS then
        if mmb_load mem bits \<noteq> - 1 then False else mmbit_all_flat mem (bits + 8) (total_bits - MMB_KEY_BITS)
      else mmbit_all_bytes mem bits total_bits)"
  by auto
termination by (relation "measure (\<lambda>(_, _, n). n)") (auto simp: mmb_consts)

function mmbit_all_blocks :: "memory \<Rightarrow> nat \<Rightarrow> nat \<Rightarrow> bool" where
  "mmbit_all_blocks mem block_ptr level_bits =
     (if level_bits \<ge> MMB_KEY_BITS then
        if mmb_load mem block_ptr \<noteq> - 1 then False
        else mmbit_all_blocks mem (block_ptr + 8) (level_bits - MMB_KEY_BITS)
      else if level_bits > 0 then
        let m = mmb_mask_zero_to_nocheck level_bits in mmb_load mem block_ptr AND m = m
      else True)"
  by auto
termination by (relation "measure (\<lambda>(_, _, n). n)") (auto simp: mmb_consts)

function mmbit_all_levels :: "memory \<Rightarrow> nat \<Rightarrow> nat \<Rightarrow> nat \<Rightarrow> nat \<Rightarrow> bool" where
  "mmbit_all_levels mem bits total_bits ks level =
     (let level_bits = (if ks \<noteq> 0 then drop_bit ks (ROUNDUP_N total_bits (push_bit (ks - MMB_KEY_SHIFT) MMB_KEY_BITS))
                        else total_bits)
      in if \<not> mmbit_all_blocks mem (mmbit_get_level_root bits level) level_bits then False
         else if ks = 0 then True
         else mmbit_all_levels mem bits total_bits (ks - MMB_KEY_SHIFT) (Suc level))"
  by auto
termination by (relation "measure (\<lambda>(_, _, _, ks, _). ks)") (auto simp: mmb_consts)

definition mmbit_all_big :: "memory \<Rightarrow> nat \<Rightarrow> nat \<Rightarrow> bool" where
  "mmbit_all_big mem bits total_bits = mmbit_all_levels mem bits total_bits (mmbit_keyshift total_bits) 0"

definition mmbit_all :: "memory \<Rightarrow> nat \<Rightarrow> nat \<Rightarrow> bool" where
  "mmbit_all mem bits total_bits =
     (if mmbit_is_flat_model total_bits then mmbit_all_flat mem bits total_bits
      else mmbit_all_big mem bits total_bits)"

declare mmbit_flat_scan.simps [simp del] mmbit_any_loop.simps [simp del] mmbit_all_bytes.simps [simp del]
  mmbit_all_flat.simps [simp del] mmbit_all_blocks.simps [simp del] mmbit_all_levels.simps [simp del]

section \<open>Flat iteration\<close>

lemma least_or_empty [simp]: "least_or d {} = d"
  by (simp add: least_or_def)

lemma least_or_eqI: "finite A \<Longrightarrow> x \<in> A \<Longrightarrow> (\<And>y. y \<in> A \<Longrightarrow> x \<le> y) \<Longrightarrow> least_or d A = x"
  by (auto simp: least_or_def intro: Min_eqI)

text \<open>One block of a linear scan for the least key from \<open>lo\<close> on.\<close>

lemma least_scan:
  assumes "finite E" "64 * w \<le> lo" "lo \<le> 64 * w + 64"
    and v: "\<And>j. bit v j \<longleftrightarrow> j < 64 \<and> 64 * w + j \<in> E \<and> lo \<le> 64 * w + j"
  shows "least_or d {k \<in> E. lo \<le> k} = (if v \<noteq> 0 then 64 * w + mmb_ctz v else least_or d {k \<in> E. 64 * w + 64 \<le> k})"
proof (cases "v = 0")
  case True
  have "64 * w + 64 \<le> k" if "k \<in> E" "lo \<le> k" for k
  proof (rule ccontr)
    assume "\<not> 64 * w + 64 \<le> k"
    then have "bit v (k - 64 * w)" using that assms(2) unfolding v by auto
    then show False using True by simp
  qed
  then have "{k \<in> E. lo \<le> k} = {k \<in> E. 64 * w + 64 \<le> k}" using assms(3) by auto
  then show ?thesis using True by simp
next
  case False
  note c = mmb_ctz_spec [OF False]
  have "64 * w + mmb_ctz v \<le> y" if "y \<in> E" "lo \<le> y" for y
  proof (cases "y < 64 * w + 64")
    case True
    then have "bit v (y - 64 * w)" using that assms(2) unfolding v by auto
    then have "mmb_ctz v \<le> y - 64 * w" by (rule c(2))
    then show ?thesis using that assms(2) by simp
  qed (use c(3) in simp)
  then have "least_or d {k \<in> E. lo \<le> k} = 64 * w + mmb_ctz v"
    using c(1) assms(1) unfolding v by (intro least_or_eqI) auto
  then show ?thesis using False by simp
qed

lemma bit_flat_block:
  assumes "0 < n" "n \<le> 64" "8 \<le> bits"
  shows "bit (mmbit_get_flat_block mem (bits + 8 * w) n) j \<longleftrightarrow> j < 8 * ((n + 7) div 8) \<and> mbit mem bits (64 * w + j)"
proof -
  define m where "m = (n + 7) div 8"
  have m: "0 < m" "m \<le> 8" "ROUNDUP_N n 8 div 8 = m" using assms by (auto simp: m_def ROUNDUP_N_def)
  have sh: "mbit mem (bits + 8 * w + m - c) (8 * (c - m) + j) = mbit mem bits (64 * w + j)" if "m \<le> c" "c \<le> 8" for c
  proof -
    have "bits + 8 * w + m - c + (c - m) = bits + 8 * w" using that assms(3) by linarith
    then have "mbit mem (bits + 8 * w + m - c) (8 * (c - m) + j) = mbit mem (bits + 8 * w) j"
      by (simp only: mbit_add [symmetric])
    then show ?thesis by (simp add: mbit_add)
  qed
  consider "m = 1" | "m = 2" | "m = 3 \<or> m = 4" | "5 \<le> m" using m(1) by linarith
  then show ?thesis
  proof cases
    case 3
    then have "mmbit_get_flat_block mem (bits + 8 * w) n = ucast (drop_bit ((4 - m) * 8) (load_le 4 mem (bits + 8 * w + m - 4) :: u32))"
      by (auto simp: mmbit_get_flat_block_def Let_def m(3))
    then show ?thesis using 3 sh [of 4]
      by (auto simp: bit_simps bit_load_le m_def [symmetric] mult.commute)
  next
    case 4
    then have "mmbit_get_flat_block mem (bits + 8 * w) n = drop_bit ((8 - m) * 8) (load_le 8 mem (bits + 8 * w + m - 8) :: u64a)"
      by (auto simp: mmbit_get_flat_block_def Let_def m(3))
    then show ?thesis using 4 sh [of 8] m(2)
      by (auto simp: bit_simps bit_load_le m_def [symmetric] mult.commute)
  qed (auto simp: mmbit_get_flat_block_def Let_def m(3) m_def [symmetric] bit_simps bit_load_le bit_byte(2) unaligned_defs mbit_add)
qed

lemma mmb_elems_bound: "mmb_ok bits N mem \<Longrightarrow> mmb_elems bits N mem \<subseteq> {..<N}"
proof
  fix k assume ok: "mmb_ok bits N mem" and k: "k \<in> mmb_elems bits N mem"
  show "k \<in> {..<N}"
  proof (cases "mmbit_is_flat_model N")
    case False
    then have "k * 64 ^ (mmbit_maxlevel N - mmbit_maxlevel N) < N"
      using ok k unfolding mmb_ok_def mmb_elems_def if_not_P [OF False] by blast
    then show ?thesis by simp
  qed (use k in \<open>simp add: mmb_elems_def\<close>)
qed

lemma mmb_elems_finite: "mmb_ok bits N mem \<Longrightarrow> finite (mmb_elems bits N mem)"
  by (rule finite_subset [OF mmb_elems_bound]) simp_all

lemma flat_block_elems:
  assumes "mmb_ok bits N mem" "mmbit_is_flat_model N" "64 * w < N"
  shows "bit (mmbit_get_flat_block mem (bits + 8 * w) (min 64 (N - 64 * w))) j
    \<longleftrightarrow> j < 64 \<and> 64 * w + j \<in> mmb_elems bits N mem"
proof -
  let ?n = "min 64 (N - 64 * w)"
  have n: "0 < ?n" "?n \<le> 64" using assms(3) by auto
  have sz: "64 * w + 8 * ((?n + 7) div 8) \<le> 8 * ((N + 7) div 8)" "j < ?n \<Longrightarrow> j < 8 * ((?n + 7) div 8)"
    "8 * ((?n + 7) div 8) \<le> 64"
  proof -
    have "64 * w + ?n \<le> N" using assms(3) by simp
    then have "(64 * w + (?n + 7)) div 8 \<le> (N + 7) div 8" by (intro div_le_mono) linarith
    then show "64 * w + 8 * ((?n + 7) div 8) \<le> 8 * ((N + 7) div 8)" unfolding pos_byte by linarith
    show "8 * ((?n + 7) div 8) \<le> 64" using div_le_mono [of "?n + 7" 71 8] n(2) by simp
  qed (use n in linarith)
  have clear: "64 * w + j < N" if "mbit mem bits (64 * w + j)" "j < 8 * ((?n + 7) div 8)"
  proof (rule ccontr)
    assume "\<not> 64 * w + j < N"
    moreover have "64 * w + j < 8 * mmbit_flat_size N" using that(2) sz(1) by (simp add: flat_size_eq)
    ultimately show False using that(1) assms(1,2) by (simp add: mmb_ok_def)
  qed
  have "j < ?n" if "64 * w + j < N" "j < 64" using that by auto
  then show ?thesis
    using clear sz(2,3) bit_flat_block [OF n mmb_okD(1) [OF assms(1)], of mem w j] assms(2)
    by (auto simp: mmb_elems_def)
qed

lemma load_elems:
  assumes "mmb_ok bits N mem" "mmbit_is_flat_model N" "64 * w + 64 \<le> N"
  shows "bit (mmb_load mem (bits + 8 * w)) j \<longleftrightarrow> j < 64 \<and> 64 * w + j \<in> mmb_elems bits N mem"
  using assms(2,3) by (auto simp: bit_mmb_load mmb_elems_def)

lemma flat_scan_spec:
  assumes ok: "mmb_ok bits N mem" "mmbit_is_flat_model N"
  shows "64 * start \<le> N \<Longrightarrow>
    mmbit_flat_scan mem bits N start = least_or MMB_INVALID {k \<in> mmb_elems bits N mem. 64 * start \<le> k}"
proof (induction "N div 64 - start" arbitrary: start rule: less_induct)
  case less
  note fin = mmb_elems_finite [OF ok(1)]
  have ptr: "bits + start * 8 = bits + 8 * start" by simp
  consider "start < N div 64" | "start = N div 64" using less(2) by linarith
  then show ?case
  proof cases
    case 1
    then have b: "64 * start + 64 \<le> N" by linarith
    have "least_or MMB_INVALID {k \<in> mmb_elems bits N mem. 64 * start \<le> k} =
      (if mmb_load mem (bits + 8 * start) \<noteq> 0 then 64 * start + mmb_ctz (mmb_load mem (bits + 8 * start))
       else least_or MMB_INVALID {k \<in> mmb_elems bits N mem. 64 * start + 64 \<le> k})"
      by (rule least_scan [OF fin]) (simp_all add: load_elems [OF ok b])
    moreover have "mmbit_flat_scan mem bits N (Suc start) = least_or MMB_INVALID {k \<in> mmb_elems bits N mem. 64 * start + 64 \<le> k}"
      using less(1) [of "Suc start"] 1 b by (simp add: add.commute)
    ultimately show ?thesis using 1 unfolding mmbit_flat_scan.simps [of mem bits N start] ptr
      by (simp add: mmb_consts Let_def mult.commute)
  next
    case 2
    have above: "{k \<in> mmb_elems bits N mem. 64 * start + 64 \<le> k} = {}"
    proof -
      have "N < 64 * start + 64" using 2 by linarith
      then show ?thesis using mmb_elems_bound [OF ok(1)] by fastforce
    qed
    show ?thesis
    proof (cases "N mod 64 = 0")
      case True
      then have "N = 64 * start" using 2 by auto
      then have e: "{k \<in> mmb_elems bits N mem. 64 * start \<le> k} = {}" using mmb_elems_bound [OF ok(1)] by fastforce
      show ?thesis unfolding e using True 2 by (subst mmbit_flat_scan.simps) (simp add: mmb_consts)
    next
      case False
      then have b: "64 * start < N" using 2 less(2) by (metis le_neq_implies_less mod_mult_self1_is_0)
      let ?v = "mmbit_get_flat_block mem (bits + 8 * start) (min 64 (N - 64 * start))"
      have "least_or MMB_INVALID {k \<in> mmb_elems bits N mem. 64 * start \<le> k} =
        (if ?v \<noteq> 0 then 64 * start + mmb_ctz ?v else least_or MMB_INVALID {k \<in> mmb_elems bits N mem. 64 * start + 64 \<le> k})"
        by (rule least_scan [OF fin]) (simp_all add: flat_block_elems [OF ok b])
      moreover have "\<not> start < N div 64" using 2 by simp
      ultimately show ?thesis using False unfolding mmbit_flat_scan.simps [of mem bits N start] ptr above
        by (simp add: mmb_consts Let_def mult.commute)
    qed
  qed
qed

lemma iterate_flat_spec:
  assumes ok: "mmb_ok bits N mem" "mmbit_is_flat_model N" and N: "0 < N"
  shows "mmbit_iterate_flat mem bits N MMB_INVALID = least_or MMB_INVALID (mmb_elems bits N mem)"
    and "Suc it < N \<Longrightarrow> mmbit_iterate_flat mem bits N it = least_or MMB_INVALID {k \<in> mmb_elems bits N mem. it < k}"
proof -
  note fin = mmb_elems_finite [OF ok(1)]
  let ?E = "mmb_elems bits N mem"
  have small: "{k \<in> ?E. 64 \<le> k} = {}" if "N \<le> 64" using that mmb_elems_bound [OF ok(1)] by fastforce
  show "mmbit_iterate_flat mem bits N MMB_INVALID = least_or MMB_INVALID ?E"
  proof (cases "N \<le> 64")
    case True
    have "least_or MMB_INVALID {k \<in> ?E. 0 \<le> k} = (if mmbit_get_flat_block mem bits N \<noteq> 0
        then 64 * 0 + mmb_ctz (mmbit_get_flat_block mem bits N) else least_or MMB_INVALID {k \<in> ?E. 64 * 0 + 64 \<le> k})"
      using flat_block_elems [OF ok, of 0] N True by (intro least_scan [OF fin]) simp_all
    then show ?thesis using True unfolding mult_0_right add_0 small [OF True] 
      by (simp add: mmbit_iterate_flat_def mmb_consts)
  next
    case False
    then show ?thesis using flat_scan_spec [OF ok, of 0] by (simp add: mmbit_iterate_flat_def mmb_consts)
  qed
  assume it: "Suc it < N"
  have inv: "it \<noteq> MMB_INVALID" using it mmb_okD(2) [OF ok(1)] by (simp add: mmb_consts)
  define w where "w = it div 64"
  have w: "64 * w \<le> Suc it" "Suc it \<le> 64 * w + 64" "64 * w < N" using it by (auto simp: w_def)
  let ?v = "mmbit_get_flat_block mem (bits + 8 * w) (min 64 (N - 64 * w)) AND NOT (mmb_mask_zero_to (Suc it - 64 * w))"
  have "least_or MMB_INVALID {k \<in> ?E. Suc it \<le> k} =
    (if ?v \<noteq> 0 then 64 * w + mmb_ctz ?v else least_or MMB_INVALID {k \<in> ?E. 64 * w + 64 \<le> k})"
  proof (rule least_scan [OF fin w(1,2)])
    show "bit ?v j \<longleftrightarrow> j < 64 \<and> 64 * w + j \<in> ?E \<and> Suc it \<le> 64 * w + j" for j
      using flat_block_elems [OF ok w(3), of j] mask_zero_to(1) [of "Suc it - 64 * w" j] w(1,2)
      by (auto simp: bit_simps)
  qed
  moreover have "{k \<in> ?E. Suc it \<le> k} = {k \<in> ?E. it < k}" by auto
  moreover have "least_or MMB_INVALID {k \<in> ?E. 64 * w + 64 \<le> k} =
      (if 64 * w + 64 \<ge> N then MMB_INVALID else mmbit_flat_scan mem bits N (Suc w))"
  proof (cases "N \<le> 64 * w + 64")
    case True
    then have e: "{k \<in> ?E. 64 * w + 64 \<le> k} = {}" using mmb_elems_bound [OF ok(1)] by fastforce
    show ?thesis unfolding e using True by simp
  next
    case False
    then show ?thesis using flat_scan_spec [OF ok, of "Suc w"] by (simp add: add.commute)
  qed
  ultimately have spec: "least_or MMB_INVALID {k \<in> ?E. it < k} = (if ?v \<noteq> 0 then 64 * w + mmb_ctz ?v
      else if 64 * w + 64 \<ge> N then MMB_INVALID else mmbit_flat_scan mem bits N (Suc w))" by simp
  have start: "ROUNDUP_N (Suc it) 64 div 64 - 1 = w" by (simp add: ROUNDUP_N_def w_def)
  show "mmbit_iterate_flat mem bits N it = least_or MMB_INVALID {k \<in> ?E. it < k}"
  proof (cases "N \<le> 64")
    case True
    then have "w = 0" using it by (simp add: w_def)
    then show ?thesis using True inv unfolding spec mmbit_iterate_flat_def by (simp add: MMB_KEY_BITS_def Let_def)
  next
    case False
    have "w * 8 = 8 * w" "w * 64 = 64 * w" by simp_all
    then show ?thesis using False inv unfolding spec mmbit_iterate_flat_def MMB_KEY_BITS_def start Let_def
      by (simp only: if_False if_True simp_thms)
  qed
qed

section \<open>Iteration over the pyramid\<close>

lemma prefix_less_imp: "prefix ml l x < prefix ml l y \<Longrightarrow> x < y"
  unfolding prefix_def by (meson div_le_mono not_le)

lemma level_block_ptr:
  "l \<le> 6 \<Longrightarrow> mmbit_get_level_root bits l + key * 8 = bits + 8 * (root_of l + key)"
  by (simp add: mmbit_get_level_root_def root_offset)

lemma shift_word: "push_bit MMB_KEY_SHIFT k = 64 * k" "drop_bit MMB_KEY_SHIFT k = k div 64" for k :: nat
  by (simp_all add: mmb_consts push_bit_eq_mult drop_bit_eq_div)

text \<open>A block whose content is valid.\<close>

definition valid_block :: "memory \<Rightarrow> nat \<Rightarrow> nat \<Rightarrow> nat \<Rightarrow> bool" where
  "valid_block mem bits l key = (if l = 0 then key = 0 else on mem bits (l - 1) key)"

lemma on_valid_block: "valid_block mem bits l key \<Longrightarrow> j < 64 \<Longrightarrow> on mem bits l (64 * key + j) = lbit mem bits l (64 * key + j)"
  by (cases l) (auto simp: valid_block_def)

lemma valid_block_child: "on mem bits l p \<Longrightarrow> valid_block mem bits (Suc l) p"
  by (simp add: valid_block_def)

lemma valid_block_parent: "valid_block mem bits (Suc l) key \<Longrightarrow> valid_block mem bits l (key div 64)"
  by (cases l) (auto simp: valid_block_def)

text \<open>The keys below a block, from a bit of the block on.\<close>

definition keys_below :: "memory \<Rightarrow> nat \<Rightarrow> nat \<Rightarrow> nat \<Rightarrow> nat \<Rightarrow> nat \<Rightarrow> nat set" where
  "keys_below mem bits ml l key rem =
     {k. on mem bits ml k \<and> 64 * key + rem \<le> prefix ml l k \<and> prefix ml l k < 64 * key + 64}"

lemma keys_below_split:
  assumes "l \<le> ml" "valid_block mem bits l key" "rem \<le> b" "b < 64"
    and none: "\<And>j. rem \<le> j \<Longrightarrow> j < b \<Longrightarrow> \<not> lbit mem bits l (64 * key + j)"
  shows "keys_below mem bits ml l key rem =
    {k. on mem bits ml k \<and> prefix ml l k = 64 * key + b} \<union> keys_below mem bits ml l key (Suc b)"
proof -
  have "64 * key + b \<le> prefix ml l k" if "on mem bits ml k" "64 * key + rem \<le> prefix ml l k" for k
  proof (rule ccontr)
    assume lt: "\<not> 64 * key + b \<le> prefix ml l k"
    define j where "j = prefix ml l k - 64 * key"
    have j: "rem \<le> j" "j < b" "prefix ml l k = 64 * key + j" using that(2) lt by (auto simp: j_def)
    have "lbit mem bits l (64 * key + j)" using on_lbit [OF on_prefix [OF that(1) assms(1)]] j(3) by simp
    then show False using none [OF j(1,2)] by simp
  qed
  then show ?thesis using assms(3,4) unfolding keys_below_def by fastforce
qed

lemma keys_below_child:
  assumes "l < ml"
  shows "keys_below mem bits ml (Suc l) p 0 = {k. on mem bits ml k \<and> prefix ml l k = p}"
proof -
  have "64 * p \<le> q \<and> q < 64 * p + 64 \<longleftrightarrow> q div 64 = p" for q by auto
  then show ?thesis using prefix_Suc [OF assms] by (simp add: keys_below_def)
qed

lemma Min_union_below:
  fixes A B :: "nat set"
  assumes "finite (A \<union> B)" "A \<noteq> {}" "\<And>x y. x \<in> A \<Longrightarrow> y \<in> B \<Longrightarrow> x \<le> y"
  shows "Min (A \<union> B) = Min A"
proof (rule Min_eqI [OF assms(1)])
  have A: "Min A \<in> A" using assms(1,2) by (intro Min_in) auto
  then show "Min A \<in> A \<union> B" by simp
  show "Min A \<le> y" if "y \<in> A \<union> B" for y using that assms(1) assms(3) [OF A] by auto
qed

text \<open>What the invariant of a multibit says of its pyramid.\<close>

definition pyramid_ok :: "memory \<Rightarrow> nat \<Rightarrow> nat \<Rightarrow> nat \<Rightarrow> bool" where
  "pyramid_ok mem bits ml N \<longleftrightarrow> ml \<le> 6 \<and> N \<le> MMB_MAX_BITS \<and>
     (\<forall>l p. l \<le> ml \<longrightarrow> on mem bits l p \<longrightarrow> p * 64 ^ (ml - l) < N)"

lemma pyramid_okD:
  assumes "pyramid_ok mem bits ml N"
  shows "ml \<le> 6" "N \<le> MMB_MAX_BITS" "l \<le> ml \<Longrightarrow> on mem bits l p \<Longrightarrow> p * 64 ^ (ml - l) < N"
    and "on mem bits ml k \<Longrightarrow> k < N" "finite {k. on mem bits ml k \<and> P k}"
proof -
  show *: "ml \<le> 6" "N \<le> MMB_MAX_BITS" "l \<le> ml \<Longrightarrow> on mem bits l p \<Longrightarrow> p * 64 ^ (ml - l) < N" for l p
    using assms by (simp_all add: pyramid_ok_def)
  show k: "on mem bits ml k \<Longrightarrow> k < N" for k using *(3) [of ml k] by simp
  show "finite {k. on mem bits ml k \<and> P k}" by (rule finite_subset [of _ "{..<N}"]) (auto dest: k)
qed

text \<open>Where the walk continues when a block is exhausted.\<close>

abbreviation walk_up :: "memory \<Rightarrow> nat \<Rightarrow> nat \<Rightarrow> nat \<Rightarrow> nat \<Rightarrow> nat option" where
  "walk_up mem bits ml l key \<equiv> (if l = 0 then Some MMB_INVALID
     else mmbit_iterate_loop mem bits ml (l - 1) (key div 64) (Suc (key mod 64)))"

lemma no_wrap:
  assumes "pyramid_ok mem bits ml N" "l \<le> ml" "on mem bits l p"
  shows "p mod 2 ^ 32 = p"
proof -
  have "p * 64 ^ (ml - l) < N" by (rule pyramid_okD(3) [OF assms])
  moreover have "p * 1 \<le> p * 64 ^ (ml - l)" by (intro mult_le_mono) auto
  ultimately have "p < N" by linarith
  then have "p < 2 ^ 32" using pyramid_okD(2) [OF assms(1)] by (simp add: mmb_consts)
  then show ?thesis by simp
qed

lemma walk_step:
  assumes py: "pyramid_ok mem bits ml N" and "l \<le> ml" "valid_block mem bits l key"
  shows "(\<forall>j. rem \<le> j \<longrightarrow> j < 64 \<longrightarrow> \<not> lbit mem bits l (64 * key + j)) \<Longrightarrow> mmbit_iterate_loop mem bits ml l key rem = walk_up mem bits ml l key"
    and "rem \<le> b \<Longrightarrow> b < 64 \<Longrightarrow> lbit mem bits l (64 * key + b) \<Longrightarrow>
         (\<And>j. rem \<le> j \<Longrightarrow> j < b \<Longrightarrow> \<not> lbit mem bits l (64 * key + j)) \<Longrightarrow>
         mmbit_iterate_loop mem bits ml l key rem = (if l = ml then Some (64 * key + b) else mmbit_iterate_loop mem bits ml (Suc l) (64 * key + b) 0)"
proof -
  let ?v = "mmb_load mem (bits + 8 * (root_of l + key)) AND NOT (mmb_mask_zero_to_nocheck rem)"
  have l6: "l \<le> 6" using assms(2) pyramid_okD(1) [OF py] by simp
  note unf = mmbit_iterate_loop.simps [of mem bits ml l key rem, unfolded level_block_ptr [OF l6] shift_word Let_def]
  have v: "bit ?v j \<longleftrightarrow> j < 64 \<and> rem \<le> j \<and> lbit mem bits l (64 * key + j)" if "rem < 64" for j
    using mask_zero_to(2) [OF that, of j] unfolding bit_and_iff bit_not_iff bit_load_lbit by auto
  {
    assume none: "\<forall>j. rem \<le> j \<longrightarrow> j < 64 \<longrightarrow> \<not> lbit mem bits l (64 * key + j)"
    have "?v = 0" if "rem < 64" using none v [OF that] by (intro bit_word_eqI) auto
    then show "mmbit_iterate_loop mem bits ml l key rem = walk_up mem bits ml l key"
      unfolding unf by (auto simp: mmb_consts nat_and_mask)
  next
    assume b: "rem \<le> b" "b < 64" "lbit mem bits l (64 * key + b)"
      "\<And>j. rem \<le> j \<Longrightarrow> j < b \<Longrightarrow> \<not> lbit mem bits l (64 * key + j)"
    have rem: "rem < 64" using b by simp
    have vb: "bit ?v b" using v [OF rem] b by simp
    then have nz: "?v \<noteq> 0" by auto
    have "mmb_ctz ?v = b"
    proof (rule antisym [OF mmb_ctz_spec(2) [OF nz vb]])
      have "rem \<le> mmb_ctz ?v" "lbit mem bits l (64 * key + mmb_ctz ?v)"
        using v [OF rem, of "mmb_ctz ?v"] mmb_ctz_spec(1) [OF nz] by simp_all
      then show "b \<le> mmb_ctz ?v" using b(4) not_le by blast
    qed
    moreover have "(64 * key + b) mod 2 ^ 32 = 64 * key + b"
      using on_valid_block [OF assms(3) b(2)] b(3) by (intro no_wrap [OF py assms(2)]) simp
    ultimately show "mmbit_iterate_loop mem bits ml l key rem = (if l = ml then Some (64 * key + b) else mmbit_iterate_loop mem bits ml (Suc l) (64 * key + b) 0)"
      using rem nz unfolding unf MMB_KEY_BITS_def by (simp only: simp_thms if_True)
  }
qed

lemma walk_block:
  assumes py: "pyramid_ok mem bits ml N"
  shows "l \<le> ml \<Longrightarrow> valid_block mem bits l key \<Longrightarrow> rem \<le> 64 \<Longrightarrow>
   mmbit_iterate_loop mem bits ml l key rem = (if keys_below mem bits ml l key rem = {} then walk_up mem bits ml l key else Some (Min (keys_below mem bits ml l key rem)))"
proof (induction "ml - l" arbitrary: l key rem rule: less_induct)
  case less
  note outer = less(1)
  show ?case using less(2-4)
  proof (induction "64 - rem" arbitrary: rem rule: less_induct)
    case (less rem)
    note vb = less(3) and l = less(2)
    show ?case
    proof (cases "\<exists>j. rem \<le> j \<and> j < 64 \<and> lbit mem bits l (64 * key + j)")
      case False
      have "keys_below mem bits ml l key rem = {}"
      proof (rule ccontr)
        assume "keys_below mem bits ml l key rem \<noteq> {}"
        then obtain k where k: "on mem bits ml k" "64 * key + rem \<le> prefix ml l k" "prefix ml l k < 64 * key + 64"
          by (auto simp: keys_below_def)
        define j where "j = prefix ml l k - 64 * key"
        have j: "rem \<le> j" "j < 64" "prefix ml l k = 64 * key + j" using k(2,3) by (auto simp: j_def)
        then show False using False on_lbit [OF on_prefix [OF k(1) l]] by auto
      qed
      then show ?thesis using False walk_step(1) [OF py l vb, of rem] by auto
    next
      case True
      define b where "b = (LEAST j. rem \<le> j \<and> j < 64 \<and> lbit mem bits l (64 * key + j))"
      have b: "rem \<le> b" "b < 64" "lbit mem bits l (64 * key + b)" using LeastI_ex [OF True] by (simp_all add: b_def)
      have min: "\<not> lbit mem bits l (64 * key + j)" if "rem \<le> j" "j < b" for j
        using not_less_Least [of j "\<lambda>j. rem \<le> j \<and> j < 64 \<and> lbit mem bits l (64 * key + j)", folded b_def] that b(2) by auto
      have st: "mmbit_iterate_loop mem bits ml l key rem =
          (if l = ml then Some (64 * key + b) else mmbit_iterate_loop mem bits ml (Suc l) (64 * key + b) 0)"
        by (rule walk_step(2) [OF py l vb b]) (rule min)
      have split: "keys_below mem bits ml l key rem =
          {k. on mem bits ml k \<and> prefix ml l k = 64 * key + b} \<union> keys_below mem bits ml l key (Suc b)"
        by (rule keys_below_split [OF l vb b(1,2)]) (rule min)
      have on: "on mem bits l (64 * key + b)" using on_valid_block [OF vb b(2)] b(3) by simp
      let ?A = "{k. on mem bits ml k \<and> prefix ml l k = 64 * key + b}"
      have le: "x \<le> y" if "x \<in> ?A" "y \<in> keys_below mem bits ml l key (Suc b)" for x y
        using that prefix_less_imp [of ml l x y] by (auto simp: keys_below_def)
      show ?thesis
      proof (cases "l = ml")
        case True
        then have A: "?A = {64 * key + b}" using on by auto
        have "Min (keys_below mem bits ml l key rem) = Min ?A" unfolding split
          by (rule Min_union_below) (use A le pyramid_okD(5) [OF py] in \<open>auto simp: keys_below_def\<close>)
        then show ?thesis using st True A split by simp
      next
        case False
        then have lt: "l < ml" using l by simp
        have IH: "mmbit_iterate_loop mem bits ml (Suc l) (64 * key + b) 0 =
            (if ?A = {} then mmbit_iterate_loop mem bits ml l key (Suc b) else Some (Min ?A))"
          using outer [of "Suc l" "64 * key + b" 0] lt valid_block_child [OF on] b(2)
          unfolding keys_below_child [OF lt] by auto
        show ?thesis
        proof (cases "?A = {}")
          case True
          have "keys_below mem bits ml l key rem = keys_below mem bits ml l key (Suc b)"
            unfolding split True by (rule Un_empty_left)
          then show ?thesis using less(1) [of "Suc b"] l vb b st IH False True by simp
        next
          case ne: False
          have "Min (keys_below mem bits ml l key rem) = Min ?A" unfolding split
            by (rule Min_union_below [OF _ ne le]) (use pyramid_okD(5) [OF py] in \<open>auto simp: keys_below_def\<close>)
          moreover have "keys_below mem bits ml l key rem \<noteq> {}" unfolding split using ne by blast
          ultimately show ?thesis unfolding st IH using False ne by (simp only: if_False)
        qed
      qed
    qed
  qed
qed

text \<open>From any block the walk finds the least key that is left, or reports that there is none.\<close>

lemma walk_from:
  assumes py: "pyramid_ok mem bits ml N" and top: "N \<le> 64 ^ Suc ml"
  shows "l \<le> ml \<Longrightarrow> valid_block mem bits l key \<Longrightarrow> rem \<le> 64 \<Longrightarrow>
    mmbit_iterate_loop mem bits ml l key rem =
      Some (least_or MMB_INVALID {k. on mem bits ml k \<and> 64 * key + rem \<le> prefix ml l k})"
proof (induction l arbitrary: key rem)
  case 0
  have "key = 0" using 0 by (simp add: valid_block_def)
  moreover have "prefix ml 0 k < 64" if "on mem bits ml k" for k
    using prefix_less [of 0 ml k] on_less [OF that] by simp
  ultimately have "keys_below mem bits ml 0 key rem = {k. on mem bits ml k \<and> 64 * key + rem \<le> prefix ml 0 k}"
    by (auto simp: keys_below_def)
  then show ?case using walk_block [OF py 0] by (auto simp: least_or_def)
next
  case (Suc l)
  let ?T = "{k. on mem bits ml k \<and> 64 * key + rem \<le> prefix ml (Suc l) k}"
  let ?U = "{k. on mem bits ml k \<and> Suc key \<le> prefix ml l k}"
  have lt: "l < ml" using Suc.prems by simp
  have above: "64 * key + 64 \<le> prefix ml (Suc l) k \<longleftrightarrow> Suc key \<le> prefix ml l k" for k
    unfolding prefix_Suc [OF lt, symmetric] by (simp add: less_eq_div_iff_mult_less_eq mult.commute add.commute)
  have split: "?T = keys_below mem bits ml (Suc l) key rem \<union> ?U"
    using Suc.prems(3) unfolding above [symmetric] keys_below_def by auto
  have up: "mmbit_iterate_loop mem bits ml l (key div 64) (Suc (key mod 64)) = Some (least_or MMB_INVALID ?U)"
    using Suc.IH [of "key div 64" "Suc (key mod 64)"] valid_block_parent [OF Suc.prems(2)] lt
      mult_div_mod_eq [of 64 key] by simp
  show ?case
  proof (cases "keys_below mem bits ml (Suc l) key rem = {}")
    case True
    then show ?thesis using walk_block [OF py Suc.prems] up split by simp
  next
    case False
    have "x \<le> y" if "x \<in> keys_below mem bits ml (Suc l) key rem" "y \<in> ?U" for x y
    proof -
      have "prefix ml (Suc l) x < prefix ml (Suc l) y"
        using that above [of y] by (simp add: keys_below_def)
      then show ?thesis using prefix_less_imp by (metis less_imp_le)
    qed
    then have "Min ?T = Min (keys_below mem bits ml (Suc l) key rem)" unfolding split
      by (intro Min_union_below [OF _ False]) (use pyramid_okD(5) [OF py] in \<open>auto simp: keys_below_def\<close>)
    moreover have "?T \<noteq> {}" using False split by blast
    ultimately show ?thesis using walk_block [OF py Suc.prems] False by (auto simp: least_or_def)
  qed
qed

lemma mmb_ok_pyramid:
  "mmb_ok bits N mem \<Longrightarrow> \<not> mmbit_is_flat_model N \<Longrightarrow> pyramid_ok mem bits (mmbit_maxlevel N) N"
  using big_model(3,4) by (auto simp: pyramid_ok_def mmb_ok_def)

lemma iterate_big_spec:
  assumes ok: "mmb_ok bits N mem" and big: "\<not> mmbit_is_flat_model N"
  shows "mmbit_iterate_big mem bits N MMB_INVALID = Some (least_or MMB_INVALID (mmb_elems bits N mem))"
    and "it \<in> mmb_elems bits N mem \<Longrightarrow>
      mmbit_iterate_big mem bits N it = Some (least_or MMB_INVALID {k \<in> mmb_elems bits N mem. it < k})"
proof -
  let ?ml = "mmbit_maxlevel N"
  note py = mmb_ok_pyramid [OF ok big] and top = big_model(2) [OF ok big]
  have E: "mmb_elems bits N mem = {k. on mem bits ?ml k}" using big by (simp add: mmb_elems_def)
  show "mmbit_iterate_big mem bits N MMB_INVALID = Some (least_or MMB_INVALID (mmb_elems bits N mem))"
    using walk_from [OF py top, of 0 0 0] unfolding E by (simp add: mmbit_iterate_big_def valid_block_def)
  assume it: "it \<in> mmb_elems bits N mem"
  then have "it \<noteq> MMB_INVALID" using mmb_elems_bound [OF ok] mmb_okD(2) [OF ok] by (auto simp: mmb_consts)
  moreover have "valid_block mem bits ?ml (it div 64)"
    using it on_less [of mem bits ?ml it] unfolding E by (cases ?ml) (auto simp: valid_block_def)
  ultimately show "mmbit_iterate_big mem bits N it = Some (least_or MMB_INVALID {k \<in> mmb_elems bits N mem. it < k})"
    using walk_from [OF py top, of ?ml "it div 64" "Suc (it mod 64)"] mult_div_mod_eq [of 64 it]
    unfolding E by (simp add: mmbit_iterate_big_def shift_word nat_and_mask MMB_KEY_MASK_def Suc_le_eq Suc_leI)
qed

lemma mmbit_iterate_spec:
  assumes ok: "mmb_ok bits N mem"
  shows "mmbit_iterate mem bits N MMB_INVALID = Some (least_or MMB_INVALID (mmb_elems bits N mem))"
    and "it \<in> mmb_elems bits N mem \<Longrightarrow>
      mmbit_iterate mem bits N it = Some (least_or MMB_INVALID {k \<in> mmb_elems bits N mem. it < k})"
proof -
  let ?E = "mmb_elems bits N mem"
  have E: "?E \<subseteq> {..<N}" by (rule mmb_elems_bound [OF ok])
  have inv: "MMB_INVALID \<noteq> N - 1" using mmb_okD(2) [OF ok] by (simp add: mmb_consts)
  show "mmbit_iterate mem bits N MMB_INVALID = Some (least_or MMB_INVALID ?E)"
    using inv iterate_flat_spec(1) [OF ok] iterate_big_spec(1) [OF ok] E
    by (cases "N = 0") (auto simp: mmbit_iterate_def)
  assume it: "it \<in> ?E"
  then have lt: "it < N" using E by auto
  show "mmbit_iterate mem bits N it = Some (least_or MMB_INVALID {k \<in> ?E. it < k})"
  proof (cases "it = N - 1")
    case True
    then have e: "{k \<in> ?E. it < k} = {}" using E by fastforce
    show ?thesis unfolding e using True by (simp add: mmbit_iterate_def)
  next
    case False
    then have "Suc it < N" using lt by linarith
    then show ?thesis using False it iterate_flat_spec(2) [OF ok] iterate_big_spec(2) [OF ok] by (auto simp: mmbit_iterate_def)
  qed
qed

section \<open>Any and all\<close>

lemma bit_mmb_load_bytes: "bit (mmb_load mem (bits + b)) j \<longleftrightarrow> j < 64 \<and> mbit mem bits (8 * b + j)"
  by (auto simp: mmb_load_def unaligned_defs bit_load_le mbit_add)

lemma word_nonzero_iff: "v \<noteq> 0 \<longleftrightarrow> (\<exists>j. bit v j)" for v :: "'a::len word"
  using mmb_ctz_spec(1) bit_word_eqI [of v 0] by auto

lemma load_nonzero: "mmb_load mem (bits + b) \<noteq> 0 \<longleftrightarrow> (\<exists>i. 8 * b \<le> i \<and> i < 8 * b + 64 \<and> mbit mem bits i)"
  unfolding word_nonzero_iff bit_mmb_load_bytes by (metis add_less_cancel_left le_add1 le_Suc_ex)

lemma any_loop_spec:
  "mmbit_any_loop mem (bits + 8 * w) (bits + s) \<longleftrightarrow> (\<exists>i. min (64 * w) (8 * s) \<le> i \<and> i < 8 * s + 64 \<and> mbit mem bits i)"
proof (induction "s - 8 * w" arbitrary: w rule: less_induct)
  case less
  show ?case
  proof (cases "8 * w < s")
    case True
    have "8 * (8 * w) = 64 * w" by simp
    then have ld: "mmb_load mem (bits + 8 * w) \<noteq> 0 \<longleftrightarrow> (\<exists>i. 64 * w \<le> i \<and> i < 64 * w + 64 \<and> mbit mem bits i)"
      using load_nonzero [of mem bits "8 * w"] by simp
    have eq: "bits + 8 * w + 8 = bits + 8 * Suc w" by simp
    have "mmbit_any_loop mem (bits + 8 * w) (bits + s) \<longleftrightarrow>
        mmb_load mem (bits + 8 * w) \<noteq> 0 \<or> mmbit_any_loop mem (bits + 8 * Suc w) (bits + s)"
      using True unfolding mmbit_any_loop.simps [of mem "bits + 8 * w"] eq by auto
    moreover have "min (64 * w) (8 * s) \<le> i \<and> i < 8 * s + 64 \<longleftrightarrow>
        64 * w \<le> i \<and> i < 64 * w + 64 \<or> min (64 * Suc w) (8 * s) \<le> i \<and> i < 8 * s + 64" for i
      using True by auto
    moreover have "mmbit_any_loop mem (bits + 8 * Suc w) (bits + s)
        \<longleftrightarrow> (\<exists>i. min (64 * Suc w) (8 * s) \<le> i \<and> i < 8 * s + 64 \<and> mbit mem bits i)"
      using True by (intro less) simp
    ultimately show ?thesis unfolding ld by blast
  next
    case False
    then have "min (64 * w) (8 * s) = 8 * s" by simp
    then show ?thesis using False load_nonzero [of mem bits s] by (subst mmbit_any_loop.simps) simp
  qed
qed

lemma any_flat_spec:
  assumes ok: "mmb_ok bits N mem" "mmbit_is_flat_model N" and "0 < N"
  shows "mmbit_any_flat mem bits N \<longleftrightarrow> mmb_elems bits N mem \<noteq> {}"
proof (cases "N \<le> 64")
  case True
  have "mmbit_get_flat_block mem bits N \<noteq> 0 \<longleftrightarrow> (\<exists>j. j < 64 \<and> j \<in> mmb_elems bits N mem)"
    using flat_block_elems [OF ok, of 0] assms(3) True unfolding word_nonzero_iff by auto
  also have "\<dots> \<longleftrightarrow> mmb_elems bits N mem \<noteq> {}" using mmb_elems_bound [OF ok(1)] True by auto
  finally show ?thesis using True by (simp add: mmbit_any_flat_def mmb_consts)
next
  case False
  define s where "s = mmbit_flat_size N - 8"
  have s: "mmbit_flat_size N = s + 8" using False by (simp add: s_def flat_size_eq)
  have sz: "N \<le> 8 * (s + 8)" unfolding s [symmetric] by (simp add: flat_size_eq)
  have "mbit mem bits i \<and> i < 8 * s + 64 \<longleftrightarrow> i \<in> mmb_elems bits N mem" for i
    using ok sz unfolding mmb_ok_def mmb_elems_def by (auto simp: s) (metis not_le)
  then have "mmbit_any_loop mem (bits + 8 * 0) (bits + s) \<longleftrightarrow> mmb_elems bits N mem \<noteq> {}"
    unfolding any_loop_spec by auto
  then show ?thesis using False s by (simp add: mmbit_any_flat_def mmb_consts)
qed

lemma mmbit_any_precise_spec:
  assumes ok: "mmb_ok bits N mem"
  shows "mmbit_any_precise mem bits N = Some (mmb_elems bits N mem \<noteq> {})"
proof -
  have "least_or MMB_INVALID (mmb_elems bits N mem) \<noteq> MMB_INVALID" if "mmb_elems bits N mem \<noteq> {}"
    using Min_in [OF mmb_elems_finite [OF ok] that] mmb_elems_bound [OF ok] mmb_okD(2) [OF ok] that
    by (auto simp: least_or_def mmb_consts)
  then show ?thesis
    using any_flat_spec [OF ok] iterate_big_spec(1) [OF ok] mmb_elems_bound [OF ok]
    by (cases "N = 0") (auto simp: mmbit_any_precise_def)
qed

lemma mmbit_any_sound:
  assumes ok: "mmb_ok bits N mem" and "mmb_elems bits N mem \<noteq> {}"
  shows "mmbit_any mem bits N"
proof (cases "mmbit_is_flat_model N")
  case True
  then show ?thesis using any_flat_spec [OF ok True] assms(2) mmb_elems_bound [OF ok] by (auto simp: mmbit_any_def)
next
  case False
  then obtain k where k: "on mem bits (mmbit_maxlevel N) k" using assms(2) by (auto simp: mmb_elems_def)
  have "mbit mem bits (prefix (mmbit_maxlevel N) 0 k)" "prefix (mmbit_maxlevel N) 0 k < 64"
    using on_prefix [OF k, of 0] by (simp_all add: lbit_def)
  then have "mmb_load mem bits \<noteq> 0" using load_nonzero [of mem bits 0] by auto
  then show ?thesis using False by (simp add: mmbit_any_def mmbit_is_flat_model_def mmb_consts)
qed

lemma word_all_ones_iff: "v = - 1 \<longleftrightarrow> (\<forall>j<64. bit v j)" for v :: u64a
proof
  assume "\<forall>j<64. bit v j"
  then show "v = - 1" by (intro bit_word_eqI) simp
qed simp

lemma load_all_ones: "mmb_load mem p = - 1 \<longleftrightarrow> (\<forall>i<64. mbit mem p i)"
  using bit_mmb_load_bytes [of mem p 0] unfolding word_all_ones_iff by auto

lemma all_split: "c \<le> n \<Longrightarrow> (\<forall>i<n. mbit mem p i) \<longleftrightarrow> (\<forall>i<c. mbit mem p i) \<and> (\<forall>i<n - c. mbit mem p (c + i))"
proof (intro iffI conjI allI impI)
  fix i assume "c \<le> n" "(\<forall>i<c. mbit mem p i) \<and> (\<forall>i<n - c. mbit mem p (c + i))" "i < n"
  then show "mbit mem p i" by (cases "i < c") (auto dest: spec [of _ "i - c"])
qed auto

lemma and_absorb_iff: "a AND b = b \<longleftrightarrow> (\<forall>i. bit b i \<longrightarrow> bit a i)" for a b :: "'a::len word"
proof
  assume "a AND b = b"
  then show "\<forall>i. bit b i \<longrightarrow> bit a i" by (metis bit_and_iff)
qed (auto intro!: bit_word_eqI simp: bit_and_iff)

lemma all_bytes_spec: "mmbit_all_bytes mem p n \<longleftrightarrow> (\<forall>i<n. mbit mem p i)"
proof (induction mem p n rule: mmbit_all_bytes.induct)
  case (1 mem p n)
  show ?case
  proof (cases "8 < n")
    case True
    have "mem p = 0xff \<longleftrightarrow> (\<forall>i<8. mbit mem p i)"
    proof -
      have ff: "(0xff :: u8) = - 1" by simp
      have "mem p = - 1 \<longleftrightarrow> (\<forall>i<8. bit (mem p) i)" by (auto intro!: bit_word_eqI)
      then show ?thesis unfolding ff by (simp add: bit_byte(2))
    qed
    moreover have "mbit mem (Suc p) i = mbit mem p (8 + i)" for i using mbit_add [of mem p 1 i] by simp
    ultimately show ?thesis using 1 True all_split [of 8 n mem p] by (subst mmbit_all_bytes.simps) auto
  next
    case False
    then have "bit (ucast (mmb_mask_zero_to_nocheck n) :: u8) j \<longleftrightarrow> j < n" for j
      using mask_zero_to(2) [of n j] by (auto simp: bit_simps)
    then have "mem p AND ucast (mmb_mask_zero_to_nocheck n) = ucast (mmb_mask_zero_to_nocheck n) \<longleftrightarrow> (\<forall>i<n. bit (mem p) i)"
      by (auto simp: and_absorb_iff)
    then show ?thesis using False by (subst mmbit_all_bytes.simps) (auto simp: Let_def bit_byte(2))
  qed
qed

lemma all_flat_spec: "mmbit_all_flat mem p n \<longleftrightarrow> (\<forall>i<n. mbit mem p i)"
proof (induction mem p n rule: mmbit_all_flat.induct)
  case (1 mem p n)
  have "mbit mem (p + 8) i = mbit mem p (64 + i)" for i using mbit_add [of mem p 8 i] by simp
  then show ?case using 1 all_split [of 64 n mem p] load_all_ones [of mem p] all_bytes_spec [of mem p n]
    by (subst mmbit_all_flat.simps) (auto simp: mmb_consts)
qed

lemma all_blocks_spec: "mmbit_all_blocks mem p n \<longleftrightarrow> (\<forall>i<n. mbit mem p i)"
proof (induction mem p n rule: mmbit_all_blocks.induct)
  case (1 mem p n)
  show ?case
  proof (cases "64 \<le> n")
    case True
    have "mbit mem (p + 8) i = mbit mem p (64 + i)" for i using mbit_add [of mem p 8 i] by simp
    then show ?thesis using 1 True all_split [of 64 n mem p] load_all_ones [of mem p]
      by (subst mmbit_all_blocks.simps) (auto simp: mmb_consts)
  next
    case False
    then have "mmb_load mem p AND mmb_mask_zero_to_nocheck n = mmb_mask_zero_to_nocheck n \<longleftrightarrow> (\<forall>i<n. mbit mem p i)"
      using mask_zero_to(2) [of n] bit_mmb_load_bytes [of mem p 0] by (auto simp: and_absorb_iff)
    then show ?thesis using False by (subst mmbit_all_blocks.simps) (auto simp: Let_def mmb_consts)
  qed
qed

lemma less_ceil_div: "0 < c \<Longrightarrow> p < (n + (c - 1)) div c \<longleftrightarrow> p * c < n" for p c n :: nat
proof -
  assume c: "0 < c"
  have "p < (n + (c - 1)) div c \<longleftrightarrow> Suc p * c \<le> n + (c - 1)"
    unfolding Suc_le_eq [symmetric] by (rule less_eq_div_iff_mult_less_eq [OF c])
  also have "\<dots> \<longleftrightarrow> p * c < n" using c by (cases c) auto
  finally show ?thesis .
qed

lemma all_levels_spec:
  "ml \<le> 6 \<Longrightarrow> level \<le> ml \<Longrightarrow> mmbit_all_levels mem bits N ((ml - level) * 6) level \<longleftrightarrow>
     (\<forall>l p. level \<le> l \<longrightarrow> l \<le> ml \<longrightarrow> p * 64 ^ (ml - l) < N \<longrightarrow> lbit mem bits l p)"
proof (induction "ml - level" arbitrary: level)
  case 0
  have "mmbit_get_level_root bits ml = bits + 8 * root_of ml" using root_offset [of ml] 0 by (simp add: mmbit_get_level_root_def)
  then show ?case using 0 unfolding lbit_def
    by (subst mmbit_all_levels.simps) (auto simp: all_blocks_spec mbit_add)
next
  case (Suc n)
  have lt: "level < ml" "n = ml - Suc level" using Suc(2) by simp_all
  let ?h = "ml - level"
  have root: "mmbit_get_level_root bits level = bits + 8 * root_of level"
    using root_offset [of level] Suc(3,4) by (simp add: mmbit_get_level_root_def)
  have pw: "push_bit (?h * 6 - 6) (64 :: nat) = 64 ^ ?h" "drop_bit (?h * 6) x = x div 64 ^ ?h" for x :: nat
  proof -
    have "?h * 6 - 6 = 6 * (?h - 1)" "64 ^ ?h = 64 * (64 :: nat) ^ (?h - 1)"
      using lt(1) by (simp_all flip: power_Suc)
    then show "push_bit (?h * 6 - 6) (64 :: nat) = 64 ^ ?h"
      using power_mult [of "2 :: nat" 6 "?h - 1"] by (simp add: push_bit_eq_mult)
  qed (rule shift_key)
  have bits: "p < ROUNDUP_N N (64 ^ ?h) div 64 ^ ?h \<longleftrightarrow> p * 64 ^ ?h < N" for p
    using less_ceil_div [of "64 ^ ?h" p N] by (simp add: ROUNDUP_N_def)
  have "(ml - Suc level) * 6 = ?h * 6 - 6" by simp
  then have "mmbit_all_levels mem bits N (?h * 6) level \<longleftrightarrow>
      (\<forall>p. p * 64 ^ ?h < N \<longrightarrow> lbit mem bits level p) \<and> mmbit_all_levels mem bits N ((ml - Suc level) * 6) (Suc level)"
    using lt(1) bits unfolding mmbit_all_levels.simps [of mem bits N "?h * 6"] lbit_def
    by (simp add: Let_def mmb_consts pw root all_blocks_spec mbit_add)
  then show ?case using Suc(1) [OF lt(2)] Suc(3) lt(1) all_from [of level ml "\<lambda>l. \<forall>p. p * 64 ^ (ml - l) < N \<longrightarrow> lbit mem bits l p"]
    by simp
qed

lemma mmbit_all_spec:
  assumes ok: "mmb_ok bits N mem"
  shows "mmbit_all mem bits N \<longleftrightarrow> mmb_elems bits N mem = {..<N}"
proof (cases "mmbit_is_flat_model N")
  case True
  then show ?thesis by (auto simp: mmbit_all_def all_flat_spec mmb_elems_def)
next
  case False
  note big = big_model [OF ok False]
  let ?ml = "mmbit_maxlevel N"
  have ks: "mmbit_keyshift N = (?ml - 0) * 6" using maxlevel_spec(4) [OF big(5,4)] by simp
  have "mmbit_all mem bits N \<longleftrightarrow> (\<forall>l p. l \<le> ?ml \<longrightarrow> p * 64 ^ (?ml - l) < N \<longrightarrow> lbit mem bits l p)"
    using all_levels_spec [OF big(3), of 0] False unfolding mmbit_all_def mmbit_all_big_def ks by simp
  also have "\<dots> \<longleftrightarrow> {..<N} \<subseteq> mmb_elems bits N mem"
  proof
    assume all: "\<forall>l p. l \<le> ?ml \<longrightarrow> p * 64 ^ (?ml - l) < N \<longrightarrow> lbit mem bits l p"
    have "on mem bits ?ml k" if "k < N" for k
    proof -
      have "prefix ?ml l k * 64 ^ (?ml - l) < N" for l
        unfolding prefix_def by (rule le_less_trans [OF div_times_less_eq_dividend that])
      then show ?thesis using all that big(2) by (subst on_iff) auto
    qed
    then show "{..<N} \<subseteq> mmb_elems bits N mem" using False by (auto simp: mmb_elems_def)
  next
    assume sub: "{..<N} \<subseteq> mmb_elems bits N mem"
    show "\<forall>l p. l \<le> ?ml \<longrightarrow> p * 64 ^ (?ml - l) < N \<longrightarrow> lbit mem bits l p"
    proof (intro allI impI)
      fix l p assume l: "l \<le> ?ml" and "p * 64 ^ (?ml - l) < N"
      then have "on mem bits ?ml (p * 64 ^ (?ml - l))" using sub False by (auto simp: mmb_elems_def)
      from on_lbit [OF on_prefix [OF this l]] show "lbit mem bits l p" by (simp add: prefix_def)
    qed
  qed
  also have "\<dots> \<longleftrightarrow> mmb_elems bits N mem = {..<N}" using mmb_elems_bound [OF ok] by blast
  finally show ?thesis .
qed

section \<open>The interface of iteration\<close>

interpretation mmb_iter: bit_iteration "\<lambda>mem. the (mmbit_iterate mem bits N MMB_INVALID)"
  "\<lambda>mem k. the (mmbit_iterate mem bits N k)" MMB_INVALID "mmb_elems bits N" "mmb_ok bits N" for bits N
proof unfold_locales
  show "mmb_elems bits N mem \<subseteq> {..<MMB_INVALID}" if "mmb_ok bits N mem" for mem
    using mmb_elems_bound [OF that] mmb_okD(2) [OF that] by (auto simp: mmb_consts)
qed (simp_all add: mmbit_iterate_spec)

section \<open>Properties\<close>

text \<open>
  C37. Iteration over a multibit makes progress and is complete: every call returns, from a key that is
  on it returns the next larger one, and following the calls from \<^verbatim>\<open>MMB_INVALID\<close> until
  \<^verbatim>\<open>MMB_INVALID\<close> comes back visits exactly the keys of the set, each once and in ascending order.
\<close>

theorem mmbit_iteration_complete:
  assumes "mmb_ok bits N mem"
  shows "(\<exists>first. mmbit_iterate mem bits N MMB_INVALID = Some first \<and>
      visit (\<lambda>mem k. the (mmbit_iterate mem bits N k)) MMB_INVALID mem first
        = Some (sorted_list_of_set (mmb_elems bits N mem))) \<and>
    (\<forall>it\<in>mmb_elems bits N mem. \<exists>nxt. mmbit_iterate mem bits N it = Some nxt \<and> it < nxt \<and>
      (nxt \<noteq> MMB_INVALID \<longrightarrow> nxt \<in> mmb_elems bits N mem) \<and>
      (\<forall>k\<in>mmb_elems bits N mem. it < k \<longrightarrow> nxt \<le> k))"
proof (intro conjI ballI)
  show "\<exists>first. mmbit_iterate mem bits N MMB_INVALID = Some first \<and>
      visit (\<lambda>mem k. the (mmbit_iterate mem bits N k)) MMB_INVALID mem first
        = Some (sorted_list_of_set (mmb_elems bits N mem))"
    using mmbit_iterate_spec(1) [OF assms] mmb_iter.visit_all [OF assms] by simp
  fix it assume it: "it \<in> mmb_elems bits N mem"
  let ?A = "{k \<in> mmb_elems bits N mem. it < k}"
  have fin: "finite ?A" using mmb_elems_finite [OF assms] by simp
  have "it < MMB_INVALID" using it mmb_iter.elems_bound [OF assms] by auto
  then have "it < least_or MMB_INVALID ?A \<and>
      (least_or MMB_INVALID ?A \<noteq> MMB_INVALID \<longrightarrow> least_or MMB_INVALID ?A \<in> mmb_elems bits N mem) \<and>
      (\<forall>k\<in>mmb_elems bits N mem. it < k \<longrightarrow> least_or MMB_INVALID ?A \<le> k)"
    using Min_in [OF fin] Min_le [OF fin] by (auto simp: least_or_def)
  then show "\<exists>nxt. mmbit_iterate mem bits N it = Some nxt \<and> it < nxt \<and>
      (nxt \<noteq> MMB_INVALID \<longrightarrow> nxt \<in> mmb_elems bits N mem) \<and>
      (\<forall>k\<in>mmb_elems bits N mem. it < k \<longrightarrow> nxt \<le> k)"
    using mmbit_iterate_spec(2) [OF assms it] by blast
qed

theorem mmbit_iteration_complete_witness:
  "mmbit_iterate (snd (mmbit_set (mmbit_clear (\<lambda>_. 0xff) 8 1000) 8 1000 700)) 8 1000 MMB_INVALID = Some 700"
proof -
  let ?m = "mmbit_clear (\<lambda>_. 0xff) 8 1000" and ?m' = "snd (mmbit_set (mmbit_clear (\<lambda>_. 0xff) 8 1000) 8 1000 700)"
  have clr: "mmb_elems 8 1000 ?m = {}" "mmb_ok 8 1000 ?m"
    using mmbit_clear_spec(1,2) [of 8 1000 "\<lambda>_. 0xff"] by (simp_all add: mmb_consts)
  have ok: "mmb_elems 8 1000 ?m' = {700}" "mmb_ok 8 1000 ?m'"
    using mmbit_set_spec [OF clr(2), of 700] clr(1) by simp_all
  obtain first where f: "mmbit_iterate ?m' 8 1000 MMB_INVALID = Some first"
    "visit (\<lambda>mem k. the (mmbit_iterate mem 8 1000 k)) MMB_INVALID ?m' first = Some [700]"
    using mmbit_iteration_complete [OF ok(2)] ok(1) by auto
  then have "first = 700" by (subst (asm) visit.simps) (auto split: if_splits bind_splits)
  then show ?thesis using f(1) by simp
qed

text \<open>
  The tests of a multibit: \<^verbatim>\<open>mmbit_any_precise\<close> returns and says whether a key is on, also
  when stale summary bits are left; \<^verbatim>\<open>mmbit_any\<close> may err only towards true, and does not for the flat
  layout; \<^verbatim>\<open>mmbit_all\<close> holds exactly when every key is on.
\<close>

lemma mmbit_tests_exact:
  assumes "mmb_ok bits N mem"
  shows "mmbit_any_precise mem bits N = Some (mmb_elems bits N mem \<noteq> {}) \<and>
    (mmb_elems bits N mem \<noteq> {} \<longrightarrow> mmbit_any mem bits N) \<and>
    (mmbit_is_flat_model N \<longrightarrow> mmbit_any mem bits N = (mmb_elems bits N mem \<noteq> {})) \<and>
    mmbit_all mem bits N = (mmb_elems bits N mem = {..<N})"
  using mmbit_any_precise_spec [OF assms] mmbit_any_sound [OF assms] mmbit_all_spec [OF assms]
    any_flat_spec [OF assms] mmb_elems_bound [OF assms] by (auto simp: mmbit_any_def)

lemma mmbit_tests_exact_witness:
  "mmbit_any_precise (mmbit_clear (\<lambda>_. 0xff) 8 1000) 8 1000 = Some False"
  using mmbit_tests_exact [OF mmbit_clear_spec(2) [of 8 1000 "\<lambda>_. 0xff"]] mmbit_clear_spec(1) [of 8 1000 "\<lambda>_. 0xff"]
  by (simp add: mmb_consts)

end
