(* ===== verification/MultibitRange.thy ===== *)
theory MultibitRange
  imports MultibitIterate
begin

text \<open>
  Bounded iteration over a multibit and the operations on ranges of keys,
  \<^verbatim>\<open>util/multibit.h\<close>: the first key of a range, switching a range off and initialising a multibit to a
  range. Differences that the code takes of unsigned numbers are never negative here, so the
  natural numbers of the model agree with them.
\<close>

section \<open>Model: bounded iteration\<close>

definition get_flat_masks :: "nat \<Rightarrow> nat \<Rightarrow> nat \<Rightarrow> u64a" where
  "get_flat_masks base it_start it_end =
     (if it_end \<le> base then 0
      else let udiff = it_end - base;
               m = (if udiff < 64 then mmb_mask_zero_to_nocheck udiff else - 1)
           in if it_start \<ge> base then
                let ldiff = it_start - base;
                    lmask = (if ldiff < 64 then NOT (mmb_mask_zero_to_nocheck ldiff) else 0)
                in m AND lmask
              else m)"

text \<open>The loop over the full-sized blocks; \<open>None\<close> when it runs to its end.\<close>

function mmbit_bounded_scan :: "memory \<Rightarrow> nat \<Rightarrow> nat \<Rightarrow> nat \<Rightarrow> nat \<Rightarrow> nat \<Rightarrow> nat option" where
  "mmbit_bounded_scan mem bits begn nd e i =
     (if i < e then
        let block = mmb_load mem (bits + i div 8) AND get_flat_masks i begn nd
        in if block \<noteq> 0 then Some (i + mmb_ctz block)
           else mmbit_bounded_scan mem bits begn nd e (i + MMB_KEY_BITS)
      else None)"
  by auto
termination by (relation "measure (\<lambda>(_, _, _, _, e, i). e - i)") (auto simp: mmb_consts)

definition mmbit_iterate_bounded_flat :: "memory \<Rightarrow> nat \<Rightarrow> nat \<Rightarrow> nat \<Rightarrow> nat \<Rightarrow> nat" where
  "mmbit_iterate_bounded_flat mem bits total_bits begn nd =
     (if total_bits \<le> MMB_KEY_BITS then
        let block = mmbit_get_flat_block mem bits total_bits AND get_flat_masks 0 begn nd
        in if block \<noteq> 0 then mmb_ctz block else MMB_INVALID
      else let last_block = ROUNDDOWN_N total_bits MMB_KEY_BITS
           in case mmbit_bounded_scan mem bits begn nd (min nd last_block) (ROUNDDOWN_N begn MMB_KEY_BITS) of
                Some key \<Rightarrow> key
              | None \<Rightarrow>
                  if nd > last_block then
                    let num_bits = total_bits - last_block;
                        block = mmbit_get_flat_block mem (bits + last_block div 8) num_bits
                                  AND get_flat_masks last_block begn nd
                    in if block \<noteq> 0 then last_block + mmb_ctz block else MMB_INVALID
                  else MMB_INVALID)"

definition get_lowhi_masks :: "nat \<Rightarrow> nat \<Rightarrow> nat \<Rightarrow> nat \<Rightarrow> nat \<Rightarrow> u64a" where
  "get_lowhi_masks level max_level block_min block_max block_base =
     (let level_shift = (max_level - level) * MMB_KEY_SHIFT;
          lshift = drop_bit level_shift (block_min - block_base);
          ushift = drop_bit level_shift (block_max - block_base);
          lmask = (if lshift < 64 then NOT (mmb_mask_zero_to_nocheck lshift) else 0);
          umask = (if ushift < 63 then mmb_mask_zero_to_nocheck (ushift + 1) else - 1)
      in lmask AND umask)"

partial_function (option) mmbit_bounded_loop ::
    "memory \<Rightarrow> nat \<Rightarrow> nat \<Rightarrow> nat \<Rightarrow> nat \<Rightarrow> nat \<Rightarrow> nat \<Rightarrow> nat \<Rightarrow> nat option" where
  "mmbit_bounded_loop mem bits max_level it_end level key ks it_start =
     (let block_width = push_bit ks MMB_KEY_BITS;
          block_base = key * block_width;
          block_min = max it_start block_base;
          block_max = min it_end (block_base + block_width - 1);
          block = mmb_load mem (mmbit_get_level_root bits level + key * 8)
                    AND get_lowhi_masks level max_level block_min block_max block_base
      in if block \<noteq> 0 then
           let key = push_bit MMB_KEY_SHIFT key + mmb_ctz block
           in if level = max_level then Some (key mod 2 ^ 32)
              else mmbit_bounded_loop mem bits max_level it_end (Suc level) key (ks - MMB_KEY_SHIFT) it_start
         else let next_start = block_base + block_width
              in if next_start > it_end then Some MMB_INVALID
                 else if level = 0 then Some MMB_INVALID
                 else mmbit_bounded_loop mem bits max_level it_end (level - 1) (drop_bit MMB_KEY_SHIFT key)
                        (ks + MMB_KEY_SHIFT) (next_start mod 2 ^ 32))"

definition mmbit_iterate_bounded_big :: "memory \<Rightarrow> nat \<Rightarrow> nat \<Rightarrow> nat \<Rightarrow> nat \<Rightarrow> nat option" where
  "mmbit_iterate_bounded_big mem bits total_bits it_start it_end =
     (let ks = mmbit_keyshift total_bits
      in mmbit_bounded_loop mem bits (mmbit_maxlevel_from_keyshift ks) (it_end - 1) 0 0 ks it_start)"

definition mmbit_iterate_bounded :: "memory \<Rightarrow> nat \<Rightarrow> nat \<Rightarrow> nat \<Rightarrow> nat \<Rightarrow> nat option" where
  "mmbit_iterate_bounded mem bits total_bits it_start it_end =
     (if total_bits = 0 \<or> it_end = it_start then Some MMB_INVALID
      else if mmbit_is_flat_model total_bits then
        Some (mmbit_iterate_bounded_flat mem bits total_bits it_start it_end)
      else mmbit_iterate_bounded_big mem bits total_bits it_start it_end)"

section \<open>Model: ranges\<close>

function mmbit_unset_blocks :: "memory \<Rightarrow> nat \<Rightarrow> nat \<Rightarrow> nat \<Rightarrow> nat \<Rightarrow> nat \<Rightarrow> memory" where
  "mmbit_unset_blocks mem bits begn nd e i =
     (if i < e then
        let block_ptr = bits + i div 8
        in mmbit_unset_blocks (mmb_store mem block_ptr (mmb_load mem block_ptr AND NOT (get_flat_masks i begn nd)))
             bits begn nd e (i + MMB_KEY_BITS)
      else mem)"
  by auto
termination by (relation "measure (\<lambda>(_, _, _, _, e, i). e - i)") (auto simp: mmb_consts)

definition mmbit_unset_range_flat :: "memory \<Rightarrow> nat \<Rightarrow> nat \<Rightarrow> nat \<Rightarrow> nat \<Rightarrow> memory" where
  "mmbit_unset_range_flat mem bits total_bits begn nd =
     (let last_block = ROUNDDOWN_N total_bits MMB_KEY_BITS;
          mem = mmbit_unset_blocks mem bits begn nd (min nd last_block) (ROUNDDOWN_N begn MMB_KEY_BITS)
      in if nd > last_block then
           let block_ptr = bits + last_block div 8;
               num_bits = total_bits - last_block;
               block = mmbit_get_flat_block mem block_ptr num_bits
           in mmb_store_partial mem block_ptr (block AND NOT (get_flat_masks last_block begn nd)) num_bits
         else mem)"

partial_function (option) mmbit_unset_range_loop :: "memory \<Rightarrow> nat \<Rightarrow> nat \<Rightarrow> nat \<Rightarrow> nat \<Rightarrow> memory option" where
  "mmbit_unset_range_loop mem bits total_bits nd i =
     Option.bind (mmbit_iterate_bounded mem bits total_bits i nd) (\<lambda>i.
       if i = MMB_INVALID then Some mem
       else let mem = mmbit_unset_big mem bits total_bits i
            in if Suc i = nd then Some mem else mmbit_unset_range_loop mem bits total_bits nd (Suc i))"

definition mmbit_unset_range :: "memory \<Rightarrow> nat \<Rightarrow> nat \<Rightarrow> nat \<Rightarrow> nat \<Rightarrow> memory option" where
  "mmbit_unset_range mem bits total_bits begn nd =
     (if mmbit_is_flat_model total_bits then Some (mmbit_unset_range_flat mem bits total_bits begn nd)
      else mmbit_unset_range_loop mem bits total_bits nd begn)"

function mmbit_init_blocks :: "memory \<Rightarrow> nat \<Rightarrow> nat \<Rightarrow> nat \<Rightarrow> nat \<Rightarrow> nat \<Rightarrow> memory" where
  "mmbit_init_blocks mem bits begn nd last_block i =
     (if i < last_block then
        mmbit_init_blocks (mmb_store mem (bits + i div 8) (get_flat_masks i begn nd)) bits begn nd last_block
          (i + MMB_KEY_BITS)
      else mem)"
  by auto
termination by (relation "measure (\<lambda>(_, _, _, _, e, i). e - i)") (auto simp: mmb_consts)

definition mmbit_init_range_flat :: "memory \<Rightarrow> nat \<Rightarrow> nat \<Rightarrow> nat \<Rightarrow> nat \<Rightarrow> memory" where
  "mmbit_init_range_flat mem bits total_bits begn nd =
     (let last_block = ROUNDDOWN_N total_bits MMB_KEY_BITS;
          mem = mmbit_init_blocks mem bits begn nd last_block 0
      in if total_bits mod MMB_KEY_BITS \<noteq> 0 then
           let num_bits = total_bits - last_block
           in mmb_store_partial mem (bits + last_block div 8) (get_flat_masks last_block begn nd) num_bits
         else mem)"

text \<open>One level of the pyramid: all-ones blocks up to the last one, then the last one.\<close>

function mmbit_init_ones :: "memory \<Rightarrow> nat \<Rightarrow> nat \<Rightarrow> nat \<Rightarrow> memory" where
  "mmbit_init_ones mem block k1 k2 =
     (if k1 < ROUNDDOWN_N k2 MMB_KEY_BITS then mmbit_init_ones (mmb_store mem block (- 1)) (block + 8) (k1 + MMB_KEY_BITS) k2
      else if k1 < k2 then mmb_store mem block (mmb_mask_zero_to_nocheck (k2 mod MMB_KEY_BITS))
      else mem)"
  by auto
termination by (relation "measure (\<lambda>(_, _, k1, k2). ROUNDDOWN_N k2 MMB_KEY_BITS - k1)") (auto simp: mmb_consts)

definition mmbit_init_level :: "memory \<Rightarrow> nat \<Rightarrow> nat \<Rightarrow> nat \<Rightarrow> memory" where
  "mmbit_init_level mem root k1 k2 =
     (let block = root + k1 div MMB_KEY_BITS * 8
      in if k1 mod MMB_KEY_BITS \<noteq> 0 then
           let block_end = (k1 div MMB_KEY_BITS + 1) * MMB_KEY_BITS;
               m = push_bit (k1 mod MMB_KEY_BITS) (- 1)
           in if k2 < block_end then mmb_store mem block (m AND mmb_mask_zero_to_nocheck (k2 mod MMB_KEY_BITS))
              else mmbit_init_ones (mmb_store mem block m) (block + 8) block_end k2
         else mmbit_init_ones mem block k1 k2)"

function mmbit_init_levels :: "memory \<Rightarrow> nat \<Rightarrow> nat \<Rightarrow> nat \<Rightarrow> nat \<Rightarrow> nat \<Rightarrow> memory" where
  "mmbit_init_levels mem bits begn nd ks level =
     (let k1 = drop_bit ks begn;
          k2 = drop_bit ks nd;
          k2 = (if push_bit ks k2 \<noteq> nd then k2 + 1 else k2);
          mem = mmbit_init_level mem (mmbit_get_level_root bits level) k1 k2
      in if ks = 0 then mem else mmbit_init_levels mem bits begn nd (ks - MMB_KEY_SHIFT) (Suc level))"
  by auto
termination by (relation "measure (\<lambda>(_, _, _, _, ks, _). ks)") (auto simp: mmb_consts)

definition mmbit_init_range_big :: "memory \<Rightarrow> nat \<Rightarrow> nat \<Rightarrow> nat \<Rightarrow> nat \<Rightarrow> memory" where
  "mmbit_init_range_big mem bits total_bits begn nd =
     mmbit_init_levels mem bits begn nd (mmbit_keyshift total_bits) 0"

definition mmbit_init_range :: "memory \<Rightarrow> nat \<Rightarrow> nat \<Rightarrow> nat \<Rightarrow> nat \<Rightarrow> memory" where
  "mmbit_init_range mem bits total_bits begn nd =
     (if total_bits = 0 then mem
      else if begn = nd then mmbit_clear mem bits total_bits
      else if mmbit_is_flat_model total_bits then mmbit_init_range_flat mem bits total_bits begn nd
      else mmbit_init_range_big mem bits total_bits begn nd)"

declare mmbit_bounded_scan.simps [simp del] mmbit_unset_blocks.simps [simp del] mmbit_init_blocks.simps [simp del]
  mmbit_init_ones.simps [simp del] mmbit_init_levels.simps [simp del]

section \<open>Flat ranges\<close>

lemma bit_flat_masks [mmb_bits]: "bit (get_flat_masks base s e) j \<longleftrightarrow> j < 64 \<and> s \<le> base + j \<and> base + j < e"
proof (cases "e \<le> base")
  case False
  have "bit (if e - base < 64 then mmb_mask_zero_to_nocheck (e - base) else - 1) j \<longleftrightarrow> j < 64 \<and> base + j < e"
    using False mask_zero_to(2) [of "e - base" j] by auto
  moreover have "bit (if s - base < 64 then NOT (mmb_mask_zero_to_nocheck (s - base)) else 0) j \<longleftrightarrow> j < 64 \<and> s \<le> base + j"
    if "base \<le> s"
    using that mask_zero_to(2) [of "s - base" j] by (auto simp: bit_not_iff)
  ultimately show ?thesis using False by (cases "base \<le> s") (auto simp: get_flat_masks_def Let_def bit_and_iff)
qed (auto simp: get_flat_masks_def)

lemma block_addr: "bits + 64 * w div 8 = bits + 8 * w" for bits w :: nat
  by simp

lemma rounddown_eq: "ROUNDDOWN_N n MMB_KEY_BITS = 64 * (n div 64)"
  by (simp add: ROUNDDOWN_N_def mmb_consts)

lemma bounded_scan_spec:
  assumes ok: "mmb_ok bits N mem" "mmbit_is_flat_model N" and nd: "nd \<le> N"
    and E: "E = {k \<in> mmb_elems bits N mem. begn \<le> k \<and> k < nd}" and L: "L = N div 64"
  shows "w \<le> L \<Longrightarrow> least_or d {k \<in> E. 64 * w \<le> k} =
    (case mmbit_bounded_scan mem bits begn nd (min nd (64 * L)) (64 * w) of Some k \<Rightarrow> k
     | None \<Rightarrow> least_or d {k \<in> E. 64 * L \<le> k})"
proof (induction "L - w" arbitrary: w rule: less_induct)
  case less
  have fin: "finite E" using mmb_elems_finite [OF ok(1)] by (simp add: E)
  consider "64 * w < min nd (64 * L)" | "64 * L \<le> 64 * w" | "nd \<le> 64 * w" "w < L" by linarith
  then show ?case
  proof cases
    case 1
    let ?v = "mmb_load mem (bits + 8 * w) AND get_flat_masks (64 * w) begn nd"
    have "64 * w + 64 \<le> N" using 1 L by auto
    then have "least_or d {k \<in> E. 64 * w \<le> k} = (if ?v \<noteq> 0 then 64 * w + mmb_ctz ?v else least_or d {k \<in> E. 64 * w + 64 \<le> k})"
      by (intro least_scan [OF fin]) (auto simp: bit_and_iff bit_flat_masks load_elems [OF ok] E)
    moreover have "least_or d {k \<in> E. 64 * w + 64 \<le> k} =
      (case mmbit_bounded_scan mem bits begn nd (min nd (64 * L)) (64 * w + 64) of Some k \<Rightarrow> k
       | None \<Rightarrow> least_or d {k \<in> E. 64 * L \<le> k})"
    proof -
      have "L - Suc w < L - w" "Suc w \<le> L" and eq: "64 * w + 64 = 64 * Suc w" using 1 by auto
      then show ?thesis unfolding eq by (intro less(1))
    qed
    ultimately show ?thesis using 1
      unfolding mmbit_bounded_scan.simps [of mem bits begn nd "min nd (64 * L)" "64 * w"] block_addr
      by (simp add: Let_def mmb_consts)
  next
    case 2
    then have "w = L" using less(2) by simp
    then show ?thesis by (subst mmbit_bounded_scan.simps) simp
  next
    case 3
    have e: "{k \<in> E. 64 * w \<le> k} = {}" "{k \<in> E. 64 * L \<le> k} = {}" using 3 by (auto simp: E)
    show ?thesis unfolding e using 3 by (subst mmbit_bounded_scan.simps) simp
  qed
qed

lemma iterate_bounded_flat_spec:
  assumes ok: "mmb_ok bits N mem" "mmbit_is_flat_model N" and "begn < nd" "nd \<le> N"
  shows "mmbit_iterate_bounded_flat mem bits N begn nd =
    least_or MMB_INVALID {k \<in> mmb_elems bits N mem. begn \<le> k \<and> k < nd}"
proof -
  define E where "E = {k \<in> mmb_elems bits N mem. begn \<le> k \<and> k < nd}"
  have fin: "finite E" using mmb_elems_finite [OF ok(1)] by (simp add: E_def)
  have blk: "least_or MMB_INVALID {k \<in> E. 64 * w \<le> k} =
      (if mmbit_get_flat_block mem (bits + 8 * w) (min 64 (N - 64 * w)) AND get_flat_masks (64 * w) begn nd \<noteq> 0
       then 64 * w + mmb_ctz (mmbit_get_flat_block mem (bits + 8 * w) (min 64 (N - 64 * w)) AND get_flat_masks (64 * w) begn nd)
       else least_or MMB_INVALID {k \<in> E. 64 * w + 64 \<le> k})" if "64 * w < N" for w
    by (intro least_scan [OF fin]) (auto simp: bit_and_iff bit_flat_masks flat_block_elems [OF ok that] E_def)
  show ?thesis
  proof (cases "N \<le> 64")
    case True
    have e: "{k \<in> E. 64 \<le> k} = {}" "{k \<in> E. 0 \<le> k} = E" using True assms(4) by (auto simp: E_def)
    have "N - 0 = N" "min 64 N = N" "0 < N" using True assms(3,4) by simp_all
    then have "least_or MMB_INVALID E = (if mmbit_get_flat_block mem bits N AND get_flat_masks 0 begn nd \<noteq> 0
        then mmb_ctz (mmbit_get_flat_block mem bits N AND get_flat_masks 0 begn nd) else MMB_INVALID)"
      using blk [of 0] unfolding mult_0_right add_0_left add_0_right e by simp
    then show ?thesis using True unfolding E_def [symmetric] by (simp add: mmbit_iterate_bounded_flat_def mmb_consts)
  next
    case False
    define L where "L = N div 64"
    have N: "64 * L \<le> N" "N < 64 * L + 64" by (auto simp: L_def)
    have "{k \<in> E. 64 * (begn div 64) \<le> k} = E" by (auto simp: E_def)
    moreover have "begn div 64 \<le> L" using assms(3,4) by (auto simp: L_def intro: div_le_mono)
    ultimately have scan: "least_or MMB_INVALID E =
        (case mmbit_bounded_scan mem bits begn nd (min nd (64 * L)) (64 * (begn div 64)) of Some k \<Rightarrow> k
         | None \<Rightarrow> least_or MMB_INVALID {k \<in> E. 64 * L \<le> k})"
      using bounded_scan_spec [OF ok assms(4) E_def L_def, of "begn div 64" MMB_INVALID] by simp
    have e: "{k \<in> E. 64 * L + 64 \<le> k} = {}" "nd \<le> 64 * L \<Longrightarrow> {k \<in> E. 64 * L \<le> k} = {}"
      using N assms(4) by (auto simp: E_def)
    have rest: "least_or MMB_INVALID {k \<in> E. 64 * L \<le> k} =
        (if 64 * L < nd then
           if mmbit_get_flat_block mem (bits + 8 * L) (N - 64 * L) AND get_flat_masks (64 * L) begn nd \<noteq> 0
           then 64 * L + mmb_ctz (mmbit_get_flat_block mem (bits + 8 * L) (N - 64 * L) AND get_flat_masks (64 * L) begn nd)
           else MMB_INVALID
         else MMB_INVALID)"
    proof (cases "64 * L < nd")
      case True
      then have "64 * L < N" "min 64 (N - 64 * L) = N - 64 * L" using N assms(4) by simp_all
      then show ?thesis using blk [of L] True unfolding e(1) by simp
    next
      case False
      then have "{k \<in> E. 64 * L \<le> k} = {}" by (intro e(2)) simp
      then show ?thesis using False by (simp only: if_False least_or_empty)
    qed
    show ?thesis using False scan rest unfolding E_def [symmetric] mmbit_iterate_bounded_flat_def rounddown_eq L_def [symmetric]
      by (simp add: Let_def MMB_KEY_BITS_def split: option.splits)
  qed
qed

lemma mbit_store_partial:
  assumes "0 < n" "n \<le> 64"
  shows "mbit (mmb_store_partial mem (bits + 8 * w) v n) bits i =
    (if 64 * w \<le> i \<and> i < 64 * w + 8 * ((n + 7) div 8) then bit v (i - 64 * w) else mbit mem bits i)"
proof -
  have "ROUNDUP_N n 8 div 8 = (n + 7) div 8" "(n + 7) div 8 \<le> 8" using assms(2) by (auto simp: ROUNDUP_N_def)
  then have "mmb_store_partial mem (bits + 8 * w) v n = store_le ((n + 7) div 8) mem (bits + 8 * w) v"
    by (simp add: mmb_store_partial_def partial_store_u64a_eq)
  then show ?thesis unfolding mbit_store_le [of "(n + 7) div 8" mem bits "8 * w" v i, simplified mult.assoc [symmetric]]
    by (simp add: mbit_store_le)
qed

lemma store_partial_frame:
  "n \<le> 64 \<Longrightarrow> a \<notin> {p..<p + (n + 7) div 8} \<Longrightarrow> mmb_store_partial mem p v n a = mem a"
proof -
  assume "n \<le> 64" "a \<notin> {p..<p + (n + 7) div 8}"
  moreover have "ROUNDUP_N n 8 div 8 = (n + 7) div 8" "n \<le> 64 \<Longrightarrow> (n + 7) div 8 \<le> 8" by (auto simp: ROUNDUP_N_def)
  ultimately show ?thesis by (auto simp: mmb_store_partial_def partial_store_u64a_eq store_le_frame)
qed

lemma mbit_unset_blocks:
  "w \<le> L \<Longrightarrow> mbit (mmbit_unset_blocks mem bits begn nd (min nd (64 * L)) (64 * w)) bits k =
     (mbit mem bits k \<and> \<not> (64 * w \<le> k \<and> k < 64 * L \<and> begn \<le> k \<and> k < nd))"
proof (induction "L - w" arbitrary: w mem rule: less_induct)
  case less
  show ?case
  proof (cases "64 * w < min nd (64 * L)")
    case True
    define mem' where "mem' = mmb_store mem (bits + 8 * w) (mmb_load mem (bits + 8 * w) AND NOT (get_flat_masks (64 * w) begn nd))"
    have "64 * (k div 64) + k mod 64 = k" by simp
    then have "mbit mem' bits k = (mbit mem bits k \<and> \<not> (k div 64 = w \<and> begn \<le> k \<and> k < nd))"
      unfolding mem'_def by (auto simp: mbit_mmb_store bit_and_iff bit_not_iff bit_mmb_load bit_flat_masks)
    moreover have "mmbit_unset_blocks mem bits begn nd (min nd (64 * L)) (64 * w)
        = mmbit_unset_blocks mem' bits begn nd (min nd (64 * L)) (64 * Suc w)"
      using True unfolding mmbit_unset_blocks.simps [of mem bits begn nd "min nd (64 * L)" "64 * w"] block_addr mem'_def
      by (simp add: Let_def mmb_consts add.commute)
    moreover have "k div 64 = w \<longleftrightarrow> 64 * w \<le> k \<and> k < 64 * Suc w" by auto
    moreover have "64 * Suc w \<le> 64 * L" using True by simp
    ultimately show ?thesis using less(1) [of "Suc w" mem'] True by auto
  next
    case False
    then show ?thesis using less(2) by (subst mmbit_unset_blocks.simps) auto
  qed
qed

lemma unset_blocks_frame:
  "a \<notin> {bits..<bits + 8 * L} \<Longrightarrow> w \<le> L \<Longrightarrow> mmbit_unset_blocks mem bits begn nd (min nd (64 * L)) (64 * w) a = mem a"
proof (induction "L - w" arbitrary: w mem rule: less_induct)
  case less
  show ?case
  proof (cases "64 * w < min nd (64 * L)")
    case True
    then have "a \<notin> {bits + 8 * w..<bits + 8 * w + 8}" using less(2) by auto
    note fr = store_frame [OF this]
    have "64 * w + 64 = 64 * Suc w" by simp
    then show ?thesis using less(1) [of "Suc w"] less(2) True fr
      unfolding mmbit_unset_blocks.simps [of mem bits begn nd "min nd (64 * L)" "64 * w"] block_addr
      by (simp only: Let_def MMB_KEY_BITS_def if_True) auto
  next
    case False
    then show ?thesis by (subst mmbit_unset_blocks.simps) auto
  qed
qed

lemma mbit_init_blocks:
  "w \<le> L \<Longrightarrow> mbit (mmbit_init_blocks mem bits begn nd (64 * L) (64 * w)) bits k =
     (if 64 * w \<le> k \<and> k < 64 * L then begn \<le> k \<and> k < nd else mbit mem bits k)"
proof (induction "L - w" arbitrary: w mem rule: less_induct)
  case less
  show ?case
  proof (cases "w < L")
    case True
    define mem' where "mem' = mmb_store mem (bits + 8 * w) (get_flat_masks (64 * w) begn nd)"
    have "64 * (k div 64) + k mod 64 = k" by simp
    then have "mbit mem' bits k = (if k div 64 = w then begn \<le> k \<and> k < nd else mbit mem bits k)"
      unfolding mem'_def by (auto simp: mbit_mmb_store bit_flat_masks)
    moreover have "mmbit_init_blocks mem bits begn nd (64 * L) (64 * w) = mmbit_init_blocks mem' bits begn nd (64 * L) (64 * Suc w)"
      using True unfolding mmbit_init_blocks.simps [of mem bits begn nd "64 * L" "64 * w"] block_addr mem'_def
      by (simp add: mmb_consts add.commute)
    moreover have "k div 64 = w \<longleftrightarrow> 64 * w \<le> k \<and> k < 64 * Suc w" by auto
    moreover have "64 * Suc w \<le> 64 * L" using True by simp
    ultimately show ?thesis using less(1) [of "Suc w" mem'] True by auto
  next
    case False
    then show ?thesis using less(2) by (subst mmbit_init_blocks.simps) auto
  qed
qed

lemma init_blocks_frame:
  "a \<notin> {bits..<bits + 8 * L} \<Longrightarrow> w \<le> L \<Longrightarrow> mmbit_init_blocks mem bits begn nd (64 * L) (64 * w) a = mem a"
proof (induction "L - w" arbitrary: w mem rule: less_induct)
  case less
  show ?case
  proof (cases "w < L")
    case True
    then have "a \<notin> {bits + 8 * w..<bits + 8 * w + 8}" using less(2) by auto
    note fr = store_frame [OF this]
    have "64 * w + 64 = 64 * Suc w" "64 * w < 64 * L" using True by simp_all
    then show ?thesis using less(1) [of "Suc w"] less(2) True fr
      unfolding mmbit_init_blocks.simps [of mem bits begn nd "64 * L" "64 * w"] block_addr
      by (simp only: MMB_KEY_BITS_def if_True) auto
  next
    case False
    then show ?thesis by (subst mmbit_init_blocks.simps) simp
  qed
qed

text \<open>The runt block behind the last full one.\<close>

lemma runt:
  assumes "mmbit_is_flat_model N" "N \<le> MMB_MAX_BITS" "L = N div 64"
  shows "64 * L \<le> N" "N < 64 * L + 64" "64 * L + 8 * ((N - 64 * L + 7) div 8) = 8 * mmbit_flat_size N"
    "N \<le> 8 * mmbit_flat_size N" "8 * L + (N - 64 * L + 7) div 8 = mmbit_flat_size N"
    "mmb_region bits N = {bits..<bits + mmbit_flat_size N}" "8 * ((N - 64 * L + 7) div 8) \<le> 64"
proof -
  show N: "64 * L \<le> N" "N < 64 * L + 64" by (auto simp: assms(3))
  have "(64 * L + (N - 64 * L + 7)) div 8 = 8 * L + (N - 64 * L + 7) div 8" by (rule pos_byte)
  moreover have "64 * L + (N - 64 * L + 7) = N + 7" using N(1) by simp
  ultimately show s: "8 * L + (N - 64 * L + 7) div 8 = mmbit_flat_size N" by (simp add: flat_size_eq)
  then show "64 * L + 8 * ((N - 64 * L + 7) div 8) = 8 * mmbit_flat_size N" by linarith
  show "N \<le> 8 * mmbit_flat_size N" by (simp add: flat_size_eq)
  show "mmb_region bits N = {bits..<bits + mmbit_flat_size N}"
    using assms(1) mmbit_size_spec [OF assms(2)] by simp
  show "8 * ((N - 64 * L + 7) div 8) \<le> 64" using N div_le_mono [of "N - 64 * L + 7" 71 8] by simp
qed

lemma mbit_unset_range_flat:
  assumes ok: "mmb_ok bits N mem" "mmbit_is_flat_model N" and r: "begn \<le> nd" "nd \<le> N"
  shows "k < 8 * mmbit_flat_size N \<Longrightarrow>
      mbit (mmbit_unset_range_flat mem bits N begn nd) bits k = (mbit mem bits k \<and> \<not> (begn \<le> k \<and> k < nd))"
    and "a \<notin> mmb_region bits N \<Longrightarrow> mmbit_unset_range_flat mem bits N begn nd a = mem a"
proof -
  define L where "L = N div 64"
  define mem1 where "mem1 = mmbit_unset_blocks mem bits begn nd (min nd (64 * L)) (64 * (begn div 64))"
  note rt = runt [OF ok(2) mmb_okD(2) [OF ok(1)] L_def]
  have bL: "begn div 64 \<le> L" using r by (auto simp: L_def intro: div_le_mono)
  have m1: "mbit mem1 bits k = (mbit mem bits k \<and> \<not> (k < 64 * L \<and> begn \<le> k \<and> k < nd))" for k
    using mbit_unset_blocks [OF bL, of mem bits begn nd k] by (auto simp: mem1_def)
  let ?n = "N - 64 * L"
  let ?blk = "mmbit_get_flat_block mem1 (bits + 8 * L) ?n AND NOT (get_flat_masks (64 * L) begn nd)"
  have res: "mmbit_unset_range_flat mem bits N begn nd =
      (if 64 * L < nd then mmb_store_partial mem1 (bits + 8 * L) ?blk ?n else mem1)"
    by (simp add: mmbit_unset_range_flat_def rounddown_eq L_def [symmetric] mem1_def Let_def)
  have n: "0 < ?n" "?n \<le> 64" if "64 * L < nd" using that r rt(1,2) by auto
  show "mbit (mmbit_unset_range_flat mem bits N begn nd) bits k = (mbit mem bits k \<and> \<not> (begn \<le> k \<and> k < nd))"
    if k: "k < 8 * mmbit_flat_size N"
  proof (cases "64 * L < nd")
    case True
    note n = n [OF True]
    show ?thesis
      using True k m1 [of k] bit_flat_block [OF n mmb_okD(1) [OF ok(1)], of mem1 L "k - 64 * L"] rt(2,3,7)
      unfolding res mbit_store_partial [OF n] if_P [OF True]
      by (auto simp: bit_and_iff bit_not_iff bit_flat_masks mbit_store_partial [OF n])
  qed (use m1 res in auto)
  show "mmbit_unset_range_flat mem bits N begn nd a = mem a" if a: "a \<notin> mmb_region bits N"
  proof -
    have a': "a \<notin> {bits..<bits + (8 * L + (?n + 7) div 8)}" using a unfolding rt(5,6) .
    have "mem1 a = mem a" unfolding mem1_def by (rule unset_blocks_frame [OF _ bL]) (use a' in auto)
    moreover have "mmb_store_partial mem1 (bits + 8 * L) ?blk ?n a = mem1 a"
      by (rule store_partial_frame) (use a' rt(2) in auto)
    ultimately show ?thesis unfolding res by simp
  qed
qed

lemma mbit_init_range_flat:
  assumes "8 \<le> bits" "N \<le> MMB_MAX_BITS" "mmbit_is_flat_model N" "nd \<le> N"
  shows "k < 8 * mmbit_flat_size N \<Longrightarrow> mbit (mmbit_init_range_flat mem bits N begn nd) bits k = (begn \<le> k \<and> k < nd)"
    and "a \<notin> mmb_region bits N \<Longrightarrow> mmbit_init_range_flat mem bits N begn nd a = mem a"
proof -
  define L where "L = N div 64"
  define mem1 where "mem1 = mmbit_init_blocks mem bits begn nd (64 * L) 0"
  note rt = runt [OF assms(3,2) L_def]
  have m1: "mbit mem1 bits k = (if k < 64 * L then begn \<le> k \<and> k < nd else mbit mem bits k)" for k
    using mbit_init_blocks [of 0 L mem bits begn nd k] by (auto simp: mem1_def)
  let ?n = "N - 64 * L"
  have m: "N mod 64 = ?n" by (simp add: L_def minus_mult_div_eq_mod)
  have res: "mmbit_init_range_flat mem bits N begn nd =
      (if 0 < ?n then mmb_store_partial mem1 (bits + 8 * L) (get_flat_masks (64 * L) begn nd) ?n else mem1)"
    unfolding mmbit_init_range_flat_def rounddown_eq L_def [symmetric] Let_def mem1_def by (simp add: m MMB_KEY_BITS_def)
  show "mbit (mmbit_init_range_flat mem bits N begn nd) bits k = (begn \<le> k \<and> k < nd)" if k: "k < 8 * mmbit_flat_size N"
  proof (cases "0 < ?n")
    case True
    have n: "?n \<le> 64" using rt(2) by simp
    show ?thesis using k m1 [of k] rt(2,3,7) unfolding res if_P [OF True] mbit_store_partial [OF True n]
      by (auto simp: bit_flat_masks)
  next
    case False
    then have "8 * mmbit_flat_size N = 64 * L" using rt(3) by simp
    then show ?thesis using k m1 [of k] False unfolding res by simp
  qed
  show "mmbit_init_range_flat mem bits N begn nd a = mem a" if a: "a \<notin> mmb_region bits N"
  proof -
    have a': "a \<notin> {bits..<bits + (8 * L + (?n + 7) div 8)}" using a unfolding rt(5,6) .
    have "mem1 a = mem a" unfolding mem1_def
      using init_blocks_frame [of a bits L 0 mem begn nd] a' by auto
    moreover have "mmb_store_partial mem1 (bits + 8 * L) (get_flat_masks (64 * L) begn nd) ?n a = mem1 a"
      by (rule store_partial_frame) (use a' rt(2) in auto)
    ultimately show ?thesis unfolding res by simp
  qed
qed

section \<open>Bounded iteration over the pyramid\<close>

lemma lowhi_bits:
  assumes "base = key * (64 * c)" "c = 64 ^ (ml - l)" "base \<le> e"
  shows "bit (get_lowhi_masks l ml (max s base) (min e (base + 64 * c - 1)) base) j \<longleftrightarrow>
    j < 64 \<and> s < (64 * key + j + 1) * c \<and> (64 * key + j) * c \<le> e"
proof -
  have c: "0 < c" by (simp add: assms(2))
  let ?lo = "(max s base - base) div c" and ?hi = "(min e (base + 64 * c - 1) - base) div c"
  have sh: "drop_bit ((ml - l) * MMB_KEY_SHIFT) x = x div c" for x :: nat
    using shift_key [of "ml - l" x] by (simp add: assms(2) mmb_consts)
  have p: "(64 * key + j) * c = base + j * c" "(64 * key + j + 1) * c = base + (j + 1) * c"
    by (simp_all add: assms(1) algebra_simps)
  have lo: "?lo \<le> j \<longleftrightarrow> s < (64 * key + j + 1) * c"
  proof -
    have "?lo \<le> j \<longleftrightarrow> max s base - base < (j + 1) * c"
      using div_less_iff_less_mult [OF c, of "max s base - base" "j + 1"] by (simp add: less_Suc_eq_le)
    also have "\<dots> \<longleftrightarrow> s < base + (j + 1) * c" using c by (auto simp: max_def)
    finally show ?thesis unfolding p .
  qed
  have hi: "j \<le> ?hi \<longleftrightarrow> (64 * key + j) * c \<le> e" if "j < 64"
  proof -
    have "j * c \<le> 63 * c" using that by simp
    then have "j * c + c \<le> 64 * c" by linarith
    then have "j * c \<le> 64 * c - 1" using c by linarith
    moreover have "j \<le> ?hi \<longleftrightarrow> j * c \<le> min e (base + 64 * c - 1) - base" by (rule less_eq_div_iff_mult_less_eq [OF c])
    ultimately show ?thesis unfolding p using assms(3) c by (auto simp: min_def)
  qed
  have "?hi \<le> (64 * c - 1) div c" by (intro div_le_mono) auto
  also have "\<dots> < 64" using c by (simp add: div_less_iff_less_mult)
  finally have h63: "?hi \<le> 63" by simp
  have "bit (if ?lo < 64 then NOT (mmb_mask_zero_to_nocheck ?lo) else 0) j \<longleftrightarrow> j < 64 \<and> ?lo \<le> j"
    using mask_zero_to(2) [of ?lo j] by (auto simp: bit_not_iff)
  moreover have "bit (if ?hi < 63 then mmb_mask_zero_to_nocheck (?hi + 1) else - 1) j \<longleftrightarrow> j < 64 \<and> j \<le> ?hi"
    using mask_zero_to(2) [of "?hi + 1" j] h63 by auto
  ultimately show ?thesis unfolding get_lowhi_masks_def Let_def sh bit_and_iff using lo hi by blast
qed

lemma bounded_step:
  fixes key l ml s e :: nat
  assumes py: "pyramid_ok mem bits ml N" and l: "l \<le> ml" and vb: "valid_block mem bits l key"
    and c: "c = 64 ^ (ml - l)" and e: "key * (64 * c) \<le> e" "e < N"
  defines "B \<equiv> \<lambda>j. j < 64 \<and> lbit mem bits l (64 * key + j) \<and> s < (64 * key + j + 1) * c \<and> (64 * key + j) * c \<le> e"
  shows "(\<forall>j. \<not> B j) \<Longrightarrow> mmbit_bounded_loop mem bits ml e l key ((ml - l) * 6) s =
      (if e < Suc key * (64 * c) \<or> l = 0 then Some MMB_INVALID
       else mmbit_bounded_loop mem bits ml e (l - 1) (key div 64) ((ml - (l - 1)) * 6) (Suc key * (64 * c)))"
    and "B b \<Longrightarrow> (\<And>j. j < b \<Longrightarrow> \<not> B j) \<Longrightarrow> mmbit_bounded_loop mem bits ml e l key ((ml - l) * 6) s =
      (if l = ml then Some (64 * key + b)
       else mmbit_bounded_loop mem bits ml e (Suc l) (64 * key + b) ((ml - Suc l) * 6) s)"
proof -
  have l6: "l \<le> 6" using l pyramid_okD(1) [OF py] by simp
  have width: "push_bit ((ml - l) * 6) MMB_KEY_BITS = 64 * c"
    using power_mult [of "2 :: nat" 6 "ml - l"] by (simp add: c push_bit_eq_mult mmb_consts mult.commute)
  let ?v = "mmb_load mem (bits + 8 * (root_of l + key)) AND get_lowhi_masks l ml (max s (key * (64 * c)))
      (min e (key * (64 * c) + 64 * c - 1)) (key * (64 * c))"
  have nxt: "key * (64 * c) + 64 * c = Suc key * (64 * c)" by simp
  note unf = mmbit_bounded_loop.simps [of mem bits ml e l key "(ml - l) * 6" s, unfolded width level_block_ptr [OF l6]
      shift_word Let_def]
  have v: "bit ?v j \<longleftrightarrow> B j" for j
    unfolding bit_and_iff bit_load_lbit lowhi_bits [OF refl c e(1)] B_def by auto
  {
    assume "\<forall>j. \<not> B j"
    then have "?v = 0" using v by (intro bit_word_eqI) simp
    moreover have "(ml - (l - 1)) * 6 = (ml - l) * 6 + MMB_KEY_SHIFT" if "l \<noteq> 0" using that l by (simp add: mmb_consts)
    moreover have "Suc key * (64 * c) mod 2 ^ 32 = Suc key * (64 * c)" if "\<not> e < Suc key * (64 * c)"
      using that e(2) pyramid_okD(2) [OF py] by (intro mod_less) (simp add: mmb_consts)
    ultimately show "mmbit_bounded_loop mem bits ml e l key ((ml - l) * 6) s =
      (if e < Suc key * (64 * c) \<or> l = 0 then Some MMB_INVALID
       else mmbit_bounded_loop mem bits ml e (l - 1) (key div 64) ((ml - (l - 1)) * 6) (Suc key * (64 * c)))"
      unfolding unf nxt by (auto simp only: simp_thms if_False if_True split: if_splits)
  next
    assume b: "B b" and min: "\<And>j. j < b \<Longrightarrow> \<not> B j"
    have nz: "?v \<noteq> 0" using v [of b] b by auto
    have ctz: "mmb_ctz ?v = b"
      using mmb_ctz_spec(1,2) [OF nz] v b min by (metis antisym not_le)
    have "on mem bits l (64 * key + b)" using b on_valid_block [OF vb] unfolding B_def by simp
    then have wrap: "(64 * key + b) mod 2 ^ 32 = 64 * key + b" by (rule no_wrap [OF py l])
    have "(ml - Suc l) * 6 = (ml - l) * 6 - MMB_KEY_SHIFT" by (simp add: mmb_consts)
    then show "mmbit_bounded_loop mem bits ml e l key ((ml - l) * 6) s =
      (if l = ml then Some (64 * key + b)
       else mmbit_bounded_loop mem bits ml e (Suc l) (64 * key + b) ((ml - Suc l) * 6) s)"
      using nz ctz wrap unfolding unf by (simp only: simp_thms if_True)
  }
qed

definition range_below :: "memory \<Rightarrow> nat \<Rightarrow> nat \<Rightarrow> nat \<Rightarrow> nat \<Rightarrow> nat \<Rightarrow> nat \<Rightarrow> nat set" where
  "range_below mem bits ml e l key s = {k. on mem bits ml k \<and> prefix ml l k div 64 = key \<and> s \<le> k \<and> k \<le> e}"

lemma prefix_bounds:
  "prefix ml l k = p \<longleftrightarrow> p * 64 ^ (ml - l) \<le> k \<and> k < Suc p * 64 ^ (ml - l)"
proof -
  have "p \<le> prefix ml l k \<longleftrightarrow> p * 64 ^ (ml - l) \<le> k" unfolding prefix_def by (rule less_eq_div_iff_mult_less_eq) simp
  moreover have "prefix ml l k < Suc p \<longleftrightarrow> k < Suc p * 64 ^ (ml - l)" unfolding prefix_def by (rule div_less_iff_less_mult) simp
  ultimately show ?thesis by auto
qed

text \<open>The bit of a block that leads to a key of the range.\<close>

lemma range_below_hit:
  assumes l: "l \<le> ml" and c: "c = 64 ^ (ml - l)" and "k \<in> range_below mem bits ml e l key s" and j: "j = prefix ml l k mod 64"
  shows "j < 64 \<and> lbit mem bits l (64 * key + j) \<and> s < (64 * key + j + 1) * c \<and> (64 * key + j) * c \<le> e"
proof -
  have k: "on mem bits ml k" "prefix ml l k div 64 = key" "s \<le> k" "k \<le> e" using assms(3) by (auto simp: range_below_def)
  have "64 * key + j = prefix ml l k" using k(2) unfolding j by (metis mult_div_mod_eq)
  moreover have "prefix ml l k * c \<le> k" "k < Suc (prefix ml l k) * c"
    using prefix_bounds [of ml l k "prefix ml l k"] unfolding c by blast+
  ultimately show ?thesis using on_lbit [OF on_prefix [OF k(1) l]] k(3,4) j by auto
qed

lemma range_below_split:
  fixes mem :: memory and bits ml l key s e b :: nat
  assumes l: "l \<le> ml" and c: "c = 64 ^ (ml - l)"
  defines "B \<equiv> \<lambda>j. j < 64 \<and> lbit mem bits l (64 * key + j) \<and> s < (64 * key + j + 1) * c \<and> (64 * key + j) * c \<le> e"
  assumes b: "B b" and min: "\<And>j. j < b \<Longrightarrow> \<not> B j"
  shows "range_below mem bits ml e l key s = {k. on mem bits ml k \<and> prefix ml l k = 64 * key + b \<and> s \<le> k \<and> k \<le> e}
      \<union> range_below mem bits ml e l key ((64 * key + b + 1) * c)"
proof -
  have inB: "B (prefix ml l k mod 64)" if "k \<in> range_below mem bits ml e l key s" for k
    using range_below_hit [OF l c that refl] unfolding B_def .
  have "k \<in> {k. on mem bits ml k \<and> prefix ml l k = 64 * key + b \<and> s \<le> k \<and> k \<le> e}
      \<union> range_below mem bits ml e l key ((64 * key + b + 1) * c)" if k: "k \<in> range_below mem bits ml e l key s" for k
  proof (cases "prefix ml l k mod 64 = b")
    case True
    then have "prefix ml l k = 64 * key + b" using k mult_div_mod_eq [of 64 "prefix ml l k"] by (auto simp: range_below_def)
    then show ?thesis using k by (simp add: range_below_def)
  next
    case False
    then have "b < prefix ml l k mod 64" using min inB [OF k] by (metis linorder_neqE_nat)
    then have "64 * key + b + 1 \<le> prefix ml l k"
      using k mult_div_mod_eq [of 64 "prefix ml l k"] by (auto simp: range_below_def)
    then have "(64 * key + b + 1) * c \<le> prefix ml l k * c" by (rule mult_le_mono1)
    also have "\<dots> \<le> k" using prefix_bounds [of ml l k "prefix ml l k"] unfolding c by blast
    finally show ?thesis using k by (auto simp: range_below_def)
  qed
  moreover have "s \<le> (64 * key + b + 1) * c" "(64 * key + b) div 64 = key" using b unfolding B_def by auto
  ultimately show "range_below mem bits ml e l key s = {k. on mem bits ml k \<and> prefix ml l k = 64 * key + b \<and> s \<le> k \<and> k \<le> e}
      \<union> range_below mem bits ml e l key ((64 * key + b + 1) * c)"
    unfolding range_below_def by auto
qed

lemma range_below_child:
  "l < ml \<Longrightarrow> range_below mem bits ml e (Suc l) p s = {k. on mem bits ml k \<and> prefix ml l k = p \<and> s \<le> k \<and> k \<le> e}"
  by (simp add: range_below_def prefix_Suc)

lemma bounded_block:
  assumes py: "pyramid_ok mem bits ml N" and e: "e < N"
  shows "l \<le> ml \<Longrightarrow> valid_block mem bits l key \<Longrightarrow> c = 64 ^ (ml - l) \<Longrightarrow> key * (64 * c) \<le> e \<Longrightarrow>
    mmbit_bounded_loop mem bits ml e l key ((ml - l) * 6) s =
      (if range_below mem bits ml e l key s \<noteq> {} then Some (Min (range_below mem bits ml e l key s))
       else if e < Suc key * (64 * c) \<or> l = 0 then Some MMB_INVALID
       else mmbit_bounded_loop mem bits ml e (l - 1) (key div 64) ((ml - (l - 1)) * 6) (Suc key * (64 * c)))"
proof (induction "ml - l" arbitrary: l key s c rule: less_induct)
  case less
  note outer = less(1)
  show ?case using less(2-5)
  proof (induction "Suc key * (64 * c) - s" arbitrary: s rule: less_induct)
    case (less s)
    note l = less(2) and vb = less(3) and c = less(4) and base = less(5)
    define B where "B = (\<lambda>j. j < 64 \<and> lbit mem bits l (64 * key + j) \<and> s < (64 * key + j + 1) * c \<and> (64 * key + j) * c \<le> e)"
    note st = bounded_step [where s = s, OF py l vb c base e]
    note sp = range_below_split [where mem = mem and bits = bits and key = key and s = s and e = e, OF l c]
    show ?case
    proof (cases "\<exists>j. B j")
      case False
      then have none: "\<forall>j. \<not> B j" by blast
      have "range_below mem bits ml e l key s = {}"
        using range_below_hit [OF l c _ refl] none unfolding B_def by blast
      then show ?thesis using st(1) [OF none [unfolded B_def]] by simp
    next
      case True
      define b where "b = (LEAST j. B j)"
      have b: "B b" using LeastI_ex [OF True] by (simp add: b_def)
      have min: "\<not> B j" if "j < b" for j using not_less_Least that unfolding b_def by blast
      let ?A = "{k. on mem bits ml k \<and> prefix ml l k = 64 * key + b \<and> s \<le> k \<and> k \<le> e}"
      let ?s = "(64 * key + b + 1) * c"
      have split: "range_below mem bits ml e l key s = ?A \<union> range_below mem bits ml e l key ?s"
        by (rule sp [OF b [unfolded B_def]]) (rule min [unfolded B_def])
      have step: "mmbit_bounded_loop mem bits ml e l key ((ml - l) * 6) s =
          (if l = ml then Some (64 * key + b) else mmbit_bounded_loop mem bits ml e (Suc l) (64 * key + b) ((ml - Suc l) * 6) s)"
        by (rule st(2) [OF b [unfolded B_def]]) (rule min [unfolded B_def])
      have b': "b < 64" "s < ?s" "(64 * key + b) * c \<le> e" "lbit mem bits l (64 * key + b)" using b by (auto simp: B_def)
      have on: "on mem bits l (64 * key + b)" using on_valid_block [OF vb b'(1)] b'(4) by simp
      have last: "?s \<le> Suc key * (64 * c)"
      proof -
        have "(64 * key + b + 1) * c \<le> (64 * key + 64) * c" using b'(1) by (intro mult_le_mono1) simp
        then show ?thesis by (simp add: algebra_simps)
      qed
      have fin: "finite (?A \<union> range_below mem bits ml e l key ?s)"
        using pyramid_okD(5) [OF py] unfolding split [symmetric] range_below_def by simp
      have le: "x \<le> y" if "x \<in> ?A" "y \<in> range_below mem bits ml e l key ?s" for x y
        using that prefix_bounds [of ml l x "64 * key + b"] by (auto simp: range_below_def c)
      show ?thesis
      proof (cases "l = ml")
        case True
        then have A: "?A = {64 * key + b}" using on b'(2,3) by (auto simp: c)
        have "Min (range_below mem bits ml e l key s) = Min ?A" unfolding split
          by (rule Min_union_below [OF fin _ le]) (use A in auto)
        then show ?thesis using step True A split by simp
      next
        case False
        then have lt: "l < ml" using l by simp
        have c': "c = 64 * 64 ^ (ml - Suc l)" using lt unfolding c by (metis Suc_diff_Suc power_Suc)
        have IH: "mmbit_bounded_loop mem bits ml e (Suc l) (64 * key + b) ((ml - Suc l) * 6) s =
            (if ?A \<noteq> {} then Some (Min ?A)
             else if e < Suc (64 * key + b) * c then Some MMB_INVALID
             else mmbit_bounded_loop mem bits ml e l key ((ml - l) * 6) (Suc (64 * key + b) * c))"
        proof -
          have "ml - Suc l < ml - l" "Suc l \<le> ml" and k: "(64 * key + b) div 64 = key" using lt b'(1) by auto
          from outer [OF this(1,2) valid_block_child [OF on] refl, of s]
          show ?thesis unfolding range_below_child [OF lt] c' [symmetric] diff_Suc_1 k using b'(3) by (simp only: nat.distinct simp_thms)
        qed
        show ?thesis
        proof (cases "?A = {}")
          case True
          have rng: "range_below mem bits ml e l key s = range_below mem bits ml e l key ?s"
            unfolding split True by (rule Un_empty_left)
          show ?thesis
          proof (cases "e < ?s")
            case lt_e: True
            then have "range_below mem bits ml e l key ?s = {}" by (auto simp: range_below_def)
            then show ?thesis unfolding step IH rng using True lt_e False last by simp
          next
            case False
            have "mmbit_bounded_loop mem bits ml e l key ((ml - l) * 6) s =
                mmbit_bounded_loop mem bits ml e l key ((ml - l) * 6) ?s"
              unfolding step IH using True False \<open>l \<noteq> ml\<close> by simp
            then show ?thesis using less(1) [OF _ l vb c base, of ?s] b'(2) last unfolding rng by simp
          qed
        next
          case ne: False
          have "Min (range_below mem bits ml e l key s) = Min ?A" unfolding split by (rule Min_union_below [OF fin ne le])
          moreover have "range_below mem bits ml e l key s \<noteq> {}" unfolding split using ne by blast
          ultimately show ?thesis unfolding step IH using False ne by (simp only: if_False if_True simp_thms)
        qed
      qed
    qed
  qed
qed

lemma iterate_bounded_big_spec:
  assumes ok: "mmb_ok bits N mem" "\<not> mmbit_is_flat_model N" and "begn < nd" "nd \<le> N"
  shows "mmbit_iterate_bounded_big mem bits N begn nd =
    Some (least_or MMB_INVALID {k \<in> mmb_elems bits N mem. begn \<le> k \<and> k < nd})"
proof -
  note big = big_model [OF ok] and py = mmb_ok_pyramid [OF ok]
  let ?ml = "mmbit_maxlevel N"
  note ml = maxlevel_spec(4,5) [OF big(5,4)]
  have "range_below mem bits ?ml (nd - 1) 0 0 begn = {k \<in> mmb_elems bits N mem. begn \<le> k \<and> k < nd}"
  proof -
    have "prefix ?ml 0 k div 64 = 0" if "on mem bits ?ml k" for k
      using prefix_less [of 0 ?ml k] on_less [OF that] by simp
    then show ?thesis using ok(2) assms(3) unfolding range_below_def mmb_elems_def by auto
  qed
  moreover have "mmbit_iterate_bounded_big mem bits N begn nd =
      (if range_below mem bits ?ml (nd - 1) 0 0 begn \<noteq> {} then Some (Min (range_below mem bits ?ml (nd - 1) 0 0 begn))
       else Some MMB_INVALID)"
    using bounded_block [OF py, of "nd - 1" 0 0 "64 ^ ?ml" begn] assms(3,4)
    unfolding mmbit_iterate_bounded_big_def Let_def ml(2) by (simp add: ml(1) valid_block_def)
  ultimately show ?thesis by (auto simp: least_or_def)
qed

lemma mmbit_iterate_bounded_spec:
  assumes "mmb_ok bits N mem" "begn \<le> nd" "nd \<le> N"
  shows "mmbit_iterate_bounded mem bits N begn nd =
    Some (least_or MMB_INVALID {k \<in> mmb_elems bits N mem. begn \<le> k \<and> k < nd})"
proof (cases "begn < nd")
  case True
  then show ?thesis using iterate_bounded_flat_spec [OF assms(1) _ True assms(3)]
      iterate_bounded_big_spec [OF assms(1) _ True assms(3)] assms(3)
    by (auto simp: mmbit_iterate_bounded_def)
next
  case False
  then have e: "{k \<in> mmb_elems bits N mem. begn \<le> k \<and> k < nd} = {}" by auto
  show ?thesis unfolding e using False assms(2) by (simp add: mmbit_iterate_bounded_def)
qed

section \<open>Switching a range off\<close>

lemma unset_range_loop_spec:
  assumes "\<not> mmbit_is_flat_model N" "nd \<le> N"
  shows "mmb_ok bits N mem \<Longrightarrow> i \<le> nd \<Longrightarrow> \<exists>mem'. mmbit_unset_range_loop mem bits N nd i = Some mem' \<and>
    mmb_elems bits N mem' = mmb_elems bits N mem - {i..<nd} \<and> mmb_ok bits N mem' \<and>
    (\<forall>a. a \<notin> mmb_region bits N \<longrightarrow> mem' a = mem a)"
proof (induction "nd - i" arbitrary: i mem rule: less_induct)
  case less
  let ?E = "mmb_elems bits N mem"
  let ?R = "{k \<in> ?E. i \<le> k \<and> k < nd}"
  have it: "mmbit_iterate_bounded mem bits N i nd = Some (least_or MMB_INVALID ?R)"
    by (rule mmbit_iterate_bounded_spec [OF less(2,3) assms(2)])
  show ?case
  proof (cases "?R = {}")
    case True
    then have "?E - {i..<nd} = ?E" by auto
    then show ?thesis using it less(2) unfolding True by (subst mmbit_unset_range_loop.simps) simp
  next
    case False
    define m where "m = Min ?R"
    have fin: "finite ?R" using mmb_elems_finite [OF less(2)] by simp
    have m: "m \<in> ?E" "i \<le> m" "m < nd" and least: "\<And>k. k \<in> ?R \<Longrightarrow> m \<le> k"
      using Min_in [OF fin False] Min_le [OF fin] by (simp_all add: m_def)
    have val: "least_or MMB_INVALID ?R = m" unfolding least_or_def if_not_P [OF False] m_def ..
    have mN: "m < N" "m \<noteq> MMB_INVALID" using m assms(2) mmb_okD(2) [OF less(2)] by (auto simp: mmb_consts)
    define mem1 where "mem1 = mmbit_unset mem bits N m"
    note u = mmbit_unset_spec [OF less(2) mN(1), folded mem1_def]
    have big: "mmbit_unset_big mem bits N m = mem1" using assms(1) by (simp add: mem1_def mmbit_unset_def)
    have split: "?E - {m} - {Suc m..<nd} = ?E - {i..<nd}"
    proof (intro set_eqI)
      fix x
      have "m \<le> x" if "x \<in> ?E" "i \<le> x" "x < nd" using least that by simp
      then show "x \<in> ?E - {m} - {Suc m..<nd} \<longleftrightarrow> x \<in> ?E - {i..<nd}"
        using m(2,3) by (cases "x \<in> ?E \<and> i \<le> x \<and> x < nd") auto
    qed
    show ?thesis
    proof (cases "Suc m = nd")
      case True
      then have "?E - {m} = ?E - {i..<nd}" using split by auto
      then show ?thesis using it val mN big u True by (subst mmbit_unset_range_loop.simps) (auto simp: Let_def)
    next
      case False
      have "nd - Suc m < nd - i" "Suc m \<le> nd" using m by auto
      from less(1) [OF this(1) u(2) this(2)]
      obtain mem' where mem': "mmbit_unset_range_loop mem1 bits N nd (Suc m) = Some mem'"
        "mmb_elems bits N mem' = mmb_elems bits N mem1 - {Suc m..<nd}" "mmb_ok bits N mem'"
        "\<forall>a. a \<notin> mmb_region bits N \<longrightarrow> mem' a = mem1 a" by blast
      have "mmbit_unset_range_loop mem bits N nd i = Some mem'"
        using it val mN big False mem'(1) by (subst mmbit_unset_range_loop.simps) (simp add: Let_def)
      then show ?thesis using mem' u split by auto
    qed
  qed
qed

lemma mmbit_unset_range_spec:
  assumes ok: "mmb_ok bits N mem" and r: "begn \<le> nd" "nd \<le> N"
  shows "\<exists>mem'. mmbit_unset_range mem bits N begn nd = Some mem' \<and>
    mmb_elems bits N mem' = mmb_elems bits N mem - {begn..<nd} \<and> mmb_ok bits N mem' \<and>
    (\<forall>a. a \<notin> mmb_region bits N \<longrightarrow> mem' a = mem a)"
proof (cases "mmbit_is_flat_model N")
  case True
  note u = mbit_unset_range_flat [OF ok True r]
  have "N \<le> 8 * mmbit_flat_size N" by (simp add: flat_size_eq)
  then have "mmb_elems bits N (mmbit_unset_range_flat mem bits N begn nd) = mmb_elems bits N mem - {begn..<nd}"
    using True u(1) by (auto simp: mmb_elems_def)
  moreover have "mmb_ok bits N (mmbit_unset_range_flat mem bits N begn nd)" using ok True u(1) by (simp add: mmb_ok_def)
  ultimately show ?thesis using True u(2) by (simp add: mmbit_unset_range_def)
next
  case False
  then show ?thesis using unset_range_loop_spec [OF False r(2) ok r(1)] by (simp add: mmbit_unset_range_def)
qed

section \<open>Initialising a range\<close>

text \<open>Writing one level: the blocks that the range touches hold exactly the range.\<close>

lemma ceil64: "(k + 63) div 64 = k div 64 + (if k mod 64 = 0 then 0 else 1)" for k :: nat
proof -
  have "k = 64 * (k div 64) + k mod 64" by simp
  then have "(k + 63) div 64 = k div 64 + (k mod 64 + 63) div 64" by (metis add.assoc div_mult_self4 zero_neq_numeral)
  moreover have "(k mod 64 + 63) div 64 = (if k mod 64 = 0 then 0 else 1)"
    by (auto intro: div_nat_eqI)
  ultimately show ?thesis by simp
qed

lemma init_ones_step:
  "mmbit_init_ones mem p (64 * w) k2 =
     (if w < k2 div 64 then mmbit_init_ones (mmb_store mem p (- 1)) (p + 8) (64 * Suc w) k2
      else if 64 * w < k2 then mmb_store mem p (mmb_mask_zero_to_nocheck (k2 mod 64)) else mem)"
  unfolding mmbit_init_ones.simps [of mem p "64 * w" k2] rounddown_eq by (simp add: MMB_KEY_BITS_def add.commute)

lemma init_ones_effect:
  "p = bits + 8 * (r + w) \<Longrightarrow> mbit (mmbit_init_ones mem p (64 * w) k2) bits i =
      (if r + w \<le> i div 64 \<and> i div 64 < r + (k2 + 63) div 64 then i < 64 * r + k2 else mbit mem bits i) \<and>
    (a \<notin> {p..<bits + 8 * (r + (k2 + 63) div 64)} \<longrightarrow> mmbit_init_ones mem p (64 * w) k2 a = mem a)"
proof (induction "k2 div 64 - w" arbitrary: w p mem rule: less_induct)
  case less
  note p = less(2)
  let ?K = "k2 div 64"
  have i: "64 * (i div 64) + i mod 64 = i" "i mod 64 < 64" by simp_all
  have k: "64 * ?K + k2 mod 64 = k2" by simp
  consider (ones) "w < ?K" | (runt) "w = ?K" "0 < k2 mod 64" | (beyond) "k2 \<le> 64 * w"
    using k by linarith
  then show ?case
  proof cases
    case ones
    have p8: "p + 8 = bits + 8 * (r + Suc w)" using p by simp
    have st: "mmbit_init_ones mem p (64 * w) k2 = mmbit_init_ones (mmb_store mem p (- 1)) (p + 8) (64 * Suc w) k2"
      unfolding init_ones_step [of mem p w k2] if_P [OF ones] ..
    have lt: "?K - Suc w < ?K - w" using ones by simp
    note IH = less(1) [OF lt p8, of "mmb_store mem p (- 1)"]
    have s: "mbit (mmb_store mem p (- 1)) bits i = (i div 64 = r + w \<or> mbit mem bits i)"
      unfolding p mbit_mmb_store by auto
    have in_range: "i < 64 * r + k2" if "i div 64 = r + w" using that ones i k by linarith
    have "8 * (r + w) + 8 \<le> 8 * (r + (k2 + 63) div 64)" using ones ceil64 [of k2] by simp
    then have "a \<notin> {p..<p + 8}" "a \<notin> {p + 8..<bits + 8 * (r + (k2 + 63) div 64)}"
      if "a \<notin> {p..<bits + 8 * (r + (k2 + 63) div 64)}" using that p by auto
    then have fr: "mmbit_init_ones mem p (64 * w) k2 a = mem a" if "a \<notin> {p..<bits + 8 * (r + (k2 + 63) div 64)}"
      unfolding st using IH store_frame that by simp
    have "mbit (mmbit_init_ones mem p (64 * w) k2) bits i =
        (if r + Suc w \<le> i div 64 \<and> i div 64 < r + (k2 + 63) div 64 then i < 64 * r + k2
         else i div 64 = r + w \<or> mbit mem bits i)" unfolding st using IH s by simp
    moreover have "r + w < r + (k2 + 63) div 64" using ones ceil64 [of k2] by simp
    ultimately show ?thesis using in_range fr by auto
  next
    case runt
    have st: "mmbit_init_ones mem p (64 * w) k2 = mmb_store mem p (mmb_mask_zero_to_nocheck (k2 mod 64))"
    proof -
      have "64 * w < k2" "\<not> w < ?K" using runt k by linarith+
      then show ?thesis unfolding init_ones_step [of mem p w k2] by simp
    qed
    have c: "(k2 + 63) div 64 = Suc w" using runt ceil64 [of k2] by simp
    have "i mod 64 < k2 mod 64 \<longleftrightarrow> i < 64 * r + k2" if "i div 64 = r + w" using that runt i k by linarith
    moreover have "mmb_store mem p (mmb_mask_zero_to_nocheck (k2 mod 64)) a = mem a" if "a \<notin> {p..<bits + 8 * (r + Suc w)}"
      using that p by (intro store_frame) auto
    moreover have "mbit (mmb_store mem p (mmb_mask_zero_to_nocheck (k2 mod 64))) bits i =
        (if i div 64 = r + w then i mod 64 < k2 mod 64 else mbit mem bits i)"
      unfolding p mbit_mmb_store by (simp add: mask_zero_to)
    ultimately show ?thesis unfolding st c by auto
  next
    case beyond
    then have "(k2 + 63) div 64 \<le> w" using div_le_mono [of "k2 + 63" "64 * w + 63" 64] by simp
    moreover have "mmbit_init_ones mem p (64 * w) k2 = mem"
      using beyond div_le_mono [OF beyond, of 64] unfolding init_ones_step [of mem p w k2] by simp
    ultimately show ?thesis by auto
  qed
qed

lemma init_level_spec:
  assumes "k1 < k2"
  shows "mbit (mmbit_init_level mem (bits + 8 * r) k1 k2) bits i =
      (if r + k1 div 64 \<le> i div 64 \<and> i div 64 < r + (k2 + 63) div 64 then 64 * r + k1 \<le> i \<and> i < 64 * r + k2 else mbit mem bits i)"
    and "a \<notin> {bits + 8 * (r + k1 div 64)..<bits + 8 * (r + (k2 + 63) div 64)} \<Longrightarrow>
      mmbit_init_level mem (bits + 8 * r) k1 k2 a = mem a"
proof -
  let ?w = "k1 div 64" and ?p = "bits + 8 * (r + k1 div 64)"
  have i: "64 * (i div 64) + i mod 64 = i" "i mod 64 < 64" and k: "64 * ?w + k1 mod 64 = k1" "64 * (k2 div 64) + k2 mod 64 = k2" by simp_all
  have p: "bits + 8 * r + k1 div 64 * 8 = ?p" by simp
  have wK: "?w < (k2 + 63) div 64" using assms by linarith
  define m :: u64a where "m = push_bit (k1 mod 64) (- 1)"
  have m: "bit m j \<longleftrightarrow> j < 64 \<and> k1 mod 64 \<le> j" for j by (auto simp: m_def bit_simps)
  have lo: "k1 mod 64 \<le> i mod 64 \<longleftrightarrow> 64 * r + k1 \<le> i" if "i div 64 = r + ?w" using that i k by linarith
  have lo': "64 * r + k1 \<le> i" if "r + ?w < i div 64" using that i k mod_less_divisor [of 64 k1] by linarith
  consider (aligned) "k1 mod 64 = 0" | (single) "k1 mod 64 \<noteq> 0" "k2 < 64 * Suc ?w" | (multi) "k1 mod 64 \<noteq> 0" "64 * Suc ?w \<le> k2"
    by linarith
  then have "mbit (mmbit_init_level mem (bits + 8 * r) k1 k2) bits i =
      (if r + k1 div 64 \<le> i div 64 \<and> i div 64 < r + (k2 + 63) div 64 then 64 * r + k1 \<le> i \<and> i < 64 * r + k2 else mbit mem bits i)
    \<and> (a \<notin> {bits + 8 * (r + k1 div 64)..<bits + 8 * (r + (k2 + 63) div 64)} \<longrightarrow>
      mmbit_init_level mem (bits + 8 * r) k1 k2 a = mem a)"
  proof cases
    case aligned
    then have st: "mmbit_init_level mem (bits + 8 * r) k1 k2 = mmbit_init_ones mem ?p (64 * ?w) k2"
      using k(1) unfolding mmbit_init_level_def Let_def MMB_KEY_BITS_def p by simp
    have "64 * r + k1 \<le> i" if "r + ?w \<le> i div 64" using that i k(1) aligned by linarith
    then show ?thesis unfolding st using init_ones_effect [of ?p bits r ?w mem k2 i a, OF refl] by auto
  next
    case single
    then have st: "mmbit_init_level mem (bits + 8 * r) k1 k2 = mmb_store mem ?p (m AND mmb_mask_zero_to_nocheck (k2 mod 64))"
      unfolding mmbit_init_level_def Let_def MMB_KEY_BITS_def p m_def by simp
    have "k2 div 64 < Suc ?w" using single(2) by (simp add: div_less_iff_less_mult mult.commute)
    moreover have "?w \<le> k2 div 64" using assms by (intro div_le_mono) simp
    ultimately have "k2 div 64 = ?w" by simp
    moreover from this have "0 < k2 mod 64" using assms k by linarith
    ultimately have c: "(k2 + 63) div 64 = Suc ?w" "i div 64 = r + ?w \<Longrightarrow> i mod 64 < k2 mod 64 \<longleftrightarrow> i < 64 * r + k2"
      using ceil64 [of k2] i k by (simp, linarith)
    show ?thesis unfolding st mbit_mmb_store c(1) bit_and_iff m
      using lo c(2) store_frame [of a ?p] by (auto simp: mask_zero_to(2))
  next
    case multi
    have p8: "?p + 8 = bits + 8 * (r + Suc ?w)" by simp
    have st: "mmbit_init_level mem (bits + 8 * r) k1 k2 = mmbit_init_ones (mmb_store mem ?p m) (?p + 8) (64 * Suc ?w) k2"
      using multi unfolding mmbit_init_level_def Let_def MMB_KEY_BITS_def p m_def by (simp add: mult.commute)
    have s: "mbit (mmb_store mem ?p m) bits i = (if i div 64 = r + ?w then 64 * r + k1 \<le> i else mbit mem bits i)"
      unfolding mbit_mmb_store m using lo by auto
    have "i < 64 * r + k2" if d: "i div 64 = r + ?w"
    proof -
      obtain j where "i = 64 * (r + ?w) + j" "j < 64" using d i by metis
      then show ?thesis using multi(2) unfolding mult_Suc_right distrib_left by linarith
    qed
    moreover have "8 * (r + ?w) + 8 \<le> 8 * (r + (k2 + 63) div 64)" using wK by simp
    ultimately show ?thesis unfolding st
      using init_ones_effect [where mem = "mmb_store mem ?p m" and ?k2.0 = k2 and i = i and a = a, OF p8] s lo' wK store_frame [of a ?p mem m]
      by (auto simp: Suc_le_eq)
  qed
  then show "mbit (mmbit_init_level mem (bits + 8 * r) k1 k2) bits i =
      (if r + k1 div 64 \<le> i div 64 \<and> i div 64 < r + (k2 + 63) div 64 then 64 * r + k1 \<le> i \<and> i < 64 * r + k2 else mbit mem bits i)"
    "a \<notin> {bits + 8 * (r + k1 div 64)..<bits + 8 * (r + (k2 + 63) div 64)} \<Longrightarrow>
      mmbit_init_level mem (bits + 8 * r) k1 k2 a = mem a" by blast+
qed

abbreviation ceil_prefix :: "nat \<Rightarrow> nat \<Rightarrow> nat \<Rightarrow> nat" where
  "ceil_prefix ml l n \<equiv> (n + (64 ^ (ml - l) - 1)) div 64 ^ (ml - l)"

lemma nat_below_eqI: "(\<And>p. p < x \<longleftrightarrow> p < y) \<Longrightarrow> x = y" for x y :: nat
  by (metis linorder_neqE_nat less_irrefl)

lemma ceil_div_eq: "0 < c \<Longrightarrow> (if n div c * c \<noteq> n then n div c + 1 else n div c) = (n + (c - 1)) div c" for n c :: nat
proof -
  assume c: "0 < c"
  let ?x = "if n div c * c \<noteq> n then n div c + 1 else n div c"
  have n: "n div c * c + n mod c = n" "n mod c < c" using c by simp_all
  have "p < ?x \<longleftrightarrow> p * c < n" for p
  proof (cases "p < n div c")
    case True
    then have "Suc p * c \<le> n div c * c" by (intro mult_le_mono1) simp
    moreover have "n div c * c \<le> n" by simp
    ultimately have "p * c < n" using c unfolding mult_Suc by linarith
    then show ?thesis using True by auto
  next
    case False
    then have le: "n div c * c \<le> p * c" by (intro mult_le_mono1) simp
    show ?thesis
    proof (cases "p = n div c")
      case True
      then show ?thesis using n(1) by (auto simp: order_less_le)
    next
      case neq: False
      have "n = n div c * c + n mod c" by simp
      also have "\<dots> \<le> Suc (n div c) * c" unfolding mult_Suc add.commute [of c] using n(2) by (intro add_left_mono) simp
      also have "\<dots> \<le> p * c" using False neq by (intro mult_le_mono1) simp
      finally have "n \<le> p * c" .
      then show ?thesis using False neq by auto
    qed
  qed
  then show ?thesis using less_ceil_div [OF c] by (intro nat_below_eqI) simp
qed

lemma ceil_prefix_facts:
  assumes "l \<le> ml" "nd \<le> 64 ^ Suc ml" "begn < nd"
  shows "prefix ml l begn < ceil_prefix ml l nd" "(ceil_prefix ml l nd + 63) div 64 \<le> 64 ^ l"
    "l < ml \<Longrightarrow> (ceil_prefix ml (Suc l) nd + 63) div 64 = ceil_prefix ml l nd"
proof -
  let ?c = "64 ^ (ml - l) :: nat"
  have c: "0 < ?c" by simp
  have "prefix ml l begn * ?c \<le> begn" by (simp add: prefix_def)
  then show "prefix ml l begn < ceil_prefix ml l nd" unfolding less_ceil_div [OF c] using assms(3) by linarith
  have cc: "p < (ceil_prefix ml l nd + 63) div 64 \<longleftrightarrow> p * (64 * ?c) < nd" for p
    using less_ceil_div [of 64 p "ceil_prefix ml l nd"] less_ceil_div [OF c, of "p * 64" nd] by (simp add: mult.assoc)
  have "64 ^ l * (64 * ?c) = 64 ^ Suc ml"
    using assms(1) by (metis le_add_diff_inverse mult.assoc mult.commute power_Suc power_add)
  then have "\<not> 64 ^ l < (ceil_prefix ml l nd + 63) div 64" unfolding cc using assms(2) by simp
  then show "(ceil_prefix ml l nd + 63) div 64 \<le> 64 ^ l" by simp
  show "(ceil_prefix ml (Suc l) nd + 63) div 64 = ceil_prefix ml l nd" if lt: "l < ml"
  proof (rule nat_below_eqI)
    fix p
    have h: "64 * 64 ^ (ml - Suc l) = ?c" using lt by (metis Suc_diff_Suc power_Suc)
    have "p < (ceil_prefix ml (Suc l) nd + 63) div 64 \<longleftrightarrow> p * 64 < ceil_prefix ml (Suc l) nd"
      using less_ceil_div [of 64 p "ceil_prefix ml (Suc l) nd"] by simp
    also have "\<dots> \<longleftrightarrow> p * 64 * 64 ^ (ml - Suc l) < nd" by (rule less_ceil_div) simp
    also have "p * 64 * 64 ^ (ml - Suc l) = p * ?c" unfolding h [symmetric] by simp
    also have "p * ?c < nd \<longleftrightarrow> p < ceil_prefix ml l nd" by (rule less_ceil_div [OF c, symmetric])
    finally show "p < (ceil_prefix ml (Suc l) nd + 63) div 64 \<longleftrightarrow> p < ceil_prefix ml l nd" .
  qed
qed

lemma init_level_lbit:
  assumes "l \<le> ml" "nd \<le> 64 ^ Suc ml" "begn < nd" "q < 64 ^ Suc j"
  shows "lbit (mmbit_init_level mem (bits + 8 * root_of l) (prefix ml l begn) (ceil_prefix ml l nd)) bits j q =
    (if j = l \<and> prefix ml l begn div 64 \<le> q div 64 \<and> q div 64 < (ceil_prefix ml l nd + 63) div 64
     then prefix ml l begn \<le> q \<and> q < ceil_prefix ml l nd else lbit mem bits j q)"
proof -
  note f = ceil_prefix_facts [OF assms(1-3)]
  have q: "q div 64 < 64 ^ j" using assms(4) by (simp add: less_mult_imp_div_less mult.commute)
  have "root_of l + prefix ml l begn div 64 \<le> root_of j + q div 64 \<and> root_of j + q div 64 < root_of l + (ceil_prefix ml l nd + 63) div 64
      \<longleftrightarrow> j = l \<and> prefix ml l begn div 64 \<le> q div 64 \<and> q div 64 < (ceil_prefix ml l nd + 63) div 64"
    using f(2) q root_of_mono [of j l] root_of_mono [of l j] by (cases j l rule: linorder_cases) auto
  then show ?thesis unfolding lbit_def init_level_spec(1) [OF f(1)] by auto
qed

lemma init_levels_spec:
  assumes "ml \<le> 6" "nd \<le> 64 ^ Suc ml" "begn < nd"
  shows "level \<le> ml \<Longrightarrow> j \<le> ml \<Longrightarrow> q < 64 ^ Suc j \<Longrightarrow>
      lbit (mmbit_init_levels mem bits begn nd ((ml - level) * 6) level) bits j q =
      (if level \<le> j \<and> prefix ml j begn div 64 \<le> q div 64 \<and> q div 64 < (ceil_prefix ml j nd + 63) div 64
       then prefix ml j begn \<le> q \<and> q < ceil_prefix ml j nd else lbit mem bits j q)"
    and "level \<le> ml \<Longrightarrow> a \<notin> {bits..<bits + 8 * (root_of ml + (nd + 63) div 64)} \<Longrightarrow>
      mmbit_init_levels mem bits begn nd ((ml - level) * 6) level a = mem a"
proof -
  have unfold: "mmbit_init_levels mem bits begn nd ((ml - level) * 6) level =
      (let mem = mmbit_init_level mem (bits + 8 * root_of level) (prefix ml level begn) (ceil_prefix ml level nd)
       in if level = ml then mem else mmbit_init_levels mem bits begn nd ((ml - Suc level) * 6) (Suc level))"
    if "level \<le> ml" for mem level
  proof -
    have root: "mmbit_get_level_root bits level = bits + 8 * root_of level"
      using root_offset [of level] that assms(1) by (simp add: mmbit_get_level_root_def)
    have "push_bit ((ml - level) * 6) x = x * 64 ^ (ml - level)" for x :: nat
      using power_mult [of "2 :: nat" 6 "ml - level"] by (simp add: push_bit_eq_mult mult.commute)
    moreover have "(ml - Suc level) * 6 = (ml - level) * 6 - MMB_KEY_SHIFT" by (simp add: mmb_consts)
    ultimately show ?thesis
      using that ceil_div_eq [of "64 ^ (ml - level)" nd]
      unfolding mmbit_init_levels.simps [of mem bits begn nd "(ml - level) * 6" level] Let_def shift_key root
      by (simp add: prefix_def)
  qed
  show "lbit (mmbit_init_levels mem bits begn nd ((ml - level) * 6) level) bits j q =
      (if level \<le> j \<and> prefix ml j begn div 64 \<le> q div 64 \<and> q div 64 < (ceil_prefix ml j nd + 63) div 64
       then prefix ml j begn \<le> q \<and> q < ceil_prefix ml j nd else lbit mem bits j q)"
    if "level \<le> ml" "j \<le> ml" "q < 64 ^ Suc j" for level
    using that(1)
  proof (induction "ml - level" arbitrary: level mem)
    case 0
    then show ?case using init_level_lbit [OF _ assms(2,3) that(3), of ml mem bits] that(2) unfolding unfold [OF 0(2)]
      by (auto simp: Let_def)
  next
    case (Suc n)
    have lt: "level < ml" "n = ml - Suc level" using Suc(2) by simp_all
    show ?case unfolding unfold [OF Suc(3)] Let_def if_not_P [OF less_imp_neq [OF lt(1)]]
        Suc(1) [OF lt(2) Suc_leI [OF lt(1)]] init_level_lbit [OF Suc(3) assms(2,3) that(3)]
      by (cases "j = level") (auto simp: Suc_le_eq)
  qed
  show "mmbit_init_levels mem bits begn nd ((ml - level) * 6) level a = mem a"
    if "level \<le> ml" and a: "a \<notin> {bits..<bits + 8 * (root_of ml + (nd + 63) div 64)}" for level
    using that(1)
  proof (induction "ml - level" arbitrary: level mem)
    case 0
    then have "level = ml" by simp
    then show ?case unfolding unfold [OF 0(2)] Let_def using a ceil_prefix_facts(1) [OF _ assms(2,3), of ml]
      by (auto intro!: init_level_spec(2))
  next
    case (Suc n)
    have lt: "level < ml" "n = ml - Suc level" using Suc(2) by simp_all
    note f = ceil_prefix_facts [OF Suc(3) assms(2,3)]
    have "8 * (root_of level + (ceil_prefix ml level nd + 63) div 64) \<le> 8 * root_of ml" using f(2) root_of_mono [OF lt(1)] by simp
    then have "mmbit_init_level mem (bits + 8 * root_of level) (prefix ml level begn) (ceil_prefix ml level nd) a = mem a"
      using a by (intro init_level_spec(2) [OF f(1)]) auto
    then show ?case unfolding unfold [OF Suc(3)] Let_def if_not_P [OF less_imp_neq [OF lt(1)]]
        Suc(1) [OF lt(2) Suc_leI [OF lt(1)]] .
  qed
qed

lemma init_range_big_on:
  assumes "ml \<le> 6" "nd \<le> 64 ^ Suc ml" "begn < nd"
  shows "l \<le> ml \<Longrightarrow> on (mmbit_init_levels mem bits begn nd (ml * 6) 0) bits l p \<longleftrightarrow>
    prefix ml l begn \<le> p \<and> p < ceil_prefix ml l nd"
proof (induction l arbitrary: p)
  case 0
  have c: "ceil_prefix ml 0 nd \<le> 64"
  proof -
    have "(ceil_prefix ml 0 nd + 63) div 64 \<le> 1" using ceil_prefix_facts(2) [OF 0 assms(2,3)] by simp
    then show ?thesis unfolding ceil64 by (auto split: if_splits)
  qed
  have b: "prefix ml 0 begn div 64 = 0" "0 < (ceil_prefix ml 0 nd + 63) div 64"
    using ceil_prefix_facts(1) [OF 0 assms(2,3)] c by simp_all
  show ?case using init_levels_spec(1) [OF assms, of 0 0 p mem bits] b c by auto
next
  case (Suc l)
  let ?m = "mmbit_init_levels mem bits begn nd (ml * 6) 0"
  have l: "l \<le> ml" "l < ml" using Suc.prems by simp_all
  note f = ceil_prefix_facts(3) [OF l(1) assms(2,3) l(2)] and pr = prefix_Suc [OF l(2), of begn]
  have IH: "on ?m bits l (p div 64) \<longleftrightarrow> prefix ml l begn \<le> p div 64 \<and> p div 64 < ceil_prefix ml l nd" by (rule Suc.IH [OF l(1)])
  have "p < 64 ^ Suc (Suc l)" if "on ?m bits l (p div 64)"
    using on_less [OF that] by (simp add: div_less_iff_less_mult)
  then have "on ?m bits (Suc l) p \<longleftrightarrow> prefix ml l begn \<le> p div 64 \<and> p div 64 < ceil_prefix ml l nd \<and>
      prefix ml (Suc l) begn \<le> p \<and> p < ceil_prefix ml (Suc l) nd"
    using init_levels_spec(1) [OF assms, of 0 "Suc l" p mem bits] IH Suc.prems unfolding f pr by auto
  moreover have "prefix ml l begn \<le> p div 64" if "prefix ml (Suc l) begn \<le> p"
    unfolding pr [symmetric] by (rule div_le_mono [OF that])
  moreover have "p div 64 < ceil_prefix ml l nd" if "p < ceil_prefix ml (Suc l) nd"
    unfolding f [symmetric] using that by linarith
  ultimately show ?case by blast
qed

lemma mmbit_init_range_spec:
  assumes "8 \<le> bits" "N \<le> MMB_MAX_BITS" "begn \<le> nd" "nd \<le> N"
  shows "mmb_elems bits N (mmbit_init_range mem bits N begn nd) = {begn..<nd}"
    and "mmb_ok bits N (mmbit_init_range mem bits N begn nd)"
    and "a \<notin> mmb_region bits N \<Longrightarrow> mmbit_init_range mem bits N begn nd a = mem a"
proof -
  let ?m = "mmbit_init_range mem bits N begn nd"
  consider (empty) "N = 0" | (clear) "0 < N" "begn = nd" | (flat) "0 < N" "begn < nd" "mmbit_is_flat_model N"
    | (big) "begn < nd" "\<not> mmbit_is_flat_model N" using assms(3) by fastforce
  then have "mmb_elems bits N ?m = {begn..<nd} \<and> mmb_ok bits N ?m \<and> (a \<notin> mmb_region bits N \<longrightarrow> ?m a = mem a)"
  proof cases
    case empty
    then show ?thesis using assms
      by (auto simp: mmbit_init_range_def mmb_elems_def mmb_ok_def mmbit_is_flat_model_def mmb_consts flat_size_eq)
  next
    case clear
    then have "?m = mmbit_clear mem bits N" by (simp add: mmbit_init_range_def)
    then show ?thesis using clear mmbit_clear_spec [OF assms(1,2)] by auto
  next
    case flat
    note f = mbit_init_range_flat [OF assms(1,2) flat(3) assms(4), of _ mem begn]
    have m: "?m = mmbit_init_range_flat mem bits N begn nd" using flat by (simp add: mmbit_init_range_def)
    have "N \<le> 8 * mmbit_flat_size N" by (simp add: flat_size_eq)
    then show ?thesis unfolding m using f flat(3) assms
      by (auto simp: mmb_elems_def mmb_ok_def)
  next
    case big
    let ?ml = "mmbit_maxlevel N"
    have N: "1 < N" using big(2) by (simp add: mmbit_is_flat_model_def mmb_consts)
    note ml = maxlevel_spec [OF N assms(2)]
    have m: "?m = mmbit_init_levels mem bits begn nd (?ml * 6) 0"
      using big N by (simp add: mmbit_init_range_def mmbit_init_range_big_def ml(4))
    have b: "?ml \<le> 6" "nd \<le> 64 ^ Suc ?ml" using ml(2,3) assms(4) by simp_all
    have o: "on ?m bits l p \<longleftrightarrow> prefix ?ml l begn \<le> p \<and> p < ceil_prefix ?ml l nd" if "l \<le> ?ml" for l p
      unfolding m by (rule init_range_big_on [OF b big(1) that])
    have "on ?m bits ?ml k \<longleftrightarrow> begn \<le> k \<and> k < nd" for k using o [of ?ml k] by simp
    then have "mmb_elems bits N ?m = {begn..<nd}"
      unfolding mmb_elems_def if_not_P [OF big(2)] atLeastLessThan_def by auto
    moreover have "mmb_ok bits N ?m"
    proof -
      have "p * 64 ^ (?ml - l) < N" if "l \<le> ?ml" "on ?m bits l p" for l p
        using o [OF that(1), of p] that(2) less_ceil_div [of "64 ^ (?ml - l)" p nd] assms(4) by simp
      then show ?thesis using big(2) assms(1,2) by (simp add: mmb_ok_def)
    qed
    moreover have "?m a = mem a" if "a \<notin> mmb_region bits N"
    proof -
      have "8 * (root_of ?ml + (nd + 63) div 64) \<le> 8 * (root_of ?ml + (N + 63) div 64)"
        using assms(4) by (simp add: div_le_mono)
      then have "a \<notin> {bits..<bits + 8 * (root_of ?ml + (nd + 63) div 64)}"
        using that big(2) mmbit_size_spec [OF assms(2)] by auto
      then show ?thesis using init_levels_spec(2) [OF b big(1), of 0 a bits mem] unfolding m by simp
    qed
    ultimately show ?thesis by blast
  qed
  then show "mmb_elems bits N ?m = {begn..<nd}" "mmb_ok bits N ?m" "a \<notin> mmb_region bits N \<Longrightarrow> ?m a = mem a" by blast+
qed

section \<open>Properties\<close>

text \<open>
  C38. Bounded iteration: for every range of keys \<^verbatim>\<open>mmbit_iterate_bounded\<close> returns, and its result is
  the least key of the set inside the range or \<^verbatim>\<open>MMB_INVALID\<close> when the range holds none, although the
  walk over the pyramid follows summary bits that may be stale.
\<close>

theorem mmbit_iterate_bounded_least:
  assumes "mmb_ok bits N mem" "begn \<le> nd" "nd \<le> N"
  shows "mmbit_iterate_bounded mem bits N begn nd =
    Some (if {k \<in> mmb_elems bits N mem. begn \<le> k \<and> k < nd} = {} then MMB_INVALID
          else Min {k \<in> mmb_elems bits N mem. begn \<le> k \<and> k < nd})"
  using mmbit_iterate_bounded_spec [OF assms] by (simp add: least_or_def)

theorem mmbit_iterate_bounded_least_witness:
  "mmbit_iterate_bounded (mmbit_init_range (\<lambda>_. 0xff) 8 1000 600 700) 8 1000 10 800 = Some 600"
proof -
  let ?m = "mmbit_init_range (\<lambda>_. 0xff) 8 1000 600 700"
  have m: "mmb_elems 8 1000 ?m = {600..<700}" "mmb_ok 8 1000 ?m"
    using mmbit_init_range_spec(1,2) [of 8 1000 600 700 "\<lambda>_. 0xff"] by (simp_all add: mmb_consts)
  have e: "{k \<in> {600..<700 :: nat}. 10 \<le> k \<and> k < 800} = {600..<700}" by auto
  have "Min {600..<700 :: nat} = 600" by (rule Min_eqI) auto
  then show ?thesis using mmbit_iterate_bounded_least [OF m(2), of 10 800] unfolding m(1) e by simp
qed

text \<open>
  C39. Ranges of keys: \<^verbatim>\<open>mmbit_unset_range\<close> returns and removes exactly the keys of the range, and
  \<^verbatim>\<open>mmbit_init_range\<close> turns memory with arbitrary content into a multibit that stands for exactly the
  range. Both leave a multibit that satisfies the invariant and change nothing outside it.
\<close>

theorem mmbit_ranges:
  assumes "mmb_ok bits N mem" "begn \<le> nd" "nd \<le> N"
  shows "(\<exists>mem'. mmbit_unset_range mem bits N begn nd = Some mem' \<and>
      mmb_elems bits N mem' = mmb_elems bits N mem - {begn..<nd} \<and> mmb_ok bits N mem' \<and>
      (\<forall>a. a < bits \<or> (\<exists>size. mmbit_size N = Inr size \<and> bits + size \<le> a) \<longrightarrow> mem' a = mem a)) \<and>
    mmb_elems bits N (mmbit_init_range mem2 bits N begn nd) = {begn..<nd} \<and>
    mmb_ok bits N (mmbit_init_range mem2 bits N begn nd) \<and>
    (\<forall>a. a < bits \<or> (\<exists>size. mmbit_size N = Inr size \<and> bits + size \<le> a) \<longrightarrow>
       mmbit_init_range mem2 bits N begn nd a = mem2 a)"
proof -
  have out: "a \<notin> mmb_region bits N" if "a < bits \<or> (\<exists>size. mmbit_size N = Inr size \<and> bits + size \<le> a)" for a
    using that by auto
  note init = mmbit_init_range_spec [OF mmb_okD [OF assms(1)] assms(2,3), where mem = mem2]
  show ?thesis using mmbit_unset_range_spec [OF assms] out init by blast
qed

theorem mmbit_ranges_witness:
  "mmb_elems 8 1000 (mmbit_init_range (\<lambda>_. 0xff) 8 1000 600 700) = {600..<700}"
  using mmbit_ranges [OF mmbit_clear_spec(2) [of 8 1000 "\<lambda>_. 0"], of 600 700 "\<lambda>_. 0xff"] by (simp add: mmb_consts)

end
