(* ===== verification/Spec2Isabelle.thy ===== *)
theory Spec2Isabelle
  imports RdfaMerge AccelMasks Depth Database Utf8Validate MultibitRange
begin

text \<open>
  \<^bold>\<open>The program.\<close> Vectorscan, the C and C++ library under
  \<^verbatim>\<open>src/vectorscan-rs-sys/vectorscan/src\<close> that the Rust crates of the repository bind to, compiles
  sets of regular expressions into a database and scans data with it. The compiler parses the
  expressions (\<^verbatim>\<open>parser\<close>), builds and reduces automata graphs (\<^verbatim>\<open>nfagraph\<close>), decomposes them into
  literals and engines (\<^verbatim>\<open>rose\<close>, \<^verbatim>\<open>nfa\<close>, \<^verbatim>\<open>fdr\<close>, \<^verbatim>\<open>hwlm\<close>, \<^verbatim>\<open>smallwrite\<close>) and lays the result out as
  bytecode behind a database header; the runtime interprets the bytecode with scratch memory and
  reports matches. All of it stands on the utilities of \<^verbatim>\<open>util\<close>.

  \<^bold>\<open>What is modelled.\<close> Paths below are relative to that directory; every definition keeps the name of
  the function it translates.

  \<^item> \<open>VS_Prelude\<close>: machine integer types, generic lemmas on words and lists, and the interface
    \<open>moore_simulation\<close> for transformations of deterministic machines.
  \<^item> \<open>FlatContainers\<close> (\<^verbatim>\<open>util/flat_containers.h\<close>): sorted-vector sets and maps, with the interfaces
    \<open>set_container\<close> and \<open>map_container\<close> that their clients rely on.
  \<^item> \<open>Rdfa\<close> (\<^verbatim>\<open>nfa/rdfa.h\<close>, \<^verbatim>\<open>nfa/rdfa.cpp\<close>, \<^verbatim>\<open>nfa/nfa_kind.h\<close>): the build-time DFA, its
    well-formedness and its behaviour as a Moore machine.
  \<^item> \<open>PartitionedSet\<close> (\<^verbatim>\<open>util/partitioned_set.h\<close>): partitions with splitting, interface \<open>partition_ops\<close>.
  \<^item> \<open>DfaMin\<close> (\<^verbatim>\<open>nfa/dfa_min.cpp\<close>): Hopcroft minimisation on top of the previous three. The result
    raises the same reports on every word, no two of its states are equivalent, and the dead state
    stays state zero. The worklist loop is a partial function with an option result; the theorems
    show that it returns.
  \<^item> \<open>Determinise\<close> (\<^verbatim>\<open>util/determinise.h\<close>): the subset construction, generic in the automaton. The
    automaton is the interface \<open>determinisable\<close>; the loop is a partial function shown to return, either
    with a machine that simulates the automaton or with the state limit exceeded.
  \<^item> \<open>Alphabet\<close> (\<^verbatim>\<open>nfagraph/ng_mcclellan.cpp\<close>, \<^verbatim>\<open>nfa/rdfa_merge.cpp\<close>): the equivalence classes of symbols
    that a determinised automaton uses; they refine, and only as far as needed, what the inputs tell
    apart (interface \<open>eset_split\<close>).
  \<^item> \<open>McClellanUtil\<close> (\<^verbatim>\<open>nfa/mcclellancompile_util.cpp\<close>): queries and transformations of the build-time DFA.
  \<^item> \<open>RdfaMerge\<close> (\<^verbatim>\<open>nfa/rdfa_merge.cpp\<close>): merging DFAs. The product automaton of the inputs is an instance
    of \<open>determinisable\<close>, its alphabet comes from \<open>Alphabet\<close>, and the result is minimised by \<open>DfaMin\<close>: the
    merged DFA raises on every word the union of the reports of its inputs, or, when the reports allow
    pruning, does so up to the first report and raises nothing after it.
  \<^item> \<open>Report\<close>, \<open>ReportManager\<close> (\<^verbatim>\<open>util/report.h\<close>, \<^verbatim>\<open>util/report_manager.h\<close>, \<^verbatim>\<open>util/report_manager.cpp\<close>):
    internal reports and the table that numbers them, with its exhaustion, logical and dedupe keys;
    the reachable states are an inductive predicate over the table's operations.
  \<^item> \<open>LogicalCombination\<close> (\<^verbatim>\<open>parser/logical_combination.cpp\<close>, \<^verbatim>\<open>util/logical.h\<close>): the parser of
    combinations of pattern matches, key assignment and renumbering, and the evaluation at scan time.
    Every infix expression within the parser's limits (ids of at most nine digits, no doubled negation,
    spaces as the only whitespace) is accepted and evaluates to its Boolean meaning, and texts outside a
    wider lexical form are refused; the safety of the compiled operation ranges and the keys, one for each
    number in the texts, are properties of their own. Combinations are assumed to have distinct ids, as an
    assertion of the code does; lemmas show what happens without it.
  \<^item> \<open>Bitutils\<close>, \<open>BitField\<close>, \<open>CharReach\<close> (\<^verbatim>\<open>util/bitutils.h\<close>, \<^verbatim>\<open>util/arch/common/bitutils.h\<close>,
    \<^verbatim>\<open>util/bitfield.h\<close>, \<^verbatim>\<open>util/charreach.h\<close>, \<^verbatim>\<open>util/charreach.cpp\<close>): bit tricks, fixed-size bitsets and
    character classes, as a chain of refinements down from sets; iteration over a bitset is the
    interface \<open>bit_iteration\<close>, and the loop that uses it is a partial function shown to return.
  \<^item> \<open>AccelMasks\<close> (\<^verbatim>\<open>nfa/trufflecompile.cpp\<close>, \<^verbatim>\<open>nfa/shufticompile.cpp\<close>): the nibble masks that vectorised
    searches use for a character class, exact for the class they are built from whenever they exist, and
    conditions under which they do; the two-byte lookup is that of one lane of \<^verbatim>\<open>nfa/x86/shufti.hpp\<close>.
  \<^item> \<open>Depth\<close> (\<^verbatim>\<open>util/depth.h\<close>, \<^verbatim>\<open>util/depth.cpp\<close>): finite, infinite and unreachable depths in 32 bits, with
    exact arithmetic or an exception, and ranges of depths.
  \<^item> \<open>Crc32\<close> (\<^verbatim>\<open>crc32.c\<close>, \<^verbatim>\<open>util/arch/x86/crc32.h\<close>): slicing-by-eight and the SSE4.2 variant compute the
    bitwise CRC-32C; interface \<open>crc_engine\<close>.
  \<^item> \<open>Database\<close> (\<^verbatim>\<open>database.c\<close>, \<^verbatim>\<open>database.h\<close>, \<^verbatim>\<open>dbCreate\<close> of \<^verbatim>\<open>compiler/compiler.cpp\<close>): creation,
    serialisation and deserialisation, round trip, safety on arbitrary input, platform check; a created
    database is valid exactly on the builds of its version that accept its target platform.
  \<^item> \<open>Utf8Validate\<close> (\<^verbatim>\<open>parser/utf8_validate.cpp\<close>): accepts exactly the well-formed encodings.
  \<^item> \<open>ByteMemory\<close> (\<^verbatim>\<open>util/unaligned.h\<close>, \<^verbatim>\<open>util/partial_store.h\<close>): byte-addressed memory and its unaligned
    and partial accesses.
  \<^item> \<open>Multibit\<close>, \<open>MultibitIterate\<close>, \<open>MultibitRange\<close> (\<^verbatim>\<open>util/multibit.h\<close>, \<^verbatim>\<open>util/multibit.c\<close>, sizing in
    \<^verbatim>\<open>util/multibit_build.cpp\<close>): the runtime's set of keys, flat or as a pyramid of blocks in memory,
    refined to sets through the interface \<open>bounded_set\<close>; iteration provides \<open>bit_iteration\<close> like
    the bitset, and the walks up and down the pyramid, bounded or not, are shown to return; ranges of
    keys can be switched off or initialised.

  \<^bold>\<open>Bounds and fuel.\<close> Indices that the code keeps in 16 or 32 bits are natural numbers with the
  truncation written out, or words where wrap-around can occur. Loops are structural or well-founded
  recursion; a loop that the code could run forever is a partial function with an option result, and its
  theorem states that it returns.

  \<^bold>\<open>Not modelled.\<close> The regular-expression parser and its generated tables, the Glushkov
  construction and the graph passes of \<^verbatim>\<open>nfagraph\<close>, the Rose build and its interpreter, the
  engines of \<^verbatim>\<open>nfa\<close> other than the DFA data above, the literal matchers (\<^verbatim>\<open>fdr\<close>, \<^verbatim>\<open>hwlm\<close>), SIMD code, start
  of match tracking, scratch allocation and the public API wrappers: each rests on data structures of its
  own (boost graphs, bytecode layouts, vector registers) that the theories here do not have. Debug
  prints, assertions, dumping, hashing of containers, tools, tests, Chimera (which wraps PCRE) and the Rust
  bindings are left out as well. Assertions are not part of the model; where they state what the code
  relies on, they appear as hypotheses or are proved.
\<close>

end
